(* ===== verification/Redis_Prelude.thy ===== *)
theory Redis_Prelude
  imports Main "HOL-Library.Word"
begin

text \<open>
  Shared vocabulary of the development: the byte and integer types of the C sources, reads and
  writes of byte buffers at an offset, little-endian integers (\<^verbatim>\<open>endianconv.c\<close> is the identity on
  a little-endian host, the layout every serialised structure of Redis is defined to have), and
  the list lemmas several components use. Signed C integers are modelled as \<^typ>\<open>int\<close> with the
  range of their type as a predicate; unsigned counters that may wrap are words.
\<close>

unbundle bit_operations_syntax

type_synonym byte = "8 word"
type_synonym bytes = "8 word list"

text \<open>A character constant of the source as the byte it denotes.\<close>

abbreviation (input) ch :: "char \<Rightarrow> byte" where
  "ch c \<equiv> of_char c"

text \<open>
  The content of freshly allocated memory: one unspecified byte. Nothing is proved about it, so
  no theorem depends on what \<^verbatim>\<open>zmalloc\<close> or \<^verbatim>\<open>zrealloc\<close> leave in new bytes.
\<close>

definition uninit :: byte where
  "uninit = undefined"

named_theorems buf_simps \<open>reads and writes of byte buffers\<close>

section \<open>Ranges of the C integer types\<close>

definition in_i64 :: "int \<Rightarrow> bool" where
  "in_i64 v \<longleftrightarrow> - (2 ^ 63) \<le> v \<and> v < 2 ^ 63"

lemma unat_u32_less: "unat (w :: 32 word) < 2 ^ 32"
proof -
  have "unat w < 2 ^ LENGTH(32)" by (rule unsigned_less)
  then show ?thesis by simp
qed

lemma nat_scale_less: "i < j \<Longrightarrow> e * i + e \<le> e * (j :: nat)"
  by (metis Suc_leI add.commute mult_Suc_right mult_le_mono2)

section \<open>Byte buffers\<close>

text \<open>\<open>bread off n b\<close>: the \<open>n\<close> bytes at \<open>off\<close>; \<open>bwrite off bs b\<close>: \<^verbatim>\<open>memcpy(b+off, bs, len)\<close>.\<close>

definition bread :: "nat \<Rightarrow> nat \<Rightarrow> bytes \<Rightarrow> bytes" where
  "bread off n b = take n (drop off b)"

definition bwrite :: "nat \<Rightarrow> bytes \<Rightarrow> bytes \<Rightarrow> bytes" where
  "bwrite off bs b = take off b @ bs @ drop (off + length bs) b"

definition memmove :: "nat \<Rightarrow> nat \<Rightarrow> nat \<Rightarrow> bytes \<Rightarrow> bytes" where
  "memmove dst src n b = bwrite dst (bread src n b) b"

definition zrealloc :: "nat \<Rightarrow> bytes \<Rightarrow> bytes" where
  "zrealloc n b = take n b @ replicate (n - length b) uninit"

lemma length_bread [buf_simps]: "length (bread off n b) = min n (length b - off)"
  by (auto simp: bread_def)

lemma length_bwrite [buf_simps]:
  "off + length bs \<le> length b \<Longrightarrow> length (bwrite off bs b) = length b"
  by (simp add: bwrite_def)

lemma length_zrealloc [simp]: "length (zrealloc n b) = n"
  by (simp add: zrealloc_def)

lemma zrealloc_grow: "length b \<le> n \<Longrightarrow> zrealloc n b = b @ replicate (n - length b) uninit"
  by (simp add: zrealloc_def)

lemma zrealloc_shrink: "n = length b \<Longrightarrow> zrealloc n (b @ c) = b"
  by (simp add: zrealloc_def)

lemma bread_bwrite_same [buf_simps]:
  "off \<le> length b \<Longrightarrow> n = length bs \<Longrightarrow> bread off n (bwrite off bs b) = bs"
  by (simp add: bread_def bwrite_def)

lemma bread_bwrite_below [buf_simps]:
  "off + n \<le> off' \<Longrightarrow> off' \<le> length b \<Longrightarrow> bread off n (bwrite off' bs b) = bread off n b"
  by (auto simp: bread_def bwrite_def drop_take min_def)

lemma bread_bwrite_above [buf_simps]:
  assumes "off' + length bs \<le> off" "off' \<le> length b"
  shows "bread off n (bwrite off' bs b) = bread off n b"
proof -
  have "drop off (bwrite off' bs b) = drop off b"
    using assms by (simp add: bwrite_def)
  then show ?thesis by (simp add: bread_def)
qed

lemma bread_zrealloc [buf_simps]:
  "off + k \<le> n \<Longrightarrow> off + k \<le> length b \<Longrightarrow> bread off k (zrealloc n b) = bread off k b"
  by (rule nth_equalityI) (auto simp: bread_def zrealloc_def nth_append)

lemma bread_bread [buf_simps]:
  "i + k \<le> n \<Longrightarrow> bread i k (bread off n b) = bread (off + i) k b"
  by (simp add: bread_def drop_take add.commute min_def)

lemma bread_bwrite_inside [buf_simps]:
  assumes "off' \<le> off" "off + n \<le> off' + length bs" "off' \<le> length b"
  shows "bread off n (bwrite off' bs b) = bread (off - off') n bs"
  using assms by (simp add: bread_def bwrite_def)

section \<open>Little-endian integers\<close>

primrec le_bytes :: "nat \<Rightarrow> int \<Rightarrow> bytes" where
  "le_bytes 0 x = []"
| "le_bytes (Suc n) x = word_of_int x # le_bytes n (x div 256)"

primrec le_uint :: "bytes \<Rightarrow> int" where
  "le_uint [] = 0"
| "le_uint (b # bs) = uint b + 256 * le_uint bs"

definition le_sint :: "bytes \<Rightarrow> int" where
  "le_sint bs = (let u = le_uint bs in
     if u < 2 ^ (8 * length bs - 1) then u else u - 2 ^ (8 * length bs))"

lemma length_le_bytes [simp]: "length (le_bytes n x) = n"
  by (induction n arbitrary: x) auto

lemma le_uint_nonneg [simp]: "0 \<le> le_uint bs"
  by (induction bs) auto

lemma le_uint_less: "le_uint bs < 2 ^ (8 * length bs)"
proof (induction bs)
  case (Cons b bs)
  have "uint b < 256" using uint_lt2p [of b] by simp
  moreover have "le_uint bs + 1 \<le> 2 ^ (8 * length bs)" using Cons by simp
  ultimately show ?case by (simp add: power_add)
qed simp

lemma le_uint_le_bytes [simp]: "le_uint (le_bytes n x) = x mod 2 ^ (8 * n)"
proof (induction n arbitrary: x)
  case (Suc n)
  have "x mod (256 * 2 ^ (8 * n)) = 256 * (x div 256 mod 2 ^ (8 * n)) + x mod 256"
    by (rule zmod_zmult2_eq) simp
  with Suc show ?case
    by (simp add: uint_word_of_int power_add)
qed simp

lemma le_bytes_le_uint: "n = length bs \<Longrightarrow> le_bytes n (le_uint bs) = bs"
proof (induction bs arbitrary: n)
  case (Cons b bs)
  have "uint b < 256" using uint_lt2p [of b] by simp
  then have "(uint b + 256 * le_uint bs) div 256 = le_uint bs" by simp
  moreover have "(word_of_int (256 * le_uint bs) :: byte) = 0"
  proof -
    have "(256 :: byte) = 0" by simp
    then show ?thesis by (simp only: wi_hom_mult [symmetric] word_of_int_numeral mult_zero_left)
  qed
  ultimately show ?case using Cons by (simp add: wi_hom_add [symmetric])
qed simp

lemma le_sint_le_bytes:
  assumes n: "0 < n" and lo: "- (2 ^ (8 * n - 1)) \<le> x" and hi: "x < 2 ^ (8 * n - 1)"
  shows "le_sint (le_bytes n x) = x"
proof -
  have p: "(2::int) ^ (8 * n) = 2 * 2 ^ (8 * n - 1)"
    using n by (simp add: power_eq_if)
  show ?thesis
  proof (cases "0 \<le> x")
    case True
    then have "x mod 2 ^ (8 * n) = x" using hi p by simp
    then show ?thesis using hi by (simp add: le_sint_def)
  next
    case False
    then have "(x + 2 ^ (8 * n)) mod 2 ^ (8 * n) = x + 2 ^ (8 * n)"
      using lo p by (intro mod_pos_pos_trivial) auto
    then have "x mod 2 ^ (8 * n) = x + 2 ^ (8 * n)" by simp
    then show ?thesis using lo p by (simp add: le_sint_def)
  qed
qed

lemma le_sint_bounds:
  assumes "bs \<noteq> []"
  shows "- (2 ^ (8 * length bs - 1)) \<le> le_sint bs" "le_sint bs < 2 ^ (8 * length bs - 1)"
proof -
  have "(2::int) ^ (8 * length bs) = 2 * 2 ^ (8 * length bs - 1)"
    using assms by (simp add: power_eq_if)
  then show "- (2 ^ (8 * length bs - 1)) \<le> le_sint bs" "le_sint bs < 2 ^ (8 * length bs - 1)"
    using le_uint_less [of bs] le_uint_nonneg [of bs]
    by (simp_all add: le_sint_def Let_def, linarith+)
qed

end
