(* ===== verification/Intset.thy ===== *)
theory Intset
  imports Redis_Prelude
begin

text \<open>
  Integer sets (\<^verbatim>\<open>intset.c\<close>): a sorted array of 16, 32 or 64 bit integers kept in one byte
  buffer, with binary search, in-place upgrade to a wider encoding, insertion, removal and the
  integrity check that guards payloads read from the outside.
\<close>

section \<open>The structure and its operations\<close>

definition INTSET_ENC_INT16 :: nat where "INTSET_ENC_INT16 = 2"
definition INTSET_ENC_INT32 :: nat where "INTSET_ENC_INT32 = 4"
definition INTSET_ENC_INT64 :: nat where "INTSET_ENC_INT64 = 8"

lemmas intset_encs = INTSET_ENC_INT16_def INTSET_ENC_INT32_def INTSET_ENC_INT64_def

record intset =
  is_encoding :: "32 word"
  is_length :: "32 word"
  is_contents :: bytes

definition intsetValueEncoding :: "int \<Rightarrow> nat" where
  "intsetValueEncoding v =
     (if v < - (2 ^ 31) \<or> v > 2 ^ 31 - 1 then INTSET_ENC_INT64
      else if v < - (2 ^ 15) \<or> v > 2 ^ 15 - 1 then INTSET_ENC_INT32
      else INTSET_ENC_INT16)"

definition intsetGetEncoded :: "intset \<Rightarrow> nat \<Rightarrow> nat \<Rightarrow> int" where
  "intsetGetEncoded s pos enc =
     (if enc = INTSET_ENC_INT64 then le_sint (bread (8 * pos) 8 (is_contents s))
      else if enc = INTSET_ENC_INT32 then le_sint (bread (4 * pos) 4 (is_contents s))
      else le_sint (bread (2 * pos) 2 (is_contents s)))"

definition intsetGet_at :: "intset \<Rightarrow> nat \<Rightarrow> int" where
  "intsetGet_at s pos = intsetGetEncoded s pos (unat (is_encoding s))"

definition intsetSet_at :: "intset \<Rightarrow> nat \<Rightarrow> int \<Rightarrow> intset" where
  "intsetSet_at s pos v =
     (let encoding = unat (is_encoding s) in
      if encoding = INTSET_ENC_INT64
      then s\<lparr>is_contents := bwrite (8 * pos) (le_bytes 8 v) (is_contents s)\<rparr>
      else if encoding = INTSET_ENC_INT32
      then s\<lparr>is_contents := bwrite (4 * pos) (le_bytes 4 v) (is_contents s)\<rparr>
      else s\<lparr>is_contents := bwrite (2 * pos) (le_bytes 2 v) (is_contents s)\<rparr>)"

definition intsetNew :: intset where
  "intsetNew = \<lparr>is_encoding = of_nat INTSET_ENC_INT16, is_length = 0, is_contents = []\<rparr>"

text \<open>
  The assertion of \<^verbatim>\<open>intsetResize\<close> on the 64 bit size cannot fail (\<open>intsetResize_assert\<close> below), so
  the operation has no error branch.
\<close>

definition intsetResize :: "intset \<Rightarrow> 32 word \<Rightarrow> intset" where
  "intsetResize s len = s\<lparr>is_contents := zrealloc (unat len * unat (is_encoding s)) (is_contents s)\<rparr>"

text \<open>
  The loop of \<^verbatim>\<open>intsetSearch\<close>. The source adds \<^verbatim>\<open>min\<close> and \<^verbatim>\<open>max\<close> as \<^verbatim>\<open>unsigned int\<close> before the shift;
  \<open>intsetSearch_mid\<close> below shows that this is the integer midpoint for every pair of bounds the
  loop can hold.
\<close>

function intsetSearch_loop :: "intset \<Rightarrow> int \<Rightarrow> int \<Rightarrow> int \<Rightarrow> int \<Rightarrow> int \<Rightarrow> int \<times> int \<times> int" where
  "intsetSearch_loop s v mn mx md cur =
     (if mx \<ge> mn then
        let mid = (mn + mx) div 2; cur' = intsetGet_at s (nat mid) in
        if v > cur' then intsetSearch_loop s v (mid + 1) mx mid cur'
        else if v < cur' then intsetSearch_loop s v mn (mid - 1) mid cur'
        else (mn, mid, cur')
      else (mn, md, cur))"
  by pat_completeness auto
termination
  by (relation "measure (\<lambda>(s, v, mn, mx, md, cur). nat (mx - mn + 1))") (auto simp: Let_def)

declare intsetSearch_loop.simps [simp del]

definition intsetSearch :: "intset \<Rightarrow> int \<Rightarrow> bool \<times> nat" where
  "intsetSearch s v =
     (let mx = int (unat (is_length s)) - 1 in
      if is_length s = 0 then (False, 0)
      else if v > intsetGet_at s (nat mx) then (False, unat (is_length s))
      else if v < intsetGet_at s 0 then (False, 0)
      else (case intsetSearch_loop s v 0 mx (-1) (-1) of
              (mn, mid, cur) \<Rightarrow> if v = cur then (True, nat mid) else (False, nat mn)))"

text \<open>The back-to-front copy of \<^verbatim>\<open>intsetUpgradeAndAdd\<close>: \<^verbatim>\<open>while(length--) ...\<close>.\<close>

primrec intsetUpgrade_loop :: "nat \<Rightarrow> nat \<Rightarrow> nat \<Rightarrow> intset \<Rightarrow> intset" where
  "intsetUpgrade_loop 0 curenc prepend s = s"
| "intsetUpgrade_loop (Suc n) curenc prepend s =
     intsetUpgrade_loop n curenc prepend
       (intsetSet_at s (n + prepend) (intsetGetEncoded s n curenc))"

definition intsetUpgradeAndAdd :: "intset \<Rightarrow> int \<Rightarrow> intset" where
  "intsetUpgradeAndAdd s v =
     (let curenc = unat (is_encoding s);
          newenc = intsetValueEncoding v;
          n = unat (is_length s);
          prepend = (if v < 0 then 1 else 0);
          s1 = s\<lparr>is_encoding := of_nat newenc\<rparr>;
          s2 = intsetResize s1 (is_length s1 + 1);
          s3 = intsetUpgrade_loop n curenc prepend s2;
          s4 = (if prepend = 1 then intsetSet_at s3 0 v
                else intsetSet_at s3 (unat (is_length s3)) v)
      in s4\<lparr>is_length := is_length s4 + 1\<rparr>)"

text \<open>The byte count of \<^verbatim>\<open>intsetMoveTail\<close> is a \<^verbatim>\<open>uint32_t\<close>: it is kept as a 32 bit word here.\<close>

definition intsetMoveTail :: "intset \<Rightarrow> 32 word \<Rightarrow> 32 word \<Rightarrow> intset" where
  "intsetMoveTail s from to =
     (let bytes = is_length s - from; encoding = unat (is_encoding s) in
      if encoding = INTSET_ENC_INT64
      then s\<lparr>is_contents := memmove (8 * unat to) (8 * unat from) (unat (bytes * 8)) (is_contents s)\<rparr>
      else if encoding = INTSET_ENC_INT32
      then s\<lparr>is_contents := memmove (4 * unat to) (4 * unat from) (unat (bytes * 4)) (is_contents s)\<rparr>
      else s\<lparr>is_contents := memmove (2 * unat to) (2 * unat from) (unat (bytes * 2)) (is_contents s)\<rparr>)"

definition intsetAdd :: "intset \<Rightarrow> int \<Rightarrow> intset \<times> bool" where
  "intsetAdd s v =
     (if intsetValueEncoding v > unat (is_encoding s) then (intsetUpgradeAndAdd s v, True)
      else (case intsetSearch s v of (found, pos) \<Rightarrow>
        if found then (s, False)
        else
          let s1 = intsetResize s (is_length s + 1);
              s2 = (if pos < unat (is_length s1)
                    then intsetMoveTail s1 (of_nat pos) (of_nat pos + 1) else s1);
              s3 = intsetSet_at s2 pos v
          in (s3\<lparr>is_length := is_length s3 + 1\<rparr>, True)))"

definition intsetRemove :: "intset \<Rightarrow> int \<Rightarrow> intset \<times> bool" where
  "intsetRemove s v =
     (if intsetValueEncoding v \<le> unat (is_encoding s) \<and> fst (intsetSearch s v)
      then let pos = snd (intsetSearch s v);
               len = is_length s;
               s1 = (if pos < unat (len - 1)
                     then intsetMoveTail s (of_nat pos + 1) (of_nat pos) else s);
               s2 = intsetResize s1 (len - 1)
           in (s2\<lparr>is_length := len - 1\<rparr>, True)
      else (s, False))"

definition intsetFind :: "intset \<Rightarrow> int \<Rightarrow> bool" where
  "intsetFind s v \<longleftrightarrow> intsetValueEncoding v \<le> unat (is_encoding s) \<and> fst (intsetSearch s v)"

text \<open>
  \<^verbatim>\<open>rand()\<close> is an argument; the assertion on a non-empty set is the \<^const>\<open>None\<close> branch.
\<close>

definition intsetRandom :: "nat \<Rightarrow> intset \<Rightarrow> int option" where
  "intsetRandom r s =
     (let len = unat (is_length s) in if len = 0 then None else Some (intsetGet_at s (r mod len)))"

definition intsetMax :: "intset \<Rightarrow> int" where
  "intsetMax s = intsetGet_at s (unat (is_length s - 1))"

definition intsetMin :: "intset \<Rightarrow> int" where
  "intsetMin s = intsetGet_at s 0"

definition intsetGet :: "intset \<Rightarrow> nat \<Rightarrow> int option" where
  "intsetGet s pos = (if pos < unat (is_length s) then Some (intsetGet_at s pos) else None)"

definition intsetLen :: "intset \<Rightarrow> 32 word" where
  "intsetLen s = is_length s"

definition intsetBlobLen :: "intset \<Rightarrow> nat" where
  "intsetBlobLen s = 8 + unat (is_length s) * unat (is_encoding s)"

text \<open>
  \<^verbatim>\<open>intsetValidateIntegrity\<close> reads an untrusted buffer: the two header fields first, then, when
  the check is deep, every record in turn.
\<close>

definition intset_of_buf :: "bytes \<Rightarrow> intset" where
  "intset_of_buf p = \<lparr>is_encoding = word_of_int (le_uint (bread 0 4 p)),
                      is_length = word_of_int (le_uint (bread 4 4 p)), is_contents = drop 8 p\<rparr>"

function intsetValidate_loop :: "intset \<Rightarrow> nat \<Rightarrow> nat \<Rightarrow> int \<Rightarrow> bool" where
  "intsetValidate_loop s i count prev =
     (if i < count
      then let cur = intsetGet_at s i in
           if cur \<le> prev then False else intsetValidate_loop s (Suc i) count cur
      else True)"
  by pat_completeness auto
termination
  by (relation "measure (\<lambda>(s, i, count, prev). count - i)") auto

declare intsetValidate_loop.simps [simp del]

definition intsetValidateIntegrity :: "bytes \<Rightarrow> bool \<Rightarrow> bool" where
  "intsetValidateIntegrity p deep =
     (if length p < 8 then False
      else let s = intset_of_buf p; encoding = unat (is_encoding s) in
        if encoding \<noteq> INTSET_ENC_INT64 \<and> encoding \<noteq> INTSET_ENC_INT32 \<and> encoding \<noteq> INTSET_ENC_INT16
        then False
        else let count = unat (is_length s) in
          if 8 + count * encoding \<noteq> length p then False
          else if count = 0 then False
          else if \<not> deep then True
          else intsetValidate_loop s 1 count (intsetGet_at s 0))"

section \<open>The elements a buffer stores\<close>

text \<open>The value, the width-\<open>e\<close> records of a buffer and the sequence of an integer set.\<close>

definition elem_at :: "nat \<Rightarrow> bytes \<Rightarrow> nat \<Rightarrow> int" where
  "elem_at e b i = le_sint (bread (e * i) e b)"

definition intset_vals :: "intset \<Rightarrow> int list" where
  "intset_vals s = map (intsetGet_at s) [0..<unat (is_length s)]"

definition valid_enc :: "nat \<Rightarrow> bool" where
  "valid_enc e \<longleftrightarrow> e = 2 \<or> e = 4 \<or> e = 8"

definition fits_enc :: "nat \<Rightarrow> int \<Rightarrow> bool" where
  "fits_enc e v \<longleftrightarrow> - (2 ^ (8 * e - 1)) \<le> v \<and> v < 2 ^ (8 * e - 1)"

text \<open>
  The invariant: a known encoding, a buffer of exactly \<^verbatim>\<open>length\<close> records, at most \<open>2 ^ 31 - 1\<close> of
  them (positions are \<^verbatim>\<open>int\<close>), strictly increasing.
\<close>

definition intset_wf :: "intset \<Rightarrow> bool" where
  "intset_wf s \<longleftrightarrow> valid_enc (unat (is_encoding s))
     \<and> length (is_contents s) = unat (is_encoding s) * unat (is_length s)
     \<and> unat (is_length s) < 2 ^ 31
     \<and> sorted_wrt (<) (intset_vals s)"

lemma intsetResize_assert:
  "unat (len :: 32 word) * unat (enc :: 32 word) \<le> 2 ^ 64 - 1 - 8"
proof -
  have "unat len \<le> 2 ^ 32 - 1" "unat enc \<le> 2 ^ 32 - 1"
    using unat_u32_less [of len] unat_u32_less [of enc] by simp_all
  then have "unat len * unat enc \<le> (2 ^ 32 - 1) * (2 ^ 32 - 1)"
    by (rule mult_le_mono)
  then show ?thesis by simp
qed

lemma intsetSearch_mid:
  assumes "0 \<le> mn" "mn \<le> mx" "mx < 2 ^ 31"
  shows "uint (drop_bit 1 (word_of_int mn + word_of_int mx :: 32 word)) = (mn + mx) div 2"
proof -
  have "uint (word_of_int mn :: 32 word) = mn" "uint (word_of_int mx :: 32 word) = mx"
    using assms by (simp_all add: uint_word_of_int)
  then have "uint (word_of_int mn + word_of_int mx :: 32 word) = mn + mx"
    using assms by (simp add: uint_word_ariths(1))
  then show ?thesis by (simp add: drop_bit_Suc uint_div)
qed

lemma fits_valueEncoding: "in_i64 v \<Longrightarrow> fits_enc (intsetValueEncoding v) v"
  by (auto simp: in_i64_def fits_enc_def intsetValueEncoding_def intset_encs)

lemma fits_enc_iff: "in_i64 v \<Longrightarrow> valid_enc e \<Longrightarrow> fits_enc e v \<longleftrightarrow> intsetValueEncoding v \<le> e"
  by (auto simp: in_i64_def valid_enc_def fits_enc_def intsetValueEncoding_def intset_encs)

lemma valid_valueEncoding [simp]: "valid_enc (intsetValueEncoding v)"
  by (auto simp: valid_enc_def intsetValueEncoding_def intset_encs)

lemma valid_enc_pos: "valid_enc e \<Longrightarrow> 0 < e"
  by (auto simp: valid_enc_def)

lemma intsetGetEncoded_elem:
  "valid_enc e \<Longrightarrow> intsetGetEncoded s i e = elem_at e (is_contents s) i"
  by (auto simp: valid_enc_def intsetGetEncoded_def elem_at_def intset_encs)

lemma intsetGet_at_elem:
  "valid_enc (unat (is_encoding s)) \<Longrightarrow>
   intsetGet_at s i = elem_at (unat (is_encoding s)) (is_contents s) i"
  by (simp add: intsetGet_at_def intsetGetEncoded_elem)

lemma intsetSet_at_eq:
  "valid_enc e \<Longrightarrow> e = unat (is_encoding s) \<Longrightarrow>
   intsetSet_at s i v = s\<lparr>is_contents := bwrite (e * i) (le_bytes e v) (is_contents s)\<rparr>"
  by (auto simp: intsetSet_at_def valid_enc_def intset_encs)

lemma elem_at_fits:
  assumes "0 < e" "e * (i + 1) \<le> length b"
  shows "fits_enc e (elem_at e b i)"
proof -
  have "length (bread (e * i) e b) = e"
    using assms by (simp add: length_bread algebra_simps)
  then show ?thesis
    using assms le_sint_bounds [of "bread (e * i) e b"] by (force simp: elem_at_def fits_enc_def)
qed

lemma elem_at_write_same:
  assumes "0 < e" "fits_enc e v" "e * (i + 1) \<le> length b"
  shows "elem_at e (bwrite (e * i) (le_bytes e v) b) i = v"
  using assms by (simp add: elem_at_def bread_bwrite_same fits_enc_def le_sint_le_bytes)

lemma elem_at_write_other:
  assumes "i \<noteq> j" "e * j \<le> length b"
  shows "elem_at e (bwrite (e * j) (le_bytes e v) b) i = elem_at e b i"
  using assms nat_scale_less [of i j e] nat_scale_less [of j i e]
  by (cases "i < j") (simp_all add: elem_at_def bread_bwrite_below bread_bwrite_above)

lemma elem_at_zrealloc:
  "e * (i + 1) \<le> n \<Longrightarrow> e * (i + 1) \<le> length b \<Longrightarrow> elem_at e (zrealloc n b) i = elem_at e b i"
  by (simp add: elem_at_def bread_zrealloc algebra_simps)

lemma elem_at_memmove:
  assumes "e * (d + n) \<le> length b" "e * (sr + n) \<le> length b"
  shows "elem_at e (memmove (e * d) (e * sr) (e * n) b) i =
           (if d \<le> i \<and> i < d + n then elem_at e b (sr + i - d) else elem_at e b i)"
proof -
  have len: "length (bread (e * sr) (e * n) b) = e * n"
    using assms by (simp add: length_bread algebra_simps)
  have dl: "e * d \<le> length b" using assms by (simp add: algebra_simps)
  have "i < d \<or> d + n \<le> i \<or> (\<exists>k. i = d + k \<and> k < n)"
    using le_Suc_ex [of d i] by (cases "i < d") (auto simp: not_less)
  then consider "i < d" | "d + n \<le> i" | k where "i = d + k" "k < n" by blast
  then show ?thesis
  proof cases
    case 1
    then show ?thesis using dl nat_scale_less [of i d e]
      by (simp add: elem_at_def memmove_def bread_bwrite_below)
  next
    case 2
    then have "e * d + e * n \<le> e * i" by (metis distrib_left mult_le_mono2)
    then show ?thesis using 2 dl len
      by (simp add: elem_at_def memmove_def bread_bwrite_above)
  next
    case 3
    note k = nat_scale_less [OF 3(2), of e]
    have "bread (e * i) e (memmove (e * d) (e * sr) (e * n) b)
        = bread (e * k) e (bread (e * sr) (e * n) b)"
      using k dl len 3 by (simp add: memmove_def bread_bwrite_inside distrib_left)
    also have "\<dots> = bread (e * sr + e * k) e b"
      using k by (rule bread_bread)
    finally show ?thesis using 3 by (simp add: elem_at_def distrib_left)
  qed
qed

section \<open>Searching\<close>

lemma length_intset_vals [simp]: "length (intset_vals s) = unat (is_length s)"
  by (simp add: intset_vals_def)

lemma nth_intset_vals: "i < unat (is_length s) \<Longrightarrow> intset_vals s ! i = intsetGet_at s i"
  by (simp add: intset_vals_def)

text \<open>What the loop of the binary search leaves behind, for a set that holds the list \<open>xs\<close>.\<close>

definition search_post :: "int list \<Rightarrow> int \<Rightarrow> int \<times> int \<times> int \<Rightarrow> bool" where
  "search_post xs v r = (case r of (mn, md, cur) \<Rightarrow>
     (if cur = v then 0 \<le> md \<and> nat md < length xs \<and> xs ! nat md = v
      else 0 \<le> mn \<and> nat mn \<le> length xs \<and> (\<forall>i < nat mn. xs ! i < v)
        \<and> (\<forall>i. nat mn \<le> i \<and> i < length xs \<longrightarrow> v < xs ! i)))"

lemma intsetSearch_loop_post:
  assumes "sorted_wrt (<) xs" "\<forall>i < length xs. intsetGet_at s i = xs ! i"
    and "0 \<le> mn" "mn \<le> mx + 1" "mx < int (length xs)" "mn \<le> mx \<or> cur \<noteq> v"
    and "\<forall>i < nat mn. xs ! i < v" "\<forall>i. mx < int i \<and> i < length xs \<longrightarrow> v < xs ! i"
  shows "search_post xs v (intsetSearch_loop s v mn mx md cur)"
  using assms
proof (induction s v mn mx md cur rule: intsetSearch_loop.induct)
  case (1 s v mn mx md cur)
  note unfold = intsetSearch_loop.simps [of s v mn mx md cur]
  show ?case
  proof (cases "mx \<ge> mn")
    case False
    then have mx: "mx = mn - 1" using "1.prems" by simp
    have "\<forall>i. nat mn \<le> i \<and> i < length xs \<longrightarrow> v < xs ! i" "nat mn \<le> length xs"
      using "1.prems"(5,8) mx by auto
    moreover have "intsetSearch_loop s v mn mx md cur = (mn, md, cur)"
      using False by (subst unfold) simp
    ultimately show ?thesis using False "1.prems" mx
      by (simp add: search_post_def)
  next
    case True
    define mid where "mid = (mn + mx) div 2"
    have mid: "mn \<le> mid" "mid \<le> mx" using True by (auto simp: mid_def)
    then have lt: "nat mid < length xs" using "1.prems"(3,5) by linarith
    have val: "intsetGet_at s (nat mid) = xs ! nat mid" using "1.prems"(2) lt by blast
    have mono: "i < j \<Longrightarrow> j < length xs \<Longrightarrow> xs ! i < xs ! j" for i j
      using "1.prems"(1) by (simp add: sorted_wrt_iff_nth_less)
    consider "v > xs ! nat mid" | "v < xs ! nat mid" | "v = xs ! nat mid" by linarith
    then show ?thesis
    proof cases
      case 1
      have "\<forall>i < nat (mid + 1). xs ! i < v"
      proof (intro allI impI)
        fix i assume "i < nat (mid + 1)"
        then have "i = nat mid \<or> i < nat mid" by linarith
        then show "xs ! i < v" using mono [of i "nat mid"] lt 1 by auto
      qed
      moreover have "intsetSearch_loop s v mn mx md cur
          = intsetSearch_loop s v (mid + 1) mx mid (xs ! nat mid)"
        using True 1 val by (subst unfold) (simp add: Let_def mid_def)
      moreover have "search_post xs v (intsetSearch_loop s v (mid + 1) mx mid (xs ! nat mid))"
        using "1.prems" mid 1 less_imp_neq [OF 1] val calculation(1)
        by (intro "1.IH"(1) [OF True mid_def val [symmetric]]) auto
      ultimately show ?thesis by simp
    next
      case 2
      have "\<forall>i. mid - 1 < int i \<and> i < length xs \<longrightarrow> v < xs ! i"
      proof (intro allI impI)
        fix i assume "mid - 1 < int i \<and> i < length xs"
        then have "i = nat mid \<or> nat mid < i" "i < length xs" by linarith+
        then show "v < xs ! i" using mono [of "nat mid" i] 2 by auto
      qed
      moreover have "intsetSearch_loop s v mn mx md cur
          = intsetSearch_loop s v mn (mid - 1) mid (xs ! nat mid)"
        using True 2 val by (subst unfold) (simp add: Let_def mid_def)
      moreover have "search_post xs v (intsetSearch_loop s v mn (mid - 1) mid (xs ! nat mid))"
        using "1.prems" mid 2 less_imp_neq [OF 2] less_not_sym [OF 2] val calculation(1)
        by (intro "1.IH"(2) [OF True mid_def val [symmetric]]) auto
      ultimately show ?thesis by simp
    next
      case 3
      then have "intsetSearch_loop s v mn mx md cur = (mn, mid, v)"
        using True val by (subst unfold) (simp add: Let_def mid_def)
      then show ?thesis using mid lt "1.prems"(3) 3
        by (simp add: search_post_def)
    qed
  qed
qed

lemma intsetSearch_unfold:
  assumes "unat (is_length s) = n"
  shows "intsetSearch s v =
     (if n = 0 then (False, 0)
      else if v > intsetGet_at s (n - 1) then (False, n)
      else if v < intsetGet_at s 0 then (False, 0)
      else (case intsetSearch_loop s v 0 (int n - 1) (-1) (-1) of
              (mn, mid, cur) \<Rightarrow> if v = cur then (True, nat mid) else (False, nat mn)))"
proof -
  have z: "is_length s = 0 \<longleftrightarrow> n = 0" and m: "nat (int n - 1) = n - 1"
    using assms by (auto simp: unat_eq_0)
  show ?thesis unfolding intsetSearch_def Let_def assms z m by (rule refl)
qed

lemma split_point:
  fixes xs :: "int list"
  assumes "\<forall>i < p. xs ! i < v" "\<forall>i. p \<le> i \<and> i < length xs \<longrightarrow> v < xs ! i"
  shows "v \<notin> set xs \<and> (\<forall>x \<in> set (take p xs). x < v) \<and> (\<forall>x \<in> set (drop p xs). v < x)"
proof (intro conjI ballI)
  show "v \<notin> set xs"
  proof
    assume "v \<in> set xs"
    then obtain i where "i < length xs" "xs ! i = v" by (auto simp: in_set_conv_nth)
    then show False using assms [THEN spec, of i] by (cases "i < p") simp_all
  qed
  show "x < v" if "x \<in> set (take p xs)" for x
    using that assms(1) by (auto simp: in_set_conv_nth)
  show "v < x" if "x \<in> set (drop p xs)" for x
    using that assms(2) by (auto simp: in_set_conv_nth)
qed

text \<open>The contract of \<^verbatim>\<open>intsetSearch\<close>: the position of the value, or the position to insert it at.\<close>

definition search_result :: "int list \<Rightarrow> int \<Rightarrow> bool \<times> nat \<Rightarrow> bool" where
  "search_result xs v r = (case r of (found, pos) \<Rightarrow>
     (if found then v \<in> set xs \<and> pos < length xs \<and> xs ! pos = v
      else v \<notin> set xs \<and> pos \<le> length xs
        \<and> (\<forall>x \<in> set (take pos xs). x < v) \<and> (\<forall>x \<in> set (drop pos xs). v < x)))"

lemma search_result_not_found:
  assumes "p \<le> length xs" "\<forall>i < p. xs ! i < v" "\<forall>i. p \<le> i \<and> i < length xs \<longrightarrow> v < xs ! i"
  shows "search_result xs v (False, p)"
  using split_point [OF assms(2,3)] assms(1) by (simp add: search_result_def)

lemma intsetSearch_correct:
  assumes srt: "sorted_wrt (<) xs" and get: "\<forall>i < length xs. intsetGet_at s i = xs ! i"
    and len: "unat (is_length s) = length xs"
  shows "search_result xs v (intsetSearch s v)"
proof -
  note unf = intsetSearch_unfold [OF len]
  have mono: "i < j \<Longrightarrow> j < length xs \<Longrightarrow> xs ! i < xs ! j" for i j
    using srt by (simp add: sorted_wrt_iff_nth_less)
  show ?thesis
  proof (cases "length xs = 0")
    case True
    then show ?thesis by (simp add: unf search_result_def)
  next
    case False
    then obtain k where k: "length xs = Suc k" by (cases "length xs") auto
    note unf = intsetSearch_unfold [OF len [unfolded k], of v, simplified]
    have g: "intsetGet_at s k = xs ! k" "intsetGet_at s 0 = xs ! 0"
      using get k by simp_all
    consider "v > xs ! k" | "v < xs ! 0" "\<not> v > xs ! k" | "\<not> v < xs ! 0" "\<not> v > xs ! k"
      by linarith
    then show ?thesis
    proof cases
      case 1
      have "xs ! i < v" if "i < Suc k" for i
        using that 1 mono [of i k] k by (cases "i = k") simp_all
      then have "search_result xs v (False, Suc k)"
        by (intro search_result_not_found) (simp_all add: k)
      moreover have "intsetSearch s v = (False, Suc k)" by (simp only: unf g 1 if_True)
      ultimately show ?thesis by (simp only:)
    next
      case 2
      have "v < xs ! i" if "i < length xs" for i
        using that 2 mono [of 0 i] by (cases "i = 0") simp_all
      then have "search_result xs v (False, 0)"
        by (intro search_result_not_found) simp_all
      moreover have "intsetSearch s v = (False, 0)" by (simp only: unf g 2 if_True if_False)
      ultimately show ?thesis by (simp only:)
    next
      case 3
      obtain mn md cur
        where r: "intsetSearch_loop s v 0 (int (Suc k) - 1) (-1) (-1) = (mn, md, cur)"
        by (rule prod_cases3)
      have "search_post xs v (intsetSearch_loop s v 0 (int (Suc k) - 1) (-1) (-1))"
        by (rule intsetSearch_loop_post [OF srt get]) (simp_all add: k)
      then have post: "search_post xs v (mn, md, cur)" by (simp only: r)
      have eq: "intsetSearch s v = (if v = cur then (True, nat md) else (False, nat mn))"
        by (simp only: unf g r 3 if_False prod.case)
      show ?thesis
      proof (cases "v = cur")
        case True
        then have "nat md < length xs" "xs ! nat md = v" using post by (simp_all add: search_post_def)
        with nth_mem [OF this(1)] True show ?thesis
          unfolding eq search_result_def by simp
      next
        case False
        with post have "search_result xs v (False, nat mn)"
          unfolding search_post_def by (intro search_result_not_found) simp_all
        with False show ?thesis unfolding eq by simp
      qed
    qed
  qed
qed

section \<open>Insertion and removal\<close>

text \<open>\<open>intset_repr s e xs\<close>: the set \<open>s\<close> stores exactly the sequence \<open>xs\<close> in records of width \<open>e\<close>.\<close>

definition intset_repr :: "intset \<Rightarrow> nat \<Rightarrow> int list \<Rightarrow> bool" where
  "intset_repr s e xs \<longleftrightarrow> unat (is_encoding s) = e \<and> valid_enc e \<and> unat (is_length s) = length xs
     \<and> length (is_contents s) = e * length xs
     \<and> (\<forall>i < length xs. elem_at e (is_contents s) i = xs ! i)"

lemma intset_repr_vals: "intset_repr s e xs \<Longrightarrow> intset_vals s = xs"
  by (rule nth_equalityI) (simp_all add: intset_repr_def nth_intset_vals intsetGet_at_elem)

lemma intset_repr_get: "intset_repr s e xs \<Longrightarrow> i < length xs \<Longrightarrow> intsetGet_at s i = xs ! i"
  by (simp add: intset_repr_def intsetGet_at_elem)

lemma intset_repr_fits: "intset_repr s e xs \<Longrightarrow> i < length xs \<Longrightarrow> fits_enc e (xs ! i)"
  using elem_at_fits [of e i "is_contents s"] valid_enc_pos [of e]
  by (simp add: intset_repr_def flip: mult_Suc_right)

lemma intset_wf_repr:
  "intset_wf s \<Longrightarrow> intset_repr s (unat (is_encoding s)) (intset_vals s)"
  by (simp add: intset_repr_def intset_wf_def nth_intset_vals intsetGet_at_elem)

lemma intset_wf_iff:
  "intset_wf s \<longleftrightarrow> (\<exists>e xs. intset_repr s e xs \<and> sorted_wrt (<) xs \<and> length xs < 2 ^ 31)"
proof
  assume "intset_wf s"
  then have "intset_repr s (unat (is_encoding s)) (intset_vals s) \<and> sorted_wrt (<) (intset_vals s)
      \<and> length (intset_vals s) < 2 ^ 31"
    by (simp add: intset_wf_repr) (simp add: intset_wf_def)
  then show "\<exists>e xs. intset_repr s e xs \<and> sorted_wrt (<) xs \<and> length xs < 2 ^ 31" by blast
next
  assume "\<exists>e xs. intset_repr s e xs \<and> sorted_wrt (<) xs \<and> length xs < 2 ^ 31"
  then obtain e xs where r: "intset_repr s e xs" "sorted_wrt (<) xs" "length xs < 2 ^ 31" by blast
  then show "intset_wf s" using intset_repr_vals [OF r(1)]
    by (simp add: intset_wf_def intset_repr_def)
qed

lemma intset_repr_search:
  assumes "intset_repr s e xs" "sorted_wrt (<) xs"
  shows "search_result xs v (intsetSearch s v)"
  using assms by (intro intsetSearch_correct) (simp_all add: intset_repr_get, simp add: intset_repr_def)

lemma unat_plus1_u32: "unat w + 1 < 2 ^ 32 \<Longrightarrow> unat (w + 1 :: 32 word) = unat w + 1"
  by (simp add: unat_word_ariths)

lemma unat_minus1_u32: "0 < unat w \<Longrightarrow> unat (w - 1 :: 32 word) = unat w - 1"
  by (rule unat_minus_one) auto

lemma unat_of_nat_u32: "n < 2 ^ 32 \<Longrightarrow> unat (of_nat n :: 32 word) = n"
  by (simp add: unat_of_nat)

lemma intsetMoveTail_eq:
  assumes "unat (is_encoding s) = e" "valid_enc e" "unat (is_length s) = n"
    and "unat f \<le> n" "(n - unat f) * e < 2 ^ 32"
  shows "intsetMoveTail s f t =
    s\<lparr>is_contents := memmove (e * unat t) (e * unat f) (e * (n - unat f)) (is_contents s)\<rparr>"
proof -
  have d: "unat (is_length s - f) = n - unat f"
    using assms by (simp add: unat_sub word_le_nat_alt)
  have "unat ((is_length s - f) * of_nat e) = e * (n - unat f)"
    using assms d by (auto simp: unat_word_ariths valid_enc_def mult.commute)
  then show ?thesis using assms
    by (auto simp: intsetMoveTail_def valid_enc_def intset_encs Let_def)
qed

lemma intsetUpgrade_loop_correct:
  assumes "n \<le> N" "valid_enc cur" "valid_enc new" "cur \<le> new" "unat (is_encoding s) = new"
    and "length (is_contents s) = new * (N + 1)" "pre \<le> 1" "length xs = N"
    and "\<And>i. i < N \<Longrightarrow> fits_enc new (xs ! i)"
    and "\<And>i. i < n \<Longrightarrow> elem_at cur (is_contents s) i = xs ! i"
    and "\<And>i. n \<le> i \<Longrightarrow> i < N \<Longrightarrow> elem_at new (is_contents s) (i + pre) = xs ! i"
  shows "\<exists>b. intsetUpgrade_loop n cur pre s = s\<lparr>is_contents := b\<rparr> \<and> length b = new * (N + 1)
     \<and> (\<forall>i < N. elem_at new b (i + pre) = xs ! i)"
  using assms
proof (induction n arbitrary: s)
  case 0
  then show ?case by (intro exI [of _ "is_contents s"]) simp
next
  case (Suc n)
  let ?b = "is_contents s"
  let ?b' = "bwrite (new * (n + pre)) (le_bytes new (xs ! n)) ?b"
  let ?s' = "s\<lparr>is_contents := ?b'\<rparr>"
  have room: "new * (n + pre + 1) \<le> length ?b" using Suc.prems by (simp del: mult_Suc_right)
  then have room': "new * (n + pre) + new \<le> length ?b" by (simp add: algebra_simps)
  have len: "length ?b' = new * (N + 1)"
    using room' Suc.prems(6) by (subst length_bwrite) simp_all
  have old: "elem_at cur ?b' i = xs ! i" if "i < n" for i
  proof -
    have "cur * i + cur \<le> cur * n" using that by (rule nat_scale_less)
    also have "cur * n \<le> new * (n + pre)" using Suc.prems(4) by (simp add: mult_le_mono)
    finally have "elem_at cur ?b' i = elem_at cur ?b i"
      using room' by (simp add: elem_at_def bread_bwrite_below)
    then show ?thesis using Suc.prems(10) [of i] that by simp
  qed
  have moved: "elem_at new ?b' (i + pre) = xs ! i" if "n \<le> i" "i < N" for i
  proof (cases "i = n")
    case True
    show ?thesis unfolding True
      using Suc.prems(1,3) room by (intro elem_at_write_same Suc.prems(9)) (simp_all add: valid_enc_pos)
  next
    case False
    then have "elem_at new ?b' (i + pre) = elem_at new ?b (i + pre)"
      using room' by (intro elem_at_write_other) simp_all
    then show ?thesis using Suc.prems(11) [of i] that False by simp
  qed
  have step: "intsetUpgrade_loop (Suc n) cur pre s = intsetUpgrade_loop n cur pre ?s'"
    using Suc.prems(2,3,5,10) by (simp add: intsetGetEncoded_elem intsetSet_at_eq)
  have "\<exists>b. intsetUpgrade_loop n cur pre ?s' = ?s'\<lparr>is_contents := b\<rparr> \<and> length b = new * (N + 1)
     \<and> (\<forall>i < N. elem_at new b (i + pre) = xs ! i)"
    by (rule Suc.IH) (use Suc.prems(1-9) len old moved in simp_all)
  then show ?case unfolding step by simp
qed

lemma intsetUpgradeAndAdd_repr:
  assumes r: "intset_repr s e xs" and up: "e < intsetValueEncoding v" and v: "in_i64 v"
    and room: "length xs + 1 < 2 ^ 31"
  shows "intset_repr (intsetUpgradeAndAdd s v) (intsetValueEncoding v)
           (if v < 0 then v # xs else xs @ [v])"
proof -
  let ?new = "intsetValueEncoding v" and ?N = "length xs" and ?pre = "if v < 0 then 1 else 0 :: nat"
  let ?s1 = "s\<lparr>is_encoding := of_nat ?new\<rparr>"
  let ?s2 = "intsetResize ?s1 (is_length s + 1)"
  have new: "valid_enc ?new" "unat (of_nat ?new :: 32 word) = ?new" "?new \<le> 8"
    by (simp, auto simp: intsetValueEncoding_def intset_encs)
  have rd: "unat (is_encoding s) = e" "valid_enc e" "unat (is_length s) = ?N"
    "length (is_contents s) = e * ?N" and el: "\<And>i. i < ?N \<Longrightarrow> elem_at e (is_contents s) i = xs ! i"
    using r by (auto simp: intset_repr_def)
  have len1: "unat (is_length s + 1) = ?N + 1" using rd room by (simp add: unat_plus1_u32)
  have s2: "is_encoding ?s2 = of_nat ?new" "is_length ?s2 = is_length s"
    by (simp_all add: intsetResize_def)
  have c2: "is_contents ?s2 = zrealloc ((?N + 1) * ?new) (is_contents s)"
    by (simp add: intsetResize_def len1 new)
  have le: "e * (i + 1) \<le> e * ?N" if "i < ?N" for i using that nat_scale_less [of i ?N e] by simp
  have "e * ?N \<le> ?new * (?N + 1)" using up by (intro mult_le_mono) simp_all
  then have el2: "elem_at e (is_contents ?s2) i = xs ! i" if "i < ?N" for i
    unfolding c2 using el [OF that] le [OF that] rd(4)
    by (subst elem_at_zrealloc) (simp_all add: mult.commute)
  have "\<exists>b. intsetUpgrade_loop ?N e ?pre ?s2 = ?s2\<lparr>is_contents := b\<rparr> \<and> length b = ?new * (?N + 1)
     \<and> (\<forall>i < ?N. elem_at ?new b (i + ?pre) = xs ! i)"
  proof (rule intsetUpgrade_loop_correct)
    show "fits_enc ?new (xs ! i)" if "i < ?N" for i
    proof -
      have "fits_enc e (xs ! i)" using r that by (rule intset_repr_fits)
      then show ?thesis using rd(2) new(1) up by (auto simp: fits_enc_def valid_enc_def)
    qed
    show "length (is_contents ?s2) = ?new * (?N + 1)" by (simp add: c2 mult.commute)
  qed (use rd new up el2 in \<open>simp_all add: intsetResize_def\<close>)
  then obtain b where b: "intsetUpgrade_loop ?N e ?pre ?s2 = ?s2\<lparr>is_contents := b\<rparr>"
    "length b = ?new * (?N + 1)" and eb: "\<And>i. i < ?N \<Longrightarrow> elem_at ?new b (i + ?pre) = xs ! i" by blast
  let ?at = "if v < 0 then 0 else ?N"
  let ?b' = "bwrite (?new * ?at) (le_bytes ?new v) b"
  have room': "?new * (?at + 1) \<le> length b" by (simp add: b(2))
  have res: "intsetUpgradeAndAdd s v = ?s2\<lparr>is_contents := ?b', is_length := is_length s + 1\<rparr>"
    using b(1) rd new s2 by (cases "v < 0")
      (simp_all add: intsetUpgradeAndAdd_def Let_def intsetSet_at_eq [where e = ?new])
  have len': "length ?b' = ?new * (?N + 1)"
    using room' b(2) by (subst length_bwrite) (simp_all add: algebra_simps)
  have same: "elem_at ?new ?b' ?at = v"
    using new room' fits_valueEncoding [OF v] by (intro elem_at_write_same) (simp_all add: valid_enc_pos)
  have other: "elem_at ?new ?b' i = elem_at ?new b i" if "i \<noteq> ?at" for i
    using that room' by (intro elem_at_write_other) (simp_all add: algebra_simps)
  show ?thesis
  proof (cases "v < 0")
    case True
    have "elem_at ?new ?b' i = (v # xs) ! i" if "i < Suc ?N" for i
      using True same other [of i] eb [of "i - 1"] that by (cases i) simp_all
    then show ?thesis using True new len' len1 res
      by (simp add: intset_repr_def intsetResize_def)
  next
    case False
    have "elem_at ?new ?b' i = (xs @ [v]) ! i" if "i < Suc ?N" for i
      using False same other [of i] eb [of i] that by (cases "i = ?N") (simp_all add: nth_append)
    then show ?thesis using False new len' len1 res
      by (simp add: intset_repr_def intsetResize_def)
  qed
qed

text \<open>Insertion at a position, and removal of a position, without a change of encoding.\<close>

lemma intset_insert_repr:
  assumes r: "intset_repr s e xs" and v: "fits_enc e v" and pos: "pos \<le> length xs"
    and room: "length xs + 1 < 2 ^ 31" and bytes: "length xs * e < 2 ^ 32"
  defines "s1 \<equiv> intsetResize s (is_length s + 1)"
  defines "s2 \<equiv> (if pos < unat (is_length s1)
                  then intsetMoveTail s1 (of_nat pos) (of_nat pos + 1) else s1)"
  defines "s3 \<equiv> intsetSet_at s2 pos v"
  shows "intset_repr (s3\<lparr>is_length := is_length s3 + 1\<rparr>) e (take pos xs @ v # drop pos xs)"
proof -
  let ?N = "length xs"
  have rd: "unat (is_encoding s) = e" "valid_enc e" "unat (is_length s) = ?N"
    "length (is_contents s) = e * ?N" and el: "\<And>i. i < ?N \<Longrightarrow> elem_at e (is_contents s) i = xs ! i"
    using r by (auto simp: intset_repr_def)
  have len1: "unat (is_length s + 1) = ?N + 1" using rd room by (simp add: unat_plus1_u32)
  let ?b1 = "zrealloc (e * (?N + 1)) (is_contents s)"
  let ?b2 = "if pos < ?N then memmove (e * (pos + 1)) (e * pos) (e * (?N - pos)) ?b1 else ?b1"
  let ?b3 = "bwrite (e * pos) (le_bytes e v) ?b2"
  have s1: "s1 = s\<lparr>is_contents := ?b1\<rparr>"
    by (simp add: s1_def intsetResize_def len1 rd mult.commute)
  have p: "unat (of_nat pos :: 32 word) = pos" "unat (of_nat pos + 1 :: 32 word) = pos + 1"
    using pos room by (simp_all add: unat_of_nat_u32 unat_plus1_u32)
  have "(?N - pos) * e < 2 ^ 32"
    using bytes by (rule le_less_trans [rotated]) (simp add: mult_le_mono)
  then have s2: "s2 = s\<lparr>is_contents := ?b2\<rparr>"
    using rd p pos by (simp add: s2_def s1 intsetMoveTail_eq [where e = e and n = ?N])
  then have s3: "s3 = s\<lparr>is_contents := ?b3\<rparr>"
    using rd by (simp add: s3_def intsetSet_at_eq [where e = e])
  have l2: "length ?b2 = e * (?N + 1)"
    using pos by (auto simp: memmove_def length_bwrite length_bread algebra_simps)
  have pl: "e * (pos + 1) \<le> e * (?N + 1)" using pos by simp
  have l3: "length ?b3 = e * (?N + 1)"
    using pl l2 by (subst length_bwrite) (simp_all add: algebra_simps)
  have e1: "elem_at e ?b1 i = xs ! i" if "i < ?N" for i
    using that el [OF that] rd(4) nat_scale_less [OF that, of e] by (subst elem_at_zrealloc) simp_all
  have e2: "elem_at e ?b2 i = (if i \<le> pos then xs ! i else xs ! (i - 1))"
    if "i < ?N + 1" "i \<noteq> pos" for i
  proof (cases "pos < ?N")
    case True
    then have "elem_at e ?b2 i = (if pos + 1 \<le> i \<and> i < pos + 1 + (?N - pos)
                then elem_at e ?b1 (pos + i - (pos + 1)) else elem_at e ?b1 i)"
      by (simp only: if_True) (rule elem_at_memmove, simp_all)
    then show ?thesis using that e1 [of i] e1 [of "i - 1"] True by (cases "i \<le> pos") simp_all
  next
    case False
    then show ?thesis using that pos e1 [of i] by simp
  qed
  have "elem_at e ?b3 i = (take pos xs @ v # drop pos xs) ! i" if "i < ?N + 1" for i
  proof (cases "i = pos")
    case True
    have "elem_at e ?b3 pos = v"
      using rd v l2 pl by (intro elem_at_write_same) (simp_all add: valid_enc_pos)
    then show ?thesis using True pos by (simp add: nth_append)
  next
    case False
    then have "elem_at e ?b3 i = elem_at e ?b2 i"
      using l2 pos by (intro elem_at_write_other) (simp, simp add: trans_le_add2)
    then show ?thesis using False e2 [OF that False] pos that
      by (cases "i < pos") (simp_all add: nth_append nth_Cons')
  qed
  then show ?thesis using rd len1 l3 s3 pos by (simp add: intset_repr_def)
qed

lemma intset_delete_repr:
  assumes r: "intset_repr s e xs" and pos: "pos < length xs" and bytes: "length xs * e < 2 ^ 32"
  defines "s1 \<equiv> (if pos < unat (is_length s - 1)
                  then intsetMoveTail s (of_nat pos + 1) (of_nat pos) else s)"
  defines "s2 \<equiv> intsetResize s1 (is_length s - 1)"
  shows "intset_repr (s2\<lparr>is_length := is_length s - 1\<rparr>) e (take pos xs @ drop (Suc pos) xs)"
proof -
  let ?N = "length xs"
  have rd: "unat (is_encoding s) = e" "valid_enc e" "unat (is_length s) = ?N"
    "length (is_contents s) = e * ?N" and el: "\<And>i. i < ?N \<Longrightarrow> elem_at e (is_contents s) i = xs ! i"
    using r by (auto simp: intset_repr_def)
  have N32: "?N < 2 ^ 32" using rd(3) unat_u32_less [of "is_length s"] by simp
  obtain m where N: "?N = Suc (pos + m)" using pos less_imp_Suc_add by blast
  have "0 < unat (is_length s)" using rd(3) pos by linarith
  from unat_minus1_u32 [OF this] have len1: "unat (is_length s - 1) = pos + m" using rd(3) N by simp
  have p: "unat (of_nat pos :: 32 word) = pos" "unat (of_nat pos + 1 :: 32 word) = pos + 1"
    using pos N32 by (simp_all add: unat_of_nat_u32 unat_plus1_u32)
  let ?b1 = "if 0 < m then memmove (e * pos) (e * (pos + 1)) (e * m) (is_contents s)
             else is_contents s"
  let ?b2 = "zrealloc (e * (pos + m)) ?b1"
  have "m * e \<le> ?N * e" by (rule mult_le_mono1) (simp add: N)
  then have "m * e < 2 ^ 32" using bytes by linarith
  then have s1: "s1 = s\<lparr>is_contents := ?b1\<rparr>"
    using rd p N len1 by (simp add: s1_def intsetMoveTail_eq [where e = e and n = ?N])
  have s2: "s2 = s\<lparr>is_contents := ?b2\<rparr>"
    by (simp add: s2_def s1 intsetResize_def len1 rd mult.commute)
  have l1: "length ?b1 = e * (pos + m) + e"
    using N rd(4) by (simp add: memmove_def length_bwrite length_bread algebra_simps)
  have e1: "elem_at e ?b1 i = (if i < pos then xs ! i else xs ! Suc i)" if "i < pos + m" for i
  proof (cases "0 < m")
    case True
    then have "elem_at e ?b1 i = (if pos \<le> i \<and> i < pos + m
        then elem_at e (is_contents s) (pos + 1 + i - pos) else elem_at e (is_contents s) i)"
      by (simp only: if_True) (rule elem_at_memmove, simp_all add: rd N algebra_simps)
    then show ?thesis using that el [of i] el [of "Suc i"] N by (cases "i < pos") simp_all
  next
    case False
    then show ?thesis using that N el [of i] by simp
  qed
  have e2: "elem_at e ?b2 i = (take pos xs @ drop (Suc pos) xs) ! i" if "i < pos + m" for i
  proof -
    have "e * (i + 1) \<le> e * (pos + m)" using that by (intro mult_le_mono2) simp
    moreover from this have "e * (i + 1) \<le> length ?b1" using l1 by linarith
    ultimately have "elem_at e ?b2 i = elem_at e ?b1 i" by (rule elem_at_zrealloc)
    then show ?thesis using e1 [OF that] that N by (simp add: nth_append)
  qed
  show ?thesis using rd len1 s2 N e2 by (simp add: intset_repr_def)
qed

section \<open>The set an integer set stores\<close>

definition intset_elems :: "intset \<Rightarrow> int set" where
  "intset_elems s = set (intset_vals s)"

text \<open>
  Room for one more record: positions stay in \<^verbatim>\<open>int\<close> and the byte count of a tail move stays in
  \<^verbatim>\<open>uint32_t\<close>.
\<close>

definition intset_room :: "intset \<Rightarrow> bool" where
  "intset_room s \<longleftrightarrow> unat (is_length s) + 1 < 2 ^ 31 \<and> unat (is_length s) * unat (is_encoding s) < 2 ^ 32"

lemma intsetAdd_repr:
  assumes r: "intset_repr s e xs" and srt: "sorted_wrt (<) xs" and v: "in_i64 v" and room: "intset_room s"
  shows "\<exists>e' xs'. intset_repr (fst (intsetAdd s v)) e' xs' \<and> sorted_wrt (<) xs'
     \<and> length xs' \<le> length xs + 1 \<and> set xs' = insert v (set xs) \<and> snd (intsetAdd s v) = (v \<notin> set xs)"
proof -
  have rd: "unat (is_encoding s) = e" "valid_enc e" "unat (is_length s) = length xs"
    using r by (auto simp: intset_repr_def)
  have rm: "length xs + 1 < 2 ^ 31" "length xs * e < 2 ^ 32"
    using room rd by (simp_all add: intset_room_def)
  show ?thesis
  proof (cases "intsetValueEncoding v > e")
    case True
    have out: "(0 \<le> v \<longrightarrow> x < v) \<and> (v < 0 \<longrightarrow> v < x)" if x: "x \<in> set xs" for x
    proof -
      obtain i where "i < length xs" "xs ! i = x" using x by (auto simp: in_set_conv_nth)
      then have f: "fits_enc e x" using intset_repr_fits [OF r] by blast
      have n: "\<not> fits_enc e v" using True v rd(2) by (simp add: fits_enc_iff)
      from f n show ?thesis by (auto simp: fits_enc_def)
    qed
    have "sorted_wrt (<) (if v < 0 then v # xs else xs @ [v])"
      using srt out by (auto simp: sorted_wrt_append)
    moreover have "v \<notin> set xs" using out by fastforce
    moreover have "intsetAdd s v = (intsetUpgradeAndAdd s v, True)"
      using True rd by (simp add: intsetAdd_def)
    ultimately show ?thesis using intsetUpgradeAndAdd_repr [OF r True v rm(1)]
      by (intro exI [of _ "intsetValueEncoding v"] exI [of _ "if v < 0 then v # xs else xs @ [v]"]) auto
  next
    case False
    then have f: "fits_enc e v" using v rd(2) by (simp add: fits_enc_iff)
    obtain found pos where fp: "intsetSearch s v = (found, pos)" by (cases "intsetSearch s v")
    have sr: "search_result xs v (found, pos)" using intset_repr_search [OF r srt, of v] fp by simp
    show ?thesis
    proof (cases found)
      case True
      then have "intsetAdd s v = (s, False)" "v \<in> set xs"
        using False rd fp sr by (simp_all add: intsetAdd_def search_result_def)
      then show ?thesis using r srt by (intro exI [of _ e] exI [of _ xs]) auto
    next
      case nf: False
      then have nin: "v \<notin> set xs" and pos: "pos \<le> length xs"
        and lo: "\<forall>x \<in> set (take pos xs). x < v" and hi: "\<forall>x \<in> set (drop pos xs). v < x"
        using sr by (simp_all add: search_result_def)
      let ?xs = "take pos xs @ v # drop pos xs"
      have "sorted_wrt (<) (take pos xs @ drop pos xs)" using srt by simp
      then have "sorted_wrt (<) ?xs" using lo hi
        by (simp only: sorted_wrt_append) auto
      moreover have "set ?xs = insert v (set xs)"
        by (metis append_take_drop_id list.simps(15) set_append Un_insert_right)
      moreover have "intset_repr (fst (intsetAdd s v)) e ?xs \<and> snd (intsetAdd s v)"
        using intset_insert_repr [OF r f pos rm] False nf fp rd by (simp add: intsetAdd_def Let_def)
      moreover have "length ?xs \<le> length xs + 1" using pos by simp
      ultimately show ?thesis using nin by blast
    qed
  qed
qed

lemma intsetRemove_repr:
  assumes r: "intset_repr s e xs" and srt: "sorted_wrt (<) xs" and v: "in_i64 v" and room: "intset_room s"
  shows "\<exists>xs'. intset_repr (fst (intsetRemove s v)) e xs' \<and> sorted_wrt (<) xs'
     \<and> length xs' \<le> length xs \<and> set xs' = set xs - {v} \<and> snd (intsetRemove s v) = (v \<in> set xs)"
proof -
  have rd: "unat (is_encoding s) = e" "valid_enc e" "unat (is_length s) = length xs"
    using r by (auto simp: intset_repr_def)
  have bytes: "length xs * e < 2 ^ 32" using room rd by (simp add: intset_room_def)
  have big: "v \<notin> set xs" if "\<not> intsetValueEncoding v \<le> e"
    using that v rd(2) intset_repr_fits [OF r] fits_enc_iff [OF v rd(2)] by (auto simp: in_set_conv_nth)
  obtain found pos where fp: "intsetSearch s v = (found, pos)" by (cases "intsetSearch s v")
  have sr: "search_result xs v (found, pos)" using intset_repr_search [OF r srt, of v] fp by simp
  show ?thesis
  proof (cases "intsetValueEncoding v \<le> e \<and> found")
    case True
    then have pos: "pos < length xs" "xs ! pos = v" using sr by (simp_all add: search_result_def)
    let ?xs = "take pos xs @ drop (Suc pos) xs"
    have xs: "xs = take pos xs @ v # drop (Suc pos) xs" using pos id_take_nth_drop by metis
    have s': "sorted_wrt (<) (take pos xs @ v # drop (Suc pos) xs)" using srt xs by simp
    then have "sorted_wrt (<) ?xs" by (simp add: sorted_wrt_append)
    moreover have "set ?xs = set xs - {v}"
    proof -
      have "v \<notin> set ?xs" using s' by (fastforce simp: sorted_wrt_append)
      moreover have "set xs = insert v (set ?xs)" by (subst xs) auto
      ultimately show ?thesis by auto
    qed
    moreover have "intset_repr (fst (intsetRemove s v)) e ?xs \<and> snd (intsetRemove s v)"
      using intset_delete_repr [OF r pos(1) bytes] True fp rd by (simp add: intsetRemove_def Let_def)
    moreover have "v \<in> set xs" using pos nth_mem by blast
    ultimately show ?thesis by (intro exI [of _ ?xs]) auto
  next
    case False
    then have "intsetRemove s v = (s, False)" unfolding intsetRemove_def fp rd by auto
    moreover have "v \<notin> set xs" using False big sr by (auto simp: search_result_def)
    ultimately show ?thesis using r srt by (intro exI [of _ xs]) auto
  qed
qed

lemma intsetValidate_loop_sorted:
  assumes "i \<le> count" "0 < i" "prev = intsetGet_at s (i - 1)"
  shows "intsetValidate_loop s i count prev \<longleftrightarrow>
    (\<forall>j. i \<le> j \<and> j < count \<longrightarrow> intsetGet_at s (j - 1) < intsetGet_at s j)"
  using assms
proof (induction s i count prev rule: intsetValidate_loop.induct)
  case (1 s i count prev)
  show ?case
  proof (cases "i < count")
    case False
    then show ?thesis by (subst intsetValidate_loop.simps) simp
  next
    case lt: True
    have split: "(\<forall>j. i \<le> j \<and> j < count \<longrightarrow> P j) \<longleftrightarrow> P i \<and> (\<forall>j. Suc i \<le> j \<and> j < count \<longrightarrow> P j)"
      for P :: "nat \<Rightarrow> bool"
      using lt by (metis Suc_leD Suc_leI le_neq_implies_less order_refl)
    show ?thesis
    proof (cases "intsetGet_at s i \<le> prev")
      case True
      then show ?thesis using lt "1.prems" by (subst intsetValidate_loop.simps) (auto simp: Let_def not_less)
    next
      case False
      have "intsetValidate_loop s (Suc i) count (intsetGet_at s i) \<longleftrightarrow>
        (\<forall>j. Suc i \<le> j \<and> j < count \<longrightarrow> intsetGet_at s (j - 1) < intsetGet_at s j)"
        by (rule "1.IH" [OF lt refl False]) (use lt in simp_all)
      moreover have "intsetValidate_loop s i count prev = intsetValidate_loop s (Suc i) count (intsetGet_at s i)"
        using lt False by (subst intsetValidate_loop.simps) (simp add: Let_def)
      ultimately show ?thesis using False "1.prems"(3)
        by (subst split) (simp only: not_le simp_thms)
    qed
  qed
qed

lemma sorted_wrt_adjacent:
  fixes xs :: "int list"
  shows "sorted_wrt (<) xs \<longleftrightarrow> (\<forall>j. 1 \<le> j \<and> j < length xs \<longrightarrow> xs ! (j - 1) < xs ! j)"
proof
  assume "sorted_wrt (<) xs"
  then show "\<forall>j. 1 \<le> j \<and> j < length xs \<longrightarrow> xs ! (j - 1) < xs ! j"
    by (simp add: sorted_wrt_iff_nth_less)
next
  assume a: "\<forall>j. 1 \<le> j \<and> j < length xs \<longrightarrow> xs ! (j - 1) < xs ! j"
  have "xs ! i < xs ! Suc i" if "Suc i < length xs" for i
    using a [rule_format, of "Suc i"] that by simp
  then show "sorted_wrt (<) xs"
    by (simp add: sorted_wrt_iff_nth_Suc_transp)
qed

section \<open>The interface of a bounded integer set\<close>

text \<open>
  What the set type asks of an integer set: membership, insertion and removal act on the stored set
  as the mathematical operations do, report whether they changed it, and keep the invariant. The
  values are bounded by the integer type, and an insertion needs room.
\<close>

locale bounded_set =
  fixes empty :: 's
    and find :: "'s \<Rightarrow> 'v \<Rightarrow> bool"
    and add :: "'s \<Rightarrow> 'v \<Rightarrow> 's \<times> bool"
    and remove :: "'s \<Rightarrow> 'v \<Rightarrow> 's \<times> bool"
    and elems :: "'s \<Rightarrow> 'v set"
    and invar :: "'s \<Rightarrow> bool"
    and room :: "'s \<Rightarrow> bool"
    and value_ok :: "'v \<Rightarrow> bool"
  assumes invar_empty: "invar empty" and elems_empty: "elems empty = {}"
    and find: "invar s \<Longrightarrow> value_ok v \<Longrightarrow> find s v \<longleftrightarrow> v \<in> elems s"
    and add: "invar s \<Longrightarrow> room s \<Longrightarrow> value_ok v \<Longrightarrow>
      invar (fst (add s v)) \<and> elems (fst (add s v)) = insert v (elems s)
      \<and> snd (add s v) = (v \<notin> elems s)"
    and remove: "invar s \<Longrightarrow> room s \<Longrightarrow> value_ok v \<Longrightarrow>
      invar (fst (remove s v)) \<and> elems (fst (remove s v)) = elems s - {v}
      \<and> snd (remove s v) = (v \<in> elems s)"
begin

lemma add_then_find:
  assumes "invar s" "room s" "value_ok v" "value_ok w"
  shows "find (fst (add s v)) w \<longleftrightarrow> w = v \<or> find s w"
  using assms add [of s v] find [of "fst (add s v)" w] find [of s w] by auto

lemma remove_then_find:
  assumes "invar s" "room s" "value_ok v" "value_ok w"
  shows "find (fst (remove s v)) w \<longleftrightarrow> w \<noteq> v \<and> find s w"
  using assms remove [of s v] find [of "fst (remove s v)" w] find [of s w] by auto

lemma add_remove_elems:
  assumes "invar s" "room s" "room (fst (add s v))" "value_ok v" "v \<notin> elems s"
  shows "elems (fst (remove (fst (add s v)) v)) = elems s"
  using assms add [of s v] remove [of "fst (add s v)" v] by auto

end

lemma intsetFind_elems:
  assumes "intset_wf s" "in_i64 v"
  shows "intsetFind s v \<longleftrightarrow> v \<in> intset_elems s"
proof -
  let ?e = "unat (is_encoding s)" and ?xs = "intset_vals s"
  have r: "intset_repr s ?e ?xs" and srt: "sorted_wrt (<) ?xs" and ve: "valid_enc ?e"
    using assms(1) by (simp_all add: intset_wf_repr) (simp_all add: intset_wf_def)
  have "v \<notin> set ?xs" if "\<not> intsetValueEncoding v \<le> ?e"
    using that intset_repr_fits [OF r] fits_enc_iff [OF assms(2) ve] by (auto simp: in_set_conv_nth)
  then show ?thesis using intset_repr_search [OF r srt, of v]
    by (auto simp: intsetFind_def intset_elems_def search_result_def split: prod.splits if_splits)
qed

lemma intsetAdd_elems:
  assumes "intset_wf s" "intset_room s" "in_i64 v"
  shows "intset_wf (fst (intsetAdd s v)) \<and> intset_elems (fst (intsetAdd s v)) = insert v (intset_elems s)
    \<and> snd (intsetAdd s v) = (v \<notin> intset_elems s)"
proof -
  have "intset_repr s (unat (is_encoding s)) (intset_vals s)" "sorted_wrt (<) (intset_vals s)"
    using assms(1) by (simp_all add: intset_wf_repr) (simp add: intset_wf_def)
  from intsetAdd_repr [OF this assms(3,2)] obtain e' xs' where
    r: "intset_repr (fst (intsetAdd s v)) e' xs'" and srt: "sorted_wrt (<) xs'"
    and len: "length xs' \<le> unat (is_length s) + 1"
    and st: "set xs' = insert v (set (intset_vals s))" "snd (intsetAdd s v) = (v \<notin> set (intset_vals s))"
    by auto
  have "length xs' < 2 ^ 31" using len assms(2) by (simp add: intset_room_def)
  then show ?thesis using r srt st intset_repr_vals [OF r]
    by (auto simp: intset_wf_iff intset_elems_def)
qed

lemma intsetRemove_elems:
  assumes "intset_wf s" "intset_room s" "in_i64 v"
  shows "intset_wf (fst (intsetRemove s v)) \<and> intset_elems (fst (intsetRemove s v)) = intset_elems s - {v}
    \<and> snd (intsetRemove s v) = (v \<in> intset_elems s)"
proof -
  have "intset_repr s (unat (is_encoding s)) (intset_vals s)" "sorted_wrt (<) (intset_vals s)"
    using assms(1) by (simp_all add: intset_wf_repr) (simp add: intset_wf_def)
  from intsetRemove_repr [OF this assms(3,2)] obtain xs' where
    r: "intset_repr (fst (intsetRemove s v)) (unat (is_encoding s)) xs'" and srt: "sorted_wrt (<) xs'"
    and len: "length xs' \<le> unat (is_length s)"
    and st: "set xs' = set (intset_vals s) - {v}" "snd (intsetRemove s v) = (v \<in> set (intset_vals s))"
    by auto
  have "length xs' < 2 ^ 31" using len assms(2) by (simp add: intset_room_def)
  then show ?thesis using r srt st intset_repr_vals [OF r]
    by (auto simp: intset_wf_iff intset_elems_def)
qed

lemma intsetNew_wf: "intset_wf intsetNew \<and> intset_elems intsetNew = {}"
  by (simp add: intset_wf_def intsetNew_def intset_elems_def intset_vals_def valid_enc_def intset_encs)

interpretation iset: bounded_set intsetNew intsetFind intsetAdd intsetRemove intset_elems
  intset_wf intset_room in_i64
  by unfold_locales (simp_all add: intsetNew_wf intsetFind_elems intsetAdd_elems intsetRemove_elems)

section \<open>Properties\<close>

text \<open>C12: insertion, into a set of fewer than \<open>2 ^ 31 - 1\<close> members whose records take less than \<open>2 ^ 32\<close>
  bytes (\<^const>\<open>intset_room\<close>; beyond that the byte count of the tail move wraps). \<^verbatim>\<open>intsetAdd\<close> keeps the invariant (known
  encoding, exact buffer size, strictly increasing records), the stored set becomes the set with the value inserted,
  whether or not the encoding had to be widened in place, and the success flag says whether the value was new.\<close>

theorem intsetAdd_correct:
  assumes "intset_wf s" and "intset_room s" and "in_i64 v"
  shows "intset_wf (fst (intsetAdd s v)) \<and>
    intset_elems (fst (intsetAdd s v)) = insert v (intset_elems s) \<and>
    snd (intsetAdd s v) = (v \<notin> intset_elems s)"
  using assms by (rule iset.add)

definition demo_intset :: intset where
  "demo_intset = \<lparr>is_encoding = 2, is_length = 2, is_contents = [1, 0, 5, 0]\<rparr>"

lemma demo_intset_vals: "intset_vals demo_intset = [1, 5]"
  by (simp add: intset_vals_def demo_intset_def intsetGet_at_def intsetGetEncoded_def intset_encs
      bread_def le_sint_def upt_rec)

lemma demo_intset_ok: "intset_wf demo_intset" "intset_room demo_intset"
  by (simp_all add: intset_wf_def intset_room_def valid_enc_def demo_intset_vals)
    (simp_all add: demo_intset_def)

lemma demo_intset_elems: "intset_elems demo_intset = {1, 5}"
  by (simp add: intset_elems_def demo_intset_vals)

theorem intsetAdd_correct_witness:
  "intset_wf demo_intset \<and> intset_room demo_intset \<and> in_i64 (-70000) \<and>
   intset_wf (fst (intsetAdd demo_intset (-70000))) \<and>
   intset_elems (fst (intsetAdd demo_intset (-70000))) = {-70000, 1, 5} \<and>
   snd (intsetAdd demo_intset (-70000))"
proof -
  have v: "in_i64 (-70000)" by (simp add: in_i64_def)
  show ?thesis using demo_intset_ok v intsetAdd_correct [OF demo_intset_ok v]
    by (simp add: demo_intset_elems)
qed

text \<open>C13: removal, from a set of fewer than \<open>2 ^ 31 - 1\<close> members whose records take less than \<open>2 ^ 32\<close> bytes
  (\<^const>\<open>intset_room\<close>). \<^verbatim>\<open>intsetRemove\<close> keeps the invariant, removes exactly the value and reports whether it was
  there.\<close>

theorem intsetRemove_correct:
  assumes "intset_wf s" and "intset_room s" and "in_i64 v"
  shows "intset_wf (fst (intsetRemove s v)) \<and>
    intset_elems (fst (intsetRemove s v)) = intset_elems s - {v} \<and>
    snd (intsetRemove s v) = (v \<in> intset_elems s)"
  using assms by (rule iset.remove)

theorem intsetRemove_correct_witness:
  "intset_wf demo_intset \<and> intset_room demo_intset \<and> in_i64 5 \<and>
   intset_elems (fst (intsetRemove demo_intset 5)) = {1} \<and> snd (intsetRemove demo_intset 5)"
proof -
  have v: "in_i64 5" by (simp add: in_i64_def)
  show ?thesis using demo_intset_ok v intsetRemove_correct [OF demo_intset_ok v]
    by (simp add: demo_intset_elems insert_Diff_if)
qed

text \<open>C14: integrity check. A buffer passes the deep check of \<^verbatim>\<open>intsetValidateIntegrity\<close> exactly when
  its header announces a known encoding and a non-zero count, the buffer has the size they imply and
  the records are strictly increasing, so that (below \<open>2 ^ 31\<close> records) the buffer is a well-formed
  non-empty integer set.\<close>

theorem intsetValidateIntegrity_deep:
  assumes "unat (is_length (intset_of_buf p)) < 2 ^ 31"
  shows "intsetValidateIntegrity p True \<longleftrightarrow>
    8 \<le> length p \<and> intset_wf (intset_of_buf p) \<and> intset_elems (intset_of_buf p) \<noteq> {}"
proof -
  let ?s = "intset_of_buf p"
  let ?n = "unat (is_length ?s)" and ?e = "unat (is_encoding ?s)"
  have c: "length (is_contents ?s) = length p - 8" by (simp add: intset_of_buf_def)
  have srt: "sorted_wrt (<) (intset_vals ?s) \<longleftrightarrow> intsetValidate_loop ?s 1 ?n (intsetGet_at ?s 0)" if "0 < ?n"
  proof -
    have "intsetValidate_loop ?s 1 ?n (intsetGet_at ?s 0) \<longleftrightarrow>
      (\<forall>j. 1 \<le> j \<and> j < ?n \<longrightarrow> intsetGet_at ?s (j - 1) < intsetGet_at ?s j)"
      by (rule intsetValidate_loop_sorted) (use that in simp_all)
    also have "\<dots> \<longleftrightarrow> (\<forall>j. 1 \<le> j \<and> j < ?n \<longrightarrow> intset_vals ?s ! (j - 1) < intset_vals ?s ! j)"
      by (auto simp: nth_intset_vals)
    finally show ?thesis by (simp only: sorted_wrt_adjacent length_intset_vals)
  qed
  have ne: "intset_elems ?s \<noteq> {} \<longleftrightarrow> ?n \<noteq> 0"
    by (metis intset_elems_def length_0_conv length_intset_vals set_empty)
  have sz: "8 \<le> length p \<Longrightarrow> 8 + ?n * ?e = length p \<longleftrightarrow> length p - 8 = ?e * ?n"
    by (auto simp: mult.commute)
  show ?thesis
  proof (cases "8 \<le> length p \<and> valid_enc ?e \<and> 8 + ?n * ?e = length p \<and> ?n \<noteq> 0")
    case True
    then show ?thesis using srt assms ne sz c
      by (auto simp: intsetValidateIntegrity_def Let_def intset_wf_def valid_enc_def intset_encs)
  next
    case False
    then show ?thesis using ne sz c
      by (auto simp: intsetValidateIntegrity_def Let_def intset_wf_def valid_enc_def intset_encs)
  qed
qed

theorem intsetValidateIntegrity_deep_witness:
  "unat (is_length (intset_of_buf [2,0,0,0, 2,0,0,0, 1,0, 5,0])) < 2 ^ 31 \<and>
   intsetValidateIntegrity [2,0,0,0, 2,0,0,0, 1,0, 5,0] True \<and>
   intset_wf (intset_of_buf [2,0,0,0, 2,0,0,0, 1,0, 5,0])"
proof -
  let ?p = "[2,0,0,0, 2,0,0,0, 1,0, 5,0] :: bytes"
  have s: "intset_of_buf ?p = demo_intset"
    by (simp add: intset_of_buf_def demo_intset_def bread_def)
  have "unat (is_length (intset_of_buf ?p)) < 2 ^ 31" by (simp add: s demo_intset_def)
  from this intsetValidateIntegrity_deep [OF this] show ?thesis
    by (simp add: s demo_intset_ok demo_intset_elems)
qed

text \<open>C15: a wrap-around. The byte count of \<^verbatim>\<open>intsetMoveTail\<close> is a \<^verbatim>\<open>uint32_t\<close>: for a set of 64 bit
  records whose tail has \<open>2 ^ 29 + k\<close> records, only the bytes of the first \<open>k\<close> of them are moved.\<close>

theorem intsetMoveTail_wraps:
  assumes "is_encoding s = 8" and "unat (is_length s) = unat from + 2 ^ 29 + k" and "k < 2 ^ 29"
  shows "intsetMoveTail s from to =
    s\<lparr>is_contents := memmove (8 * unat to) (8 * unat from) (8 * k) (is_contents s)\<rparr>"
proof -
  have wrap: "unat (d * 8 :: 32 word) = 8 * k" if "unat d = 2 ^ 29 + k" for d
    using that assms(3) by (simp add: unat_word_ariths)
  have "unat (is_length s - from) = 2 ^ 29 + k"
    using assms(2) by (simp add: unat_sub word_le_nat_alt)
  note wrap [OF this]
  then show ?thesis by (simp add: intsetMoveTail_def assms(1) intset_encs)
qed

theorem intsetMoveTail_wraps_witness:
  "intsetMoveTail \<lparr>is_encoding = 8, is_length = 536870912, is_contents = [7]\<rparr> 0 1 =
   \<lparr>is_encoding = 8, is_length = 536870912, is_contents = memmove 8 0 0 [7]\<rparr>"
  using intsetMoveTail_wraps [of "\<lparr>is_encoding = 8, is_length = 536870912, is_contents = [7]\<rparr>" 0 0 1]
  by simp

end
