(* ===== verification/Strnum.thy ===== *)
theory Strnum
  imports Redis_Prelude
begin

text \<open>
  Conversions between 64 bit integers and decimal strings (\<^verbatim>\<open>util.c\<close>): \<^verbatim>\<open>digits10\<close>, \<^verbatim>\<open>sdigits10\<close>,
  \<^verbatim>\<open>ull2string\<close>, \<^verbatim>\<open>ll2string\<close>, \<^verbatim>\<open>string2ll\<close> and \<^verbatim>\<open>string2l\<close>. The listpack and the object layer decide with
  them whether a string may be stored as an integer, so the two directions have to agree exactly.
\<close>

section \<open>The functions of the source\<close>

definition ULLONG_MAX :: nat where "ULLONG_MAX = 2 ^ 64 - 1"
definition LLONG_MAX :: nat where "LLONG_MAX = 2 ^ 63 - 1"
definition LONG_STR_SIZE :: nat where "LONG_STR_SIZE = 21"

text \<open>The argument of \<^verbatim>\<open>digits10\<close> is a \<^verbatim>\<open>uint64_t\<close>; the model is total on the naturals.\<close>

function digits10 :: "nat \<Rightarrow> nat" where
  "digits10 v =
     (if v < 10 then 1
      else if v < 100 then 2
      else if v < 1000 then 3
      else if v < 1000000000000 then
        (if v < 100000000 then
           (if v < 1000000 then
              (if v < 10000 then 4 else 5 + (if v \<ge> 100000 then 1 else 0))
            else 7 + (if v \<ge> 10000000 then 1 else 0))
         else if v < 10000000000 then 9 + (if v \<ge> 1000000000 then 1 else 0)
         else 11 + (if v \<ge> 100000000000 then 1 else 0))
      else 12 + digits10 (v div 1000000000000))"
  by pat_completeness auto
termination
  by (relation "measure id") auto

declare digits10.simps [simp del]

definition abs_u64 :: "int \<Rightarrow> nat" where
  "abs_u64 v = (if v \<noteq> - (2 ^ 63) then nat (- v) else LLONG_MAX + 1)"

definition sdigits10 :: "int \<Rightarrow> nat" where
  "sdigits10 v = (if v < 0 then digits10 (abs_u64 v) + 1 else digits10 (nat v))"

definition digit_table :: bytes where
  "digit_table = map of_char
     (''0001020304050607080910111213141516171819'' @
      ''2021222324252627282930313233343536373839'' @
      ''4041424344454647484950515253545556575859'' @
      ''6061626364656667686970717273747576777879'' @
      ''8081828384858687888990919293949596979899'')"

function ull2string_loop :: "bytes \<Rightarrow> nat \<Rightarrow> nat \<Rightarrow> bytes \<times> nat \<times> nat" where
  "ull2string_loop dst next v =
     (if v \<ge> 100 then
        let i = (v mod 100) * 2 in
        ull2string_loop (dst[next := digit_table ! (i + 1), next - 1 := digit_table ! i]) (next - 2) (v div 100)
      else (dst, next, v))"
  by pat_completeness auto
termination
  by (relation "measure (\<lambda>(dst, next, v). v)") auto

declare ull2string_loop.simps [simp del]

text \<open>The buffer \<^verbatim>\<open>dst\<close> has \<^verbatim>\<open>dstlen\<close> bytes; the result is its new content and the length written.\<close>

definition ull2string :: "bytes \<Rightarrow> nat \<Rightarrow> bytes \<times> nat" where
  "ull2string dst v =
     (let dstlen = length dst; len = digits10 v in
      if len \<ge> dstlen then (if dstlen > 0 then dst[0 := 0] else dst, 0)
      else
        let next = len - 1;
            dst1 = dst[next + 1 := 0]
        in case ull2string_loop dst1 next v of (dst2, next2, v2) \<Rightarrow>
           if v2 < 10 then (dst2[next2 := ch (CHR ''0'') + of_nat v2], len)
           else let i = v2 * 2 in
             (dst2[next2 := digit_table ! (i + 1), next2 - 1 := digit_table ! i], len))"

definition ll2string :: "bytes \<Rightarrow> int \<Rightarrow> bytes \<times> nat" where
  "ll2string dst svalue =
     (if svalue < 0 then
        (if length dst < 2 then (if length dst > 0 then dst[0 := 0] else dst, 0)
         else case ull2string (tl dst) (abs_u64 svalue) of (rest, len) \<Rightarrow>
           (ch (CHR ''-'') # rest, if len = 0 then 0 else len + 1))
      else ull2string dst (nat svalue))"

definition is_digit :: "byte \<Rightarrow> bool" where
  "is_digit c \<longleftrightarrow> ch (CHR ''0'') \<le> c \<and> c \<le> ch (CHR ''9'')"

definition digit_val :: "byte \<Rightarrow> nat" where
  "digit_val c = unat c - unat (ch (CHR ''0''))"

text \<open>The digit loop of \<^verbatim>\<open>string2ll\<close>: the value and the unread bytes, or \<^const>\<open>None\<close> on overflow.\<close>

fun string2ll_loop :: "bytes \<Rightarrow> nat \<Rightarrow> (nat \<times> bytes) option" where
  "string2ll_loop [] v = Some (v, [])"
| "string2ll_loop (c # p) v =
     (if is_digit c then
        (if v > ULLONG_MAX div 10 then None
         else let v1 = v * 10 in
           if v1 > ULLONG_MAX - digit_val c then None
           else string2ll_loop p (v1 + digit_val c))
      else Some (v, c # p))"

definition string2ll :: "bytes \<Rightarrow> int option" where
  "string2ll s =
     (if length s = 0 \<or> length s \<ge> LONG_STR_SIZE then None
      else if length s = 1 \<and> s ! 0 = ch (CHR ''0'') then Some 0
      else
        let negative = (s ! 0 = ch (CHR ''-''));
            p = (if negative then tl s else s)
        in case p of
             [] \<Rightarrow> None
           | c # p1 \<Rightarrow>
               if ch (CHR ''1'') \<le> c \<and> c \<le> ch (CHR ''9'') then
                 (case string2ll_loop p1 (digit_val c) of
                    None \<Rightarrow> None
                  | Some (v, rest) \<Rightarrow>
                      if rest \<noteq> [] then None
                      else if negative then
                        (if v > LLONG_MAX + 1 then None else Some (- int v))
                      else (if v > LLONG_MAX then None else Some (int v)))
               else None)"

text \<open>\<^verbatim>\<open>long\<close> and \<^verbatim>\<open>long long\<close> have the same range on the 64 bit targets.\<close>

definition string2l :: "bytes \<Rightarrow> int option" where
  "string2l s = (case string2ll s of
     None \<Rightarrow> None
   | Some v \<Rightarrow> if v < - (2 ^ 63) \<or> v > 2 ^ 63 - 1 then None else Some v)"

section \<open>Decimal notation\<close>

text \<open>The reference: the shortest decimal notation of a natural number and of an integer.\<close>

fun nat_dec :: "nat \<Rightarrow> bytes" where
  "nat_dec n = (if n < 10 then [ch (CHR ''0'') + of_nat n]
                else nat_dec (n div 10) @ [ch (CHR ''0'') + of_nat (n mod 10)])"

declare nat_dec.simps [simp del]

definition int_dec :: "int \<Rightarrow> bytes" where
  "int_dec v = (if v < 0 then ch (CHR ''-'') # nat_dec (nat (- v)) else nat_dec (nat v))"

lemma nat_dec_small: "n < 10 \<Longrightarrow> nat_dec n = [ch (CHR ''0'') + of_nat n]"
  by (subst nat_dec.simps) simp

lemma nat_dec_step: "10 \<le> n \<Longrightarrow> nat_dec n = nat_dec (n div 10) @ [ch (CHR ''0'') + of_nat (n mod 10)]"
  by (subst nat_dec.simps) simp

lemma length_nat_dec_range:
  "10 ^ k \<le> n \<Longrightarrow> n < 10 ^ Suc k \<Longrightarrow> length (nat_dec n) = Suc k"
proof (induction k arbitrary: n)
  case 0
  then show ?case by (simp add: nat_dec_small)
next
  case (Suc k)
  have "10 ^ k \<le> n div 10" "n div 10 < 10 ^ Suc k" using Suc.prems by simp_all
  then have "length (nat_dec (n div 10)) = Suc k" by (rule Suc.IH)
  moreover have "10 \<le> n" using Suc.prems(1) le_trans [of 10 "10 ^ Suc k" n] by simp
  ultimately show ?case by (simp add: nat_dec_step)
qed

lemma length_nat_dec_div:
  "10 ^ k \<le> n \<Longrightarrow> length (nat_dec n) = k + length (nat_dec (n div 10 ^ k))"
proof (induction k arbitrary: n)
  case (Suc k)
  have "10 ^ k \<le> n div 10" using Suc.prems by simp
  then have "length (nat_dec (n div 10)) = k + length (nat_dec (n div 10 div 10 ^ k))" by (rule Suc.IH)
  moreover have "10 \<le> n" using Suc.prems le_trans [of 10 "10 ^ Suc k" n] by simp
  ultimately show ?case by (simp add: nat_dec_step div_mult2_eq)
qed simp

lemma nat_dec_nonempty [simp]: "nat_dec n \<noteq> []"
  by (subst nat_dec.simps) simp

lemmas length_nat_dec_ranges =
  length_nat_dec_range [of 1, simplified] length_nat_dec_range [of 2, simplified]
  length_nat_dec_range [of 3, simplified] length_nat_dec_range [of 4, simplified]
  length_nat_dec_range [of 5, simplified] length_nat_dec_range [of 6, simplified]
  length_nat_dec_range [of 7, simplified] length_nat_dec_range [of 8, simplified]
  length_nat_dec_range [of 9, simplified] length_nat_dec_range [of 10, simplified]
  length_nat_dec_range [of 11, simplified]

lemma digits10_length: "digits10 v = length (nat_dec v)"
proof (induction v rule: digits10.induct)
  case (1 v)
  show ?case
  proof (cases "v < 1000000000000")
    case True
    then show ?thesis
      by (subst digits10.simps) (auto simp: not_less nat_dec_small length_nat_dec_ranges)
  next
    case False
    then have "digits10 (v div 1000000000000) = length (nat_dec (v div 1000000000000))"
      by (intro "1.IH") simp_all
    moreover have "length (nat_dec v) = 12 + length (nat_dec (v div 10 ^ 12))"
      using False by (intro length_nat_dec_div) simp
    ultimately show ?thesis using False by (subst digits10.simps) simp
  qed
qed

lemma digit_table_nth:
  assumes "k < 100"
  shows "digit_table ! (k * 2) = ch (CHR ''0'') + of_nat (k div 10)"
    and "digit_table ! (k * 2 + 1) = ch (CHR ''0'') + of_nat (k mod 10)"
proof -
  have "list_all (\<lambda>k. digit_table ! (k * 2) = (48 :: byte) + of_nat (k div 10) \<and>
      digit_table ! (k * 2 + 1) = (48 :: byte) + of_nat (k mod 10)) [0..<100]"
    by (simp add: digit_table_def upt_rec)
  with assms show "digit_table ! (k * 2) = ch (CHR ''0'') + of_nat (k div 10)"
    and "digit_table ! (k * 2 + 1) = ch (CHR ''0'') + of_nat (k mod 10)"
    by (auto simp: list_all_iff)
qed

lemma nat_dec_step2:
  assumes "100 \<le> v"
  shows "nat_dec v = nat_dec (v div 100) @
    [digit_table ! ((v mod 100) * 2), digit_table ! ((v mod 100) * 2 + 1)]"
proof -
  have "v div 10 mod 10 = v mod 100 div 10" "v mod 10 = v mod 100 mod 10"
    by (simp_all add: mod_mult2_eq [of v 10 10, simplified] mod_mod_cancel)
  then show ?thesis using assms digit_table_nth [of "v mod 100"]
    by (simp add: nat_dec_step [of v] nat_dec_step [of "v div 10"] div_mult2_eq [symmetric])
qed

lemma nat_dec_two:
  "10 \<le> v \<Longrightarrow> v < 100 \<Longrightarrow> nat_dec v = [digit_table ! (v * 2), digit_table ! (v * 2 + 1)]"
  using digit_table_nth [of v] by (simp add: nat_dec_step nat_dec_small)

text \<open>The pairs of digits written back to front are the decimal notation, and nothing else changes.\<close>

lemma ull2string_loop_correct:
  assumes "ull2string_loop dst next v = (dst2, next2, v2)"
    and "length (nat_dec v) = next + 1" "next < length dst"
  shows "(if v2 < 10 then dst2[next2 := ch (CHR ''0'') + of_nat v2]
          else dst2[next2 := digit_table ! (v2 * 2 + 1), next2 - 1 := digit_table ! (v2 * 2)])
       = nat_dec v @ drop (next + 1) dst"
  using assms
proof (induction dst "next" v arbitrary: dst2 next2 v2 rule: ull2string_loop.induct)
  case (1 dst "next" v)
  show ?case
  proof (cases "100 \<le> v")
    case True
    let ?i = "(v mod 100) * 2"
    let ?d = "dst[next := digit_table ! (?i + 1), next - 1 := digit_table ! ?i]"
    have l: "length (nat_dec (v div 100)) + 2 = next + 1"
      using nat_dec_step2 [OF True] "1.prems"(2) by simp
    moreover have "length (nat_dec (v div 100)) \<noteq> 0" by simp
    ultimately obtain m where m: "next = m + 2" "length (nat_dec (v div 100)) = m + 1"
      by (metis Suc_eq_plus1 add_2_eq_Suc' not0_implies_Suc add_Suc_right old.nat.inject)
    have "ull2string_loop dst next v = ull2string_loop ?d (next - 2) (v div 100)"
      using True by (subst ull2string_loop.simps) (simp add: Let_def)
    then have "ull2string_loop ?d m (v div 100) = (dst2, next2, v2)"
      using "1.prems"(1) m by simp
    from "1.IH" [OF True refl, unfolded m(1)] this m "1.prems"(3)
    have "(if v2 < 10 then dst2[next2 := ch (CHR ''0'') + of_nat v2]
          else dst2[next2 := digit_table ! (v2 * 2 + 1), next2 - 1 := digit_table ! (v2 * 2)])
       = nat_dec (v div 100) @ drop (m + 1) ?d"
      by simp
    moreover have "drop (m + 1) ?d = [digit_table ! ?i, digit_table ! (?i + 1)] @ drop (next + 1) dst"
      using "1.prems"(3) m
      by (intro nth_equalityI)
        (auto simp: nth_append nth_Cons' nth_list_update intro!: arg_cong [where f = "(!) dst"])
    ultimately show ?thesis by (simp add: nat_dec_step2 [OF True])
  next
    case False
    then have e: "dst2 = dst" "next2 = next" "v2 = v"
      using "1.prems"(1) by (simp_all add: ull2string_loop.simps [of dst "next" v])
    show ?thesis
    proof (cases "v < 10")
      case True
      then show ?thesis using "1.prems"(2,3) e
        by (cases dst) (simp_all add: nat_dec_small)
    next
      case ge: False
      then have "nat_dec v = [digit_table ! (v * 2), digit_table ! (v * 2 + 1)]" using False
        by (intro nat_dec_two) simp_all
      then show ?thesis using "1.prems"(2,3) e ge
        by (intro nth_equalityI) (auto simp: nth_append nth_Cons' nth_list_update)
    qed
  qed
qed

lemma ull2string_fits:
  assumes "length (nat_dec v) < length dst"
  shows "ull2string dst v = (nat_dec v @ 0 # drop (length (nat_dec v) + 1) dst, length (nat_dec v))"
proof -
  let ?n = "length (nat_dec v)"
  have n: "?n - 1 + 1 = ?n" by (simp add: Suc_leI)
  obtain d2 n2 v2 where r: "ull2string_loop (dst[?n := 0]) (?n - 1) v = (d2, n2, v2)" by (rule prod_cases3)
  have "ull2string dst v = ((if v2 < 10 then d2[n2 := ch (CHR ''0'') + of_nat v2]
          else d2[n2 := digit_table ! (v2 * 2 + 1), n2 - 1 := digit_table ! (v2 * 2)]), ?n)"
    using assms n r by (simp add: ull2string_def digits10_length Let_def)
  moreover have "\<dots> = (nat_dec v @ drop ?n (dst[?n := 0]), ?n)"
    using ull2string_loop_correct [OF r] n assms by simp
  moreover have "drop ?n (dst[?n := 0]) = 0 # drop (?n + 1) dst"
    using assms by (simp add: drop_update_swap Cons_nth_drop_Suc [symmetric])
  ultimately show ?thesis by simp
qed

lemma ull2string_short:
  "length dst \<le> length (nat_dec v) \<Longrightarrow>
   ull2string dst v = (if dst = [] then dst else dst[0 := 0], 0)"
  by (simp add: ull2string_def digits10_length)

section \<open>Parsing\<close>

definition dec_val :: "nat \<Rightarrow> bytes \<Rightarrow> nat" where
  "dec_val = foldl (\<lambda>a c. a * 10 + digit_val c)"

lemma dec_val_Nil [simp]: "dec_val v [] = v"
  and dec_val_Cons [simp]: "dec_val v (c # p) = dec_val (v * 10 + digit_val c) p"
  and dec_val_snoc: "dec_val v (p @ [c]) = dec_val v p * 10 + digit_val c"
  by (simp_all add: dec_val_def)

lemma dec_val_ge: "v \<le> dec_val v p"
proof (induction p arbitrary: v)
  case (Cons c p)
  have "v \<le> v * 10 + digit_val c" by simp
  also have "\<dots> \<le> dec_val (v * 10 + digit_val c) p" by (rule Cons.IH)
  finally show ?case by simp
qed simp

lemma is_digit_iff: "is_digit c \<longleftrightarrow> 48 \<le> unat c \<and> unat c \<le> 57"
  by (simp add: is_digit_def word_le_nat_alt)

lemma digit_val_eq: "digit_val c = unat c - 48"
  by (simp add: digit_val_def)

lemma digit_char_inv: "is_digit c \<Longrightarrow> ch (CHR ''0'') + of_nat (digit_val c) = c"
  by (subst word_unat_eq_iff)
    (auto simp: is_digit_iff digit_val_eq unat_word_ariths unat_of_nat)

lemma digit_of_nat:
  assumes "n < 10"
  shows "is_digit (48 + of_nat n)" "digit_val (48 + of_nat n) = n" "unat (48 + of_nat n :: byte) = 48 + n"
proof -
  show "unat (48 + of_nat n :: byte) = 48 + n"
    using assms by (simp add: unat_word_ariths unat_of_nat)
  then show "is_digit (48 + of_nat n)" "digit_val (48 + of_nat n) = n"
    using assms by (simp_all add: is_digit_iff digit_val_eq)
qed

lemma string2ll_loop_iff:
  "v \<le> ULLONG_MAX \<Longrightarrow> string2ll_loop p v = Some (w, []) \<longleftrightarrow>
     (\<forall>c \<in> set p. is_digit c) \<and> w = dec_val v p \<and> w \<le> ULLONG_MAX"
proof (induction p arbitrary: v)
  case Nil
  then show ?case by auto
next
  case (Cons c p)
  show ?case
  proof (cases "is_digit c \<and> v * 10 + digit_val c \<le> ULLONG_MAX")
    case True
    then have "\<not> v > ULLONG_MAX div 10" "\<not> v * 10 > ULLONG_MAX - digit_val c"
      by (auto simp: ULLONG_MAX_def)
    then show ?thesis using True Cons.IH [of "v * 10 + digit_val c"] by (simp add: Let_def)
  next
    case False
    have "v * 10 + digit_val c \<le> dec_val v (c # p)" using dec_val_ge by simp
    then show ?thesis using False
      by (auto simp: Let_def not_less ULLONG_MAX_def digit_val_eq is_digit_iff)
  qed
qed

lemma nat_dec_dec_val:
  assumes "0 < v" "v < 10" "\<forall>c \<in> set p. is_digit c"
  shows "nat_dec (dec_val v p) = (48 + of_nat v) # p \<and> 0 < dec_val v p"
  using assms(3)
proof (induction p rule: rev_induct)
  case Nil
  then show ?case using assms(1,2) by (simp add: nat_dec_small)
next
  case (snoc d p)
  then have IH: "nat_dec (dec_val v p) = (48 + of_nat v) # p" "0 < dec_val v p" and d: "is_digit d"
    by simp_all
  have dv: "digit_val d < 10" using d by (auto simp: is_digit_iff digit_val_eq)
  have "nat_dec (dec_val v p * 10 + digit_val d) = nat_dec (dec_val v p) @ [48 + of_nat (digit_val d)]"
    using IH(2) dv by (subst nat_dec_step) simp_all
  then show ?case using IH dv d digit_char_inv [OF d] by (simp add: dec_val_snoc)
qed

lemma nat_dec_parse:
  "0 < n \<Longrightarrow> \<exists>v p. 0 < v \<and> v < 10 \<and> nat_dec n = (48 + of_nat v) # p \<and> (\<forall>c \<in> set p. is_digit c) \<and> dec_val v p = n"
proof (induction n rule: nat_dec.induct)
  case (1 n)
  show ?case
  proof (cases "n < 10")
    case True
    then show ?thesis using "1.prems" by (intro exI [of _ n] exI [of _ "[]"]) (simp add: nat_dec_small)
  next
    case False
    then have "0 < n div 10" by simp
    from "1.IH" [OF False this] obtain v p where
      vp: "0 < v" "v < 10" "nat_dec (n div 10) = (48 + of_nat v) # p"
      "\<forall>c \<in> set p. is_digit c" "dec_val v p = n div 10" by blast
    let ?d = "48 + of_nat (n mod 10) :: byte"
    have d: "is_digit ?d" "digit_val ?d = n mod 10" using digit_of_nat [of "n mod 10"] by simp_all
    have "dec_val v (p @ [?d]) = n" using vp d by (simp add: dec_val_snoc)
    moreover have "nat_dec n = (48 + of_nat v) # (p @ [?d])" using False vp by (simp add: nat_dec_step)
    ultimately show ?thesis using vp d by (intro exI [of _ v] exI [of _ "p @ [?d]"]) auto
  qed
qed

lemma length_nat_dec_le: "n < 10 ^ k \<Longrightarrow> 0 < k \<Longrightarrow> length (nat_dec n) \<le> k"
proof (induction k arbitrary: n)
  case (Suc k)
  show ?case
  proof (cases "n < 10")
    case True
    then show ?thesis by (simp add: nat_dec_small)
  next
    case False
    have "n div 10 < 10 ^ k" using Suc.prems(1) by (simp add: less_mult_imp_div_less mult.commute)
    moreover have "0 < k" using Suc.prems(1) False by (cases k) simp_all
    ultimately show ?thesis using Suc.IH [of "n div 10"] False by (simp add: nat_dec_step)
  qed
qed simp

text \<open>The strictness the comment of \<^verbatim>\<open>string2ll\<close> promises, in both directions.\<close>

lemma first_digit_iff: "ch (CHR ''1'') \<le> c \<and> c \<le> ch (CHR ''9'') \<longleftrightarrow> is_digit c \<and> 0 < digit_val c"
  by (auto simp: is_digit_iff digit_val_eq word_le_nat_alt)

lemma digit_val_less: "is_digit c \<Longrightarrow> digit_val c < 10"
  by (auto simp: is_digit_iff digit_val_eq)

text \<open>The unsigned core: a non-empty string of digits without a leading zero.\<close>

lemma string2ll_digits:
  assumes "is_digit c" "0 < digit_val c"
  shows "string2ll_loop p (digit_val c) = Some (n, []) \<longleftrightarrow> c # p = nat_dec n \<and> 0 < n \<and> n \<le> ULLONG_MAX"
proof
  have small: "digit_val c \<le> ULLONG_MAX" using digit_val_less [OF assms(1)] by (simp add: ULLONG_MAX_def)
  note iff = string2ll_loop_iff [OF small, of p n]
  { assume "string2ll_loop p (digit_val c) = Some (n, [])"
    then have l: "\<forall>c \<in> set p. is_digit c" "n = dec_val (digit_val c) p" "n \<le> ULLONG_MAX" by (simp_all add: iff)
    show "c # p = nat_dec n \<and> 0 < n \<and> n \<le> ULLONG_MAX"
      using nat_dec_dec_val [OF assms(2) digit_val_less [OF assms(1)] l(1)] l digit_char_inv [OF assms(1)]
      by simp }
  { assume r: "c # p = nat_dec n \<and> 0 < n \<and> n \<le> ULLONG_MAX"
    then obtain v q where vq: "v < 10" "nat_dec n = (48 + of_nat v) # q"
      "\<forall>c \<in> set q. is_digit c" "dec_val v q = n" using nat_dec_parse [of n] by blast
    then have "c = 48 + of_nat v" "p = q" using r by simp_all
    then show "string2ll_loop p (digit_val c) = Some (n, [])"
      unfolding iff using vq r digit_of_nat(2) [OF vq(1)] by simp }
qed

lemma nat_dec_hd: "0 < n \<Longrightarrow> \<exists>c p. nat_dec n = c # p \<and> is_digit c \<and> 0 < digit_val c"
  using nat_dec_parse [of n] digit_of_nat by fastforce

lemma length_int_dec:
  assumes "in_i64 v"
  shows "length (int_dec v) < LONG_STR_SIZE" "int_dec v \<noteq> []"
proof -
  have "nat v < 10 ^ 19" "nat (- v) < 10 ^ 19" using assms by (auto simp: in_i64_def)
  then have "length (nat_dec (nat v)) \<le> 19" "length (nat_dec (nat (- v))) \<le> 19"
    by (auto intro: length_nat_dec_le)
  then show "length (int_dec v) < LONG_STR_SIZE" "int_dec v \<noteq> []"
    by (simp_all add: int_dec_def LONG_STR_SIZE_def)
qed

lemma string2ll_cases:
  "string2ll s = Some v \<longleftrightarrow> length s < LONG_STR_SIZE \<and>
     ((s = [48] \<and> v = 0) \<or>
      (\<exists>c p n. s = c # p \<and> is_digit c \<and> 0 < digit_val c \<and> string2ll_loop p (digit_val c) = Some (n, [])
         \<and> n \<le> LLONG_MAX \<and> v = int n) \<or>
      (\<exists>c p n. s = 45 # c # p \<and> is_digit c \<and> 0 < digit_val c \<and> string2ll_loop p (digit_val c) = Some (n, [])
         \<and> n \<le> LLONG_MAX + 1 \<and> v = - int n))"
  (is "?l \<longleftrightarrow> ?len \<and> (?z \<or> ?p \<or> ?m)")
proof -
  have d45: "\<not> is_digit 45" by (simp add: is_digit_iff)
  have d48: "digit_val 48 = 0" by (simp add: digit_val_eq)
  consider "s = [] \<or> \<not> ?len" | "s = [48]" ?len | c p where "s = c # p" "s \<noteq> [48]" "c \<noteq> 45" ?len
    | "s = [45]" ?len | c p where "s = 45 # c # p" ?len
    by (metis list.exhaust)
  then show ?thesis
  proof cases
    case 1
    then show ?thesis by (auto simp: string2ll_def LONG_STR_SIZE_def)
  next
    case 2
    then show ?thesis by (auto simp: string2ll_def d48 LONG_STR_SIZE_def)
  next
    case 3
    have "string2ll s = (if is_digit c \<and> 0 < digit_val c then
        (case string2ll_loop p (digit_val c) of None \<Rightarrow> None
         | Some (v, rest) \<Rightarrow> if rest \<noteq> [] then None else if v > LLONG_MAX then None else Some (int v))
      else None)"
      using 3 by (auto simp: string2ll_def first_digit_iff [simplified] Let_def split: option.splits)
    then show ?thesis using 3 by (auto split: option.splits)
  next
    case 4
    then show ?thesis by (auto simp: string2ll_def d45)
  next
    case 5
    have "string2ll s = (if is_digit c \<and> 0 < digit_val c then
        (case string2ll_loop p (digit_val c) of None \<Rightarrow> None
         | Some (v, rest) \<Rightarrow> if rest \<noteq> [] then None else if v > LLONG_MAX + 1 then None else Some (- int v))
      else None)"
      using 5 by (auto simp: string2ll_def first_digit_iff [simplified] Let_def split: option.splits)
    then show ?thesis using 5 d45 by (auto split: option.splits)
  qed
qed

lemma string2ll_iff: "string2ll s = Some v \<longleftrightarrow> in_i64 v \<and> s = int_dec v"
proof
  assume "string2ll s = Some v"
  then consider "s = [48]" "v = 0"
    | c p n where "s = c # p" "is_digit c" "0 < digit_val c"
        "string2ll_loop p (digit_val c) = Some (n, [])" "n \<le> LLONG_MAX" "v = int n"
    | c p n where "s = 45 # c # p" "is_digit c" "0 < digit_val c"
        "string2ll_loop p (digit_val c) = Some (n, [])" "n \<le> LLONG_MAX + 1" "v = - int n"
    unfolding string2ll_cases by blast
  then show "in_i64 v \<and> s = int_dec v"
  proof cases
    case 1
    then show ?thesis by (simp add: in_i64_def int_dec_def nat_dec_small)
  next
    case 2
    then show ?thesis using string2ll_digits [OF 2(2,3), of p n]
      by (simp add: in_i64_def int_dec_def LLONG_MAX_def)
  next
    case 3
    then show ?thesis using string2ll_digits [OF 3(2,3), of p n]
      by (simp add: in_i64_def int_dec_def LLONG_MAX_def)
  qed
next
  assume a: "in_i64 v \<and> s = int_dec v"
  then have len: "length s < LONG_STR_SIZE" using length_int_dec by blast
  consider "v = 0" | "0 < v" | "v < 0" by linarith
  then show "string2ll s = Some v"
  proof cases
    case 1
    then show ?thesis using a len by (simp add: string2ll_cases int_dec_def nat_dec_small)
  next
    case 2
    then obtain c p where c: "nat_dec (nat v) = c # p" "is_digit c" "0 < digit_val c"
      using nat_dec_hd [of "nat v"] by auto
    have n: "0 < nat v" "nat v \<le> ULLONG_MAX" "nat v \<le> LLONG_MAX" "v = int (nat v)"
      using a 2 by (auto simp: in_i64_def ULLONG_MAX_def LLONG_MAX_def)
    have "string2ll_loop p (digit_val c) = Some (nat v, [])"
      using string2ll_digits [OF c(2,3), of p "nat v"] c n by simp
    moreover have "s = c # p" using a c 2 by (simp add: int_dec_def)
    ultimately show ?thesis using c n len unfolding string2ll_cases by blast
  next
    case 3
    then obtain c p where c: "nat_dec (nat (- v)) = c # p" "is_digit c" "0 < digit_val c"
      using nat_dec_hd [of "nat (- v)"] by auto
    have n: "0 < nat (- v)" "nat (- v) \<le> ULLONG_MAX" "nat (- v) \<le> LLONG_MAX + 1" "v = - int (nat (- v))"
      using a 3 by (auto simp: in_i64_def ULLONG_MAX_def LLONG_MAX_def)
    have "string2ll_loop p (digit_val c) = Some (nat (- v), [])"
      using string2ll_digits [OF c(2,3), of p "nat (- v)"] c n by simp
    moreover have "s = 45 # c # p" using a c 3 by (simp add: int_dec_def)
    ultimately show ?thesis using c n len unfolding string2ll_cases by blast
  qed
qed

lemma ll2string_fits:
  assumes "in_i64 v" "length (int_dec v) < length dst"
  shows "ll2string dst v = (int_dec v @ 0 # drop (length (int_dec v) + 1) dst, length (int_dec v))"
proof (cases "v < 0")
  case True
  have av: "abs_u64 v = nat (- v)" using assms(1) by (auto simp: abs_u64_def LLONG_MAX_def)
  have l: "length (nat_dec (nat (- v))) < length (tl dst)" "\<not> length dst < 2"
    using assms(2) True nat_dec_nonempty [of "nat (- v)"]
    by (simp_all add: int_dec_def)
  have "ull2string (tl dst) (nat (- v)) = (nat_dec (nat (- v)) @
      0 # drop (length (nat_dec (nat (- v))) + 1) (tl dst), length (nat_dec (nat (- v))))"
    by (rule ull2string_fits [OF l(1)])
  then show ?thesis using True l av
    by (simp add: ll2string_def int_dec_def drop_Suc)
next
  case False
  then show ?thesis using assms(2) by (simp add: ll2string_def int_dec_def ull2string_fits)
qed

lemma ll2string_short:
  assumes "in_i64 v" "length dst \<le> length (int_dec v)"
  shows "snd (ll2string dst v) = 0"
proof (cases "v < 0")
  case True
  have "abs_u64 v = nat (- v)" using assms(1) by (auto simp: abs_u64_def LLONG_MAX_def)
  then show ?thesis using True assms(2)
    by (auto simp: ll2string_def int_dec_def ull2string_short le_diff_conv split: prod.splits)
next
  case False
  then show ?thesis using assms(2) by (simp add: ll2string_def int_dec_def ull2string_short)
qed

lemma sdigits10_length: "in_i64 v \<Longrightarrow> sdigits10 v = length (int_dec v)"
  by (auto simp: sdigits10_def digits10_length abs_u64_def int_dec_def in_i64_def LLONG_MAX_def)

section \<open>Properties\<close>

text \<open>C16: \<^verbatim>\<open>string2ll\<close> accepts a string exactly when it is the canonical decimal notation of an integer
  that fits a \<^verbatim>\<open>long long\<close>, and then returns that integer: no spaces, no leading zeros, no overflow is
  ever accepted, and every in-range integer is.\<close>

theorem string2ll_exact: "string2ll s = Some v \<longleftrightarrow> in_i64 v \<and> s = int_dec v"
  by (rule string2ll_iff)

text \<open>C17: round trip. \<^verbatim>\<open>ll2string\<close> into a buffer of more than \<^verbatim>\<open>sdigits10\<close> bytes writes that many bytes,
  which \<^verbatim>\<open>string2ll\<close> reads back as the same integer, puts the terminator after them and leaves the
  rest of the buffer alone; into a smaller buffer it reports 0.\<close>

theorem ll2string_roundtrip:
  assumes "in_i64 v" and "ll2string dst v = (dst', n)"
  shows "if sdigits10 v < length dst
    then n = sdigits10 v \<and> string2ll (take n dst') = Some v \<and> dst' ! n = 0 \<and>
         length dst' = length dst \<and> drop (n + 1) dst' = drop (n + 1) dst
    else n = 0"
proof (cases "sdigits10 v < length dst")
  case True
  then have l: "length (int_dec v) < length dst" using assms(1) by (simp add: sdigits10_length)
  have "dst' = int_dec v @ 0 # drop (length (int_dec v) + 1) dst" "n = length (int_dec v)"
    using ll2string_fits [OF assms(1) l] assms(2) by simp_all
  then show ?thesis using True l assms(1)
    by (simp add: sdigits10_length string2ll_iff nth_append)
next
  case False
  then show ?thesis using ll2string_short [OF assms(1), of dst] assms by (simp add: sdigits10_length)
qed

theorem ll2string_roundtrip_witness:
  "in_i64 (-205) \<and> ll2string [1, 2, 3, 4, 5, 6] (-205) = ([45, 50, 48, 53, 0, 6], 4) \<and>
   string2ll (take 4 [45, 50, 48, 53, 0, 6]) = Some (-205)"
proof -
  have v: "in_i64 (-205)" by (simp add: in_i64_def)
  have d: "int_dec (-205) = [45, 50, 48, 53]" by (simp add: int_dec_def nat_dec.simps)
  have "ll2string [1, 2, 3, 4, 5, 6] (-205) = ([45, 50, 48, 53, 0, 6], 4)"
    by (subst ll2string_fits [OF v]) (simp_all add: d)
  from ll2string_roundtrip [OF v this] this v show ?thesis by (simp add: sdigits10_length d)
qed

end
