(* ===== verification/Listpack_Enc.thy ===== *)
theory Listpack_Enc
  imports Strnum
begin

text \<open>
  Encoding of single listpack elements (\<^verbatim>\<open>listpack.c\<close>): the integer and string encodings, the length
  of an encoded element read from its first bytes, the reverse-encoded \<^verbatim>\<open>backlen\<close> that closes every
  element, and the decoder \<^verbatim>\<open>lpGetWithSize\<close>. A pointer to an element is the list of bytes from there
  on.
\<close>

section \<open>Encoders and decoders of the source\<close>

definition LP_EOF :: byte where "LP_EOF = 0xFF"

definition LP_ENCODING_IS_7BIT_UINT :: "byte \<Rightarrow> bool" where
  "LP_ENCODING_IS_7BIT_UINT b \<longleftrightarrow> b AND 0x80 = 0"
definition LP_ENCODING_IS_6BIT_STR :: "byte \<Rightarrow> bool" where
  "LP_ENCODING_IS_6BIT_STR b \<longleftrightarrow> b AND 0xC0 = 0x80"
definition LP_ENCODING_IS_13BIT_INT :: "byte \<Rightarrow> bool" where
  "LP_ENCODING_IS_13BIT_INT b \<longleftrightarrow> b AND 0xE0 = 0xC0"
definition LP_ENCODING_IS_12BIT_STR :: "byte \<Rightarrow> bool" where
  "LP_ENCODING_IS_12BIT_STR b \<longleftrightarrow> b AND 0xF0 = 0xE0"
definition LP_ENCODING_IS_16BIT_INT :: "byte \<Rightarrow> bool" where
  "LP_ENCODING_IS_16BIT_INT b \<longleftrightarrow> b AND 0xFF = 0xF1"
definition LP_ENCODING_IS_24BIT_INT :: "byte \<Rightarrow> bool" where
  "LP_ENCODING_IS_24BIT_INT b \<longleftrightarrow> b AND 0xFF = 0xF2"
definition LP_ENCODING_IS_32BIT_INT :: "byte \<Rightarrow> bool" where
  "LP_ENCODING_IS_32BIT_INT b \<longleftrightarrow> b AND 0xFF = 0xF3"
definition LP_ENCODING_IS_64BIT_INT :: "byte \<Rightarrow> bool" where
  "LP_ENCODING_IS_64BIT_INT b \<longleftrightarrow> b AND 0xFF = 0xF4"
definition LP_ENCODING_IS_32BIT_STR :: "byte \<Rightarrow> bool" where
  "LP_ENCODING_IS_32BIT_STR b \<longleftrightarrow> b AND 0xFF = 0xF0"

definition LP_ENCODING_6BIT_STR_LEN :: "bytes \<Rightarrow> nat" where
  "LP_ENCODING_6BIT_STR_LEN p = unat (p ! 0 AND 0x3F)"
definition LP_ENCODING_12BIT_STR_LEN :: "bytes \<Rightarrow> nat" where
  "LP_ENCODING_12BIT_STR_LEN p = unat (p ! 0 AND 0xF) * 256 + unat (p ! 1)"
definition LP_ENCODING_32BIT_STR_LEN :: "bytes \<Rightarrow> nat" where
  "LP_ENCODING_32BIT_STR_LEN p = nat (le_uint (bread 1 4 p))"

text \<open>\<^verbatim>\<open>lpStringToInt64\<close> is the text of \<^verbatim>\<open>string2ll\<close> over again; it shares its digit loop here.\<close>

definition lpStringToInt64 :: "bytes \<Rightarrow> int option" where
  "lpStringToInt64 s =
     (if length s = 0 \<or> length s \<ge> LONG_STR_SIZE then None
      else if length s = 1 \<and> s ! 0 = ch (CHR ''0'') then Some 0
      else
        let negative = (s ! 0 = ch (CHR ''-''));
            p = (if negative then tl s else s)
        in case p of
             [] \<Rightarrow> None
           | c # p1 \<Rightarrow>
               if ch (CHR ''1'') \<le> c \<and> c \<le> ch (CHR ''9'') then
                 (case string2ll_loop p1 (digit_val c) of
                    None \<Rightarrow> None
                  | Some (v, rest) \<Rightarrow>
                      if rest \<noteq> [] then None
                      else if negative then
                        (if v > LLONG_MAX + 1 then None else Some (- int v))
                      else (if v > LLONG_MAX then None else Some (int v)))
               else None)"

text \<open>The bytes \<^verbatim>\<open>lpEncodeIntegerGetType\<close> stores in \<^verbatim>\<open>intenc\<close>; \<^verbatim>\<open>enclen\<close> is their number.\<close>

definition lpEncodeIntegerGetType :: "int \<Rightarrow> bytes" where
  "lpEncodeIntegerGetType v =
     (if 0 \<le> v \<and> v \<le> 127 then [word_of_int v]
      else if -4096 \<le> v \<and> v \<le> 4095 then
        let v = (if v < 0 then 2 ^ 13 + v else v) in [word_of_int (v div 2 ^ 8) OR 0xC0, word_of_int v]
      else if -32768 \<le> v \<and> v \<le> 32767 then
        let v = (if v < 0 then 2 ^ 16 + v else v) in 0xF1 # le_bytes 2 v
      else if -8388608 \<le> v \<and> v \<le> 8388607 then
        let v = (if v < 0 then 2 ^ 24 + v else v) in 0xF2 # le_bytes 3 v
      else if -2147483648 \<le> v \<and> v \<le> 2147483647 then
        let v = (if v < 0 then 2 ^ 32 + v else v) in 0xF3 # le_bytes 4 v
      else let uv = v mod 2 ^ 64 in 0xF4 # le_bytes 8 uv)"

text \<open>\<^verbatim>\<open>lpEncodeGetType\<close>: \<^verbatim>\<open>LP_ENCODING_INT\<close> with the integer's bytes, or \<^verbatim>\<open>LP_ENCODING_STRING\<close>; the
  encoded length in both cases.\<close>

datatype lp_enctype = LP_ENCODING_INT bytes | LP_ENCODING_STRING

definition lpEncodeGetType :: "bytes \<Rightarrow> lp_enctype \<times> nat" where
  "lpEncodeGetType ele =
     (let size = length ele in
      case lpStringToInt64 ele of
        Some v \<Rightarrow> (LP_ENCODING_INT (lpEncodeIntegerGetType v), length (lpEncodeIntegerGetType v))
      | None \<Rightarrow> (LP_ENCODING_STRING, if size < 64 then 1 + size else if size < 4096 then 2 + size else 5 + size))"

definition lpEncodeBacklen :: "nat \<Rightarrow> bytes" where
  "lpEncodeBacklen l =
     (if l \<le> 127 then [of_nat l]
      else if l < 16383 then [of_nat (l div 2 ^ 7), of_nat (l mod 128) OR 128]
      else if l < 2097151 then
        [of_nat (l div 2 ^ 14), of_nat (l div 2 ^ 7 mod 128) OR 128, of_nat (l mod 128) OR 128]
      else if l < 268435455 then
        [of_nat (l div 2 ^ 21), of_nat (l div 2 ^ 14 mod 128) OR 128, of_nat (l div 2 ^ 7 mod 128) OR 128,
         of_nat (l mod 128) OR 128]
      else
        [of_nat (l div 2 ^ 28), of_nat (l div 2 ^ 21 mod 128) OR 128, of_nat (l div 2 ^ 14 mod 128) OR 128,
         of_nat (l div 2 ^ 7 mod 128) OR 128, of_nat (l mod 128) OR 128])"

text \<open>
  \<^verbatim>\<open>lpDecodeBacklen\<close> walks backwards from offset \<open>p\<close> of the buffer: the bytes it visits are
  \<open>lp ! p\<close>, \<open>lp ! (p - 1)\<close> and so on. \<^verbatim>\<open>UINT64_MAX\<close> reports an encoding of more than five bytes.
\<close>

function lpDecodeBacklen_loop :: "bytes \<Rightarrow> nat \<Rightarrow> nat \<Rightarrow> nat \<Rightarrow> nat" where
  "lpDecodeBacklen_loop lp p shift val =
     (let val' = val + unat (lp ! p AND 127) * 2 ^ shift in
      if lp ! p AND 128 = 0 then val'
      else if shift + 7 > 28 then ULLONG_MAX
      else lpDecodeBacklen_loop lp (p - 1) (shift + 7) val')"
  by pat_completeness auto
termination
  by (relation "measure (\<lambda>(lp, p, shift, val). 35 - shift)") auto

declare lpDecodeBacklen_loop.simps [simp del]

definition lpDecodeBacklen :: "bytes \<Rightarrow> nat \<Rightarrow> nat" where
  "lpDecodeBacklen lp p = lpDecodeBacklen_loop lp p 0 0"

definition lpEncodeString :: "bytes \<Rightarrow> bytes" where
  "lpEncodeString s =
     (let len = length s in
      if len < 64 then (of_nat len OR 0x80) # s
      else if len < 4096 then (of_nat (len div 2 ^ 8) OR 0xE0) # of_nat (len mod 256) # s
      else 0xF0 # le_bytes 4 (int len) @ s)"

definition lpCurrentEncodedSizeUnsafe :: "bytes \<Rightarrow> nat" where
  "lpCurrentEncodedSizeUnsafe p =
     (if LP_ENCODING_IS_7BIT_UINT (p ! 0) then 1
      else if LP_ENCODING_IS_6BIT_STR (p ! 0) then 1 + LP_ENCODING_6BIT_STR_LEN p
      else if LP_ENCODING_IS_13BIT_INT (p ! 0) then 2
      else if LP_ENCODING_IS_16BIT_INT (p ! 0) then 3
      else if LP_ENCODING_IS_24BIT_INT (p ! 0) then 4
      else if LP_ENCODING_IS_32BIT_INT (p ! 0) then 5
      else if LP_ENCODING_IS_64BIT_INT (p ! 0) then 9
      else if LP_ENCODING_IS_12BIT_STR (p ! 0) then 2 + LP_ENCODING_12BIT_STR_LEN p
      else if LP_ENCODING_IS_32BIT_STR (p ! 0) then (5 + LP_ENCODING_32BIT_STR_LEN p) mod 2 ^ 32
      else if p ! 0 = LP_EOF then 1
      else 0)"

definition lpCurrentEncodedSizeBytes :: "bytes \<Rightarrow> nat" where
  "lpCurrentEncodedSizeBytes p =
     (if LP_ENCODING_IS_7BIT_UINT (p ! 0) then 1
      else if LP_ENCODING_IS_6BIT_STR (p ! 0) then 1
      else if LP_ENCODING_IS_13BIT_INT (p ! 0) then 1
      else if LP_ENCODING_IS_16BIT_INT (p ! 0) then 1
      else if LP_ENCODING_IS_24BIT_INT (p ! 0) then 1
      else if LP_ENCODING_IS_32BIT_INT (p ! 0) then 1
      else if LP_ENCODING_IS_64BIT_INT (p ! 0) then 1
      else if LP_ENCODING_IS_12BIT_STR (p ! 0) then 2
      else if LP_ENCODING_IS_32BIT_STR (p ! 0) then 5
      else if p ! 0 = LP_EOF then 1
      else 0)"

text \<open>
  \<^verbatim>\<open>lpGetWithSize\<close> without \<^verbatim>\<open>intbuf\<close>: an integer (the \<^verbatim>\<open>NULL\<close> return), or a string given by its offset
  from \<open>p\<close> and its length; and \<^verbatim>\<open>*entry_size\<close> where the branch sets it.
\<close>

datatype lp_value = LpInt int | LpStr nat nat

definition lp_signed :: "nat \<Rightarrow> nat \<Rightarrow> nat \<Rightarrow> int" where
  "lp_signed uval negstart negmax =
     (if uval \<ge> negstart then - (int negmax - int uval) - 1 else int uval)"

definition lpGetWithSize :: "bytes \<Rightarrow> lp_value \<times> nat option" where
  "lpGetWithSize p =
     (if LP_ENCODING_IS_7BIT_UINT (p ! 0) then
        (LpInt (lp_signed (unat (p ! 0 AND 0x7f)) ULLONG_MAX 0), Some 2)
      else if LP_ENCODING_IS_6BIT_STR (p ! 0) then
        let count = LP_ENCODING_6BIT_STR_LEN p in
        (LpStr 1 count, Some (1 + count + length (lpEncodeBacklen (count + 1))))
      else if LP_ENCODING_IS_13BIT_INT (p ! 0) then
        (LpInt (lp_signed (unat (p ! 0 AND 0x1f) * 256 + unat (p ! 1)) (2 ^ 12) 8191), Some 3)
      else if LP_ENCODING_IS_16BIT_INT (p ! 0) then
        (LpInt (lp_signed (nat (le_uint (bread 1 2 p))) (2 ^ 15) (2 ^ 16 - 1)), Some 4)
      else if LP_ENCODING_IS_24BIT_INT (p ! 0) then
        (LpInt (lp_signed (nat (le_uint (bread 1 3 p))) (2 ^ 23) ((2 ^ 32 - 1) div 2 ^ 8)), Some 5)
      else if LP_ENCODING_IS_32BIT_INT (p ! 0) then
        (LpInt (lp_signed (nat (le_uint (bread 1 4 p))) (2 ^ 31) (2 ^ 32 - 1)), Some 6)
      else if LP_ENCODING_IS_64BIT_INT (p ! 0) then
        (LpInt (lp_signed (nat (le_uint (bread 1 8 p))) (2 ^ 63) ULLONG_MAX), Some 10)
      else if LP_ENCODING_IS_12BIT_STR (p ! 0) then
        let count = LP_ENCODING_12BIT_STR_LEN p in
        (LpStr 2 count, Some (2 + count + length (lpEncodeBacklen (count + 2))))
      else if LP_ENCODING_IS_32BIT_STR (p ! 0) then
        let count = LP_ENCODING_32BIT_STR_LEN p in
        (LpStr 5 count, Some (5 + count + length (lpEncodeBacklen (count + 5))))
      else (LpInt (lp_signed (12345678900000000 + unat (p ! 0)) ULLONG_MAX 0), None))"

definition lpGet :: "bytes \<Rightarrow> lp_value" where
  "lpGet p = fst (lpGetWithSize p)"

definition LP_INTBUF_SIZE :: nat where "LP_INTBUF_SIZE = 21"

text \<open>\<^verbatim>\<open>lpGet\<close> with an \<^verbatim>\<open>intbuf\<close>: the element as a string in either case.\<close>

definition lpGet_intbuf :: "bytes \<Rightarrow> bytes" where
  "lpGet_intbuf p = (case lpGet p of
     LpInt v \<Rightarrow> (case ll2string (replicate LP_INTBUF_SIZE uninit) v of (buf, n) \<Rightarrow> take n buf)
   | LpStr off count \<Rightarrow> bread off count p)"

text \<open>\<^verbatim>\<open>lpGetValue\<close>: the string's offset with \<^verbatim>\<open>*slen\<close> (an \<^verbatim>\<open>unsigned int\<close>), or \<^verbatim>\<open>NULL\<close> with \<^verbatim>\<open>*lval\<close>.\<close>

definition lpGetValue :: "bytes \<Rightarrow> lp_value" where
  "lpGetValue p = (case lpGet p of
     LpStr off ele_len \<Rightarrow> LpStr off (ele_len mod 2 ^ 32)
   | LpInt ele_len \<Rightarrow> LpInt ele_len)"

definition lpCompare :: "bytes \<Rightarrow> bytes \<Rightarrow> bool" where
  "lpCompare p s =
     (if p ! 0 = LP_EOF then False
      else case lpGet p of
        LpStr off sz \<Rightarrow> length s = sz \<and> bread off sz p = s
      | LpInt sz \<Rightarrow> (case lpStringToInt64 s of Some sval \<Rightarrow> sz = sval | None \<Rightarrow> False))"

section \<open>Bytes by ranges\<close>

lemma byte_and_high:
  assumes "m = NOT (mask n)"
  shows "unat (b AND m :: byte) = unat b div 2 ^ n * 2 ^ n"
proof -
  have "(b AND NOT (mask n)) + (b AND mask n) = (b AND NOT (mask n)) OR (b AND mask n)"
    by (rule disjunctive_add) (auto simp: bit_simps)
  also have "\<dots> = b" by (rule bit_eqI) (auto simp: bit_simps)
  finally have eq: "b = (b AND NOT (mask n)) + take_bit n b" by (simp add: take_bit_eq_mask)
  have t: "unat (take_bit n b) = unat b mod 2 ^ n"
    by (simp only: unsigned_take_bit_eq) (simp add: take_bit_eq_mod)
  have "b AND NOT (mask n) = b - take_bit n b" using eq by (metis add_diff_cancel_right')
  moreover have "take_bit n b \<le> b" by (simp add: word_le_nat_alt t)
  ultimately have "unat (b AND NOT (mask n)) = unat b - unat b mod 2 ^ n" by (simp add: unat_sub t)
  then show ?thesis using assms by (simp add: minus_mod_eq_div_mult)
qed

lemma byte_and_low:
  assumes "m = mask n"
  shows "unat (b AND m :: byte) = unat b mod 2 ^ n"
  by (simp only: assms unsigned_take_bit_eq flip: take_bit_eq_mask) (simp add: take_bit_eq_mod)

lemma byte_high_eq:
  assumes "m = NOT (mask n)" "unat c = k * 2 ^ n"
  shows "(b AND m :: byte) = c \<longleftrightarrow> k * 2 ^ n \<le> unat b \<and> unat b < (k + 1) * 2 ^ n"
proof -
  have "(b AND m) = c \<longleftrightarrow> unat b div 2 ^ n = k"
    by (simp add: word_unat_eq_iff byte_and_high [OF assms(1)] assms(2))
  also have "\<dots> \<longleftrightarrow> k * 2 ^ n \<le> unat b \<and> unat b < (k + 1) * 2 ^ n"
    by (metis add.commute div_nat_eqI dividend_less_div_times div_times_less_eq_dividend
        mult.commute mult_Suc plus_1_eq_Suc zero_less_numeral zero_less_power)
  finally show ?thesis .
qed

lemma byte_and_ff: "(b AND 0xFF :: byte) = b"
proof -
  have "(0xFF :: byte) = - 1" by simp
  then show ?thesis by (metis and.right_neutral)
qed

lemma lp_enc_ranges:
  "LP_ENCODING_IS_7BIT_UINT b \<longleftrightarrow> unat b < 128"
  "LP_ENCODING_IS_6BIT_STR b \<longleftrightarrow> 128 \<le> unat b \<and> unat b < 192"
  "LP_ENCODING_IS_13BIT_INT b \<longleftrightarrow> 192 \<le> unat b \<and> unat b < 224"
  "LP_ENCODING_IS_12BIT_STR b \<longleftrightarrow> 224 \<le> unat b \<and> unat b < 240"
  "LP_ENCODING_IS_16BIT_INT b \<longleftrightarrow> unat b = 241"
  "LP_ENCODING_IS_24BIT_INT b \<longleftrightarrow> unat b = 242"
  "LP_ENCODING_IS_32BIT_INT b \<longleftrightarrow> unat b = 243"
  "LP_ENCODING_IS_64BIT_INT b \<longleftrightarrow> unat b = 244"
  "LP_ENCODING_IS_32BIT_STR b \<longleftrightarrow> unat b = 240"
  "b = LP_EOF \<longleftrightarrow> unat b = 255"
proof -
  have m: "(0x80 :: byte) = NOT (mask 7)" "(0xC0 :: byte) = NOT (mask 6)"
    "(0xE0 :: byte) = NOT (mask 5)" "(0xF0 :: byte) = NOT (mask 4)"
    by (simp_all add: mask_eq_exp_minus_1 not_eq_complement)
  show "LP_ENCODING_IS_7BIT_UINT b \<longleftrightarrow> unat b < 128"
    unfolding LP_ENCODING_IS_7BIT_UINT_def by (subst byte_high_eq [OF m(1), of _ 0]) simp_all
  show "LP_ENCODING_IS_6BIT_STR b \<longleftrightarrow> 128 \<le> unat b \<and> unat b < 192"
    unfolding LP_ENCODING_IS_6BIT_STR_def by (subst byte_high_eq [OF m(2), of _ 2]) simp_all
  show "LP_ENCODING_IS_13BIT_INT b \<longleftrightarrow> 192 \<le> unat b \<and> unat b < 224"
    unfolding LP_ENCODING_IS_13BIT_INT_def by (subst byte_high_eq [OF m(3), of _ 6]) simp_all
  show "LP_ENCODING_IS_12BIT_STR b \<longleftrightarrow> 224 \<le> unat b \<and> unat b < 240"
    unfolding LP_ENCODING_IS_12BIT_STR_def by (subst byte_high_eq [OF m(4), of _ 14]) simp_all
qed (simp_all add: LP_ENCODING_IS_16BIT_INT_def LP_ENCODING_IS_24BIT_INT_def LP_EOF_def
    LP_ENCODING_IS_32BIT_INT_def LP_ENCODING_IS_64BIT_INT_def LP_ENCODING_IS_32BIT_STR_def
    byte_and_ff word_unat_eq_iff)

text \<open>Setting high bits above a small value is an addition.\<close>

lemma byte_or_high:
  assumes "n < 2 ^ k" "k < 8" "c = push_bit k d" "unat c + n < 256"
  shows "unat (of_nat n OR c :: byte) = unat c + n"
proof -
  have "of_nat n OR c = (of_nat n + c :: byte)"
  proof (rule disjunctive_add [symmetric])
    fix i
    have "\<not> bit (of_nat n :: byte) i" if "k \<le> i"
      using less_le_trans [OF assms(1) power_increasing [OF that]]
      by (simp add: bit_simps) (simp add: bit_iff_odd)
    then show "\<not> bit (of_nat n :: byte) i \<or> \<not> bit c i"
      by (auto simp: assms(3) bit_simps)
  qed
  moreover have "unat (of_nat n :: byte) = n" using assms(4) by (simp add: unat_of_nat)
  ultimately show ?thesis using assms(4) by (simp add: unat_word_ariths)
qed


text \<open>The header bytes the encoders build.\<close>

lemma lp_hdr_bytes:
  "n < 64 \<Longrightarrow> unat (of_nat n OR 0x80 :: byte) = 128 + n"
  "n < 32 \<Longrightarrow> unat (of_nat n OR 0xC0 :: byte) = 192 + n"
  "n < 16 \<Longrightarrow> unat (of_nat n OR 0xE0 :: byte) = 224 + n"
  "n < 128 \<Longrightarrow> unat (of_nat n OR 128 :: byte) = 128 + n"
  using byte_or_high [of n 6 "0x80" 2] byte_or_high [of n 5 "0xC0" 6] byte_or_high [of n 4 "0xE0" 14]
    byte_or_high [of n 7 "128" 1]
  by (simp_all add: push_bit_eq_mult)

lemma lp_low_bits:
  "unat (b AND 0x3F :: byte) = unat b mod 64"
  "unat (b AND 0xF :: byte) = unat b mod 16"
  "unat (b AND 0x1F :: byte) = unat b mod 32"
  "unat (b AND 0x7F :: byte) = unat b mod 128"
  using byte_and_low [of "0x3F" 6 b] byte_and_low [of "0xF" 4 b] byte_and_low [of "0x1F" 5 b]
    byte_and_low [of "0x7F" 7 b]
  by (simp_all add: mask_eq_exp_minus_1)

lemma lp_bit7: "(b AND 128 :: byte) = 0 \<longleftrightarrow> unat b < 128"
  using lp_enc_ranges(1) [of b] by (simp add: LP_ENCODING_IS_7BIT_UINT_def)

section \<open>Back lengths\<close>

text \<open>
  Reading backwards: \<open>backlen_val\<close> is what the loop of \<^verbatim>\<open>lpDecodeBacklen\<close> computes from the bytes it
  visits, last byte first.
\<close>

lemma lpDecodeBacklen_stop:
  assumes "unat (lp ! p) < 128"
  shows "lpDecodeBacklen_loop lp p shift val = val + unat (lp ! p) * 2 ^ shift"
  using assms by (subst lpDecodeBacklen_loop.simps) (simp add: lp_bit7 lp_low_bits Let_def)

lemma lpDecodeBacklen_more:
  assumes "unat (lp ! p) = 128 + n" "n < 128" "shift + 7 \<le> 28"
  shows "lpDecodeBacklen_loop lp p shift val =
    lpDecodeBacklen_loop lp (p - 1) (shift + 7) (val + n * 2 ^ shift)"
  using assms by (subst lpDecodeBacklen_loop.simps) (simp add: lp_bit7 lp_low_bits Let_def)

lemma length_lpEncodeBacklen:
  "1 \<le> length (lpEncodeBacklen l)" "length (lpEncodeBacklen l) \<le> 5"
  by (simp_all add: lpEncodeBacklen_def)

lemma lpEncodeBacklen_nonempty [simp]: "lpEncodeBacklen l \<noteq> []"
  by (simp add: lpEncodeBacklen_def)

lemma backlen_digits:
  fixes l :: nat
  shows "l mod 128 + l div 2 ^ 7 * 2 ^ 7 = l"
    and "l mod 128 + l div 2 ^ 7 mod 128 * 2 ^ 7 + l div 2 ^ 14 * 2 ^ 14 = l"
    and "l mod 128 + l div 2 ^ 7 mod 128 * 2 ^ 7 + l div 2 ^ 14 mod 128 * 2 ^ 14 + l div 2 ^ 21 * 2 ^ 21 = l"
    and "l mod 128 + l div 2 ^ 7 mod 128 * 2 ^ 7 + l div 2 ^ 14 mod 128 * 2 ^ 14
         + l div 2 ^ 21 mod 128 * 2 ^ 21 + l div 2 ^ 28 * 2 ^ 28 = l"
proof -
  have st: "(l div 2 ^ k mod 128) * 2 ^ k + l div 2 ^ (k + 7) * 2 ^ (k + 7) = l div 2 ^ k * 2 ^ k" for k
  proof -
    have "(l div 2 ^ k mod 128 + l div 2 ^ k div 128 * 128) * 2 ^ k = l div 2 ^ k * 2 ^ k" by simp
    then show ?thesis by (simp only: power_add div_mult2_eq distrib_right) (simp add: mult.assoc)
  qed
  show a: "l mod 128 + l div 2 ^ 7 * 2 ^ 7 = l" using st [of 0] by simp
  show b: "l mod 128 + l div 2 ^ 7 mod 128 * 2 ^ 7 + l div 2 ^ 14 * 2 ^ 14 = l"
    using a st [of 7] by (simp only: add.assoc) simp
  show c: "l mod 128 + l div 2 ^ 7 mod 128 * 2 ^ 7 + l div 2 ^ 14 mod 128 * 2 ^ 14 + l div 2 ^ 21 * 2 ^ 21 = l"
    using b st [of 14] by simp
  show "l mod 128 + l div 2 ^ 7 mod 128 * 2 ^ 7 + l div 2 ^ 14 mod 128 * 2 ^ 14
         + l div 2 ^ 21 mod 128 * 2 ^ 21 + l div 2 ^ 28 * 2 ^ 28 = l"
    using c st [of 21] by simp
qed

lemma lpDecodeBacklen_encode:
  assumes "l < 2 ^ 35"
  shows "lpDecodeBacklen (pre @ lpEncodeBacklen l @ post) (length pre + length (lpEncodeBacklen l) - 1) = l"
proof -
  have small: "unat (of_nat (l div 2 ^ k) :: byte) = l div 2 ^ k" if "l < 2 ^ (k + 7)" for k
    using that by (simp add: unat_of_nat less_mult_imp_div_less power_add)
  have top: "unat (of_nat (l div 2 ^ k) :: byte) = l div 2 ^ k \<and> l div 2 ^ k < 128"
    if "l < 2 ^ (k + 7)" for k
    using small [OF that] that by (simp add: less_mult_imp_div_less power_add)
  note step = lpDecodeBacklen_more [OF _ mod_less_divisor] lpDecodeBacklen_stop nth_append
    lp_hdr_bytes(4) 
  show ?thesis
  proof (cases "l \<le> 127")
    case True
    then show ?thesis
      by (simp add: lpDecodeBacklen_def lpEncodeBacklen_def lpDecodeBacklen_stop nth_append unat_of_nat)
  next
    case g1: False
    show ?thesis
    proof (cases "l < 16383")
      case True
      with g1 show ?thesis using top [of 7] backlen_digits(1) [of l]
        by (simp add: lpDecodeBacklen_def lpEncodeBacklen_def step)
    next
      case g2: False
      show ?thesis
      proof (cases "l < 2097151")
        case True
        with g1 g2 show ?thesis using top [of 14] backlen_digits(2) [of l]
          by (simp add: lpDecodeBacklen_def lpEncodeBacklen_def step)
      next
        case g3: False
        show ?thesis
        proof (cases "l < 268435455")
          case True
          with g1 g2 g3 show ?thesis using top [of 21] backlen_digits(3) [of l]
            by (simp add: lpDecodeBacklen_def lpEncodeBacklen_def step)
        next
          case False
          with g1 g2 g3 assms show ?thesis using top [of 28] backlen_digits(4) [of l]
            by (simp add: lpDecodeBacklen_def lpEncodeBacklen_def step)
        qed
      qed
    qed
  qed
qed

section \<open>Integers\<close>

lemma lpStringToInt64_eq: "lpStringToInt64 s = string2ll s"
  by (simp add: lpStringToInt64_def string2ll_def)

text \<open>The two's complement arithmetic at each width.\<close>

lemma lp_signed_wrap:
  assumes "- (2 ^ k) \<le> v" "v < 2 ^ k" "u = (if v < 0 then 2 ^ Suc k + v else v)"
  shows "lp_signed (nat u) (2 ^ k) (2 ^ Suc k - 1) = v" "0 \<le> u" "u < 2 ^ Suc k"
proof -
  have p: "int (2 ^ Suc k - 1) = 2 * 2 ^ k - 1" by (simp add: of_nat_diff)
  show "0 \<le> u" "u < 2 ^ Suc k" using assms by auto
  show "lp_signed (nat u) (2 ^ k) (2 ^ Suc k - 1) = v"
  proof (cases "v < 0")
    case True
    then have "u = 2 * 2 ^ k + v" using assms(3) by simp
    then have "int (2 ^ k) \<le> u" using assms(1) by simp
    then have "2 ^ k \<le> nat u" by (metis nat_int nat_mono)
    then show ?thesis using \<open>0 \<le> u\<close> \<open>u = 2 * 2 ^ k + v\<close> unfolding lp_signed_def p by simp
  next
    case False
    then have "u = v" "nat u < 2 ^ k" using assms by (simp_all add: nat_less_iff)
    then show ?thesis using False by (simp add: lp_signed_def)
  qed
qed

lemma bread_le_bytes: "bread 1 n (b # le_bytes n x @ rest) = le_bytes n x"
  by (simp add: bread_def)

lemma lpGet_le:
  assumes "0 \<le> u" "u < 2 ^ (8 * n)"
  shows "nat (le_uint (bread 1 n (b # le_bytes n u @ rest))) = nat u"
  unfolding bread_le_bytes using assms by simp

lemma lpEncodeInteger_13:
  assumes "0 \<le> u" "u < 2 ^ 13"
  shows "unat (word_of_int (u div 2 ^ 8) OR 0xC0 :: byte) = 192 + nat u div 256"
    and "unat (word_of_int u :: byte) = nat u mod 256"
proof -
  obtain m where m: "u = int m" "m < 8192" using assms by (cases u) auto
  have "m div 256 < 32" using m by (simp add: less_mult_imp_div_less)
  moreover have "(word_of_int (u div 2 ^ 8) :: byte) = of_nat (m div 256)"
  proof -
    have "u div 2 ^ 8 = int (m div 256)" using m(1) by (simp add: zdiv_int)
    then show ?thesis by (simp del: of_nat_div)
  qed
  ultimately show "unat (word_of_int (u div 2 ^ 8) OR 0xC0 :: byte) = 192 + nat u div 256"
    using lp_hdr_bytes(2) [of "m div 256"] m by simp
  show "unat (word_of_int u :: byte) = nat u mod 256" using m by (simp add: unat_of_nat)
qed

lemmas lpGet_defs = lpGet_def lpGetWithSize_def lpCurrentEncodedSizeUnsafe_def lp_enc_ranges

lemma lpGet_wide:
  "0 \<le> u \<Longrightarrow> u < 2 ^ 16 \<Longrightarrow> lpGet (0xF1 # le_bytes 2 u @ rest) = LpInt (lp_signed (nat u) (2 ^ 15) (2 ^ 16 - 1))"
  "0 \<le> u \<Longrightarrow> u < 2 ^ 24 \<Longrightarrow> lpGet (0xF2 # le_bytes 3 u @ rest) = LpInt (lp_signed (nat u) (2 ^ 23) (2 ^ 24 - 1))"
  "0 \<le> u \<Longrightarrow> u < 2 ^ 32 \<Longrightarrow> lpGet (0xF3 # le_bytes 4 u @ rest) = LpInt (lp_signed (nat u) (2 ^ 31) (2 ^ 32 - 1))"
  "0 \<le> u \<Longrightarrow> u < 2 ^ 64 \<Longrightarrow> lpGet (0xF4 # le_bytes 8 u @ rest) = LpInt (lp_signed (nat u) (2 ^ 63) (2 ^ 64 - 1))"
  using lpGet_le [of u 2 "0xF1" rest] lpGet_le [of u 3 "0xF2" rest] lpGet_le [of u 4 "0xF3" rest]
    lpGet_le [of u 8 "0xF4" rest]
  by (simp_all add: lpGet_defs ULLONG_MAX_def del: le_bytes.simps)

lemma lpSize_wide:
  "lpCurrentEncodedSizeUnsafe (0xF1 # le_bytes 2 u @ rest) = 3"
  "lpCurrentEncodedSizeUnsafe (0xF2 # le_bytes 3 u @ rest) = 4"
  "lpCurrentEncodedSizeUnsafe (0xF3 # le_bytes 4 u @ rest) = 5"
  "lpCurrentEncodedSizeUnsafe (0xF4 # le_bytes 8 u @ rest) = 9"
  by (simp_all add: lpGet_defs del: le_bytes.simps)

lemma lpGet_13:
  assumes "0 \<le> u" "u < 2 ^ 13"
  shows "lpGet ((word_of_int (u div 2 ^ 8) OR 0xC0) # word_of_int u # rest) =
      LpInt (lp_signed (nat u) (2 ^ 12) (2 ^ 13 - 1))"
    and "lpCurrentEncodedSizeUnsafe ((word_of_int (u div 2 ^ 8) OR 0xC0) # word_of_int u # rest) = 2"
proof -
  have h: "nat u div 256 < 32" using assms by (simp add: less_mult_imp_div_less nat_less_iff)
  have "(192 + nat u div 256) mod 32 = nat u div 256" using h by (simp add: mod_add_left_eq [symmetric, of 192])
  moreover have "nat u div 256 * 256 + nat u mod 256 = nat u" by simp
  ultimately show "lpGet ((word_of_int (u div 2 ^ 8) OR 0xC0) # word_of_int u # rest) =
      LpInt (lp_signed (nat u) (2 ^ 12) (2 ^ 13 - 1))"
    using h lpEncodeInteger_13 [OF assms] by (simp add: lpGet_defs lp_low_bits)
  show "lpCurrentEncodedSizeUnsafe ((word_of_int (u div 2 ^ 8) OR 0xC0) # word_of_int u # rest) = 2"
    using h lpEncodeInteger_13 [OF assms] by (simp add: lpGet_defs)
qed

lemma lpEncodeInteger_cases:
  assumes "in_i64 v"
  obtains (u7) n where "v = int n" "n < 128" "lpEncodeIntegerGetType v = [of_nat n]"
  | (i13) u where "u = (if v < 0 then 2 ^ Suc 12 + v else v)" "- (2 ^ 12) \<le> v" "v < 2 ^ 12"
      "lpEncodeIntegerGetType v = [word_of_int (u div 2 ^ 8) OR 0xC0, word_of_int u]"
  | (i16) u where "u = (if v < 0 then 2 ^ Suc 15 + v else v)" "- (2 ^ 15) \<le> v" "v < 2 ^ 15"
      "lpEncodeIntegerGetType v = 0xF1 # le_bytes 2 u"
  | (i24) u where "u = (if v < 0 then 2 ^ Suc 23 + v else v)" "- (2 ^ 23) \<le> v" "v < 2 ^ 23"
      "lpEncodeIntegerGetType v = 0xF2 # le_bytes 3 u"
  | (i32) u where "u = (if v < 0 then 2 ^ Suc 31 + v else v)" "- (2 ^ 31) \<le> v" "v < 2 ^ 31"
      "lpEncodeIntegerGetType v = 0xF3 # le_bytes 4 u"
  | (i64) u where "u = (if v < 0 then 2 ^ Suc 63 + v else v)" "- (2 ^ 63) \<le> v" "v < 2 ^ 63"
      "lpEncodeIntegerGetType v = 0xF4 # le_bytes 8 u"
proof -
  note d = lpEncodeIntegerGetType_def Let_def
  show thesis
  proof (cases "0 \<le> v \<and> v \<le> 127")
    case True
    show thesis by (rule u7 [of "nat v"]) (use True in \<open>auto simp: d\<close>)
  next
    case n1: False
    show thesis
    proof (cases "-4096 \<le> v \<and> v \<le> 4095")
      case True
      show thesis by (rule i13 [OF refl]) (use True n1 in \<open>simp_all add: d\<close>)
    next
      case n2: False
      show thesis
      proof (cases "-32768 \<le> v \<and> v \<le> 32767")
        case True
        show thesis by (rule i16 [OF refl]) (use True in \<open>simp_all add: d n1 n2 del: le_bytes.simps\<close>)
      next
        case n3: False
        show thesis
        proof (cases "-8388608 \<le> v \<and> v \<le> 8388607")
          case True
          show thesis by (rule i24 [OF refl]) (use True in \<open>simp_all add: d n1 n2 n3 del: le_bytes.simps\<close>)
        next
          case n4: False
          show thesis
          proof (cases "-2147483648 \<le> v \<and> v \<le> 2147483647")
            case True
            show thesis by (rule i32 [OF refl]) (use True in \<open>simp_all add: d n1 n2 n3 n4 del: le_bytes.simps\<close>)
          next
            case False
            have "(2 ^ 64 + v) mod 2 ^ 64 = 2 ^ 64 + v" if "v < 0"
              using assms that by (intro mod_pos_pos_trivial) (auto simp: in_i64_def)
            then have "v mod 2 ^ 64 = (if v < 0 then 2 ^ Suc 63 + v else v)"
              using assms by (simp add: in_i64_def)
            then show thesis
              by (intro i64 [OF refl]) (use assms in \<open>simp_all add: d n1 n2 n3 n4 False in_i64_def del: le_bytes.simps\<close>)
          qed
        qed
      qed
    qed
  qed
qed

lemma lpGetInteger:
  assumes "in_i64 v"
  shows "lpGet (lpEncodeIntegerGetType v @ rest) = LpInt v"
    and "lpCurrentEncodedSizeUnsafe (lpEncodeIntegerGetType v @ rest) = length (lpEncodeIntegerGetType v)"
    and "unat (lpEncodeIntegerGetType v ! 0) < 245"
proof -
  have "lpGet (lpEncodeIntegerGetType v @ rest) = LpInt v \<and>
    lpCurrentEncodedSizeUnsafe (lpEncodeIntegerGetType v @ rest) = length (lpEncodeIntegerGetType v) \<and>
    unat (lpEncodeIntegerGetType v ! 0) < 245"
    using assms
  proof (cases rule: lpEncodeInteger_cases)
    case (u7 n)
    then show ?thesis by (simp add: lpGet_defs lp_low_bits unat_of_nat lp_signed_def ULLONG_MAX_def)
  next
    case (i13 u)
    note w = lp_signed_wrap [OF i13(2,3,1)]
    have u: "u < 2 ^ 13" using w(3) by simp
    have "nat u div 256 < 32" using w(2) u by (simp add: less_mult_imp_div_less nat_less_iff)
    then show ?thesis using lpGet_13 [OF w(2) u] w(1) lpEncodeInteger_13 [OF w(2) u] i13(4) by simp
  next
    case (i16 u)
    note w = lp_signed_wrap [OF i16(2,3,1)]
    then show ?thesis using lpGet_wide(1) [of u rest] lpSize_wide i16(4) by (simp del: le_bytes.simps)
  next
    case (i24 u)
    note w = lp_signed_wrap [OF i24(2,3,1)]
    then show ?thesis using lpGet_wide(2) [of u rest] lpSize_wide i24(4) by (simp del: le_bytes.simps)
  next
    case (i32 u)
    note w = lp_signed_wrap [OF i32(2,3,1)]
    then show ?thesis using lpGet_wide(3) [of u rest] lpSize_wide i32(4) by (simp del: le_bytes.simps)
  next
    case (i64 u)
    note w = lp_signed_wrap [OF i64(2,3,1)]
    then show ?thesis using lpGet_wide(4) [of u rest] lpSize_wide i64(4) by (simp del: le_bytes.simps)
  qed
  then show "lpGet (lpEncodeIntegerGetType v @ rest) = LpInt v"
    "lpCurrentEncodedSizeUnsafe (lpEncodeIntegerGetType v @ rest) = length (lpEncodeIntegerGetType v)"
    "unat (lpEncodeIntegerGetType v ! 0) < 245" by simp_all
qed

section \<open>Strings\<close>

lemma lpEncodeString_cases:
  obtains (s6) n where "n = length s" "n < 64" "lpEncodeString s = (of_nat n OR 0x80) # s"
  | (s12) n where "n = length s" "64 \<le> n" "n < 4096"
      "lpEncodeString s = (of_nat (n div 256) OR 0xE0) # of_nat (n mod 256) # s"
  | (s32) n where "n = length s" "4096 \<le> n" "lpEncodeString s = 0xF0 # le_bytes 4 (int n) @ s"
proof -
  consider "length s < 64" | "64 \<le> length s" "length s < 4096" | "4096 \<le> length s" by linarith
  then show thesis
  proof cases
    case 1 then show thesis by (intro s6 [OF refl]) (simp_all add: lpEncodeString_def)
  next
    case 2 then show thesis by (intro s12 [OF refl]) (simp_all add: lpEncodeString_def Let_def)
  next
    case 3 then show thesis
      by (intro s32 [OF refl]) (simp_all add: lpEncodeString_def del: le_bytes.simps)
  qed
qed

lemma lp_len_mods:
  fixes n :: nat
  shows "n < 64 \<Longrightarrow> (128 + n) mod 64 = n" "n < 16 \<Longrightarrow> (224 + n) mod 16 = n"
  using mod_mult_self1 [of n 2 64] mod_mult_self1 [of n 14 16] by (simp_all add: add.commute)

lemmas lpString_defs = lpGet_defs lp_hdr_bytes lp_low_bits LP_ENCODING_6BIT_STR_LEN_def
  LP_ENCODING_12BIT_STR_LEN_def LP_ENCODING_32BIT_STR_LEN_def unat_of_nat less_mult_imp_div_less lp_len_mods

lemma lpGetString:
  assumes "length s < 2 ^ 32"
  shows "\<exists>off. lpGet (lpEncodeString s @ rest) = LpStr off (length s) \<and>
      bread off (length s) (lpEncodeString s @ rest) = s"
  by (cases s rule: lpEncodeString_cases)
    (use assms lpGet_le [of "int (length s)" 4 "0xF0" "s @ rest"] in
      \<open>auto simp: lpString_defs Let_def bread_def simp del: le_bytes.simps\<close>)

lemma lpSizeString:
  assumes "length s + 5 < 2 ^ 32"
  shows "lpCurrentEncodedSizeUnsafe (lpEncodeString s @ rest) = length (lpEncodeString s)"
    and "unat (lpEncodeString s ! 0) < 241"
proof -
  have "lpCurrentEncodedSizeUnsafe (lpEncodeString s @ rest) = length (lpEncodeString s) \<and>
    unat (lpEncodeString s ! 0) < 241"
    by (cases s rule: lpEncodeString_cases)
      (use assms lpGet_le [of "int (length s)" 4 "0xF0" "s @ rest"] in
        \<open>auto simp: lpString_defs Let_def simp del: le_bytes.simps\<close>)
  then show "lpCurrentEncodedSizeUnsafe (lpEncodeString s @ rest) = length (lpEncodeString s)"
    "unat (lpEncodeString s ! 0) < 241" by simp_all
qed

lemma lpEncode_nonempty [simp]: "lpEncodeString s \<noteq> []" "lpEncodeIntegerGetType v \<noteq> []"
  by (auto simp: lpEncodeString_def lpEncodeIntegerGetType_def Let_def)

section \<open>Elements\<close>

text \<open>
  The bytes \<^verbatim>\<open>lpInsert\<close> stores for the element \<open>ele\<close> before its back length: the integer encoding when
  \<open>ele\<close> is the decimal notation of a 64 bit integer, the string encoding otherwise.
\<close>

definition lp_encode :: "bytes \<Rightarrow> bytes" where
  "lp_encode ele = (case fst (lpEncodeGetType ele) of
     LP_ENCODING_INT intenc \<Rightarrow> intenc
   | LP_ENCODING_STRING \<Rightarrow> lpEncodeString ele)"

lemma lp_encode_cases:
  obtains (int) v where "in_i64 v" "ele = int_dec v" "lp_encode ele = lpEncodeIntegerGetType v"
      "lpStringToInt64 ele = Some v"
  | (str) "lpStringToInt64 ele = None" "lp_encode ele = lpEncodeString ele"
proof (cases "lpStringToInt64 ele")
  case None
  then show thesis by (intro str) (simp_all add: lp_encode_def lpEncodeGetType_def Let_def)
next
  case (Some v)
  then have "in_i64 v" "ele = int_dec v" by (simp_all add: lpStringToInt64_eq string2ll_iff)
  then show thesis using Some by (intro int) (simp_all add: lp_encode_def lpEncodeGetType_def)
qed

lemma snd_lpEncodeGetType: "snd (lpEncodeGetType ele) = length (lp_encode ele)"
  by (cases "lpStringToInt64 ele")
    (simp_all add: lpEncodeGetType_def lp_encode_def lpEncodeString_def Let_def del: le_bytes.simps)

lemma lpSize_encode:
  assumes "length ele + 5 < 2 ^ 32"
  shows "lpCurrentEncodedSizeUnsafe (lp_encode ele @ rest) = length (lp_encode ele)"
    and "unat (lp_encode ele ! 0) < 245" and "lp_encode ele \<noteq> []"
proof -
  show "lpCurrentEncodedSizeUnsafe (lp_encode ele @ rest) = length (lp_encode ele)"
    by (cases ele rule: lp_encode_cases) (simp_all add: lpGetInteger lpSizeString assms [simplified])
  show "unat (lp_encode ele ! 0) < 245"
    using lpSizeString(2) [OF assms]
    by (cases ele rule: lp_encode_cases) (simp_all add: lpGetInteger)
  show "lp_encode ele \<noteq> []" by (cases ele rule: lp_encode_cases) simp_all
qed

lemma lpGet_encode:
  assumes "length ele < 2 ^ 32"
  shows "lpGet_intbuf (lp_encode ele @ rest) = ele"
proof (cases ele rule: lp_encode_cases)
  case (int v)
  have "length (int_dec v) < length (replicate LP_INTBUF_SIZE uninit)"
    using length_int_dec(1) [OF int(1)] by (simp add: LP_INTBUF_SIZE_def LONG_STR_SIZE_def)
  from ll2string_fits [OF int(1) this] int show ?thesis by (simp add: lpGet_intbuf_def lpGetInteger)
next
  case str
  obtain off where "lpGet (lpEncodeString ele @ rest) = LpStr off (length ele)"
      "bread off (length ele) (lpEncodeString ele @ rest) = ele"
    using lpGetString [OF assms] by blast
  then show ?thesis using str by (simp add: lpGet_intbuf_def)
qed

lemma lpCompare_encode:
  assumes "length ele + 5 < 2 ^ 32"
  shows "lpCompare (lp_encode ele @ rest) s \<longleftrightarrow> ele = s"
proof -
  have ne: "(lp_encode ele @ rest) ! 0 \<noteq> LP_EOF"
    using lpSize_encode(2,3) [OF assms] by (simp add: lp_enc_ranges nth_append)
  show ?thesis
  proof (cases ele rule: lp_encode_cases)
    case (int v)
    then have "lpCompare (lp_encode ele @ rest) s \<longleftrightarrow> lpStringToInt64 s = Some v"
      using ne by (auto simp: lpCompare_def lpGetInteger split: option.splits)
    also have "\<dots> \<longleftrightarrow> ele = s" using int by (auto simp: lpStringToInt64_eq string2ll_iff)
    finally show ?thesis .
  next
    case str
    obtain off where "lpGet (lpEncodeString ele @ rest) = LpStr off (length ele)"
        "bread off (length ele) (lpEncodeString ele @ rest) = ele"
      using lpGetString [of ele rest] assms by auto
    then show ?thesis using str ne by (auto simp: lpCompare_def)
  qed
qed

end
