(* ===== verification/Cursor.thy ===== *)
theory Cursor
  imports Redis_Prelude
begin

text \<open>
  Cursors over a sequence stored in a flat buffer, the interface that listpacks and ziplists give
  their clients: first, last, next and previous element. Each operation may abort (outer
  \<^term>\<open>None\<close>) and returns \<^verbatim>\<open>NULL\<close> (inner \<^term>\<open>None\<close>) beyond either end.
\<close>

text \<open>Following a cursor \<open>n\<close> times, stopping at \<^verbatim>\<open>NULL\<close>: the scan loops of the clients.\<close>

fun cursor_walk :: "('p \<Rightarrow> 'p option option) \<Rightarrow> nat \<Rightarrow> 'p option \<Rightarrow> 'p option option" where
  "cursor_walk f 0 p = Some p"
| "cursor_walk f (Suc n) p =
     (case p of None \<Rightarrow> Some None
      | Some q \<Rightarrow> (case f q of None \<Rightarrow> None | Some p \<Rightarrow> cursor_walk f n p))"

lemma cursor_walk_None [simp]: "cursor_walk f n None = Some None"
  by (cases n) simp_all

locale cursor_sequence =
  fixes repr :: "'s \<Rightarrow> 'e list \<Rightarrow> bool"
    and pos :: "'s \<Rightarrow> 'e list \<Rightarrow> 'p"
    and first last :: "'s \<Rightarrow> 'p option option"
    and nxt prv :: "'s \<Rightarrow> 'p \<Rightarrow> 'p option option"
  assumes first_law: "repr s es \<Longrightarrow> first s = Some (if es = [] then None else Some (pos s []))"
    and last_law: "repr s es \<Longrightarrow> last s = Some (if es = [] then None else Some (pos s (butlast es)))"
    and next_law: "repr s (xs @ e # ys) \<Longrightarrow>
      nxt s (pos s xs) = Some (if ys = [] then None else Some (pos s (xs @ [e])))"
    and prev_law: "repr s (xs @ e # f # ys) \<Longrightarrow> prv s (pos s (xs @ [e])) = Some (Some (pos s xs))"
    and prev_first_law: "repr s (e # ys) \<Longrightarrow> prv s (pos s []) = Some None"
begin

lemma walk_from:
  assumes "repr s (xs @ ys)" "ys \<noteq> []"
  shows "cursor_walk (nxt s) n (Some (pos s xs)) =
    Some (if n < length ys then Some (pos s (xs @ take n ys)) else None)"
  using assms
proof (induction n arbitrary: xs ys)
  case (Suc n)
  then obtain e zs where ys: "ys = e # zs" by (cases ys) auto
  have nx: "nxt s (pos s xs) = Some (if zs = [] then None else Some (pos s (xs @ [e])))"
    using next_law [of s xs e zs] Suc.prems ys by simp
  show ?case
  proof (cases "zs = []")
    case True
    then show ?thesis using nx ys by simp
  next
    case False
    then show ?thesis using nx ys Suc.IH [of "xs @ [e]" zs] Suc.prems by simp
  qed
qed simp

lemma walk_forward:
  assumes "repr s es" "first s = Some p"
  shows "cursor_walk (nxt s) n p = Some (if n < length es then Some (pos s (take n es)) else None)"
proof (cases "es = []")
  case True
  then show ?thesis using first_law [OF assms(1)] assms(2) by simp
next
  case False
  then show ?thesis
    using first_law [OF assms(1)] assms(2) walk_from [of s "[]" es n] assms(1) by simp
qed

lemma walk_back_from:
  assumes "repr s (xs @ e # ys)"
  shows "cursor_walk (prv s) n (Some (pos s xs)) =
    Some (if n \<le> length xs then Some (pos s (take (length xs - n) xs)) else None)"
  using assms
proof (induction n arbitrary: xs e ys)
  case (Suc n)
  show ?case
  proof (cases xs rule: rev_cases)
    case Nil
    then show ?thesis using prev_first_law [of s e ys] Suc.prems by simp
  next
    case (snoc zs f)
    have "prv s (pos s xs) = Some (Some (pos s zs))"
      using prev_law [of s zs f e ys] Suc.prems snoc by simp
    moreover have "length zs - n = length xs - Suc n" using snoc by simp
    ultimately show ?thesis
      using Suc.IH [of zs f "e # ys"] Suc.prems snoc by (simp del: take_append add: take_append [of _ zs])
  qed
qed simp

lemma walk_backward:
  assumes "repr s es" "last s = Some p"
  shows "cursor_walk (prv s) n p =
    Some (if n < length es then Some (pos s (take (length es - Suc n) es)) else None)"
proof (cases es rule: rev_cases)
  case Nil
  then show ?thesis using last_law [OF assms(1)] assms(2) by simp
next
  case (snoc xs e)
  then show ?thesis
    using last_law [OF assms(1)] assms(2) walk_back_from [of s xs e "[]" n] assms(1) by (auto simp: less_Suc_eq_le)
qed

end

end
