(* ===== verification/Listpack.thy ===== *)
theory Listpack
  imports Listpack_Enc Cursor "HOL-Library.Monad_Syntax"
begin

text \<open>
  The listpack itself (\<^verbatim>\<open>listpack.c\<close>): a header of six bytes (total bytes, number of elements), the
  elements one after the other, each an encoded value and its back length, and the end marker. A
  listpack is its allocation: \<^verbatim>\<open>lp_malloc_size(lp)\<close> is the length of the list, at least the total
  bytes of the header. Element pointers are offsets and \<^verbatim>\<open>NULL\<close> is \<^term>\<open>None\<close>. Functions with
  assertions return an option whose \<^term>\<open>None\<close> is the failed assertion.
\<close>

section \<open>The operations of the source\<close>

definition lp_assert :: "bool \<Rightarrow> unit option" where
  "lp_assert b = (if b then Some () else None)"

definition LP_HDR_SIZE :: nat where "LP_HDR_SIZE = 6"
definition LP_HDR_NUMELE_UNKNOWN :: nat where "LP_HDR_NUMELE_UNKNOWN = 65535"
definition LISTPACK_MAX_SAFETY_SIZE :: nat where "LISTPACK_MAX_SAFETY_SIZE = 2 ^ 30"

definition lpGetTotalBytes :: "bytes \<Rightarrow> nat" where
  "lpGetTotalBytes lp = nat (le_uint (bread 0 4 lp))"
definition lpGetNumElements :: "bytes \<Rightarrow> nat" where
  "lpGetNumElements lp = nat (le_uint (bread 4 2 lp))"
definition lpSetTotalBytes :: "bytes \<Rightarrow> int \<Rightarrow> bytes" where
  "lpSetTotalBytes lp v = bwrite 0 (le_bytes 4 v) lp"
definition lpSetNumElements :: "bytes \<Rightarrow> int \<Rightarrow> bytes" where
  "lpSetNumElements lp v = bwrite 4 (le_bytes 2 v) lp"

definition ASSERT_INTEGRITY :: "bytes \<Rightarrow> nat \<Rightarrow> unit option" where
  "ASSERT_INTEGRITY lp p = lp_assert (p \<ge> LP_HDR_SIZE \<and> p < lpGetTotalBytes lp)"
definition ASSERT_INTEGRITY_LEN :: "bytes \<Rightarrow> nat \<Rightarrow> nat \<Rightarrow> unit option" where
  "ASSERT_INTEGRITY_LEN lp p len = lp_assert (p \<ge> LP_HDR_SIZE \<and> p + len < lpGetTotalBytes lp)"

definition lpSafeToAdd :: "bytes option \<Rightarrow> nat \<Rightarrow> bool" where
  "lpSafeToAdd lp add =
     (let len = (case lp of Some lp \<Rightarrow> lpGetTotalBytes lp | None \<Rightarrow> 0) in
      \<not> len + add > LISTPACK_MAX_SAFETY_SIZE)"

definition lpNew :: "nat \<Rightarrow> bytes" where
  "lpNew capacity =
     (let lp = replicate (if capacity > LP_HDR_SIZE + 1 then capacity else LP_HDR_SIZE + 1) uninit;
          lp = lpSetTotalBytes lp (int (LP_HDR_SIZE + 1));
          lp = lpSetNumElements lp 0
      in lp[LP_HDR_SIZE := LP_EOF])"

definition lpBytes :: "bytes \<Rightarrow> nat" where
  "lpBytes lp = lpGetTotalBytes lp"

definition lpShrinkToFit :: "bytes \<Rightarrow> bytes" where
  "lpShrinkToFit lp =
     (let size = lpGetTotalBytes lp in if size < length lp then zrealloc size lp else lp)"

definition lpSkip :: "bytes \<Rightarrow> nat \<Rightarrow> nat" where
  "lpSkip lp p =
     (let entrylen = lpCurrentEncodedSizeUnsafe (drop p lp) in
      p + (entrylen + length (lpEncodeBacklen entrylen)))"

text \<open>\<^verbatim>\<open>lpValidateNext\<close>: \<^term>\<open>None\<close> for the return value 0, the new \<^verbatim>\<open>*pp\<close> for 1.\<close>

definition lp_out_of_range :: "nat \<Rightarrow> nat \<Rightarrow> bool" where
  "lp_out_of_range lpbytes p \<longleftrightarrow> p < LP_HDR_SIZE \<or> p + 1 > lpbytes"

definition lpValidateNext :: "bytes \<Rightarrow> nat option \<Rightarrow> nat \<Rightarrow> nat option option" where
  "lpValidateNext lp pp lpbytes =
     (case pp of None \<Rightarrow> None
      | Some p \<Rightarrow>
        if lp_out_of_range lpbytes p then None
        else if lp ! p = LP_EOF then Some None
        else let lenbytes = lpCurrentEncodedSizeBytes (drop p lp) in
          if lenbytes = 0 then None
          else if lp_out_of_range lpbytes (p + lenbytes) then None
          else let entrylen = lpCurrentEncodedSizeUnsafe (drop p lp);
                   encodedBacklen = length (lpEncodeBacklen entrylen);
                   entrylen = entrylen + encodedBacklen in
            if lp_out_of_range lpbytes (p + entrylen) then None
            else let p = p + entrylen; prevlen = lpDecodeBacklen lp (p - 1) in
              if (prevlen + encodedBacklen) mod 2 ^ 64 \<noteq> entrylen then None
              else Some (Some p))"

definition lpAssertValidEntry :: "bytes \<Rightarrow> nat \<Rightarrow> nat \<Rightarrow> unit option" where
  "lpAssertValidEntry lp lpbytes p = lp_assert (lpValidateNext lp (Some p) lpbytes \<noteq> None)"

definition lpValidateFirst :: "bytes \<Rightarrow> nat option" where
  "lpValidateFirst lp = (let p = LP_HDR_SIZE in if lp ! p = LP_EOF then None else Some p)"

definition lpNext :: "bytes \<Rightarrow> nat \<Rightarrow> nat option option" where
  "lpNext lp p =
     (let p = lpSkip lp p in
      if lp ! p = LP_EOF then Some None
      else do { lpAssertValidEntry lp (lpBytes lp) p; Some (Some p) })"

definition lpPrev :: "bytes \<Rightarrow> nat \<Rightarrow> nat option option" where
  "lpPrev lp p =
     (if p = LP_HDR_SIZE then Some None
      else let p = p - 1;
               prevlen = lpDecodeBacklen lp p;
               prevlen = (prevlen + length (lpEncodeBacklen prevlen)) mod 2 ^ 64;
               p = p - (prevlen - 1)
           in do { lpAssertValidEntry lp (lpBytes lp) p; Some (Some p) })"

definition lpFirst :: "bytes \<Rightarrow> nat option option" where
  "lpFirst lp =
     (let p = LP_HDR_SIZE in
      if lp ! p = LP_EOF then Some None
      else do { lpAssertValidEntry lp (lpBytes lp) p; Some (Some p) })"

definition lpLast :: "bytes \<Rightarrow> nat option option" where
  "lpLast lp = lpPrev lp (lpGetTotalBytes lp - 1)"

text \<open>The scans stop because an asserted pointer lies inside the listpack and beyond the last one.\<close>

lemma lpEncodeBacklen_pos [simp]: "0 < length (lpEncodeBacklen l)"
  using length_lpEncodeBacklen(1) [of l] by simp

lemma lpSkip_greater: "p < lpSkip lp p"
  by (simp add: lpSkip_def Let_def)

lemma lpValidateNext_bound:
  "lpValidateNext lp pp n = Some r \<Longrightarrow> \<exists>p. pp = Some p \<and> 6 \<le> p \<and> p < n"
  by (auto simp: lpValidateNext_def lp_out_of_range_def LP_HDR_SIZE_def split: option.splits if_splits)

lemma lpValidateNext_next:
  "lpValidateNext lp (Some p) n = Some (Some q) \<Longrightarrow> p < q \<and> q < n"
  by (auto simp: lpValidateNext_def lp_out_of_range_def Let_def split: if_splits)

lemma lpAssertValidEntry_bound: "lpAssertValidEntry lp n p = Some u \<Longrightarrow> 6 \<le> p \<and> p < n"
  using lpValidateNext_bound [of lp "Some p" n]
  by (auto simp: lpAssertValidEntry_def lp_assert_def split: if_splits)

lemma lpNext_less: "lpNext lp p = Some (Some q) \<Longrightarrow> p < q \<and> q < lpBytes lp"
  using lpSkip_greater [of p lp]
  by (auto simp: lpNext_def Let_def bind_eq_Some_conv dest: lpAssertValidEntry_bound split: if_splits)

function lpLength_loop :: "bytes \<Rightarrow> nat option \<Rightarrow> nat \<Rightarrow> nat option" where
  "lpLength_loop lp p count =
     (case p of None \<Rightarrow> Some count
      | Some p \<Rightarrow> (case lpNext lp p of
          None \<Rightarrow> None
        | Some p \<Rightarrow> lpLength_loop lp p ((count + 1) mod 2 ^ 32)))"
  by pat_completeness auto
termination
proof (relation "measure (\<lambda>(lp, p, c). case p of None \<Rightarrow> 0 | Some p \<Rightarrow> Suc (lpBytes lp - p))", goal_cases)
  case (2 lp p c p' q)
  then show ?case using lpNext_less [of lp p'] by (cases q) auto
qed simp

declare lpLength_loop.simps [simp del]

definition lpLength :: "bytes \<Rightarrow> (bytes \<times> nat) option" where
  "lpLength lp =
     (let numele = lpGetNumElements lp in
      if numele \<noteq> LP_HDR_NUMELE_UNKNOWN then Some (lp, numele)
      else do {
        p \<leftarrow> lpFirst lp;
        count \<leftarrow> lpLength_loop lp p 0;
        Some (if count < LP_HDR_NUMELE_UNKNOWN then lpSetNumElements lp (int count) else lp, count)
      })"

text \<open>
  \<^verbatim>\<open>lpFind\<close>. \<open>venc\<close> is \<^verbatim>\<open>vencoding\<close> with \<^verbatim>\<open>vll\<close>: not yet tried, tried in vain, or the integer. The
  value \<^term>\<open>None\<close> stands for a failed assertion or a scan that does not return.
\<close>

datatype lp_venc = VUntried | VNotInt | VInt int

definition lpFind_try :: "bytes \<Rightarrow> lp_venc \<Rightarrow> lp_venc" where
  "lpFind_try s venc =
     (if venc = VUntried then
        (if length s \<ge> 32 \<or> length s = 0 then VNotInt
         else case lpStringToInt64 s of None \<Rightarrow> VNotInt | Some vll \<Rightarrow> VInt vll)
      else venc)"

definition lpFind_check :: "bytes \<Rightarrow> nat \<Rightarrow> nat \<Rightarrow> unit option" where
  "lpFind_check lp lp_bytes p =
     (if p + 8 \<ge> lp_bytes then lpAssertValidEntry lp lp_bytes p
      else lp_assert (p \<ge> LP_HDR_SIZE \<and> p < lp_bytes))"

partial_function (option) lpFind_loop ::
  "bytes \<Rightarrow> nat \<Rightarrow> bytes \<Rightarrow> nat \<Rightarrow> nat \<Rightarrow> nat \<Rightarrow> lp_venc \<Rightarrow> nat \<Rightarrow> nat option option" where
  "lpFind_loop lp lp_bytes s skip p skipcnt venc entry_size =
     (if skipcnt = 0 then
        (case lpGetWithSize (drop p lp) of (value, esz) \<Rightarrow>
          let entry_size = (case esz of Some e \<Rightarrow> e | None \<Rightarrow> entry_size) in
          case value of
            LpStr off ll \<Rightarrow>
              if \<not> (p \<ge> LP_HDR_SIZE \<and> p + entry_size < lp_bytes) then None
              else if length s = ll \<and> bread (p + off) (length s) lp = s then Some (Some p)
              else if lpFind_check lp lp_bytes (p + entry_size) = None then None
              else if lp ! (p + entry_size) = LP_EOF then Some None
              else lpFind_loop lp lp_bytes s skip (p + entry_size) skip venc entry_size
          | LpInt ll \<Rightarrow>
              if lpFind_try s venc = VInt ll then Some (Some p)
              else if lpFind_check lp lp_bytes (p + entry_size) = None then None
              else if lp ! (p + entry_size) = LP_EOF then Some None
              else lpFind_loop lp lp_bytes s skip (p + entry_size) skip (lpFind_try s venc) entry_size)
      else if lpFind_check lp lp_bytes (lpSkip lp p) = None then None
      else if lp ! lpSkip lp p = LP_EOF then Some None
      else lpFind_loop lp lp_bytes s skip (lpSkip lp p) (skipcnt - 1) venc entry_size)"

definition lpFind :: "bytes \<Rightarrow> nat \<Rightarrow> bytes \<Rightarrow> nat \<Rightarrow> nat option option" where
  "lpFind lp p s skip = lpFind_loop lp (lpBytes lp) s skip p 0 VUntried 123456789"

text \<open>
  \<^verbatim>\<open>lpInsert\<close>: the element is \<^verbatim>\<open>elestr\<close>, \<^verbatim>\<open>eleint\<close> or neither. The inner \<^term>\<open>None\<close> is the \<^verbatim>\<open>NULL\<close>
  return for a listpack beyond \<^verbatim>\<open>UINT32_MAX\<close> bytes; otherwise the listpack and \<^verbatim>\<open>*newp\<close>.
\<close>

datatype lp_where = LP_BEFORE | LP_AFTER | LP_REPLACE

datatype lp_ele = EleStr bytes | EleInt bytes | EleNull

definition lpInsert :: "bytes \<Rightarrow> lp_ele \<Rightarrow> nat \<Rightarrow> lp_where \<Rightarrow> (bytes \<times> nat option) option option" where
  "lpInsert lp ele p where = do {
     let delete = (ele = EleNull);
     let where = (if delete then LP_REPLACE else where);
     (p, where) \<leftarrow>
       (if where = LP_AFTER then
          do { let p = lpSkip lp p; ASSERT_INTEGRITY lp p; Some (p, LP_BEFORE) }
        else Some (p, where));
     let poff = p;
     let (stored, enclen) = (case ele of
         EleStr s \<Rightarrow> (case lpEncodeGetType s of
             (LP_ENCODING_INT intenc, enclen) \<Rightarrow> (intenc, enclen)
           | (LP_ENCODING_STRING, enclen) \<Rightarrow> (lpEncodeString s, enclen))
       | EleInt intenc \<Rightarrow> (intenc, length intenc)
       | EleNull \<Rightarrow> ([], 0));
     let backlen = (if \<not> delete then lpEncodeBacklen enclen else []);
     let backlen_size = length backlen;
     let old_listpack_bytes = lpGetTotalBytes lp;
     replaced_len \<leftarrow>
       (if where = LP_REPLACE then
          do {
            let r = lpCurrentEncodedSizeUnsafe (drop p lp);
            let r = (r + length (lpEncodeBacklen r)) mod 2 ^ 32;
            ASSERT_INTEGRITY_LEN lp p r;
            Some r
          }
        else Some 0);
     let new_listpack_bytes = old_listpack_bytes + enclen + backlen_size - replaced_len;
     if new_listpack_bytes > 2 ^ 32 - 1 then Some None
     else do {
       let lp = (if new_listpack_bytes > old_listpack_bytes \<and> new_listpack_bytes > length lp
                 then zrealloc new_listpack_bytes lp else lp);
       let lp = (if where = LP_BEFORE then
                   memmove (poff + enclen + backlen_size) poff (old_listpack_bytes - poff) lp
                 else
                   memmove (poff + enclen + backlen_size) (poff + replaced_len)
                     (old_listpack_bytes - poff - replaced_len) lp);
       let lp = (if new_listpack_bytes < old_listpack_bytes then zrealloc new_listpack_bytes lp else lp);
       let newp = (if delete \<and> lp ! poff = LP_EOF then None else Some poff);
       let lp = (if \<not> delete then bwrite (poff + enclen) backlen (bwrite poff stored lp) else lp);
       let num_elements = lpGetNumElements lp;
       let lp = (if (where \<noteq> LP_REPLACE \<or> delete) \<and> num_elements \<noteq> LP_HDR_NUMELE_UNKNOWN then
                   lpSetNumElements lp (if \<not> delete then int num_elements + 1 else int num_elements - 1)
                 else lp);
       let lp = lpSetTotalBytes lp (int new_listpack_bytes);
       Some (Some (lp, newp))
     }
   }"

definition lpInsertString :: "bytes \<Rightarrow> bytes \<Rightarrow> nat \<Rightarrow> lp_where \<Rightarrow> (bytes \<times> nat option) option option" where
  "lpInsertString lp s p where = lpInsert lp (EleStr s) p where"

definition lpInsertInteger :: "bytes \<Rightarrow> int \<Rightarrow> nat \<Rightarrow> lp_where \<Rightarrow> (bytes \<times> nat option) option option" where
  "lpInsertInteger lp lval p where = lpInsert lp (EleInt (lpEncodeIntegerGetType lval)) p where"

definition lpAppend :: "bytes \<Rightarrow> bytes \<Rightarrow> (bytes \<times> nat option) option option" where
  "lpAppend lp ele =
     (let listpack_bytes = lpGetTotalBytes lp; eofptr = listpack_bytes - 1 in
      lpInsert lp (EleStr ele) eofptr LP_BEFORE)"

definition lpAppendInteger :: "bytes \<Rightarrow> int \<Rightarrow> (bytes \<times> nat option) option option" where
  "lpAppendInteger lp lval =
     (let listpack_bytes = lpGetTotalBytes lp; eofptr = listpack_bytes - 1 in
      lpInsertInteger lp lval eofptr LP_BEFORE)"

definition lpPrepend :: "bytes \<Rightarrow> bytes \<Rightarrow> (bytes \<times> nat option) option option" where
  "lpPrepend lp s = do {
     p \<leftarrow> lpFirst lp;
     case p of None \<Rightarrow> lpAppend lp s | Some p \<Rightarrow> lpInsert lp (EleStr s) p LP_BEFORE
   }"

definition lpPrependInteger :: "bytes \<Rightarrow> int \<Rightarrow> (bytes \<times> nat option) option option" where
  "lpPrependInteger lp lval = do {
     p \<leftarrow> lpFirst lp;
     case p of None \<Rightarrow> lpAppendInteger lp lval | Some p \<Rightarrow> lpInsertInteger lp lval p LP_BEFORE
   }"

definition lpReplace :: "bytes \<Rightarrow> nat \<Rightarrow> bytes \<Rightarrow> (bytes \<times> nat option) option option" where
  "lpReplace lp p s = lpInsert lp (EleStr s) p LP_REPLACE"

definition lpReplaceInteger :: "bytes \<Rightarrow> nat \<Rightarrow> int \<Rightarrow> (bytes \<times> nat option) option option" where
  "lpReplaceInteger lp p lval = lpInsertInteger lp lval p LP_REPLACE"

definition lpDelete :: "bytes \<Rightarrow> nat \<Rightarrow> (bytes \<times> nat option) option option" where
  "lpDelete lp p = lpInsert lp EleNull p LP_REPLACE"

text \<open>The loop of \<^verbatim>\<open>lpDeleteRangeWithEntry\<close>: \<^verbatim>\<open>deleted\<close> and \<^verbatim>\<open>tail\<close> when it stops.\<close>

fun lpDeleteRange_loop :: "bytes \<Rightarrow> nat \<Rightarrow> nat \<Rightarrow> nat \<Rightarrow> nat \<Rightarrow> (nat \<times> nat) option" where
  "lpDeleteRange_loop lp bytes 0 deleted tail = Some (deleted, tail)"
| "lpDeleteRange_loop lp bytes (Suc num) deleted tail =
     (let deleted = deleted + 1; tail = lpSkip lp tail in
      if lp ! tail = LP_EOF then Some (deleted, tail)
      else do { lpAssertValidEntry lp bytes tail; lpDeleteRange_loop lp bytes num deleted tail })"

definition lpDeleteRangeWithEntry :: "bytes \<Rightarrow> nat \<Rightarrow> nat \<Rightarrow> (bytes \<times> nat option) option" where
  "lpDeleteRangeWithEntry lp p num =
     (let bytes = lpBytes lp; eofptr = bytes - 1; first = p in
      if num = 0 then Some (lp, Some p)
      else do {
        (deleted, tail) \<leftarrow> lpDeleteRange_loop lp bytes num 0 p;
        let poff = first;
        let lp = memmove first tail (eofptr - tail + 1) lp;
        let lp = lpSetTotalBytes lp (int bytes - (int tail - int first));
        let numele = lpGetNumElements lp;
        let lp = (if numele \<noteq> LP_HDR_NUMELE_UNKNOWN then lpSetNumElements lp (int numele - int deleted)
                  else lp);
        let lp = lpShrinkToFit lp;
        Some (lp, if lp ! poff = LP_EOF then None else Some poff)
      })"

fun lpSeek_forward :: "bytes \<Rightarrow> nat \<Rightarrow> nat option \<Rightarrow> nat option option" where
  "lpSeek_forward lp 0 ele = Some ele"
| "lpSeek_forward lp (Suc index) ele =
     (case ele of None \<Rightarrow> Some None
      | Some p \<Rightarrow> do { ele \<leftarrow> lpNext lp p; lpSeek_forward lp index ele })"

text \<open>The backward scan counts \<^verbatim>\<open>index\<close> up to \<^verbatim>\<open>-1\<close>: the argument is \<open>-1 - index\<close>.\<close>

fun lpSeek_backward :: "bytes \<Rightarrow> nat \<Rightarrow> nat option \<Rightarrow> nat option option" where
  "lpSeek_backward lp 0 ele = Some ele"
| "lpSeek_backward lp (Suc index) ele =
     (case ele of None \<Rightarrow> Some None
      | Some p \<Rightarrow> do { ele \<leftarrow> lpPrev lp p; lpSeek_backward lp index ele })"

definition lpSeek :: "bytes \<Rightarrow> int \<Rightarrow> nat option option" where
  "lpSeek lp index =
     (let numele = lpGetNumElements lp;
          scan = (\<lambda>forward index.
            if forward then do { ele \<leftarrow> lpFirst lp; lpSeek_forward lp (nat index) ele }
            else do { ele \<leftarrow> lpLast lp; lpSeek_backward lp (nat (- 1 - index)) ele })
      in
      if numele \<noteq> LP_HDR_NUMELE_UNKNOWN then
        let index = (if index < 0 then int numele + index else index) in
        if index < 0 then Some None
        else if index \<ge> int numele then Some None
        else if index > int numele div 2 then scan False (index - int numele)
        else scan True index
      else scan (\<not> index < 0) index)"

definition lpDeleteRange :: "bytes \<Rightarrow> int \<Rightarrow> nat \<Rightarrow> bytes option" where
  "lpDeleteRange lp index num =
     (let numele = lpGetNumElements lp in
      if num = 0 then Some lp
      else do {
        p \<leftarrow> lpSeek lp index;
        case p of None \<Rightarrow> Some lp
        | Some p \<Rightarrow>
          let index = (if numele \<noteq> LP_HDR_NUMELE_UNKNOWN \<and> index < 0 then int numele + index else index) in
          if numele \<noteq> LP_HDR_NUMELE_UNKNOWN \<and> (int numele - index) mod 2 ^ 64 \<le> int num then
            let lp = lp[p := LP_EOF];
                lp = lpSetTotalBytes lp (int p + 1);
                lp = lpSetNumElements lp index
            in Some (lpShrinkToFit lp)
          else do { (lp, p) \<leftarrow> lpDeleteRangeWithEntry lp p num; Some lp }
      })"

fun lpBatchDelete_loop :: "bytes \<Rightarrow> nat \<Rightarrow> nat list \<Rightarrow> nat \<Rightarrow> (bytes \<times> nat) option" where
  "lpBatchDelete_loop lp lp_end [] dst = Some (lp, dst)"
| "lpBatchDelete_loop lp lp_end (skip # ps) dst = do {
     lp_assert (lp ! skip \<noteq> LP_EOF);
     let keep_start = lpSkip lp skip;
     let keep_end = (case ps of p # _ \<Rightarrow> p | [] \<Rightarrow> lp_end);
     if ps \<noteq> [] \<and> keep_start = keep_end then lpBatchDelete_loop lp lp_end ps dst
     else do {
       lp_assert (keep_end > keep_start);
       let bytes_to_keep = keep_end - keep_start;
       let lp = memmove dst keep_start bytes_to_keep lp;
       lpBatchDelete_loop lp lp_end ps (dst + bytes_to_keep)
     }
   }"

definition lpBatchDelete :: "bytes \<Rightarrow> nat list \<Rightarrow> bytes option" where
  "lpBatchDelete lp ps =
     (case ps of [] \<Rightarrow> Some lp
      | dst # _ \<Rightarrow> do {
          let total_bytes = lpGetTotalBytes lp;
          let lp_end = total_bytes;
          lp_assert (lp ! (lp_end - 1) = LP_EOF);
          (lp, dst) \<leftarrow> lpBatchDelete_loop lp lp_end ps dst;
          let deleted_bytes = lp_end - dst;
          let total_bytes = total_bytes - deleted_bytes;
          lp_assert (lp ! (total_bytes - 1) = LP_EOF);
          let lp = lpSetTotalBytes lp (int total_bytes);
          let numele = lpGetNumElements lp;
          let lp = (if numele \<noteq> LP_HDR_NUMELE_UNKNOWN then lpSetNumElements lp (int numele - int (length ps))
                    else lp);
          Some (lpShrinkToFit lp)
        })"

text \<open>
  \<^verbatim>\<open>lpMerge\<close>: \<open>same\<close> says whether both arguments are the same object. The result is the merged
  listpack with the new \<^verbatim>\<open>*first\<close> and \<^verbatim>\<open>*second\<close>.
\<close>

definition lpMerge :: "bytes option \<Rightarrow> bytes option \<Rightarrow> bool \<Rightarrow>
    (bytes \<times> bytes option \<times> bytes option) option option" where
  "lpMerge first second same =
     (case (first, second) of
        (Some first, Some second) \<Rightarrow>
          if same then Some None
          else do {
            let first_bytes = lpBytes first;
            (first, first_len) \<leftarrow> lpLength first;
            let second_bytes = lpBytes second;
            (second, second_len) \<leftarrow> lpLength second;
            let append = (first_bytes \<ge> second_bytes);
            let (target, target_bytes, source, source_bytes) =
              (if append then (first, first_bytes, second, second_bytes)
               else (second, second_bytes, first, first_bytes));
            let lpbytes = first_bytes + second_bytes - LP_HDR_SIZE - 1;
            lp_assert (lpbytes < 2 ^ 32 - 1);
            let lplength = first_len + second_len;
            let lplength = (if lplength < 65535 then lplength else 65535);
            let target = zrealloc lpbytes target;
            let target =
              (if append then
                 bwrite (target_bytes - 1) (bread LP_HDR_SIZE (source_bytes - LP_HDR_SIZE) source) target
               else
                 bwrite 0 (bread 0 (source_bytes - 1) source)
                   (memmove (source_bytes - 1) LP_HDR_SIZE (target_bytes - LP_HDR_SIZE) target));
            let target = lpSetNumElements target (int lplength);
            let target = lpSetTotalBytes target (int lpbytes);
            Some (Some (target, if append then (Some target, None) else (None, Some target)))
          }
      | _ \<Rightarrow> Some None)"

definition lpDup :: "bytes \<Rightarrow> bytes" where
  "lpDup lp = (let lpbytes = lpBytes lp in bwrite 0 (bread 0 lpbytes lp) (replicate lpbytes uninit))"

definition lpEstimateBytesRepeatedInteger :: "int \<Rightarrow> nat \<Rightarrow> nat" where
  "lpEstimateBytesRepeatedInteger lval rep =
     (let enclen = length (lpEncodeIntegerGetType lval);
          backlen = length (lpEncodeBacklen enclen)
      in LP_HDR_SIZE + (enclen + backlen) * rep + 1)"

text \<open>
  The scan of \<^verbatim>\<open>lpValidateIntegrity\<close>. The optional callback gets the entry, the number of elements and
  its user data, and returns its verdict with the new user data.
\<close>

type_synonym 'u lp_entry_cb = "nat \<Rightarrow> nat \<Rightarrow> 'u \<Rightarrow> bool \<times> 'u"

function lpValidate_loop ::
  "bytes \<Rightarrow> nat \<Rightarrow> nat \<Rightarrow> 'u lp_entry_cb option \<Rightarrow> nat option \<Rightarrow> nat \<Rightarrow> 'u \<Rightarrow> (nat option \<times> nat) option \<times> 'u" where
  "lpValidate_loop lp bytes numele entry_cb p count u =
     (case p of None \<Rightarrow> (Some (None, count), u)
      | Some prev \<Rightarrow>
        if lp ! prev = LP_EOF then (Some (Some prev, count), u)
        else case lpValidateNext lp (Some prev) bytes of
          None \<Rightarrow> (None, u)
        | Some p \<Rightarrow>
            (case (case entry_cb of None \<Rightarrow> (True, u) | Some cb \<Rightarrow> cb prev numele u) of
               (ok, u) \<Rightarrow> if \<not> ok then (None, u)
                 else lpValidate_loop lp bytes numele entry_cb p ((count + 1) mod 2 ^ 32) u))"
  by pat_completeness auto
termination
proof (relation "measure (\<lambda>(lp, n, m, cb, p, c, u). case p of None \<Rightarrow> 0 | Some p \<Rightarrow> Suc (n - p))", goal_cases)
  case (2 lp n m cb p c u prev q)
  then show ?case using lpValidateNext_next [of lp prev n] by (cases q) auto
qed simp

declare lpValidate_loop.simps [simp del]

definition lpValidateIntegrity :: "bytes \<Rightarrow> nat \<Rightarrow> bool \<Rightarrow> 'u lp_entry_cb option \<Rightarrow> 'u \<Rightarrow> bool \<times> 'u" where
  "lpValidateIntegrity lp sz deep entry_cb u =
     (if sz < LP_HDR_SIZE + 1 then (False, u)
      else if lpGetTotalBytes lp \<noteq> sz then (False, u)
      else if lp ! (sz - 1) \<noteq> LP_EOF then (False, u)
      else if \<not> deep then (True, u)
      else let numele = lpGetNumElements lp in
        case lpValidate_loop lp sz numele entry_cb (Some LP_HDR_SIZE) 0 u of
          (None, u) \<Rightarrow> (False, u)
        | (Some (p, count), u) \<Rightarrow>
            if p \<noteq> Some (sz - 1) then (False, u)
            else if numele \<noteq> LP_HDR_NUMELE_UNKNOWN \<and> numele \<noteq> count then (False, u)
            else (True, u))"

section \<open>Layout\<close>

text \<open>
  An entry is its encoded value and its back length. \<open>entry_ok\<close>: the value determines its own length,
  the back length has the width the reader expects, and decodes to that length whatever precedes the
  entry.
\<close>

type_synonym lp_entry = "bytes \<times> bytes"

definition raw_ok :: "bytes \<Rightarrow> bool" where
  "raw_ok e \<longleftrightarrow> e \<noteq> [] \<and> unat (e ! 0) < 245 \<and> lpCurrentEncodedSizeBytes e \<le> length e
     \<and> lpCurrentEncodedSizeUnsafe e = length e"

definition backlen_ok :: "bytes \<Rightarrow> bytes \<Rightarrow> bool" where
  "backlen_ok e b \<longleftrightarrow> length b = length (lpEncodeBacklen (length e)) \<and>
     (\<forall>pre post. lpDecodeBacklen (pre @ e @ b @ post) (length pre + length e + length b - 1) = length e)"

definition entry_ok :: "lp_entry \<Rightarrow> bool" where
  "entry_ok eb \<longleftrightarrow> raw_ok (fst eb) \<and> backlen_ok (fst eb) (snd eb)"

definition layout :: "lp_entry list \<Rightarrow> bytes" where
  "layout es = concat (map (\<lambda>(e, b). e @ b) es)"

definition lp_repr :: "bytes \<Rightarrow> lp_entry list \<Rightarrow> bool" where
  "lp_repr lp es \<longleftrightarrow> (\<exists>n slack.
     lp = le_bytes 4 (int (7 + length (layout es))) @ le_bytes 2 (int n) @ layout es @ LP_EOF # slack
     \<and> 7 + length (layout es) < 2 ^ 32 \<and> (\<forall>eb \<in> set es. entry_ok eb)
     \<and> (n = 65535 \<or> n = length es \<and> n < 65535))"

text \<open>The offset behind the elements \<open>xs\<close>; and that of element \<open>i\<close>, or of the end marker.\<close>

definition lp_pos :: "lp_entry list \<Rightarrow> nat" where
  "lp_pos xs = 6 + length (layout xs)"

abbreviation pos_of :: "lp_entry list \<Rightarrow> nat \<Rightarrow> nat" where
  "pos_of es i \<equiv> lp_pos (take i es)"

definition canon :: "bytes \<Rightarrow> lp_entry" where
  "canon e = (e, lpEncodeBacklen (length e))"

lemma layout_simps [simp]:
  "layout [] = []" "layout ((e, b) # es) = e @ b @ layout es" "layout (xs @ ys) = layout xs @ layout ys"
  by (simp_all add: layout_def)

lemma backlen_canon:
  assumes "length e < 2 ^ 35"
  shows "backlen_ok e (lpEncodeBacklen (length e))"
proof -
  have "lpDecodeBacklen (pre @ e @ lpEncodeBacklen (length e) @ post)
      (length pre + length e + length (lpEncodeBacklen (length e)) - 1) = length e" for pre post
    using lpDecodeBacklen_encode [OF assms, of "pre @ e" post] by simp
  then show ?thesis by (simp add: backlen_ok_def)
qed

text \<open>The size of a value is read from the value alone.\<close>

lemma size_prefix:
  assumes e: "e \<noteq> []" "lpCurrentEncodedSizeBytes e \<le> length e"
  shows "lpCurrentEncodedSizeUnsafe (e @ rest) = lpCurrentEncodedSizeUnsafe e"
    and "lpCurrentEncodedSizeBytes (e @ rest) = lpCurrentEncodedSizeBytes e"
proof -
  have h: "(e @ rest) ! 0 = e ! 0" using e by (simp add: nth_append)
  have l2: "2 \<le> length e" if "224 \<le> unat (e ! 0)" "unat (e ! 0) < 240"
    using that e by (simp add: lpCurrentEncodedSizeBytes_def lp_enc_ranges)
  have l5: "5 \<le> length e" if "unat (e ! 0) = 240"
    using that e by (simp add: lpCurrentEncodedSizeBytes_def lp_enc_ranges)
  have "LP_ENCODING_12BIT_STR_LEN (e @ rest) = LP_ENCODING_12BIT_STR_LEN e" if "LP_ENCODING_IS_12BIT_STR (e ! 0)"
    using that l2 h by (simp add: lp_enc_ranges LP_ENCODING_12BIT_STR_LEN_def nth_append)
  moreover have "LP_ENCODING_32BIT_STR_LEN (e @ rest) = LP_ENCODING_32BIT_STR_LEN e" if "LP_ENCODING_IS_32BIT_STR (e ! 0)"
    using that l5 by (simp add: lp_enc_ranges LP_ENCODING_32BIT_STR_LEN_def bread_def)
  ultimately show "lpCurrentEncodedSizeUnsafe (e @ rest) = lpCurrentEncodedSizeUnsafe e"
    by (simp add: lpCurrentEncodedSizeUnsafe_def h LP_ENCODING_6BIT_STR_LEN_def)
  show "lpCurrentEncodedSizeBytes (e @ rest) = lpCurrentEncodedSizeBytes e"
    by (simp add: lpCurrentEncodedSizeBytes_def h)
qed

lemma raw_size:
  assumes "raw_ok e"
  shows "lpCurrentEncodedSizeUnsafe (e @ rest) = length e"
    and "lpCurrentEncodedSizeBytes (e @ rest) = lpCurrentEncodedSizeBytes e"
    and "0 < lpCurrentEncodedSizeBytes e"
proof -
  have e: "e \<noteq> []" "lpCurrentEncodedSizeBytes e \<le> length e" "unat (e ! 0) < 245"
      "lpCurrentEncodedSizeUnsafe e = length e"
    using assms by (simp_all add: raw_ok_def)
  show "lpCurrentEncodedSizeUnsafe (e @ rest) = length e"
    "lpCurrentEncodedSizeBytes (e @ rest) = lpCurrentEncodedSizeBytes e"
    using size_prefix [OF e(1,2)] e(4) by simp_all
  show "0 < lpCurrentEncodedSizeBytes e"
    using e(3) by (simp add: lpCurrentEncodedSizeBytes_def lp_enc_ranges)
qed

lemma raw_ok_not_eof: "raw_ok e \<Longrightarrow> e ! 0 \<noteq> LP_EOF"
  by (auto simp: raw_ok_def lp_enc_ranges)

lemma entry_ok_len:
  assumes "entry_ok (e, b)"
  shows "0 < length e" "0 < length b" "length b = length (lpEncodeBacklen (length e))" "length b \<le> 5"
  using assms length_lpEncodeBacklen(2) [of "length e"]
  by (auto simp: entry_ok_def raw_ok_def backlen_ok_def)

lemma entry_ok_canon: "raw_ok e \<Longrightarrow> length e < 2 ^ 35 \<Longrightarrow> entry_ok (canon e)"
  by (simp add: entry_ok_def canon_def backlen_canon)

lemma raw_okI:
  assumes "e \<noteq> []" "unat (e ! 0) < 245" "lpCurrentEncodedSizeUnsafe e = length e" "length e + 5 < 2 ^ 32"
    "LP_ENCODING_IS_12BIT_STR (e ! 0) \<Longrightarrow> 2 \<le> length e" "LP_ENCODING_IS_32BIT_STR (e ! 0) \<Longrightarrow> 5 \<le> length e"
  shows "raw_ok e"
  using assms by (auto simp: raw_ok_def lpCurrentEncodedSizeBytes_def Suc_le_eq)

lemma raw_ok_integer:
  assumes "in_i64 v"
  shows "raw_ok (lpEncodeIntegerGetType v)"
proof -
  let ?e = "lpEncodeIntegerGetType v"
  have "length ?e \<le> 9 \<and> \<not> LP_ENCODING_IS_12BIT_STR (?e ! 0) \<and> \<not> LP_ENCODING_IS_32BIT_STR (?e ! 0)"
    using assms
  proof (cases rule: lpEncodeInteger_cases)
    case (i13 u)
    note w = lp_signed_wrap(2,3) [OF i13(2,3,1)]
    have u: "u < 2 ^ 13" using w(2) by simp
    have "nat u div 256 < 32" using w(1) u by (simp add: less_mult_imp_div_less nat_less_iff)
    then show ?thesis using lpEncodeInteger_13(1) [OF w(1) u] i13(4) by (simp add: lp_enc_ranges)
  qed (simp_all add: lp_enc_ranges unat_of_nat del: le_bytes.simps)
  then show ?thesis
    using lpGetInteger(2) [OF assms, of "[]"] lpGetInteger(3) [OF assms] by (intro raw_okI) auto
qed

lemma raw_ok_encode:
  assumes "length ele + 10 < 2 ^ 32"
  shows "raw_ok (lp_encode ele)"
proof (cases ele rule: lp_encode_cases)
  case (int v)
  then show ?thesis by (simp add: raw_ok_integer)
next
  case str
  have "length ele + 5 < 2 ^ 32" using assms by simp
  note sz = lpSize_encode(1) [OF this, of "[]"] lpSize_encode(2) [OF this]
  show ?thesis unfolding str(2)
  proof (rule raw_okI)
    show "length (lpEncodeString ele) + 5 < 2 ^ 32"
      using assms by (simp add: lpEncodeString_def Let_def del: le_bytes.simps)
    show "2 \<le> length (lpEncodeString ele)" if "LP_ENCODING_IS_12BIT_STR (lpEncodeString ele ! 0)"
      using that
      by (cases ele rule: lpEncodeString_cases) (auto simp: lp_enc_ranges lp_hdr_bytes simp del: le_bytes.simps)
    show "5 \<le> length (lpEncodeString ele)" if "LP_ENCODING_IS_32BIT_STR (lpEncodeString ele ! 0)"
      using that
      by (cases ele rule: lpEncodeString_cases) (auto simp: lp_enc_ranges lp_hdr_bytes less_mult_imp_div_less simp del: le_bytes.simps)
  qed (use sz str in simp_all)
qed

section \<open>Walking over a represented listpack\<close>

lemma repr_ok: "lp_repr lp es \<Longrightarrow> eb \<in> set es \<Longrightarrow> entry_ok eb"
  and repr_total: "lp_repr lp es \<Longrightarrow> 7 + length (layout es) < 2 ^ 32"
  unfolding lp_repr_def by blast+

lemma repr_fits: "lp_repr lp es \<Longrightarrow> 7 + length (layout es) \<le> length lp"
  unfolding lp_repr_def by (elim exE conjE) (simp del: le_bytes.simps)

lemma repr_splitE:
  assumes "lp_repr lp (xs @ ys)"
  obtains H slack where "length H = 6" "lp = H @ layout xs @ layout ys @ LP_EOF # slack"
    "lpGetTotalBytes lp = 7 + length (layout xs) + length (layout ys)"
    "\<And>eb. eb \<in> set xs \<union> set ys \<Longrightarrow> entry_ok eb" "7 + length (layout xs) + length (layout ys) < 2 ^ 32"
    "lpGetNumElements lp = 65535 \<or> lpGetNumElements lp = length xs + length ys \<and> length xs + length ys < 65535"
proof -
  let ?T = "7 + length (layout xs) + length (layout ys)"
  obtain n slack where lp: "lp = le_bytes 4 (int ?T) @ le_bytes 2 (int n) @ layout xs @ layout ys @ LP_EOF # slack"
      "?T < 2 ^ 32" "\<And>eb. eb \<in> set xs \<union> set ys \<Longrightarrow> entry_ok eb"
      "n = 65535 \<or> n = length xs + length ys \<and> n < 65535"
  proof -
    from assms obtain n slack where r: "lp = le_bytes 4 (int (7 + length (layout (xs @ ys)))) @ le_bytes 2 (int n) @
        layout (xs @ ys) @ LP_EOF # slack" "7 + length (layout (xs @ ys)) < 2 ^ 32"
        "\<forall>eb \<in> set (xs @ ys). entry_ok eb" "n = 65535 \<or> n = length (xs @ ys) \<and> n < 65535"
      unfolding lp_repr_def by blast
    have "length (layout (xs @ ys)) = length (layout xs) + length (layout ys)" by simp
    then have "7 + length (layout (xs @ ys)) = ?T" by simp
    with r show thesis by (intro that [of n slack]) (auto simp: add.assoc simp del: le_bytes.simps of_nat_add)
  qed
  have "bread 0 4 lp = le_bytes 4 (int ?T)" "bread 4 2 lp = le_bytes 2 (int n)"
    unfolding lp(1) by (simp_all add: bread_def del: le_bytes.simps)
  then have "lpGetTotalBytes lp = ?T" "lpGetNumElements lp = n"
    using lp(2,4) by (auto simp: lpGetTotalBytes_def lpGetNumElements_def)
  then show thesis
    using that [of "le_bytes 4 (int ?T) @ le_bytes 2 (int n)" slack] lp by (auto simp del: le_bytes.simps)
qed

lemma drop_lp_pos:
  "length H = 6 \<Longrightarrow> drop (lp_pos xs) (H @ layout xs @ rest) = rest"
  "length H = 6 \<Longrightarrow> (H @ layout xs @ rest) ! lp_pos xs = rest ! 0"
  by (simp_all add: lp_pos_def nth_append)

lemma repr_at:
  assumes "lp_repr lp (xs @ (e, b) # ys)"
  shows "lp ! lp_pos xs = e ! 0" "lp ! lp_pos xs \<noteq> LP_EOF"
    and "lpSkip lp (lp_pos xs) = lp_pos (xs @ [(e, b)])"
    and "lpValidateNext lp (Some (lp_pos xs)) (lpBytes lp) = Some (Some (lp_pos (xs @ [(e, b)])))"
    and "lpDecodeBacklen lp (lp_pos (xs @ [(e, b)]) - 1) = length e"
proof -
  from repr_splitE [OF assms] obtain H slack where H: "length H = 6"
      "lp = H @ layout xs @ layout ((e, b) # ys) @ LP_EOF # slack"
      "lpGetTotalBytes lp = 7 + length (layout xs) + length (layout ((e, b) # ys))"
      "entry_ok (e, b)" "7 + length (layout xs) + length (layout ((e, b) # ys)) < 2 ^ 32"
    by (metis UnCI list.set_intros(1))
  have ok: "raw_ok e" "backlen_ok e b" using H(4) by (simp_all add: entry_ok_def)
  note len = entry_ok_len [OF H(4)]
  have d: "drop (lp_pos xs) lp = e @ b @ layout ys @ LP_EOF # slack"
    unfolding H(2) using drop_lp_pos(1) [OF H(1), of xs "layout ((e, b) # ys) @ LP_EOF # slack"] by simp
  show nth: "lp ! lp_pos xs = e ! 0"
    unfolding H(2) drop_lp_pos(2) [OF H(1)] using len(1) by (simp add: nth_append)
  then show ne: "lp ! lp_pos xs \<noteq> LP_EOF" using raw_ok_not_eof [OF ok(1)] by simp
  note rs = raw_size [OF ok(1)]
  have sz: "lpCurrentEncodedSizeUnsafe (drop (lp_pos xs) lp) = length e"
    "lpCurrentEncodedSizeBytes (drop (lp_pos xs) lp) = lpCurrentEncodedSizeBytes e"
    by (simp_all add: d rs(1,2))
  have snoc: "lp_pos (xs @ [(e, b)]) = lp_pos xs + (length e + length b)" by (simp add: lp_pos_def)
  show "lpSkip lp (lp_pos xs) = lp_pos (xs @ [(e, b)])"
    by (simp add: lpSkip_def sz snoc len(3) Let_def)
  have "lpDecodeBacklen ((H @ layout xs) @ e @ b @ layout ys @ LP_EOF # slack)
      (length (H @ layout xs) + length e + length b - 1) = length e"
    using ok(2) unfolding backlen_ok_def by blast
  then show dec: "lpDecodeBacklen lp (lp_pos (xs @ [(e, b)]) - 1) = length e"
    using H(1) by (simp add: H(2) lp_pos_def add.assoc)
  have le: "lpCurrentEncodedSizeBytes e \<le> length e" "0 < lpCurrentEncodedSizeBytes e"
    using ok(1) rs(3) by (simp_all add: raw_ok_def)
  have small: "length e + length b < 2 ^ 64" using H(5) by simp
  show "lpValidateNext lp (Some (lp_pos xs)) (lpBytes lp) = Some (Some (lp_pos (xs @ [(e, b)])))"
    using ne sz len le H(3) dec small
    by (simp add: lpValidateNext_def lp_out_of_range_def LP_HDR_SIZE_def lpBytes_def snoc Let_def) (simp add: lp_pos_def)
qed


lemma repr_end:
  assumes "lp_repr lp es"
  shows "lp ! lp_pos es = LP_EOF" "lp_pos es = lpBytes lp - 1" "lpBytes lp = lp_pos es + 1"
    and "lpValidateNext lp (Some (lp_pos es)) (lpBytes lp) = Some None"
proof -
  have "lp_repr lp (es @ [])" using assms by simp
  from repr_splitE [OF this] obtain H slack where "length H = 6"
      "lp = H @ layout es @ layout [] @ LP_EOF # slack"
      "lpGetTotalBytes lp = 7 + length (layout es) + length (layout [])" by blast
  then have H: "length H = 6" "lp = H @ layout es @ LP_EOF # slack"
      "lpGetTotalBytes lp = 7 + length (layout es)" by simp_all
  show e: "lp ! lp_pos es = LP_EOF" unfolding H(2) drop_lp_pos(2) [OF H(1)] by simp
  show "lp_pos es = lpBytes lp - 1" "lpBytes lp = lp_pos es + 1" by (simp_all add: lp_pos_def lpBytes_def H(3))
  show "lpValidateNext lp (Some (lp_pos es)) (lpBytes lp) = Some None"
    using e by (simp add: lpValidateNext_def lp_out_of_range_def LP_HDR_SIZE_def lpBytes_def H(3)) (simp add: lp_pos_def)
qed

text \<open>Reading at any element boundary.\<close>

lemma repr_eof_iff: "lp_repr lp (xs @ ys) \<Longrightarrow> lp ! lp_pos xs = LP_EOF \<longleftrightarrow> ys = []"
proof (cases ys)
  case (Cons eb zs)
  assume "lp_repr lp (xs @ ys)"
  then show ?thesis using Cons repr_at(2) [of lp xs "fst eb" "snd eb" zs] by simp
qed (simp add: repr_end(1))

lemma repr_valid: "lp_repr lp (xs @ ys) \<Longrightarrow> lpAssertValidEntry lp (lpBytes lp) (lp_pos xs) = Some ()"
proof -
  assume r: "lp_repr lp (xs @ ys)"
  have "lpValidateNext lp (Some (lp_pos xs)) (lpBytes lp) \<noteq> None"
  proof (cases ys)
    case Nil
    then show ?thesis using repr_end(4) [of lp xs] r by simp
  next
    case (Cons eb zs)
    then show ?thesis using repr_at(4) [of lp xs "fst eb" "snd eb" zs] r by simp
  qed
  then show ?thesis by (simp add: lpAssertValidEntry_def lp_assert_def)
qed

lemma lpNext_repr:
  assumes "lp_repr lp (xs @ (e, b) # ys)"
  shows "lpNext lp (lp_pos xs) = Some (if ys = [] then None else Some (lp_pos (xs @ [(e, b)])))"
proof -
  have r: "lp_repr lp ((xs @ [(e, b)]) @ ys)" using assms by simp
  show ?thesis
    using repr_eof_iff [OF r] repr_valid [OF r]
    by (simp add: lpNext_def repr_at(3) [OF assms] Let_def)
qed

lemma lpPrev_repr:
  assumes "lp_repr lp (xs @ (e, b) # ys)"
  shows "lpPrev lp (lp_pos (xs @ [(e, b)])) = Some (Some (lp_pos xs))"
proof -
  have ok: "entry_ok (e, b)" and lt: "length e + length b < 2 ^ 64"
    using repr_ok [OF assms, of "(e, b)"] repr_total [OF assms] by simp_all
  have "length e + length (lpEncodeBacklen (length e)) = length e + length b"
    using entry_ok_len(3) [OF ok] by simp
  moreover have "lp_pos (xs @ [(e, b)]) - 1 - (length e + length b - 1) = lp_pos xs"
    "lp_pos (xs @ [(e, b)]) \<noteq> 6"
    using entry_ok_len(1) [OF ok] by (simp_all add: lp_pos_def, arith)
  ultimately show ?thesis
    using repr_at(5) [OF assms] repr_valid [OF assms] lt
    by (simp add: lpPrev_def LP_HDR_SIZE_def Let_def)
qed

lemma lpFirst_repr:
  assumes "lp_repr lp es"
  shows "lpFirst lp = Some (if es = [] then None else Some (lp_pos []))"
  using repr_eof_iff [of lp "[]" es] repr_valid [of lp "[]" es] assms
  by (simp add: lpFirst_def LP_HDR_SIZE_def lp_pos_def)

lemma lpPrev_first: "lpPrev lp (lp_pos []) = Some None"
  by (simp add: lpPrev_def LP_HDR_SIZE_def lp_pos_def)

lemma lpLast_repr:
  assumes "lp_repr lp es"
  shows "lpLast lp = Some (if es = [] then None else Some (lp_pos (butlast es)))"
proof (cases es rule: rev_cases)
  case Nil
  then show ?thesis using repr_end(2) [OF assms] lpPrev_first [of lp] by (simp add: lpLast_def lpBytes_def)
next
  case (snoc xs eb)
  obtain e b where "eb = (e, b)" by (cases eb)
  then have "lpPrev lp (lp_pos es) = Some (Some (lp_pos xs))"
    using lpPrev_repr [of lp xs e b "[]"] assms snoc by simp
  then show ?thesis using repr_end(2) [OF assms] snoc by (simp add: lpLast_def lpBytes_def)
qed

interpretation lpc: cursor_sequence lp_repr "\<lambda>_. lp_pos" lpFirst lpLast lpNext lpPrev
proof (unfold_locales, goal_cases)
  case (3 lp xs e ys)
  then show ?case using lpNext_repr [of lp xs "fst e" "snd e" ys] by simp
next
  case (4 lp xs e f ys)
  then show ?case using lpPrev_repr [of lp xs "fst e" "snd e" "f # ys"] by simp
qed (simp_all add: lpFirst_repr lpLast_repr lpPrev_first)

lemma lpSeek_forward_walk: "lpSeek_forward lp n p = cursor_walk (lpNext lp) n p"
  by (induction n arbitrary: p) (auto split: option.splits)

lemma lpSeek_backward_walk: "lpSeek_backward lp n p = cursor_walk (lpPrev lp) n p"
  by (induction n arbitrary: p) (auto split: option.splits)

lemma repr_numele:
  assumes "lp_repr lp es"
  shows "lpGetNumElements lp = 65535 \<or> lpGetNumElements lp = length es \<and> length es < 65535"
proof -
  have "lp_repr lp (es @ [])" using assms by simp
  from repr_splitE [OF this] show ?thesis by auto
qed

text \<open>What an index denotes: counted from the front, or from the back when negative.\<close>

definition lp_index :: "nat \<Rightarrow> int \<Rightarrow> nat option" where
  "lp_index n index =
     (let i = (if index < 0 then int n + index else index) in
      if 0 \<le> i \<and> i < int n then Some (nat i) else None)"

lemma lpSeek_repr:
  assumes "lp_repr lp es"
  shows "lpSeek lp index = Some (map_option (pos_of es) (lp_index (length es) index))"
proof -
  define n where "n = length es"
  have fwd: "do { ele \<leftarrow> lpFirst lp; lpSeek_forward lp k ele } = Some (if k < n then Some (pos_of es k) else None)" for k
    using lpc.walk_forward [OF assms] lpFirst_repr [OF assms] by (simp add: lpSeek_forward_walk n_def)
  have bwd: "do { ele \<leftarrow> lpLast lp; lpSeek_backward lp k ele } =
      Some (if k < n then Some (pos_of es (n - Suc k)) else None)" for k
    using lpc.walk_backward [OF assms] lpLast_repr [OF assms] by (simp add: lpSeek_backward_walk n_def)
  show ?thesis
  proof (cases "lpGetNumElements lp = 65535")
    case True
    show ?thesis
    proof (cases "index < 0")
      case True
      have "nat (- 1 - index) < n \<longleftrightarrow> 0 \<le> int n + index"
        "0 \<le> int n + index \<Longrightarrow> n - Suc (nat (- 1 - index)) = nat (int n + index)"
        using True by (auto simp: nat_less_iff)
      then show ?thesis
        using True \<open>lpGetNumElements lp = 65535\<close> bwd [of "nat (- 1 - index)"]
        by (simp add: lpSeek_def LP_HDR_NUMELE_UNKNOWN_def lp_index_def n_def [symmetric])
    next
      case False
      then show ?thesis
        using \<open>lpGetNumElements lp = 65535\<close> fwd [of "nat index"]
        by (simp add: lpSeek_def LP_HDR_NUMELE_UNKNOWN_def lp_index_def n_def [symmetric] nat_less_iff)
    qed
  next
    case False
    then have nu: "lpGetNumElements lp = n" using repr_numele [OF assms] by (simp add: n_def)
    define i where "i = (if index < 0 then int n + index else index)"
    have m: "lpSeek lp index = (if i < 0 then Some None else if i \<ge> int n then Some None
        else if i > int n div 2 then do { ele \<leftarrow> lpLast lp; lpSeek_backward lp (nat (- 1 - (i - int n))) ele }
        else do { ele \<leftarrow> lpFirst lp; lpSeek_forward lp (nat i) ele })"
      using False nu by (simp add: lpSeek_def LP_HDR_NUMELE_UNKNOWN_def Let_def i_def [symmetric])
    have "nat (- 1 - (i - int n)) < n" "n - Suc (nat (- 1 - (i - int n))) = nat i" if "0 \<le> i" "i < int n"
      using that by auto
    then show ?thesis unfolding m fwd bwd lp_index_def n_def [symmetric] Let_def i_def [symmetric]
      by (auto simp: nat_less_iff)
  qed
qed

text \<open>Counting.\<close>

lemma layout_ge: "(\<And>eb. eb \<in> set es \<Longrightarrow> entry_ok eb) \<Longrightarrow> 2 * length es \<le> length (layout es)"
proof (induction es)
  case (Cons eb es)
  obtain e b where eb: "eb = (e, b)" by (cases eb)
  have "entry_ok (e, b)" using Cons.prems eb by simp
  note len = entry_ok_len(1,2) [OF this]
  have "2 * length es \<le> length (layout es)" using Cons by simp
  then show ?case using len eb by (simp, linarith)
qed simp

lemma repr_length_less: "lp_repr lp es \<Longrightarrow> length es < 2 ^ 31"
  using layout_ge [of es] repr_ok [of lp es] repr_total [of lp es] by fastforce

lemma lpLength_loop_repr:
  assumes "lp_repr lp (xs @ ys)" "ys \<noteq> []" "c + length ys < 2 ^ 32"
  shows "lpLength_loop lp (Some (lp_pos xs)) c = Some (c + length ys)"
  using assms
proof (induction ys arbitrary: xs c)
  case (Cons eb zs)
  obtain e b where eb: "eb = (e, b)" by (cases eb)
  have nx: "lpNext lp (lp_pos xs) = Some (if zs = [] then None else Some (lp_pos (xs @ [(e, b)])))"
    using lpNext_repr [of lp xs e b zs] Cons.prems(1) eb by simp
  show ?case
  proof (cases "zs = []")
    case True
    then show ?thesis using nx Cons.prems(3)
      by (subst lpLength_loop.simps) (simp add: lpLength_loop.simps)
  next
    case False
    then have "lpLength_loop lp (Some (lp_pos (xs @ [(e, b)]))) (c + 1) = Some (c + 1 + length zs)"
      using Cons.IH [of "xs @ [(e, b)]" "c + 1"] Cons.prems eb by simp
    then show ?thesis using nx False Cons.prems(3)
      by (subst lpLength_loop.simps) simp
  qed
qed simp

lemma repr_set_num:
  assumes "lp_repr lp es" "length es < 65535"
  shows "lp_repr (lpSetNumElements lp (int (length es))) es"
    and "lpGetNumElements (lpSetNumElements lp (int (length es))) = length es"
proof -
  obtain n slack where r: "lp = le_bytes 4 (int (7 + length (layout es))) @ le_bytes 2 (int n) @ layout es @ LP_EOF # slack"
    "7 + length (layout es) < 2 ^ 32" "\<forall>eb \<in> set es. entry_ok eb"
    using assms(1) unfolding lp_repr_def by blast
  have "lpSetNumElements lp (int (length es)) =
      le_bytes 4 (int (7 + length (layout es))) @ le_bytes 2 (int (length es)) @ layout es @ LP_EOF # slack"
    unfolding lpSetNumElements_def r(1) by (simp add: bwrite_def del: le_bytes.simps of_nat_add)
  then show "lp_repr (lpSetNumElements lp (int (length es))) es"
    unfolding lp_repr_def using r(2,3) assms(2) by blast
  have "4 \<le> length lp" unfolding r(1) by (simp del: le_bytes.simps)
  then have "bread 4 2 (lpSetNumElements lp (int (length es))) = le_bytes 2 (int (length es))"
    unfolding lpSetNumElements_def by (intro bread_bwrite_same) simp_all
  then show "lpGetNumElements (lpSetNumElements lp (int (length es))) = length es"
    using assms(2) by (simp add: lpGetNumElements_def del: le_bytes.simps)
qed

lemma lpLength_repr:
  assumes "lp_repr lp es"
  shows "\<exists>lp'. lpLength lp = Some (lp', length es) \<and> lp_repr lp' es \<and> length lp' = length lp \<and>
    lpBytes lp' = lpBytes lp \<and> (length es < 65535 \<longrightarrow> lpGetNumElements lp' = length es)"
proof (cases "lpGetNumElements lp = 65535")
  case False
  then show ?thesis using repr_numele [OF assms] assms by (simp add: lpLength_def LP_HDR_NUMELE_UNKNOWN_def)
next
  case True
  have "do { p \<leftarrow> lpFirst lp; lpLength_loop lp p 0 } = Some (length es)"
  proof (cases "es = []")
    case True
    then show ?thesis using lpFirst_repr [OF assms] by (simp add: lpLength_loop.simps)
  next
    case False
    then show ?thesis
      using lpFirst_repr [OF assms] lpLength_loop_repr [of lp "[]" es 0] assms repr_length_less [OF assms] by simp
  qed
  then have len: "lpLength lp = Some (if length es < 65535 then lpSetNumElements lp (int (length es)) else lp, length es)"
    using True lpFirst_repr [OF assms] by (simp add: lpLength_def LP_HDR_NUMELE_UNKNOWN_def)
  have "length (lpSetNumElements lp (int (length es))) = length lp"
    using repr_fits [OF assms] unfolding lpSetNumElements_def by (intro length_bwrite) simp
  then show ?thesis using len assms repr_set_num [OF assms] repr_end(3) by (cases "length es < 65535") simp_all
qed

section \<open>Insertion, replacement and deletion\<close>

lemma memmove_gap:
  assumes "d = length P + k" "c = length P + length E" "n = length Q" "k \<le> length E + length Q + length S"
  shows "memmove d c n (P @ E @ Q @ S) = P @ take k (E @ Q @ S) @ Q @ drop (k + length Q) (E @ Q @ S)"
  using assms by (simp add: memmove_def bwrite_def bread_def)

text \<open>
  The bytes of the header are \<open>A\<close> and \<open>B\<close>. \<open>resize\<close> is the reallocation and move of \<^verbatim>\<open>lpInsert\<close>: the
  bytes \<open>E\<close> are replaced by \<open>k\<close> bytes to be written.
\<close>

lemma lpInsert_resize:
  assumes "old = length P + length E + length Q" "new = length P + k + length Q"
    and "lp1 = (if new > old \<and> new > length (P @ E @ Q @ S) then zrealloc new (P @ E @ Q @ S) else P @ E @ Q @ S)"
    and "lp2 = memmove (length P + k) (length P + length E) (length Q) lp1"
  shows "\<exists>G S'. length G = k \<and> (if new < old then zrealloc new lp2 else lp2) = P @ G @ Q @ S'"
proof -
  obtain S1 where S1: "lp1 = P @ E @ Q @ S1" "new \<le> length lp1"
  proof (cases "new > old \<and> new > length (P @ E @ Q @ S)")
    case True
    then have "lp1 = (P @ E @ Q @ S) @ replicate (new - length (P @ E @ Q @ S)) uninit"
      using assms(3) zrealloc_grow [of "P @ E @ Q @ S" new] by simp
    moreover have "new \<le> length lp1" using calculation True by simp
    ultimately show thesis
      by (intro that [of "S @ replicate (new - length (P @ E @ Q @ S)) uninit"]) simp_all
  next
    case False
    then show thesis using assms(1,2,3) by (intro that [of S]) auto
  qed
  have k: "k \<le> length E + length Q + length S1" using S1 assms(2) by simp
  obtain G S2 where G: "length G = k" "lp2 = P @ G @ Q @ S2"
    using memmove_gap [OF refl refl refl k, of P] k assms(4) S1(1) by (metis length_append length_take min.absorb2 add.assoc)
  show ?thesis
  proof (cases "new < old")
    case True
    have "zrealloc new lp2 = P @ G @ Q"
      using zrealloc_shrink [of new "P @ G @ Q" S2] G assms(2) by simp
    then show ?thesis using True G(1) by (intro exI [of _ G] exI [of _ "[]"]) simp
  next
    case False
    then show ?thesis using G by auto
  qed
qed

lemma repr_headerE:
  assumes "lp_repr lp es"
  obtains A B slack n where "lp = A @ B @ layout es @ LP_EOF # slack" "length A = 4" "B = le_bytes 2 (int n)"
    "lpGetNumElements lp = n" "n = 65535 \<or> n = length es \<and> n < 65535"
proof -
  from assms obtain n slack where r: "lp = le_bytes 4 (int (7 + length (layout es))) @ le_bytes 2 (int n) @
      layout es @ LP_EOF # slack" "n = 65535 \<or> n = length es \<and> n < 65535" unfolding lp_repr_def by blast
  have "bread 4 2 lp = le_bytes 2 (int n)" unfolding r(1) by (simp add: bread_def del: le_bytes.simps)
  then have "lpGetNumElements lp = n" using r(2) by (auto simp: lpGetNumElements_def simp del: le_bytes.simps)
  then show thesis using r by (intro that [OF r(1) length_le_bytes refl])
qed

lemma lp_set_headers:
  assumes "length A = 4" "length B = 2"
  shows "lpSetTotalBytes (A @ B @ rest) t = le_bytes 4 t @ B @ rest"
    and "lpSetNumElements (A @ B @ rest) m = A @ le_bytes 2 m @ rest"
    and "lpGetNumElements (A @ B @ rest) = nat (le_uint B)"
  using assms
  by (simp_all add: lpSetTotalBytes_def lpSetNumElements_def lpGetNumElements_def bwrite_def bread_def
      del: le_bytes.simps)

lemma lp_reprI:
  assumes "lp = le_bytes 4 (int (7 + length (layout es))) @ le_bytes 2 m @ layout es @ LP_EOF # slack"
    "7 + length (layout es) < 2 ^ 32" "\<And>eb. eb \<in> set es \<Longrightarrow> entry_ok eb"
    "m = 65535 \<or> m = int (length es) \<and> length es < 65535"
  shows "lp_repr lp es"
  unfolding lp_repr_def
  by (intro exI [of _ "nat m"] exI [of _ slack]) (use assms in auto)

text \<open>The encoded form of the element to store.\<close>

definition ele_enc :: "lp_ele \<Rightarrow> bytes" where
  "ele_enc ele = (case ele of EleStr s \<Rightarrow> lp_encode s | EleInt b \<Rightarrow> b | EleNull \<Rightarrow> [])"

lemma lpInsert_stored:
  "(case ele of
      EleStr s \<Rightarrow> (case lpEncodeGetType s of
          (LP_ENCODING_INT intenc, enclen) \<Rightarrow> (intenc, enclen)
        | (LP_ENCODING_STRING, enclen) \<Rightarrow> (lpEncodeString s, enclen))
    | EleInt intenc \<Rightarrow> (intenc, length intenc)
    | EleNull \<Rightarrow> ([], 0)) = (ele_enc ele, length (ele_enc ele))"
proof (cases ele)
  case (EleStr s)
  then show ?thesis
    using snd_lpEncodeGetType [of s]
    by (cases "lpEncodeGetType s") (auto simp: ele_enc_def lp_encode_def split: lp_enctype.splits)
qed (simp_all add: ele_enc_def)

text \<open>The common part of the three kinds of update: the bytes \<open>E\<close> of the entries \<open>del\<close> give way to the entries \<open>ins\<close>.\<close>

lemma lpInsert_write:
  assumes r: "lp_repr lp (xs @ del @ ys)"
    and old: "old = lpGetTotalBytes lp" and dl: "length del \<le> 1" and ni: "length ins \<le> 1"
    and ins: "\<And>eb. eb \<in> set ins \<Longrightarrow> eb = canon e \<and> entry_ok eb"
    and new: "new = old + length (layout ins) - length (layout del)" "new < 2 ^ 32"
    and lp1: "lp1 = (if new > old \<and> new > length lp then zrealloc new lp else lp)"
    and lp2: "lp2 = memmove (lp_pos xs + length (layout ins)) (lp_pos xs + length (layout del))
        (old - lp_pos xs - length (layout del)) lp1"
    and lp3: "lp3 = (if new < old then zrealloc new lp2 else lp2)"
    and lp4: "lp4 = (if ins \<noteq> [] then bwrite (lp_pos xs + length e) (lpEncodeBacklen (length e)) (bwrite (lp_pos xs) e lp3) else lp3)"
    and lp5: "lp5 = (if length del \<noteq> length ins \<and> lpGetNumElements lp4 \<noteq> 65535
        then lpSetNumElements lp4 (int (lpGetNumElements lp4) + int (length ins) - int (length del)) else lp4)"
  shows "lp_repr (lpSetTotalBytes lp5 (int new)) (xs @ ins @ ys)"
    and "ins = [] \<Longrightarrow> lp3 ! lp_pos xs = (layout ys @ [LP_EOF]) ! 0"
proof -
  obtain A B slack n where lp: "lp = A @ B @ layout (xs @ del @ ys) @ LP_EOF # slack" "length A = 4"
      "B = le_bytes 2 (int n)" "lpGetNumElements lp = n" "n = 65535 \<or> n = length (xs @ del @ ys) \<and> n < 65535"
    using repr_headerE [OF r] by blast
  let ?P = "A @ B @ layout xs" and ?Q = "layout ys @ [LP_EOF]"
  have P: "length ?P = lp_pos xs" using lp(2,3) by (simp add: lp_pos_def del: le_bytes.simps)
  have T: "old = length ?P + length (layout del) + length ?Q"
    unfolding old using repr_end(3) [OF r] P by (simp add: lpBytes_def lp_pos_def)
  have eq: "lp = ?P @ layout del @ ?Q @ slack" by (simp add: lp(1))
  have q: "old - lp_pos xs - length (layout del) = length ?Q" using T P by simp
  have new0: "new = length ?P + length (layout ins) + length ?Q" using new(1) T by linarith
  have "\<exists>G S'. length G = length (layout ins) \<and> (if new < old then zrealloc new lp2 else lp2) = ?P @ G @ ?Q @ S'"
  proof (rule lpInsert_resize [OF T new0])
    show "lp1 = (if new > old \<and> new > length (?P @ layout del @ ?Q @ slack)
        then zrealloc new (?P @ layout del @ ?Q @ slack) else ?P @ layout del @ ?Q @ slack)"
      unfolding eq [symmetric] by (rule lp1)
    show "lp2 = memmove (length ?P + length (layout ins)) (length ?P + length (layout del)) (length ?Q) lp1"
      unfolding P q [symmetric] by (rule lp2)
  qed
  then obtain G S' where G: "length G = length (layout ins)" "lp3 = ?P @ G @ ?Q @ S'"
    unfolding lp3 [symmetric] by blast
  have lp4': "lp4 = ?P @ layout ins @ ?Q @ S'"
  proof (cases ins)
    case Nil
    then show ?thesis using lp4 G by simp
  next
    case (Cons eb zs)
    then have i: "ins = [canon e]" using ins [of eb] ni by simp
    have "length G = length e + length (lpEncodeBacklen (length e))" using G(1) i by (simp add: canon_def)
    then have "bwrite (length ?P + length e) (lpEncodeBacklen (length e)) (bwrite (length ?P) e (?P @ G @ ?Q @ S'))
      = ?P @ (e @ lpEncodeBacklen (length e)) @ ?Q @ S'"
      unfolding bwrite_def by simp
    then show ?thesis unfolding lp4 G(2) P using i by (simp add: canon_def)
  qed
  show "lp3 ! lp_pos xs = ?Q ! 0" if "ins = []"
  proof -
    have "lp3 = ?P @ ?Q @ S'" using that G by simp
    then show ?thesis unfolding P [symmetric] by (simp only: nth_append_length_plus [of ?P _ 0, simplified]) (simp add: nth_append)
  qed
  have B: "length B = 2" using lp(3) by (simp del: le_bytes.simps)
  have num: "lpGetNumElements lp4 = n"
    unfolding lp4' using lp(2,3,5) B lp_set_headers(3) [OF lp(2) B] by (auto simp del: le_bytes.simps)
  define m where "m = (if length del \<noteq> length ins \<and> n \<noteq> 65535 then int n + int (length ins) - int (length del) else int n)"
  have lp5': "lp5 = A @ le_bytes 2 m @ layout xs @ layout ins @ ?Q @ S'"
    unfolding lp5 num m_def using lp4' lp_set_headers(2) [OF lp(2) B] lp(3) by (simp del: le_bytes.simps)
  have new': "new = 7 + length (layout (xs @ ins @ ys))" using new(1) T P by (simp add: lp_pos_def)
  show "lp_repr (lpSetTotalBytes lp5 (int new)) (xs @ ins @ ys)"
  proof (rule lp_reprI)
    show "lpSetTotalBytes lp5 (int new) = le_bytes 4 (int (7 + length (layout (xs @ ins @ ys)))) @ le_bytes 2 m
        @ layout (xs @ ins @ ys) @ LP_EOF # S'"
      unfolding lp5' new' [symmetric] using lp_set_headers(1) [OF lp(2)] by (simp del: le_bytes.simps)
    show "7 + length (layout (xs @ ins @ ys)) < 2 ^ 32" using new(2) new' by simp
    show "entry_ok eb" if "eb \<in> set (xs @ ins @ ys)" for eb
      using that ins [of eb] repr_ok [OF r, of eb] by auto
    show "m = 65535 \<or> m = int (length (xs @ ins @ ys)) \<and> length (xs @ ins @ ys) < 65535"
      using lp(5) ni dl unfolding m_def by auto
  qed
qed

text \<open>Total bytes of a listpack that holds \<open>es\<close>.\<close>

definition lp_total :: "lp_entry list \<Rightarrow> nat" where
  "lp_total es = 7 + length (layout es)"

lemma repr_total_bytes: "lp_repr lp es \<Longrightarrow> lpGetTotalBytes lp = lp_total es"
  using repr_end(3) [of lp es] by (simp add: lpBytes_def lp_pos_def lp_total_def)

lemma lpInsert_before:
  assumes r: "lp_repr lp (xs @ ys)" and ne: "ele \<noteq> EleNull" and ok: "entry_ok (canon (ele_enc ele))"
  shows "\<exists>lp'. lpInsert lp ele (lp_pos xs) LP_BEFORE =
      Some (if lp_total (xs @ canon (ele_enc ele) # ys) < 2 ^ 32 then Some (lp', Some (lp_pos xs)) else None)
    \<and> (lp_total (xs @ canon (ele_enc ele) # ys) < 2 ^ 32 \<longrightarrow> lp_repr lp' (xs @ canon (ele_enc ele) # ys))"
proof -
  let ?e = "ele_enc ele"
  let ?k = "length ?e + length (lpEncodeBacklen (length ?e))"
  have k: "length (layout [canon ?e]) = ?k" by (simp add: canon_def)
  have T: "lp_total (xs @ canon ?e # ys) = lpGetTotalBytes lp + ?k"
    unfolding repr_total_bytes [OF r] by (simp add: lp_total_def canon_def)
  have r': "lp_repr lp (xs @ [] @ ys)" using r by simp
  show ?thesis
  proof (cases "lpGetTotalBytes lp + ?k < 2 ^ 32")
    case False
    then show ?thesis using ne unfolding T by (simp add: lpInsert_def lpInsert_stored Let_def add.assoc)
  next
    case True
    note w = lpInsert_write(1) [OF r' refl _ _ _ refl _ refl refl refl refl refl, of "[canon ?e]" ?e, simplified k]
    show ?thesis using True ne w ok unfolding T
      by (simp add: lpInsert_def lpInsert_stored Let_def add.assoc LP_HDR_NUMELE_UNKNOWN_def cong: if_cong)
  qed
qed

lemma lpInsert_after:
  assumes "lp_repr lp (xs @ (e, b) # ys)" "ele \<noteq> EleNull"
  shows "lpInsert lp ele (lp_pos xs) LP_AFTER = lpInsert lp ele (lp_pos (xs @ [(e, b)])) LP_BEFORE"
proof -
  have "ASSERT_INTEGRITY lp (lp_pos (xs @ [(e, b)])) = Some ()"
    using repr_total_bytes [OF assms(1)]
    by (simp add: ASSERT_INTEGRITY_def lp_assert_def LP_HDR_SIZE_def lp_total_def lp_pos_def)
  then show ?thesis
    using assms(2) repr_at(3) [OF assms(1)] by (simp add: lpInsert_def Let_def)
qed

lemma repr_replaced:
  assumes "lp_repr lp (xs @ (e, b) # ys)"
  shows "(lpCurrentEncodedSizeUnsafe (drop (lp_pos xs) lp) +
        length (lpEncodeBacklen (lpCurrentEncodedSizeUnsafe (drop (lp_pos xs) lp)))) mod 2 ^ 32 = length (layout [(e, b)])"
    and "ASSERT_INTEGRITY_LEN lp (lp_pos xs) (length (layout [(e, b)])) = Some ()"
proof -
  have ok: "entry_ok (e, b)" using repr_ok [OF assms] by simp
  have T: "lpGetTotalBytes lp = lp_total (xs @ (e, b) # ys)" by (rule repr_total_bytes [OF assms])
  have "lp_pos xs + (lpCurrentEncodedSizeUnsafe (drop (lp_pos xs) lp) +
        length (lpEncodeBacklen (lpCurrentEncodedSizeUnsafe (drop (lp_pos xs) lp)))) = lp_pos (xs @ [(e, b)])"
    using repr_at(3) [OF assms] by (simp add: lpSkip_def Let_def)
  moreover have "lp_pos (xs @ [(e, b)]) = lp_pos xs + (length e + length b)" by (simp add: lp_pos_def)
  moreover have "length e + length b < 2 ^ 32" using repr_total [OF assms] by simp
  ultimately show "(lpCurrentEncodedSizeUnsafe (drop (lp_pos xs) lp) +
        length (lpEncodeBacklen (lpCurrentEncodedSizeUnsafe (drop (lp_pos xs) lp)))) mod 2 ^ 32 = length (layout [(e, b)])"
    by simp
  show "ASSERT_INTEGRITY_LEN lp (lp_pos xs) (length (layout [(e, b)])) = Some ()"
    using T by (simp add: ASSERT_INTEGRITY_LEN_def lp_assert_def LP_HDR_SIZE_def lp_total_def lp_pos_def)
qed

lemma lpInsert_replace:
  assumes r: "lp_repr lp (xs @ (e, b) # ys)" and ne: "ele \<noteq> EleNull" and ok: "entry_ok (canon (ele_enc ele))"
  shows "\<exists>lp'. lpInsert lp ele (lp_pos xs) LP_REPLACE =
      Some (if lp_total (xs @ canon (ele_enc ele) # ys) < 2 ^ 32 then Some (lp', Some (lp_pos xs)) else None)
    \<and> (lp_total (xs @ canon (ele_enc ele) # ys) < 2 ^ 32 \<longrightarrow> lp_repr lp' (xs @ canon (ele_enc ele) # ys))"
proof -
  let ?e = "ele_enc ele"
  let ?k = "length ?e + length (lpEncodeBacklen (length ?e))"
  have k: "length (layout [canon ?e]) = ?k" by (simp add: canon_def)
  have T: "lp_total (xs @ canon ?e # ys) = lpGetTotalBytes lp + ?k - length (layout [(e, b)])"
    unfolding repr_total_bytes [OF r] by (simp add: lp_total_def canon_def)
  have r': "lp_repr lp (xs @ [(e, b)] @ ys)" using r by simp
  note rep = repr_replaced [OF r]
  show ?thesis
  proof (cases "lpGetTotalBytes lp + ?k - length (layout [(e, b)]) < 2 ^ 32")
    case False
    then show ?thesis
      using ne rep unfolding T by (simp add: lpInsert_def lpInsert_stored Let_def add.assoc del: layout_simps)
  next
    case True
    note w = lpInsert_write(1) [OF r' refl _ _ _ refl _ refl refl refl refl refl, of "[canon ?e]" ?e, simplified k]
    show ?thesis using True ne w ok rep unfolding T
      by (simp add: lpInsert_def lpInsert_stored Let_def add.assoc LP_HDR_NUMELE_UNKNOWN_def
          del: layout_simps cong: if_cong)
  qed
qed

lemma lpInsert_delete:
  assumes r: "lp_repr lp (xs @ (e, b) # ys)"
  shows "\<exists>lp'. lpInsert lp EleNull (lp_pos xs) where = Some (Some (lp', if ys = [] then None else Some (lp_pos xs)))
    \<and> lp_repr lp' (xs @ ys)"
proof -
  let ?k = "length (layout [(e, b)])"
  have r': "lp_repr lp (xs @ [(e, b)] @ ys)" using r by simp
  note rep = repr_replaced [OF r]
  have lt: "lpGetTotalBytes lp - ?k < 2 ^ 32"
    using repr_total [OF r] repr_total_bytes [OF r] by (simp add: lp_total_def)
  have eof: "(layout ys @ [LP_EOF]) ! 0 = LP_EOF \<longleftrightarrow> ys = []"
  proof (cases ys)
    case (Cons eb zs)
    obtain e' b' where eb: "eb = (e', b')" by (cases eb)
    have "entry_ok (e', b')" using repr_ok [OF r] Cons eb by simp
    then have "raw_ok e'" "e' \<noteq> []" by (simp_all add: entry_ok_def raw_ok_def)
    then show ?thesis using raw_ok_not_eof Cons eb by (simp add: nth_append)
  qed simp
  note w = lpInsert_write [OF r' refl _ _ _ refl _ refl refl refl refl refl, of "[]"]
  show ?thesis using w rep eof lt
    by (simp add: lpInsert_def lpInsert_stored Let_def add.assoc LP_HDR_NUMELE_UNKNOWN_def ele_enc_def
        del: layout_simps(2,3) cong: if_cong)
qed

end
