(* ===== verification/Listpack_Ops.thy ===== *)
theory Listpack_Ops
  imports Listpack
begin

text \<open>
  Correctness of the compound listpack operations over the layout of theory \<^verbatim>\<open>Listpack\<close>: the values of
  the entries, search, range and batch deletion, merging, and validation of untrusted bytes.
\<close>

section \<open>Values\<close>

definition entry_val :: "lp_entry \<Rightarrow> bytes" where
  "entry_val eb = lpGet_intbuf (fst eb)"

text \<open>\<open>lp_holds lp l\<close>: a well-formed listpack with the elements \<open>l\<close>.\<close>

definition lp_holds :: "bytes \<Rightarrow> bytes list \<Rightarrow> bool" where
  "lp_holds lp l \<longleftrightarrow> (\<exists>es. lp_repr lp es \<and> map entry_val es = l)"

lemma raw_bread:
  assumes "raw_ok e"
  shows "LP_ENCODING_IS_13BIT_INT (e ! 0) \<Longrightarrow> (e @ rest) ! 1 = e ! 1"
    and "LP_ENCODING_IS_12BIT_STR (e ! 0) \<Longrightarrow> (e @ rest) ! 1 = e ! 1"
    and "LP_ENCODING_IS_16BIT_INT (e ! 0) \<Longrightarrow> bread 1 2 (e @ rest) = bread 1 2 e"
    and "LP_ENCODING_IS_24BIT_INT (e ! 0) \<Longrightarrow> bread 1 3 (e @ rest) = bread 1 3 e"
    and "LP_ENCODING_IS_32BIT_INT (e ! 0) \<Longrightarrow> bread 1 4 (e @ rest) = bread 1 4 e"
    and "LP_ENCODING_IS_64BIT_INT (e ! 0) \<Longrightarrow> bread 1 8 (e @ rest) = bread 1 8 e"
    and "LP_ENCODING_IS_32BIT_STR (e ! 0) \<Longrightarrow> bread 1 4 (e @ rest) = bread 1 4 e"
  using assms
  by (auto simp: raw_ok_def lpCurrentEncodedSizeUnsafe_def lpCurrentEncodedSizeBytes_def lp_enc_ranges
      bread_def nth_append)

lemma lpGet_raw:
  assumes "raw_ok e"
  shows "lpGetWithSize (e @ rest) = lpGetWithSize e"
proof -
  have h: "(e @ rest) ! 0 = e ! 0" using assms by (simp add: raw_ok_def nth_append)
  show ?thesis
    using raw_bread [OF assms, of rest]
    by (simp add: lpGetWithSize_def h LP_ENCODING_6BIT_STR_LEN_def LP_ENCODING_12BIT_STR_LEN_def
        LP_ENCODING_32BIT_STR_LEN_def cong: if_cong)
qed

lemma lpEncodeBacklen_small: "l \<le> 127 \<Longrightarrow> length (lpEncodeBacklen l) = 1"
  by (simp add: lpEncodeBacklen_def)

lemma raw_len32:
  assumes "raw_ok e" "unat (e ! 0) = 240"
  shows "length e = LP_ENCODING_32BIT_STR_LEN e + 5"
proof -
  have a: "length e = (5 + LP_ENCODING_32BIT_STR_LEN e) mod 2 ^ 32" "5 \<le> length e"
    using assms by (simp_all add: raw_ok_def lpCurrentEncodedSizeUnsafe_def lpCurrentEncodedSizeBytes_def lp_enc_ranges)
  have "le_uint (bread 1 4 e) < 2 ^ 32" using le_uint_less [of "bread 1 4 e"] a(2) by (simp add: length_bread)
  then have "LP_ENCODING_32BIT_STR_LEN e < 2 ^ 32"
    by (simp add: LP_ENCODING_32BIT_STR_LEN_def nat_less_iff)
  then show ?thesis using a by (simp add: mod_if [of _ "4294967296 :: nat"] split: if_splits)
qed

lemma lpGet_entry_size:
  assumes "raw_ok e"
  shows "snd (lpGetWithSize e) = Some (length e + length (lpEncodeBacklen (length e)))"
proof -
  have "lpCurrentEncodedSizeUnsafe e = length e" "unat (e ! 0) < 245"
    using assms by (simp_all add: raw_ok_def)
  then show ?thesis
    using raw_len32 [OF assms]
    by (simp add: lpGetWithSize_def lpCurrentEncodedSizeUnsafe_def lp_enc_ranges Let_def lpEncodeBacklen_small
        split: if_splits)
qed

lemma lp_signed_range:
  assumes "u < 2 ^ Suc k" "k \<le> 63"
  shows "in_i64 (lp_signed u (2 ^ k) (2 ^ Suc k - 1))"
proof -
  have "(2 :: int) ^ k \<le> 2 ^ 63" using assms(2) by (intro power_increasing) simp_all
  moreover have "int u < 2 * 2 ^ k"
  proof -
    have "int u < int (2 ^ Suc k)" using assms(1) by (simp only: of_nat_less_iff)
    then show ?thesis by simp
  qed
  moreover have "int (2 ^ Suc k - 1) = 2 * 2 ^ k - 1" by (simp add: of_nat_diff)
  moreover have "(2 ^ k \<le> u) = (2 ^ k \<le> int u)"
    using of_nat_le_iff [where 'a = int, of "2 ^ k" u] by simp
  ultimately show ?thesis unfolding in_i64_def lp_signed_def by (simp only: split: if_split) linarith
qed

lemma le_uint_nat_less: "n \<le> k \<Longrightarrow> nat (le_uint (bread i n e)) < 2 ^ (8 * k)"
proof -
  assume n: "n \<le> k"
  have "le_uint (bread i n e) < 2 ^ (8 * length (bread i n e))" by (rule le_uint_less)
  also have "\<dots> \<le> (2 :: int) ^ (8 * k)" using n by (intro power_increasing) (simp_all add: length_bread)
  finally show ?thesis by (simp add: nat_less_iff)
qed

lemma lpGet_value:
  assumes "raw_ok e"
  shows "case lpGet e of LpInt v \<Rightarrow> in_i64 v | LpStr off n \<Rightarrow> off + n = length e \<and> 0 < off"
proof -
  have sz: "lpCurrentEncodedSizeUnsafe e = length e" "unat (e ! 0) < 245"
    using assms by (simp_all add: raw_ok_def)
  have small: "in_i64 (lp_signed (unat (b AND 127 :: byte)) ULLONG_MAX 0)" for b
  proof -
    have "in_i64 (lp_signed x ULLONG_MAX 0)" if "x < 128" for x
      using that by (simp add: lp_signed_def ULLONG_MAX_def in_i64_def)
    then show ?thesis by (simp add: lp_low_bits)
  qed
  have "unat (e ! 0) mod 32 < 32" "unat (e ! 1) < 256" using unsigned_less [of "e ! 1"] by simp_all
  moreover have "a * 256 + b < 2 ^ Suc 12" if "a < 32" "b < 256" for a b :: nat
    using that by simp
  ultimately have "unat (e ! 0 AND 0x1f) * 256 + unat (e ! 1) < 2 ^ Suc 12"
    unfolding lp_low_bits by blast
  from lp_signed_range [OF this] have i13: "in_i64 (lp_signed (unat (e ! 0 AND 0x1f) * 256 + unat (e ! 1)) (2 ^ 12) 8191)"
    by simp
  show ?thesis
    using sz raw_len32 [OF assms] small i13
      lp_signed_range [of "nat (le_uint (bread 1 2 e))" 15] le_uint_nat_less [of 2 2 1 e]
      lp_signed_range [of "nat (le_uint (bread 1 3 e))" 23] le_uint_nat_less [of 3 3 1 e]
      lp_signed_range [of "nat (le_uint (bread 1 4 e))" 31] le_uint_nat_less [of 4 4 1 e]
      lp_signed_range [of "nat (le_uint (bread 1 8 e))" 63] le_uint_nat_less [of 8 8 1 e]
    by (simp add: lpGet_def lpGetWithSize_def lpCurrentEncodedSizeUnsafe_def lp_enc_ranges Let_def ULLONG_MAX_def
        split: if_splits)
qed

lemma lpGet_intbuf_raw:
  assumes "raw_ok e"
  shows "lpGet_intbuf (e @ rest) = lpGet_intbuf e"
proof -
  have "lpGet (e @ rest) = lpGet e" by (simp add: lpGet_def lpGet_raw [OF assms])
  then show ?thesis
    using lpGet_value [OF assms] by (auto simp: lpGet_intbuf_def bread_def split: lp_value.splits)
qed

lemma entry_val_int:
  assumes "raw_ok e" "lpGet e = LpInt v"
  shows "lpGet_intbuf e = int_dec v"
proof -
  have v: "in_i64 v" using lpGet_value [OF assms(1)] assms(2) by simp
  have "length (int_dec v) < length (replicate LP_INTBUF_SIZE uninit)"
    using length_int_dec(1) [OF v] by (simp add: LP_INTBUF_SIZE_def LONG_STR_SIZE_def)
  from ll2string_fits [OF v this] show ?thesis by (simp add: lpGet_intbuf_def assms(2))
qed

lemma entry_val_canon: "length ele < 2 ^ 32 \<Longrightarrow> entry_val (canon (lp_encode ele)) = ele"
  using lpGet_encode [of ele "[]"] by (simp add: entry_val_def canon_def)

lemma lp_encode_int_dec: "in_i64 v \<Longrightarrow> lp_encode (int_dec v) = lpEncodeIntegerGetType v"
  by (simp add: lp_encode_def lpEncodeGetType_def lpStringToInt64_eq string2ll_iff [THEN iffD2])

text \<open>Reading the element at a position.\<close>

lemma repr_lpGet:
  assumes "lp_repr lp (xs @ eb # ys)"
  shows "lpGet_intbuf (drop (lp_pos xs) lp) = entry_val eb"
    and "lpGetWithSize (drop (lp_pos xs) lp) = lpGetWithSize (fst eb)"
proof -
  obtain e b where eb: "eb = (e, b)" by (cases eb)
  have ok: "raw_ok e" using repr_ok [OF assms, of eb] eb by (simp add: entry_ok_def)
  obtain H slack where H: "length H = 6" "lp = H @ layout xs @ layout (eb # ys) @ LP_EOF # slack"
    using repr_splitE [OF assms] by blast
  have "drop (lp_pos xs) lp = e @ b @ layout ys @ LP_EOF # slack"
    unfolding H(2) drop_lp_pos(1) [OF H(1)] by (simp add: eb)
  then show "lpGet_intbuf (drop (lp_pos xs) lp) = entry_val eb"
    "lpGetWithSize (drop (lp_pos xs) lp) = lpGetWithSize (fst eb)"
    using ok by (simp_all add: eb entry_val_def lpGet_intbuf_raw lpGet_raw)
qed

section \<open>Shrinking and range deletion\<close>

lemma lpShrinkToFit_repr:
  assumes "lp_repr lp es"
  shows "lp_repr (lpShrinkToFit lp) es" "length (lpShrinkToFit lp) = lp_total es"
proof -
  obtain n slack where r: "lp = le_bytes 4 (int (7 + length (layout es))) @ le_bytes 2 (int n) @ layout es @ LP_EOF # slack"
    "7 + length (layout es) < 2 ^ 32" "\<forall>eb \<in> set es. entry_ok eb" "n = 65535 \<or> n = length es \<and> n < 65535"
    using assms unfolding lp_repr_def by blast
  let ?full = "le_bytes 4 (int (7 + length (layout es))) @ le_bytes 2 (int n) @ layout es @ [LP_EOF]"
  have len: "length ?full = lp_total es" by (simp add: lp_total_def del: le_bytes.simps)
  have eq: "lp = ?full @ slack" using r(1) by simp
  have "lpShrinkToFit lp = ?full"
    unfolding lpShrinkToFit_def repr_total_bytes [OF assms] Let_def
  proof (cases "lp_total es < length lp")
    case True
    then show "(if lp_total es < length lp then zrealloc (lp_total es) lp else lp) = ?full"
      using zrealloc_shrink [OF len [symmetric], of slack] eq by simp
  next
    case False
    moreover have "length lp = lp_total es + length slack" using arg_cong [OF eq, of length] len by simp
    ultimately have "slack = []" by simp
    then show "(if lp_total es < length lp then zrealloc (lp_total es) lp else lp) = ?full"
      using False eq by simp
  qed
  then have fit: "lpShrinkToFit lp = ?full" .
  then show "length (lpShrinkToFit lp) = lp_total es" using len by (simp only:)
  show "lp_repr (lpShrinkToFit lp) es"
    unfolding lp_repr_def fit using r(2-4) by (intro exI [of _ n] exI [of _ "[]"]) simp
qed

lemma lpDeleteRange_loop_repr:
  assumes "lp_repr lp (xs @ ys)" "ys \<noteq> []"
  shows "lpDeleteRange_loop lp (lpBytes lp) num c (lp_pos xs) =
    Some (c + min num (length ys), lp_pos (xs @ take num ys))"
  using assms
proof (induction num arbitrary: xs ys c)
  case (Suc num)
  then obtain e b zs where ys: "ys = (e, b) # zs" by (cases ys) auto
  have r: "lp_repr lp ((xs @ [(e, b)]) @ zs)" using Suc.prems ys by simp
  have sk: "lpSkip lp (lp_pos xs) = lp_pos (xs @ [(e, b)])"
    using repr_at(3) [of lp xs e b zs] Suc.prems ys by simp
  show ?case
  proof (cases "zs = []")
    case True
    then show ?thesis using repr_eof_iff [OF r] sk ys by simp
  next
    case False
    then show ?thesis using repr_eof_iff [OF r] repr_valid [OF r] sk ys Suc.IH [OF r False, of "c + 1"] by simp
  qed
qed simp

text \<open>Moving the entries \<open>ys\<close> down over the entries \<open>ds\<close> and adjusting the header.\<close>

lemma lp_move_down:
  assumes r: "lp_repr lp (xs @ ds @ ys)"
    and lp1: "lp1 = memmove (lp_pos xs) (lp_pos (xs @ ds)) (length (layout ys) + 1) lp"
    and lp2: "lp2 = lpSetTotalBytes lp1 (int (lp_total (xs @ ys)))"
    and lp3: "lp3 = (if lpGetNumElements lp2 \<noteq> 65535
        then lpSetNumElements lp2 (int (lpGetNumElements lp2) - int (length ds)) else lp2)"
  shows "lp_repr lp3 (xs @ ys)" "lp_repr (lpShrinkToFit lp3) (xs @ ys)"
proof -
  obtain A B slack n where lp: "lp = A @ B @ layout (xs @ ds @ ys) @ LP_EOF # slack" "length A = 4"
      "B = le_bytes 2 (int n)" "lpGetNumElements lp = n" "n = 65535 \<or> n = length (xs @ ds @ ys) \<and> n < 65535"
    using repr_headerE [OF r] by blast
  let ?P = "A @ B @ layout xs" and ?Q = "layout ys @ [LP_EOF]"
  have B: "length B = 2" using lp(3) by (simp del: le_bytes.simps)
  have P: "lp_pos xs = length ?P + 0" "lp_pos (xs @ ds) = length ?P + length (layout ds)"
    using lp(2) B by (simp_all add: lp_pos_def)
  have q: "length (layout ys) + 1 = length ?Q" by simp
  have eq: "lp = ?P @ layout ds @ ?Q @ slack" by (simp add: lp(1))
  obtain S where lp1': "lp1 = A @ B @ layout xs @ layout ys @ LP_EOF # S"
    using memmove_gap [OF P q, of slack] unfolding lp1 eq by auto
  have lp2': "lp2 = le_bytes 4 (int (lp_total (xs @ ys))) @ B @ layout xs @ layout ys @ LP_EOF # S"
    unfolding lp2 lp1' by (rule lp_set_headers(1) [OF lp(2) B])
  have num: "lpGetNumElements lp2 = n"
    unfolding lp2' lp_set_headers(3) [OF length_le_bytes B] using lp(3,5) by (auto simp del: le_bytes.simps)
  define m where "m = (if n \<noteq> 65535 then int n - int (length ds) else int n)"
  have lp3': "lp3 = le_bytes 4 (int (lp_total (xs @ ys))) @ le_bytes 2 m @ layout xs @ layout ys @ LP_EOF # S"
  proof -
    have "lpSetNumElements lp2 x = le_bytes 4 (int (lp_total (xs @ ys))) @ le_bytes 2 x @ layout xs @ layout ys @ LP_EOF # S" for x
      unfolding lp2' by (rule lp_set_headers(2) [OF length_le_bytes B])
    then show ?thesis unfolding lp3 num m_def using lp2' lp(3) by simp
  qed
  show "lp_repr lp3 (xs @ ys)"
  proof (rule lp_reprI)
    show "lp3 = le_bytes 4 (int (7 + length (layout (xs @ ys)))) @ le_bytes 2 m @ layout (xs @ ys) @ LP_EOF # S"
      using lp3' by (simp add: lp_total_def del: le_bytes.simps)
    show "7 + length (layout (xs @ ys)) < 2 ^ 32" using repr_total [OF r] by simp
    show "entry_ok eb" if "eb \<in> set (xs @ ys)" for eb using that repr_ok [OF r, of eb] by auto
    show "m = 65535 \<or> m = int (length (xs @ ys)) \<and> length (xs @ ys) < 65535"
      using lp(5) unfolding m_def by auto
  qed
  then show "lp_repr (lpShrinkToFit lp3) (xs @ ys)" by (rule lpShrinkToFit_repr)
qed

lemma lpDeleteRangeWithEntry_repr:
  assumes r: "lp_repr lp (xs @ ys)" "ys \<noteq> []"
  shows "\<exists>lp'. lpDeleteRangeWithEntry lp (lp_pos xs) num =
      Some (lp', if drop num ys = [] then None else Some (lp_pos xs)) \<and> lp_repr lp' (xs @ drop num ys)"
proof (cases "num = 0")
  case True
  then show ?thesis using r by (simp add: lpDeleteRangeWithEntry_def)
next
  case False
  let ?ds = "take num ys" and ?zs = "drop num ys"
  have r': "lp_repr lp (xs @ ?ds @ ?zs)" using r(1) by simp
  define lp1 where "lp1 = memmove (lp_pos xs) (lp_pos (xs @ ?ds)) (length (layout ?zs) + 1) lp"
  define lp2 where "lp2 = lpSetTotalBytes lp1 (int (lp_total (xs @ ?zs)))"
  define lp3 where "lp3 = (if lpGetNumElements lp2 \<noteq> 65535
        then lpSetNumElements lp2 (int (lpGetNumElements lp2) - int (length ?ds)) else lp2)"
  note res = lp_move_down(2) [OF r' lp1_def lp2_def lp3_def]
  have tot: "lpBytes lp = lp_pos (xs @ ?ds) + length (layout ?zs) + 1"
    using repr_end(3) [OF r'] unfolding lp_pos_def layout_simps(3) length_append by simp
  then have n: "lpBytes lp - 1 - lp_pos (xs @ ?ds) + 1 = length (layout ?zs) + 1" by simp
  have t: "int (lpBytes lp) - (int (lp_pos (xs @ ?ds)) - int (lp_pos xs)) = int (lp_total (xs @ ?zs))"
    unfolding tot by (simp add: lp_pos_def lp_total_def)
  have "lpDeleteRangeWithEntry lp (lp_pos xs) num =
      Some (lpShrinkToFit lp3, if lpShrinkToFit lp3 ! lp_pos xs = LP_EOF then None else Some (lp_pos xs))"
    using False lpDeleteRange_loop_repr [OF r, of num 0] n t
    by (simp add: lpDeleteRangeWithEntry_def lp3_def lp2_def lp1_def LP_HDR_NUMELE_UNKNOWN_def Let_def min.commute)
  then show ?thesis using res repr_eof_iff [OF res] by auto
qed

lemma lp_truncate:
  assumes r: "lp_repr lp (xs @ y # ys)" and known: "lpGetNumElements lp \<noteq> 65535"
  shows "lp_repr (lpSetNumElements (lpSetTotalBytes (lp[lp_pos xs := LP_EOF]) (int (lp_pos xs) + 1)) (int (length xs))) xs"
proof -
  obtain A B slack n where lp: "lp = A @ B @ layout (xs @ y # ys) @ LP_EOF # slack" "length A = 4"
      "B = le_bytes 2 (int n)" "lpGetNumElements lp = n" "n = 65535 \<or> n = length (xs @ y # ys) \<and> n < 65535"
    using repr_headerE [OF r] by blast
  have B: "length B = 2" using lp(3) by (simp del: le_bytes.simps)
  let ?R = "layout (y # ys) @ LP_EOF # slack"
  have "lp[lp_pos xs := LP_EOF] = (A @ B @ layout xs) @ ?R[0 := LP_EOF]"
    unfolding lp(1) using lp(2) B by (simp add: lp_pos_def list_update_append)
  moreover obtain S where "?R[0 := LP_EOF] = LP_EOF # S" by (cases ?R) auto
  ultimately have u: "lp[lp_pos xs := LP_EOF] = A @ B @ layout xs @ LP_EOF # S" by simp
  show ?thesis
  proof (rule lp_reprI)
    show "lpSetNumElements (lpSetTotalBytes (lp[lp_pos xs := LP_EOF]) (int (lp_pos xs) + 1)) (int (length xs)) =
        le_bytes 4 (int (7 + length (layout xs))) @ le_bytes 2 (int (length xs)) @ layout xs @ LP_EOF # S"
      unfolding u lp_set_headers(1) [OF lp(2) B] lp_set_headers(2) [OF length_le_bytes B]
      by (simp add: lp_pos_def del: le_bytes.simps)
    show "7 + length (layout xs) < 2 ^ 32" using repr_total [OF r] by (cases y) simp
    show "entry_ok eb" if "eb \<in> set xs" for eb using that repr_ok [OF r, of eb] by simp
    show "int (length xs) = 65535 \<or> int (length xs) = int (length xs) \<and> length xs < 65535"
      using lp(4,5) known by auto
  qed
qed

lemma lpDeleteRange_repr:
  assumes r: "lp_repr lp es"
  shows "\<exists>lp'. lpDeleteRange lp index num = Some lp' \<and>
    lp_repr lp' (case lp_index (length es) index of None \<Rightarrow> es | Some i \<Rightarrow> take i es @ drop (i + num) es)"
proof (cases "lp_index (length es) index")
  case None
  then show ?thesis using lpSeek_repr [OF r, of index] r by (simp add: lpDeleteRange_def Let_def)
next
  case (Some i)
  then have i: "i < length es" "int i = (if index < 0 then int (length es) + index else index)"
    by (auto simp: lp_index_def Let_def split: if_splits)
  have sk: "lpSeek lp index = Some (Some (pos_of es i))" using lpSeek_repr [OF r, of index] Some by simp
  have split: "lp_repr lp (take i es @ drop i es)" using r by simp
  show ?thesis
  proof (cases "num = 0")
    case True
    then show ?thesis using r Some by (simp add: lpDeleteRange_def)
  next
    case num: False
    show ?thesis
    proof (cases "lpGetNumElements lp \<noteq> 65535 \<and> length es - i \<le> num")
      case True
      then have n: "lpGetNumElements lp = length es" using repr_numele [OF r] by auto
      obtain y ys where y: "drop i es = y # ys" using i(1) by (cases "drop i es") auto
      have t: "lp_repr (lpSetNumElements (lpSetTotalBytes (lp[pos_of es i := LP_EOF]) (int (pos_of es i) + 1))
          (int (length (take i es)))) (take i es)"
        using lp_truncate [of lp "take i es" y ys] split y True by simp
      have "(int (length es) - int i) mod 2 ^ 64 \<le> int num"
      proof -
        have d: "int (length es) - int i = int (length es - i)" using i(1) by (simp add: of_nat_diff)
        have "length es - i < 2 ^ 64" using repr_length_less [OF r] by simp
        then show ?thesis using True unfolding d by simp
      qed
      then have "lpDeleteRange lp index num = Some (lpShrinkToFit (lpSetNumElements (lpSetTotalBytes
          (lp[pos_of es i := LP_EOF]) (int (pos_of es i) + 1)) (int (length (take i es)))))"
        using True num sk n i by (simp add: lpDeleteRange_def LP_HDR_NUMELE_UNKNOWN_def Let_def)
      moreover have "drop (i + num) es = []" using True by (simp, arith)
      ultimately show ?thesis using lpShrinkToFit_repr(1) [OF t] Some by simp
    next
      case False
      have ne: "drop i es \<noteq> []" using i by simp
      have big: "\<not> (lpGetNumElements lp \<noteq> 65535 \<and> (int (lpGetNumElements lp) - int i) mod 2 ^ 64 \<le> int num)"
        using False i(1) repr_length_less [OF r] repr_numele [OF r] by auto
      obtain lp' q where d: "lpDeleteRangeWithEntry lp (pos_of es i) num = Some (lp', q)"
          "lp_repr lp' (take i es @ drop num (drop i es))"
        using lpDeleteRangeWithEntry_repr [OF split ne, of num] by blast
      have "lpDeleteRange lp index num = Some lp'"
        using num sk d(1) big i(2) repr_numele [OF r]
        by (auto simp: lpDeleteRange_def LP_HDR_NUMELE_UNKNOWN_def Let_def)
      then show ?thesis using d(2) Some by (simp add: add.commute)
    qed
  qed
qed

section \<open>Merging\<close>

lemma repr_bytesE:
  assumes "lp_repr lp es"
  obtains A B slack where "lp = A @ B @ layout es @ LP_EOF # slack" "length A = 4" "length B = 2"
  using repr_headerE [OF assms] by (metis length_le_bytes)

text \<open>The final step of \<^verbatim>\<open>lpMerge\<close>, whichever side was extended.\<close>

lemma lpMerge_headers:
  assumes t: "target = A @ B @ layout (xs @ ys) @ [LP_EOF]" "length A = 4" "length B = 2"
    and ok: "\<And>eb. eb \<in> set (xs @ ys) \<Longrightarrow> entry_ok eb" and T: "lp_total (xs @ ys) < 2 ^ 32"
    and n: "n = length (xs @ ys)"
  shows "lp_repr (lpSetTotalBytes (lpSetNumElements target (int (if n < 65535 then n else 65535)))
      (int (lp_total (xs @ ys)))) (xs @ ys)"
proof (rule lp_reprI)
  show "lpSetTotalBytes (lpSetNumElements target (int (if n < 65535 then n else 65535))) (int (lp_total (xs @ ys)))
    = le_bytes 4 (int (7 + length (layout (xs @ ys)))) @ le_bytes 2 (int (if n < 65535 then n else 65535))
      @ layout (xs @ ys) @ LP_EOF # []"
    unfolding t(1) lp_set_headers(2) [OF t(2,3)] lp_set_headers(1) [OF t(2) length_le_bytes] lp_total_def ..
  show "7 + length (layout (xs @ ys)) < 2 ^ 32" using T by (simp add: lp_total_def)
qed (use ok n in auto)

lemma lpMerge_append_bytes:
  assumes f: "lp_repr first xs" and s: "lp_repr second ys"
  shows "\<exists>A B. length A = 4 \<and> length B = 2 \<and>
    bwrite (lp_total xs - 1) (bread 6 (lp_total ys - 6) second) (zrealloc (lp_total (xs @ ys)) first)
      = A @ B @ layout (xs @ ys) @ [LP_EOF]"
proof -
  from repr_bytesE [OF f] obtain A B sl where F: "first = A @ B @ layout xs @ LP_EOF # sl" "length A = 4" "length B = 2" .
  from repr_bytesE [OF s] obtain A' B' sl' where S: "second = A' @ B' @ layout ys @ LP_EOF # sl'" "length A' = 4" "length B' = 2" .
  have src: "bread 6 (lp_total ys - 6) second = layout ys @ [LP_EOF]"
    unfolding S(1) bread_def using S(2,3) by (simp add: lp_total_def)
  let ?P = "A @ B @ layout xs"
  have P: "length ?P = lp_total xs - 1" using F(2,3) by (simp add: lp_total_def)
  obtain R where R: "zrealloc (lp_total (xs @ ys)) first = ?P @ R" "length R = length (layout ys) + 1"
  proof -
    have "take (length ?P) (zrealloc (lp_total (xs @ ys)) first) = ?P"
      unfolding F(1) zrealloc_def using F(2,3) by (simp add: lp_total_def)
    moreover have "length (zrealloc (lp_total (xs @ ys)) first) = length ?P + (length (layout ys) + 1)"
      using F(2,3) by (simp add: lp_total_def)
    ultimately show thesis using that [of "drop (length ?P) (zrealloc (lp_total (xs @ ys)) first)"]
      by (metis append_take_drop_id diff_add_inverse length_drop)
  qed
  have "bwrite (lp_total xs - 1) (layout ys @ [LP_EOF]) (?P @ R) = ?P @ layout ys @ [LP_EOF]"
    unfolding P [symmetric] bwrite_def using R(2) by simp
  then show ?thesis using F(2,3) unfolding src R(1) by (intro exI [of _ A] exI [of _ B]) simp
qed

lemma lpMerge_prepend_bytes:
  assumes f: "lp_repr first xs" and s: "lp_repr second ys"
  shows "\<exists>A B. length A = 4 \<and> length B = 2 \<and>
    bwrite 0 (bread 0 (lp_total xs - 1) first)
      (memmove (lp_total xs - 1) 6 (lp_total ys - 6) (zrealloc (lp_total (xs @ ys)) second))
      = A @ B @ layout (xs @ ys) @ [LP_EOF]"
proof -
  from repr_bytesE [OF f] obtain A B sl where F: "first = A @ B @ layout xs @ LP_EOF # sl" "length A = 4" "length B = 2" .
  from repr_bytesE [OF s] obtain A' B' sl' where S: "second = A' @ B' @ layout ys @ LP_EOF # sl'" "length A' = 4" "length B' = 2" .
  have src: "bread 0 (lp_total xs - 1) first = A @ B @ layout xs"
    unfolding F(1) bread_def using F(2,3) by (simp add: lp_total_def)
  let ?Q = "layout ys @ [LP_EOF]"
  obtain R where R: "zrealloc (lp_total (xs @ ys)) second = (A' @ B') @ [] @ ?Q @ R" "length R = length (layout xs)"
  proof -
    let ?z = "zrealloc (lp_total (xs @ ys)) second" and ?P = "A' @ B' @ ?Q"
    have "take (length ?P) ?z = ?P"
      unfolding S(1) zrealloc_def using S(2,3) by (simp add: lp_total_def)
    moreover have "length ?z = length ?P + length (layout xs)" using S(2,3) by (simp add: lp_total_def)
    ultimately show thesis using that [of "drop (length ?P) ?z"]
      by (metis append.assoc append_Nil append_take_drop_id diff_add_inverse length_drop)
  qed
  have m: "memmove (lp_total xs - 1) 6 (lp_total ys - 6) ((A' @ B') @ [] @ ?Q @ R) =
      (A' @ B') @ take (length (layout xs)) ([] @ ?Q @ R) @ ?Q @ drop (length (layout xs) + length ?Q) ([] @ ?Q @ R)"
    using S(2,3) R(2) by (intro memmove_gap) (simp_all add: lp_total_def)
  have "length (take (length (layout xs)) ([] @ ?Q @ R)) = length (layout xs)"
    "drop (length (layout xs) + length ?Q) ([] @ ?Q @ R) = []" using R(2) by simp_all
  then obtain G where G: "memmove (lp_total xs - 1) 6 (lp_total ys - 6) ((A' @ B') @ [] @ ?Q @ R) = A' @ B' @ G @ ?Q"
      "length G = length (layout xs)"
    using m by (metis append.assoc append_Nil2)
  have "bwrite 0 (A @ B @ layout xs) (A' @ B' @ G @ ?Q) = A @ B @ layout xs @ ?Q"
    unfolding bwrite_def using F(2,3) S(2,3) G(2) by simp
  then show ?thesis using F(2,3) unfolding src R(1) G(1) by (intro exI [of _ A] exI [of _ B]) simp
qed

lemma lpMerge_repr:
  assumes f: "lp_repr first xs" and s: "lp_repr second ys" and T: "lp_total (xs @ ys) < 2 ^ 32 - 1"
  shows "\<exists>t. lpMerge (Some first) (Some second) False =
      Some (Some (t, if lpBytes first \<ge> lpBytes second then (Some t, None) else (None, Some t)))
    \<and> lp_repr t (xs @ ys)"
proof -
  obtain first' where F: "lpLength first = Some (first', length xs)" "lp_repr first' xs" "lpBytes first' = lpBytes first"
    using lpLength_repr [OF f] by blast
  obtain second' where S: "lpLength second = Some (second', length ys)" "lp_repr second' ys" "lpBytes second' = lpBytes second"
    using lpLength_repr [OF s] by blast
  have b: "lpBytes first = lp_total xs" "lpBytes second = lp_total ys"
    using repr_total_bytes [OF f] repr_total_bytes [OF s] by (simp_all add: lpBytes_def)
  have tot: "lp_total xs + lp_total ys - 6 - 1 = lp_total (xs @ ys)" by (simp add: lp_total_def)
  have ok: "entry_ok eb" if "eb \<in> set (xs @ ys)" for eb
    using that repr_ok [OF f, of eb] repr_ok [OF s, of eb] by auto
  have T': "lp_total (xs @ ys) < 2 ^ 32" using T by simp
  note hd = lpMerge_headers [OF _ _ _ ok T' refl]
  note A = lpMerge_append_bytes [OF F(2) S(2)] and P = lpMerge_prepend_bytes [OF F(2) S(2)]
  show ?thesis
  proof (cases "lp_total xs \<ge> lp_total ys")
    case True
    then show ?thesis
      using A hd F(1) S(1) b T tot
      by (auto simp: lpMerge_def lp_assert_def LP_HDR_SIZE_def Let_def simp del: layout_simps)
  next
    case False
    then show ?thesis
      using P hd F(1) S(1) b T tot
      by (auto simp: lpMerge_def lp_assert_def LP_HDR_SIZE_def Let_def simp del: layout_simps)
  qed
qed

section \<open>Search\<close>

text \<open>The first of the elements at distances \<open>0\<close>, \<open>skip + 1\<close>, \<open>2 * (skip + 1)\<close>, \<dots> that equals \<open>s\<close>.\<close>

fun find_skip :: "nat \<Rightarrow> nat \<Rightarrow> 'a list \<Rightarrow> 'a \<Rightarrow> nat option" where
  "find_skip skip n [] s = None"
| "find_skip skip 0 (x # xs) s =
     (if x = s then Some 0 else map_option Suc (find_skip skip skip xs s))"
| "find_skip skip (Suc n) (x # xs) s = map_option Suc (find_skip skip n xs s)"

lemma lpFind_check_repr: "lp_repr lp (xs @ ys) \<Longrightarrow> lpFind_check lp (lpBytes lp) (lp_pos xs) = Some ()"
  using repr_valid [of lp xs ys] repr_end(3) [of lp "xs @ ys"]
  by (simp add: lpFind_check_def lp_assert_def LP_HDR_SIZE_def) (simp add: lp_pos_def)

definition venc_ok :: "bytes \<Rightarrow> lp_venc \<Rightarrow> bool" where
  "venc_ok s venc \<longleftrightarrow> (venc = VUntried \<or> venc = (case lpStringToInt64 s of None \<Rightarrow> VNotInt | Some v \<Rightarrow> VInt v))"

lemma lpFind_try_ok:
  assumes "venc_ok s venc"
  shows "lpFind_try s venc = (case lpStringToInt64 s of None \<Rightarrow> VNotInt | Some v \<Rightarrow> VInt v)"
    and "venc_ok s (lpFind_try s venc)"
proof -
  have "lpStringToInt64 s = None" if "length s \<ge> 32 \<or> length s = 0"
    using that by (auto simp: lpStringToInt64_def LONG_STR_SIZE_def)
  then show t: "lpFind_try s venc = (case lpStringToInt64 s of None \<Rightarrow> VNotInt | Some v \<Rightarrow> VInt v)"
    using assms by (auto simp: lpFind_try_def venc_ok_def)
  then show "venc_ok s (lpFind_try s venc)" by (simp add: venc_ok_def)
qed

lemma entry_val_iff:
  assumes "raw_ok e"
  shows "lpGet_intbuf e = s \<longleftrightarrow> (case lpGet e of
      LpInt v \<Rightarrow> lpStringToInt64 s = Some v
    | LpStr off n \<Rightarrow> length s = n \<and> bread off n e = s)"
proof (cases "lpGet e")
  case (LpInt v)
  then show ?thesis
    using entry_val_int [OF assms LpInt] lpGet_value [OF assms] by (auto simp: lpStringToInt64_eq string2ll_iff)
next
  case (LpStr off n)
  then show ?thesis
    using lpGet_value [OF assms] by (auto simp: lpGet_intbuf_def length_bread)
qed

lemma lpFind_step_int:
  assumes "lpGetWithSize (drop p lp) = (LpInt ll, Some n)" "lpFind_check lp lp_bytes (p + n) = Some ()"
  shows "lpFind_loop lp lp_bytes s skip p 0 venc es =
    (if lpFind_try s venc = VInt ll then Some (Some p)
     else if lp ! (p + n) = LP_EOF then Some None
     else lpFind_loop lp lp_bytes s skip (p + n) skip (lpFind_try s venc) n)"
  using assms by (subst lpFind_loop.simps) simp

lemma lpFind_step_str:
  assumes "lpGetWithSize (drop p lp) = (LpStr off ll, Some n)" "lpFind_check lp lp_bytes (p + n) = Some ()"
    "LP_HDR_SIZE \<le> p" "p + n < lp_bytes"
  shows "lpFind_loop lp lp_bytes s skip p 0 venc es =
    (if length s = ll \<and> bread (p + off) (length s) lp = s then Some (Some p)
     else if lp ! (p + n) = LP_EOF then Some None
     else lpFind_loop lp lp_bytes s skip (p + n) skip venc n)"
  using assms by (subst lpFind_loop.simps) (simp only: prod.case lp_value.case option.case Let_def simp_thms if_True
      if_False option.distinct)

lemma lpFind_step_skip:
  assumes "lpFind_check lp lp_bytes (lpSkip lp p) = Some ()"
  shows "lpFind_loop lp lp_bytes s skip p (Suc k) venc es =
    (if lp ! lpSkip lp p = LP_EOF then Some None
     else lpFind_loop lp lp_bytes s skip (lpSkip lp p) k venc es)"
  using assms by (subst lpFind_loop.simps) simp

lemma lpFind_loop_repr:
  assumes "lp_repr lp (xs @ ys)" "ys \<noteq> []" "venc_ok s venc"
  shows "lpFind_loop lp (lpBytes lp) s skip (lp_pos xs) k venc es =
    Some (map_option (\<lambda>i. lp_pos (xs @ take i ys)) (find_skip skip k (map entry_val ys) s))"
  using assms
proof (induction ys arbitrary: xs k venc es)
  case (Cons eb zs)
  obtain e b where eb: "eb = (e, b)" by (cases eb)
  have r: "lp_repr lp (xs @ (e, b) # zs)" and r': "lp_repr lp ((xs @ [(e, b)]) @ zs)"
    using Cons.prems(1) eb by simp_all
  have ok: "raw_ok e" "length b = length (lpEncodeBacklen (length e))"
    using repr_ok [OF r, of "(e, b)"] by (simp_all add: entry_ok_def backlen_ok_def)
  let ?n = "length e + length (lpEncodeBacklen (length e))"
  have nxt: "lp_pos xs + ?n = lp_pos (xs @ [(e, b)])" using ok(2) by (simp add: lp_pos_def)
  note chk = lpFind_check_repr [OF r'] and eof = repr_eof_iff [OF r']
  have rest: "lpFind_loop lp (lpBytes lp) s skip (lp_pos (xs @ [(e, b)])) k' venc' es'
     = Some (map_option (\<lambda>i. lp_pos (xs @ take i (eb # zs))) (map_option Suc (find_skip skip k' (map entry_val zs) s)))"
    if "venc_ok s venc'" "zs \<noteq> []" for k' venc' es'
    using Cons.IH [OF r' that(2,1), of k' es'] eb by (simp add: option.map_comp comp_def)
  have get: "lpGetWithSize (drop (lp_pos xs) lp) = (lpGet e, Some ?n)"
    using repr_lpGet(2) [OF r] lpGet_entry_size [OF ok(1)] by (simp add: lpGet_def prod_eq_iff)
  show ?case
  proof (cases k)
    case (Suc k')
    have "lpSkip lp (lp_pos xs) = lp_pos (xs @ [(e, b)])" by (rule repr_at(3) [OF r])
    then show ?thesis using Suc chk eof rest [OF Cons.prems(3), of k' es]
      by (cases "zs = []") (simp_all add: lpFind_step_skip)
  next
    case 0
    have val: "(entry_val eb = s) = (case lpGet e of LpInt v \<Rightarrow> lpStringToInt64 s = Some v
        | LpStr off n \<Rightarrow> length s = n \<and> bread off n e = s)"
      using entry_val_iff [OF ok(1)] eb by (simp add: entry_val_def)
    show ?thesis
    proof (cases "lpGet e")
      case (LpInt v)
      note t = lpFind_try_ok [OF Cons.prems(3)]
      have "(lpFind_try s venc = VInt v) = (entry_val eb = s)"
        unfolding t(1) val LpInt by (simp split: option.splits)
      then show ?thesis
        using lpFind_step_int [of "lp_pos xs" lp v ?n "lpBytes lp"] get LpInt nxt chk eof rest [OF t(2), of skip ?n] 0
        by (cases "zs = []") simp_all
    next
      case (LpStr off n)
      have "off + n = length e" using lpGet_value [OF ok(1)] LpStr by simp
      obtain H slack where H: "length H = 6" "lp = H @ layout xs @ layout ((e, b) # zs) @ LP_EOF # slack"
        using repr_splitE [OF r] by blast
      have "bread (lp_pos xs + off) n lp = bread off n (drop (lp_pos xs) lp)"
        by (simp add: bread_def add.commute)
      also have "\<dots> = bread off n e"
        unfolding H(2) drop_lp_pos(1) [OF H(1)] using \<open>off + n = length e\<close> by (simp add: bread_def)
      finally have "bread (lp_pos xs + off) n lp = bread off n e" .
      then have "(length s = n \<and> bread (lp_pos xs + off) (length s) lp = s) = (entry_val eb = s)"
        unfolding val LpStr by auto
      moreover have "LP_HDR_SIZE \<le> lp_pos xs" "lp_pos xs + ?n < lpBytes lp"
        using nxt repr_end(3) [OF r] ok(2) by (simp_all add: LP_HDR_SIZE_def lp_pos_def)
      ultimately show ?thesis
        using lpFind_step_str [of "lp_pos xs" lp off n ?n "lpBytes lp"] get LpStr nxt chk eof
          rest [OF Cons.prems(3), of skip ?n] 0 by (cases "zs = []") simp_all
    qed
  qed
qed simp

end
