(* ===== verification/Listpack_Valid.thy ===== *)
theory Listpack_Valid
  imports Listpack_Ops
begin

text \<open>
  Validation of listpacks that come from outside (\<^verbatim>\<open>RESTORE\<close> and RDB loading): what
  \<^verbatim>\<open>lpValidateIntegrity\<close> accepts, and that everything the other operations build is accepted.
\<close>

section \<open>Well-formed listpacks are accepted\<close>

lemma lpValidate_loop_repr:
  assumes "lp_repr lp (xs @ ys)" "c + length ys < 2 ^ 32"
  shows "lpValidate_loop lp (lpBytes lp) n None (Some (lp_pos xs)) c u = (Some (Some (lp_pos (xs @ ys)), c + length ys), u)"
  using assms
proof (induction ys arbitrary: xs c)
  case Nil
  then show ?case using repr_end(1) [of lp xs] by (subst lpValidate_loop.simps) simp
next
  case (Cons eb zs)
  obtain e b where eb: "eb = (e, b)" by (cases eb)
  have r: "lp_repr lp (xs @ (e, b) # zs)" using Cons.prems eb by simp
  have "lpValidate_loop lp (lpBytes lp) n None (Some (lp_pos (xs @ [(e, b)]))) (c + 1) u =
      (Some (Some (lp_pos (xs @ (e, b) # zs)), c + 1 + length zs), u)"
    using Cons.IH [of "xs @ [(e, b)]" "c + 1"] Cons.prems eb by simp
  then show ?case
    using repr_at(2,4) [OF r] eb Cons.prems(2) by (subst lpValidate_loop.simps) simp
qed

lemma lpValidateIntegrity_complete:
  assumes "lp_repr lp es" "length lp = lp_total es"
  shows "lpValidateIntegrity lp (length lp) deep None u = (True, u)"
proof -
  have T: "lpGetTotalBytes lp = length lp" "lpBytes lp = length lp"
    using repr_total_bytes [OF assms(1)] assms(2) by (simp_all add: lpBytes_def)
  have pos: "lp_pos es = length lp - 1" using repr_end(2) [OF assms(1)] T by simp
  have l: "length es < 2 ^ 32" using repr_length_less [OF assms(1)] by simp
  have loop: "lpValidate_loop lp (length lp) n None (Some 6) 0 u = (Some (Some (lp_pos es), length es), u)" for n
    using lpValidate_loop_repr [of lp "[]" es 0 n u] assms(1) l T(2) by (simp add: lp_pos_def)
  have "lp ! (length lp - 1) = LP_EOF" using repr_end(1) [OF assms(1)] pos by simp
  moreover have "7 \<le> length lp" using assms(2) by (simp add: lp_total_def)
  ultimately show ?thesis
    using repr_numele [OF assms(1)] loop T pos
    by (auto simp: lpValidateIntegrity_def LP_HDR_SIZE_def LP_HDR_NUMELE_UNKNOWN_def Let_def)
qed

section \<open>Accepted listpacks are well formed\<close>

text \<open>
  Decoding a back length from the bytes in reading order (last byte first), at most \<open>n\<close> of them.
\<close>

fun backlen_dec :: "nat \<Rightarrow> bytes \<Rightarrow> nat option" where
  "backlen_dec (Suc n) (c # cs) =
     (if unat c < 128 then Some (unat c)
      else map_option (\<lambda>v. unat c mod 128 + 128 * v) (backlen_dec n cs))"
| "backlen_dec _ _ = None"

lemma lpDecodeBacklen_loop_dec:
  assumes "p < length lp" "n \<le> p + 1" "shift = 35 - 7 * n" "1 \<le> n" "n \<le> 5"
  shows "lpDecodeBacklen_loop lp p shift val =
    (case backlen_dec n (rev (take (p + 1) lp)) of Some v \<Rightarrow> val + v * 2 ^ shift | None \<Rightarrow> ULLONG_MAX)"
  using assms
proof (induction n arbitrary: p shift val)
  case (Suc n)
  have tk: "rev (take (p + 1) lp) = lp ! p # rev (take p lp)"
    using Suc.prems(1) by (simp add: take_Suc_conv_app_nth)
  show ?case
  proof (cases "unat (lp ! p) < 128")
    case True
    then show ?thesis unfolding tk by (simp add: lpDecodeBacklen_stop)
  next
    case False
    then have bit: "lp ! p AND 128 \<noteq> 0" by (simp add: lp_bit7)
    show ?thesis
    proof (cases "n = 0")
      case True
      then show ?thesis unfolding tk using False bit Suc.prems(3)
        by (subst lpDecodeBacklen_loop.simps) (simp add: Let_def)
    next
      case n: False
      have sh: "shift + 7 = 35 - 7 * n" "shift + 7 \<le> 28" using n Suc.prems(3,5) by simp_all
      have p: "0 < p" using Suc.prems(2) n by simp
      have rec: "lpDecodeBacklen_loop lp p shift val =
          lpDecodeBacklen_loop lp (p - 1) (shift + 7) (val + unat (lp ! p) mod 128 * 2 ^ shift)"
        using bit sh(2) by (subst lpDecodeBacklen_loop.simps) (simp add: Let_def lp_low_bits)
      have ih: "lpDecodeBacklen_loop lp (p - 1) (shift + 7) (val + unat (lp ! p) mod 128 * 2 ^ shift) =
        (case backlen_dec n (rev (take p lp)) of
           Some v \<Rightarrow> val + unat (lp ! p) mod 128 * 2 ^ shift + v * 2 ^ (shift + 7) | None \<Rightarrow> ULLONG_MAX)"
        using Suc.IH [of "p - 1" "shift + 7" "val + unat (lp ! p) mod 128 * 2 ^ shift"] Suc.prems n sh p by simp
      show ?thesis unfolding tk rec ih using False
        by (cases "backlen_dec n (rev (take p lp))") (simp_all add: power_add algebra_simps)
    qed
  qed
qed simp

lemma lpDecodeBacklen_dec:
  assumes "p < length lp" "4 \<le> p"
  shows "lpDecodeBacklen lp p =
    (case backlen_dec 5 (rev (take (p + 1) lp)) of Some v \<Rightarrow> v | None \<Rightarrow> ULLONG_MAX)"
  using lpDecodeBacklen_loop_dec [of p lp 5 0 0] assms
  by (cases "backlen_dec 5 (rev (take (p + 1) lp))") (simp_all add: lpDecodeBacklen_def)

text \<open>A decoding that ends within \<open>cs\<close> does not look further.\<close>

lemma backlen_dec_append:
  "backlen_dec n cs = Some v \<Longrightarrow> backlen_dec n (cs @ ds) = Some v"
  by (induction n cs arbitrary: v rule: backlen_dec.induct) (auto split: if_splits)

lemma backlen_dec_within:
  assumes "backlen_dec n (cs @ ds) = Some v"
  shows "backlen_dec n cs = Some v \<or> length cs < n \<and> (\<forall>c \<in> set cs. 128 \<le> unat c)"
  using assms
proof (induction cs arbitrary: n v)
  case Nil
  then show ?case by (cases n) simp_all
next
  case (Cons c cs)
  then obtain m where n: "n = Suc m" by (cases n) simp_all
  show ?case
  proof (cases "unat c < 128")
    case True
    then show ?thesis using Cons.prems n by simp
  next
    case False
    then obtain w where "backlen_dec m (cs @ ds) = Some w" "v = unat c mod 128 + 128 * w"
      using Cons.prems n by auto
    then show ?thesis using Cons.IH [of m w] False n by auto
  qed
qed

lemma backlen_dec_mono: "backlen_dec n cs = Some v \<Longrightarrow> n \<le> m \<Longrightarrow> backlen_dec m cs = Some v"
proof (induction n cs arbitrary: v m rule: backlen_dec.induct)
  case (1 n c cs)
  then obtain k where m: "m = Suc k" "n \<le> k" by (cases m) simp_all
  show ?case
  proof (cases "unat c < 128")
    case True
    then show ?thesis using 1(2) m by simp
  next
    case False
    then obtain w where "backlen_dec n cs = Some w" "v = unat c mod 128 + 128 * w" using 1(2) by auto
    then show ?thesis using 1(1) [OF False, of w k] False m by simp
  qed
qed simp_all

lemma backlen_dec_more:
  "backlen_dec (Suc n) (c # cs) = Some v \<Longrightarrow> 128 \<le> unat c \<Longrightarrow>
   \<exists>w. backlen_dec n cs = Some w \<and> v = unat c mod 128 + 128 * w"
  by auto

lemma byte_128: "128 \<le> unat (c :: byte) \<Longrightarrow> unat c mod 128 = x \<Longrightarrow> unat c = 128 + x"
proof -
  assume c: "128 \<le> unat c" "unat c mod 128 = x"
  have "unat c < 256" using unsigned_less [of c] by simp
  then have "unat c mod 128 = unat c - 128" using c(1) by (subst mod_if) simp
  then show ?thesis using c by simp
qed

lemma backlen_dec_zero:
  assumes "backlen_dec n (cs @ ds) = Some 0" "\<forall>c \<in> set cs. 128 \<le> unat c"
  shows "backlen_dec (n - length cs) ds = Some 0 \<and> (\<forall>c \<in> set cs. unat c = 128)"
  using assms
proof (induction cs arbitrary: n)
  case (Cons c cs)
  then obtain m where n: "n = Suc m" by (cases n) simp_all
  from Cons.prems n have "backlen_dec m (cs @ ds) = Some 0" "unat c mod 128 = 0" by auto
  then show ?case using Cons.IH [of m] Cons.prems byte_128 [of c 0] n by simp
qed simp

text \<open>The unbounded reading of a decoding that succeeds.\<close>

lemma lpDecodeBacklen_loop_Some:
  assumes "p < length lp" "shift = 35 - 7 * n" "1 \<le> n" "n \<le> 5" "backlen_dec n (rev (take (p + 1) lp)) = Some v"
  shows "lpDecodeBacklen_loop lp p shift val = val + v * 2 ^ shift"
  using assms
proof (induction n arbitrary: p shift val v)
  case (Suc n)
  have tk: "rev (take (p + 1) lp) = lp ! p # rev (take p lp)"
    using Suc.prems(1) by (simp add: take_Suc_conv_app_nth)
  show ?case
  proof (cases "unat (lp ! p) < 128")
    case True
    then show ?thesis using Suc.prems(5) unfolding tk by (simp add: lpDecodeBacklen_stop)
  next
    case False
    then obtain w where w: "backlen_dec n (rev (take p lp)) = Some w" "v = unat (lp ! p) mod 128 + 128 * w"
      using Suc.prems(5) unfolding tk by auto
    then have n0: "n \<noteq> 0" and p0: "p \<noteq> 0" by (metis backlen_dec.simps(2) option.distinct(1),
        metis backlen_dec.simps(3) option.distinct(1) rev.simps(1) take0)
    then have sh: "shift + 7 = 35 - 7 * n" "shift + 7 \<le> 28" using Suc.prems(2,4) by simp_all
    have "lpDecodeBacklen_loop lp p shift val =
        lpDecodeBacklen_loop lp (p - 1) (shift + 7) (val + unat (lp ! p) mod 128 * 2 ^ shift)"
      using False sh(2) by (subst lpDecodeBacklen_loop.simps) (simp add: Let_def lp_low_bits lp_bit7)
    also have "\<dots> = val + unat (lp ! p) mod 128 * 2 ^ shift + w * 2 ^ (shift + 7)"
    proof (rule Suc.IH)
      show "p - 1 < length lp" "shift + 7 = 35 - 7 * n" "1 \<le> n" "n \<le> 5" using Suc.prems(1,4) sh n0 by simp_all
      show "backlen_dec n (rev (take (p - 1 + 1) lp)) = Some w" using w(1) p0 by simp
    qed
    also have "\<dots> = val + v * 2 ^ shift" unfolding w(2) by (simp add: power_add distrib_right)
    finally show ?thesis .
  qed
qed simp

lemma backlen_okI:
  assumes "backlen_dec 5 (rev b @ rev e) = Some (length e)" "length b = length (lpEncodeBacklen (length e))" "b \<noteq> []"
  shows "backlen_ok e b"
  unfolding backlen_ok_def
proof (intro conjI allI)
  fix pre post :: bytes
  let ?p = "length pre + length e + length b - 1"
  have lt: "?p < length (pre @ e @ b @ post)" "?p + 1 = length (pre @ e @ b)" using assms(3) by (cases b; simp)+
  have "rev (take (?p + 1) (pre @ e @ b @ post)) = (rev b @ rev e) @ rev pre" unfolding lt(2) by simp
  then have "backlen_dec 5 (rev (take (?p + 1) (pre @ e @ b @ post))) = Some (length e)"
    using backlen_dec_append [OF assms(1), of "rev pre"] by (simp only:)
  then show "lpDecodeBacklen (pre @ e @ b @ post) ?p = length e"
    unfolding lpDecodeBacklen_def using lpDecodeBacklen_loop_Some [OF lt(1), of 0 5 _ 0] by simp
qed (use assms in simp)

text \<open>
  The only entry whose back length may be read past its first byte and still be accepted is the empty
  string \<^verbatim>\<open>0x80\<close> closed by \<^verbatim>\<open>0x81\<close>; it needs zero bytes before it.
\<close>

lemma backlen_context:
  assumes raw: "raw_ok e" and len: "length b = length (lpEncodeBacklen (length e))"
    and dec: "backlen_dec 5 (rev b @ rev e @ ds) = Some (length e)"
  shows "backlen_ok e b \<or> e = [0x80] \<and> b = [0x81] \<and> backlen_dec 3 ds = Some 0"
proof -
  have b: "b \<noteq> []" using len by (metis lpEncodeBacklen_nonempty length_0_conv)
  have e: "e \<noteq> []" using raw by (simp add: raw_ok_def)
  from backlen_dec_within [of 5 "rev b @ rev e" ds] dec
  consider "backlen_dec 5 (rev b @ rev e) = Some (length e)"
    | "length b + length e < 5" "\<forall>c \<in> set (rev b @ rev e). 128 \<le> unat c" by auto
  then show ?thesis
  proof cases
    case 1
    then show ?thesis using backlen_okI len b by blast
  next
    case 2
    then have L: "length e \<le> 3" using b by (cases b) auto
    then have "length b = 1" using len by (simp add: lpEncodeBacklen_small)
    then obtain b0 where b0: "b = [b0]" by (cases b) auto
    have "128 \<le> unat b0" using 2(2) b0 by simp
    moreover have "backlen_dec (Suc 4) (b0 # rev e @ ds) = Some (length e)" using dec b0 by simp
    ultimately obtain w where w: "backlen_dec 4 (rev e @ ds) = Some w" "length e = unat b0 mod 128 + 128 * w"
      using backlen_dec_more by blast
    then have "w = 0" "unat b0 mod 128 = length e" using L by simp_all
    have hi: "\<forall>c \<in> set (rev e). 128 \<le> unat c" using 2(2) by simp
    have "backlen_dec 4 (rev e @ ds) = Some 0" using w(1) \<open>w = 0\<close> by simp
    from backlen_dec_zero [OF this hi]
    have z: "backlen_dec (4 - length e) ds = Some 0" "\<forall>c \<in> set e. unat c = 128" by simp_all
    have "unat (e ! 0) = 128" using z(2) nth_mem [of 0 e] e by blast
    then have "length e = 1"
      using raw by (simp add: raw_ok_def lpCurrentEncodedSizeUnsafe_def lp_enc_ranges LP_ENCODING_6BIT_STR_LEN_def lp_low_bits)
    then obtain e0 where "e = [e0]" by (cases e) auto
    then have "unat e0 = 128" using z(2) by simp
    then have "e = [0x80]" using \<open>e = [e0]\<close> word_unat_eq_iff [of e0 "0x80"] by simp
    moreover have "b0 = 0x81"
      using byte_128 [OF \<open>128 \<le> unat b0\<close>, of 1] \<open>unat b0 mod 128 = length e\<close> \<open>length e = 1\<close> by (simp add: word_unat_eq_iff)
    ultimately show ?thesis using b0 z(1) \<open>length e = 1\<close> by simp
  qed
qed

text \<open>What one successful step of \<^verbatim>\<open>lpValidateNext\<close> establishes.\<close>

lemma lpDecodeBacklen_low:
  assumes "p < length lp" "4 \<le> p" "lpDecodeBacklen lp p = l" "l < 128"
  shows "unat (lp ! p) mod 128 = l"
proof -
  have "backlen_dec 5 (rev (take (p + 1) lp)) = Some l"
    using lpDecodeBacklen_dec [OF assms(1,2)] assms(3,4) by (auto simp: ULLONG_MAX_def split: option.splits)
  moreover have "rev (take (p + 1) lp) = lp ! p # rev (take p lp)"
    using assms(1) by (simp add: take_Suc_conv_app_nth)
  ultimately have dec: "backlen_dec (Suc 4) (lp ! p # rev (take p lp)) = Some l" by simp
  show ?thesis
  proof (cases "unat (lp ! p) < 128")
    case True
    then show ?thesis using dec unfolding backlen_dec.simps(1) by simp
  next
    case False
    then have "128 \<le> unat (lp ! p)" by simp
    then obtain w where "l = unat (lp ! p) mod 128 + 128 * w" using backlen_dec_more [OF dec] by blast
    then show ?thesis using assms(4) by simp
  qed
qed

lemma lpDecodeBacklen_bound: "lpDecodeBacklen lp p < 2 ^ 35 \<or> lpDecodeBacklen lp p = ULLONG_MAX" if "p < length lp" "4 \<le> p"
proof -
  have "backlen_dec n cs = Some v \<Longrightarrow> v < 128 ^ n" for n cs v
  proof (induction n cs arbitrary: v rule: backlen_dec.induct)
    case (1 n c cs)
    show ?case
    proof (cases "unat c < 128")
      case True
      then have "v < 128" using 1(2) by simp
      moreover have "1 \<le> (128 :: nat) ^ n" by simp
      ultimately show ?thesis unfolding power_Suc by linarith
    next
      case False
      then obtain w where w: "backlen_dec n cs = Some w" "v = unat c mod 128 + 128 * w" using 1(2) by auto
      have "unat c mod 128 < 128" by simp
      then show ?thesis using 1(1) [OF False w(1)] w(2) by simp
    qed
  qed simp_all
  then have "backlen_dec 5 cs = Some v \<Longrightarrow> v < 2 ^ 35" for cs v by fastforce
  then show ?thesis using lpDecodeBacklen_dec [OF that] by (auto split: option.splits)
qed

text \<open>A 32 bit string length that wraps around when the header is added is never accepted.\<close>

lemma le_uint4_top:
  assumes "length bs = 4" "2 ^ 32 - 5 + int l = le_uint bs"
  shows "unat (bs ! 0) = 251 + l" "unat (bs ! 1) = 255" "unat (bs ! 2) = 255" "unat (bs ! 3) = 255"
proof -
  obtain a b c d where bs: "bs = [a, b, c, d]"
  proof -
    have "length bs = Suc (Suc (Suc (Suc 0)))" using assms(1) by simp
    then show thesis using that by (auto simp: length_Suc_conv)
  qed
  have bnd: "uint a < 256" "uint b < 256" "uint c < 256" "uint d < 256"
    using uint_lt2p [of a] uint_lt2p [of b] uint_lt2p [of c] uint_lt2p [of d] by simp_all
  have sum: "uint a + 256 * uint b + 65536 * uint c + 16777216 * uint d = 4294967291 + int l"
    using assms(2) bs by simp
  have l: "0 \<le> int l" by simp
  have "255 \<le> uint d" using sum bnd l by linarith
  then have d: "uint d = 255" using bnd by simp
  have "255 \<le> uint c" using sum bnd l d by linarith
  then have c: "uint c = 255" using bnd by simp
  have "255 \<le> uint b" using sum bnd l d c by linarith
  then have b: "uint b = 255" using bnd by simp
  have "uint b = 255 \<and> uint c = 255 \<and> uint d = 255 \<and> uint a = 251 + int l" using sum d c b by simp
  then show "unat (bs ! 0) = 251 + l" "unat (bs ! 1) = 255" "unat (bs ! 2) = 255" "unat (bs ! 3) = 255"
    unfolding bs by (simp_all add: unat_eq_nat_uint)
qed

lemma lpValidate_no_wrap:
  assumes c: "unat (lp ! p) = 240" and L: "L = lpCurrentEncodedSizeUnsafe (drop p lp)"
    and n: "n \<le> length lp" and s: "s \<noteq> 0" "p + s < n" "s = lpCurrentEncodedSizeBytes (drop p lp)"
    and dec: "lpDecodeBacklen lp (q - 1) = L" and q: "q = p + (L + length (lpEncodeBacklen L))" "6 \<le> p"
  shows "s \<le> L"
proof (rule ccontr)
  assume "\<not> s \<le> L"
  have hd: "drop p lp ! 0 = lp ! p" using s n by simp
  have s5: "s = 5" using c unfolding s(3) lpCurrentEncodedSizeBytes_def hd by (simp add: lp_enc_ranges)
  define bs where "bs = bread 1 4 (drop p lp)"
  have bs: "length bs = 4" using s(2) s5 n by (simp add: bs_def length_bread)
  have Lm: "L = (5 + nat (le_uint bs)) mod 2 ^ 32"
    using c unfolding L lpCurrentEncodedSizeUnsafe_def hd LP_ENCODING_32BIT_STR_LEN_def bs_def by (simp add: lp_enc_ranges)
  have lt: "le_uint bs < 2 ^ 32" using le_uint_less [of bs] bs by simp
  have "L < 5" using \<open>\<not> s \<le> L\<close> s5 by simp
  have wrap: "2 ^ 32 - 5 + int L = le_uint bs"
  proof -
    obtain x where x: "le_uint bs = int x" "x < 2 ^ 32" using lt le_uint_nonneg [of bs] by (metis nat_less_iff nat_0_le of_nat_less_iff of_nat_numeral of_nat_power)
    have "L = (5 + x) mod 2 ^ 32" using Lm x(1) by simp
    then have "2 ^ 32 \<le> 5 + x" using \<open>L < 5\<close> by (cases "5 + x < 2 ^ 32") simp_all
    then have "L = 5 + x - 2 ^ 32" using \<open>L = (5 + x) mod 2 ^ 32\<close> x(2) by (simp add: mod_if)
    then show ?thesis using \<open>2 ^ 32 \<le> 5 + x\<close> x(1) by simp
  qed
  note top = le_uint4_top [OF bs wrap]
  have k: "length (lpEncodeBacklen L) = 1" using \<open>L < 5\<close> by (simp add: lpEncodeBacklen_small)
  have low: "unat (lp ! (p + L)) mod 128 = L"
    using lpDecodeBacklen_low [of "q - 1" lp L] dec q k s(2) s5 n \<open>L < 5\<close> by simp
  have nth: "bs ! i = lp ! (p + Suc i)" if "i < 4" for i
    using that s(2) s5 n by (simp add: bs_def bread_def)
  consider "L = 0" | "L = 1" | "L = 2" | "L = 3" | "L = 4" using \<open>L < 5\<close> by linarith
  then show False
  proof cases
    case 1 then show False using low c by simp
  next
    case 2 then show False using low top(1) nth [of 0] by simp
  next
    case 3 then show False using low top(2) nth [of 1] by (simp add: numeral_2_eq_2)
  next
    case 4 then show False using low top(3) nth [of 2] by (simp add: numeral_3_eq_3)
  next
    case 5 then show False using low top(4) nth [of 3] by simp
  qed
qed

lemma lpValidateNext_entry:
  assumes v: "lpValidateNext lp (Some p) n = Some (Some q)" and n: "n \<le> length lp"
  shows "\<exists>e b. raw_ok e \<and> length b = length (lpEncodeBacklen (length e)) \<and> q = p + length e + length b \<and> q < n
    \<and> 6 \<le> p \<and> bread p (length e + length b) lp = e @ b \<and> lpDecodeBacklen lp (q - 1) = length e"
proof -
  define L where "L = lpCurrentEncodedSizeUnsafe (drop p lp)"
  define s where "s = lpCurrentEncodedSizeBytes (drop p lp)"
  define k where "k = length (lpEncodeBacklen L)"
  have f: "6 \<le> p" "p < n" "lp ! p \<noteq> LP_EOF" "s \<noteq> 0" "p + s < n" "q = p + (L + k)" "q < n"
    "(lpDecodeBacklen lp (q - 1) + k) mod 2 ^ 64 = L + k"
    using v unfolding lpValidateNext_def L_def s_def k_def
    by (auto simp: lp_out_of_range_def LP_HDR_SIZE_def Let_def split: if_splits)
  have k: "1 \<le> k" "k \<le> 5" unfolding k_def by (rule length_lpEncodeBacklen)+
  have q: "q - 1 < length lp" "4 \<le> q - 1" using f k n by simp_all
  have hd: "drop p lp ! 0 = lp ! p" using f(2) n by simp
  have dec: "lpDecodeBacklen lp (q - 1) = L"
    using lpDecodeBacklen_bound [OF q]
  proof
    assume "lpDecodeBacklen lp (q - 1) = ULLONG_MAX"
    moreover have "(2 ^ 64 - 1 + k) mod 2 ^ 64 = k - 1" using k by (cases k) simp_all
    ultimately show ?thesis using f(8) k by (simp add: ULLONG_MAX_def)
  qed (use f(8) k in simp)
  have c: "unat (lp ! p) < 245"
    using f(3,4) unfolding s_def lpCurrentEncodedSizeBytes_def hd by (auto simp: lp_enc_ranges split: if_splits)
  have "s \<le> L"
  proof (cases "unat (lp ! p) = 240")
    case False
    then show ?thesis
      using c unfolding s_def L_def lpCurrentEncodedSizeBytes_def lpCurrentEncodedSizeUnsafe_def hd
      by (simp add: lp_enc_ranges)
  next
    case True
    show ?thesis by (rule lpValidate_no_wrap [OF True _ n f(4,5) _ dec]) (use f k_def L_def s_def in simp_all)
  qed
  define e b where "e = bread p L lp" and "b = bread (p + L) k lp"
  have len: "length e = L" "length b = k" using f n by (simp_all add: e_def b_def length_bread)
  have "bread p (L + k) lp = e @ b" unfolding e_def b_def bread_def by (metis add.commute drop_drop take_add)
  moreover have "raw_ok e"
  proof -
    have e: "e \<noteq> []" "e ! 0 = lp ! p" using f(2,4) n \<open>s \<le> L\<close> len(1) by (auto simp: e_def bread_def)
    have d: "drop p lp = e @ drop (p + L) lp"
      unfolding e_def bread_def by (metis append_take_drop_id drop_drop add.commute)
    have "lpCurrentEncodedSizeBytes e = s" unfolding s_def lpCurrentEncodedSizeBytes_def hd e(2) ..
    then show ?thesis
      using size_prefix [OF e(1), of "drop (p + L) lp"] \<open>s \<le> L\<close> len(1) c e unfolding d [symmetric]
      by (simp add: raw_ok_def L_def)
  qed
  ultimately show ?thesis using f dec len k_def by (intro exI [of _ e] exI [of _ b]) (simp add: add.assoc)
qed

text \<open>The whole scan.\<close>

definition back_link :: "bytes \<Rightarrow> nat \<Rightarrow> bool" where
  "back_link lp p \<longleftrightarrow> p = 6 \<and> bread 6 2 lp \<noteq> [0x80, 0x81] \<or>
     (\<exists>l. 0 < l \<and> backlen_dec 5 (rev (take p lp)) = Some l)"

lemma raw_ok_less: "raw_ok e \<Longrightarrow> length e < 2 ^ 32"
proof -
  assume e: "raw_ok e"
  have "unat (e ! 1) < 256" using unsigned_less [of "e ! 1"] by simp
  moreover have "unat (e ! 0) mod 16 < 16" "unat (e ! 0) mod 64 < 64" by simp_all
  ultimately have "LP_ENCODING_12BIT_STR_LEN e < 4096" "LP_ENCODING_6BIT_STR_LEN e < 64"
    unfolding LP_ENCODING_12BIT_STR_LEN_def LP_ENCODING_6BIT_STR_LEN_def lp_low_bits by linarith+
  then have "lpCurrentEncodedSizeUnsafe e < 2 ^ 32" by (simp add: lpCurrentEncodedSizeUnsafe_def)
  then show ?thesis using e by (simp add: raw_ok_def)
qed

lemma lpValidateNext_link:
  assumes v: "lpValidateNext lp (Some p) n = Some (Some q)" and n: "n \<le> length lp" and link: "back_link lp p"
  shows "\<exists>e b. entry_ok (e, b) \<and> q = p + length (e @ b) \<and> q < n \<and> bread p (length (e @ b)) lp = e @ b \<and> back_link lp q"
proof -
  obtain e b where eb: "raw_ok e" "length b = length (lpEncodeBacklen (length e))" "q = p + length e + length b" "q < n"
      "6 \<le> p" "bread p (length e + length b) lp = e @ b" "lpDecodeBacklen lp (q - 1) = length e"
    using lpValidateNext_entry [OF v n] by blast
  have pos: "0 < length e" "0 < length b" using eb(1,2) by (simp_all add: raw_ok_def)
  have q: "q - 1 < length lp" "4 \<le> q - 1" "q - 1 + 1 = q" using eb pos n by simp_all
  have "length e < ULLONG_MAX" using raw_ok_less [OF eb(1)] by (simp add: ULLONG_MAX_def)
  then have dec: "backlen_dec 5 (rev (take q lp)) = Some (length e)"
    using lpDecodeBacklen_dec [OF q(1,2)] eb(7) unfolding q(3) by (auto split: option.splits)
  have tk: "take q lp = take p lp @ e @ b"
    using eb(3,6) by (simp add: bread_def add.assoc take_add)
  have "backlen_dec 5 (rev b @ rev e @ rev (take p lp)) = Some (length e)" using dec unfolding tk by simp
  from backlen_context [OF eb(1,2) this]
  have "backlen_ok e b"
  proof
    assume bad: "e = [0x80] \<and> b = [0x81] \<and> backlen_dec 3 (rev (take p lp)) = Some 0"
    then have "backlen_dec 5 (rev (take p lp)) = Some 0" using backlen_dec_mono [of 3 _ 0 5] by simp
    moreover have "p = 6 \<Longrightarrow> bread 6 2 lp = [0x80, 0x81]" using bad eb(6) by (simp add: numeral_2_eq_2)
    ultimately show ?thesis using link by (auto simp: back_link_def)
  qed
  moreover have "back_link lp q" using dec pos(1) by (auto simp: back_link_def)
  ultimately show ?thesis using eb by (intro exI [of _ e] exI [of _ b]) (simp add: entry_ok_def)
qed

lemma lpValidate_loop_sound:
  assumes "lpValidate_loop lp n m cb (Some p) c u = (Some (r, c'), u')" "n \<le> length lp" "back_link lp p" "6 \<le> p"
  shows "\<exists>es q. r = Some q \<and> lp ! q = LP_EOF \<and> q = p + length (layout es) \<and> bread p (length (layout es)) lp = layout es
    \<and> (\<forall>eb \<in> set es. entry_ok eb) \<and> c' = (if es = [] then c else (c + length es) mod 2 ^ 32)"
  using assms
proof (induction "n - p" arbitrary: p c u rule: less_induct)
  case less
  show ?case
  proof (cases "lp ! p = LP_EOF")
    case True
    then show ?thesis
      using less.prems(1) by (subst (asm) lpValidate_loop.simps) (auto simp: bread_def intro: exI [of _ "[]"])
  next
    case False
    then obtain t v where step: "lpValidateNext lp (Some p) n = Some t"
        "lpValidate_loop lp n m cb t ((c + 1) mod 2 ^ 32) v = (Some (r, c'), u')"
      using less.prems(1)
      by (subst (asm) lpValidate_loop.simps) (auto split: option.splits prod.splits if_splits)
    obtain q where t: "t = Some q"
      using step(1) False by (auto simp: lpValidateNext_def Let_def split: if_splits)
    have v: "lpValidateNext lp (Some p) n = Some (Some q)" using step(1) t by simp
    obtain e b where eb: "entry_ok (e, b)" "q = p + length (e @ b)" "q < n" "bread p (length (e @ b)) lp = e @ b" "back_link lp q"
      using lpValidateNext_link [OF v less.prems(2,3)] by blast
    have lt: "n - q < n - p" using lpValidateNext_next [OF v] by (meson diff_less_mono2 order_less_trans)
    have "6 \<le> q" using eb(2) less.prems(4) by simp
    from less.hyps [OF lt step(2) [unfolded t] less.prems(2) eb(5) this]
    obtain es q' where es: "r = Some q'" "lp ! q' = LP_EOF" "q' = q + length (layout es)"
        "bread q (length (layout es)) lp = layout es" "\<forall>eb \<in> set es. entry_ok eb"
        "c' = (if es = [] then (c + 1) mod 2 ^ 32 else ((c + 1) mod 2 ^ 32 + length es) mod 2 ^ 32)" by blast
    have "bread p (length (e @ b) + length (layout es)) lp = (e @ b) @ layout es"
      using eb(2,4) es(4) by (simp only: bread_def take_add drop_drop) (simp add: add.commute)
    moreover have "c' = (c + length ((e, b) # es)) mod 2 ^ 32" using es(6) by (simp add: mod_simps)
    ultimately show ?thesis
      using eb es by (intro exI [of _ "(e, b) # es"] exI [of _ q']) (simp add: add.assoc)
  qed
qed

text \<open>Which listpack the validation accepts although its first entry has no back length of its own.\<close>

definition lp_header_backlen :: "bytes \<Rightarrow> bool" where
  "lp_header_backlen lp \<longleftrightarrow> bread 6 2 lp = [0x80, 0x81]"

lemma lpValidateIntegrity_sound:
  assumes "lpValidateIntegrity lp (length lp) True cb u = (True, u')" "\<not> lp_header_backlen lp"
  shows "\<exists>es. lp_repr lp es \<and> length lp = lp_total es"
proof -
  let ?n = "length lp"
  obtain p c' where f: "7 \<le> ?n" "lpGetTotalBytes lp = ?n" "lp ! (?n - 1) = LP_EOF"
      "lpValidate_loop lp ?n (lpGetNumElements lp) cb (Some 6) 0 u = (Some (p, c'), u')" "p = Some (?n - 1)"
      "lpGetNumElements lp = 65535 \<or> lpGetNumElements lp = c'"
    using assms(1)
    by (auto simp: lpValidateIntegrity_def LP_HDR_SIZE_def LP_HDR_NUMELE_UNKNOWN_def Let_def
        split: if_splits option.splits prod.splits)
  have "back_link lp 6" using assms(2) by (simp add: back_link_def lp_header_backlen_def)
  from lpValidate_loop_sound [OF f(4) order_refl this order_refl] f(5)
  obtain es where es: "?n - 1 = 6 + length (layout es)" "bread 6 (length (layout es)) lp = layout es"
      "\<forall>eb \<in> set es. entry_ok eb" "c' = (if es = [] then 0 else length es mod 2 ^ 32)" by auto
  have n: "?n = lp_total es" using es(1) f(1) by (simp add: lp_total_def)
  have lt: "lp_total es < 2 ^ 32"
    using le_uint_less [of "bread 0 4 lp"] f(1,2) n by (simp add: lpGetTotalBytes_def length_bread nat_less_iff)
  have "2 * length es \<le> length (layout es)" using layout_ge [of es] es(3) by blast
  then have c: "c' = length es" using es(4) lt by (simp add: lp_total_def)
  define m where "m = lpGetNumElements lp"
  have "m < 65536"
    using le_uint_less [of "bread 4 2 lp"] f(1) by (simp add: m_def lpGetNumElements_def length_bread nat_less_iff)
  have "le_uint (bread 0 4 lp) = int ?n" "le_uint (bread 4 2 lp) = int m"
    using f(2) nat_0_le [OF le_uint_nonneg [of "bread 0 4 lp"]] nat_0_le [OF le_uint_nonneg [of "bread 4 2 lp"]]
    by (simp_all add: lpGetTotalBytes_def lpGetNumElements_def m_def)
  then have "bread 0 4 lp = le_bytes 4 (int ?n)" "bread 4 2 lp = le_bytes 2 (int m)"
    using le_bytes_le_uint [of 4 "bread 0 4 lp"] le_bytes_le_uint [of 2 "bread 4 2 lp"] f(1)
    by (simp_all add: length_bread del: le_bytes.simps)
  moreover have "lp = bread 0 4 lp @ bread 4 2 lp @ bread 6 (length (layout es)) lp @ [lp ! (?n - 1)]"
  proof -
    have "take (4 + (2 + length (layout es))) lp = bread 0 4 lp @ bread 4 2 lp @ bread 6 (length (layout es)) lp"
      by (simp only: bread_def take_add drop_drop drop_0) simp
    moreover have "lp = take (?n - 1) lp @ [lp ! (?n - 1)]"
      using f(1) take_Suc_conv_app_nth [of "?n - 1" lp] by simp
    ultimately show ?thesis using es(1) by simp
  qed
  ultimately have "lp = le_bytes 4 (int (7 + length (layout es))) @ le_bytes 2 (int m) @ layout es @ LP_EOF # []"
    using f(3) unfolding es(2) n lp_total_def by simp
  then have "lp_repr lp es"
    using lt es(3) f(6) c \<open>m < 65536\<close> by (intro lp_reprI [of _ _ "int m" "[]"]) (auto simp: lp_total_def m_def)
  then show ?thesis using n by blast
qed

end
