(* ===== verification/Listpack_Batch.thy ===== *)
theory Listpack_Batch
  imports Listpack_Ops
begin

text \<open>
  \<^verbatim>\<open>lpBatchDelete\<close>: the entries between the deleted ones move down one run at a time, over bytes that are
  no longer needed.
\<close>

text \<open>The entries kept behind the first deleted one.\<close>

fun kept :: "'a list \<Rightarrow> nat list \<Rightarrow> 'a list" where
  "kept es [] = []"
| "kept es (i # ks) = drop (Suc i) (take (case ks of j # _ \<Rightarrow> j | [] \<Rightarrow> length es) es) @ kept es ks"

lemma nths_all_below: "(\<And>i. i < length l \<Longrightarrow> i \<in> A) \<Longrightarrow> nths l A = l"
  by (simp add: nths_all)

lemma nths_drop_run:
  assumes "i \<le> j" "j \<le> length es" "\<And>k. i \<le> k \<Longrightarrow> k < j \<Longrightarrow> k \<in> A"
  shows "nths (drop i es) {k. k + i \<in> A} = drop i (take j es) @ nths (drop j es) {k. k + j \<in> A}"
proof -
  have "drop i es = drop i (take j es) @ drop j es"
    using assms(1) by (metis append_take_drop_id drop_append drop_drop drop_take le_add_diff_inverse2 take_drop)
  moreover have "nths (drop i (take j es)) {k. k + i \<in> A} = drop i (take j es)"
    using assms by (intro nths_all_below) auto
  moreover have "length (drop i (take j es)) = j - i" using assms by simp
  ultimately show ?thesis using assms(1) by (simp add: nths_append)
qed

lemma kept_nths:
  assumes "sorted_wrt (<) (i # ks)" "\<forall>k \<in> set (i # ks). k < length es"
  shows "nths (drop (Suc i) es) {k. k + Suc i \<in> - set ks} = kept es (i # ks)"
  using assms
proof (induction ks arbitrary: i)
  case Nil
  then show ?case by (simp add: nths_all_below)
next
  case (Cons j ks)
  have ij: "i < j" "j < length es" and srt: "\<forall>k \<in> set ks. j < k" using Cons.prems by auto
  have "nths (drop (Suc i) es) {k. k + Suc i \<in> - set (j # ks)} =
      drop (Suc i) (take j es) @ nths (drop j es) {k. k + j \<in> - set (j # ks)}"
    using ij srt by (intro nths_drop_run) auto
  also have "drop j es = es ! j # drop (Suc j) es" using ij by (simp add: Cons_nth_drop_Suc)
  also have "nths (es ! j # drop (Suc j) es) {k. k + j \<in> - set (j # ks)} = nths (drop (Suc j) es) {k. k + Suc j \<in> - set ks}"
    by (simp add: nths_Cons)
  also have "\<dots> = kept es (j # ks)" using Cons by simp
  finally show ?case by simp
qed

lemma nths_deleted:
  assumes "sorted_wrt (<) (i # ks)" "\<forall>k \<in> set (i # ks). k < length es"
  shows "nths es (- set (i # ks)) = take i es @ kept es (i # ks)"
proof -
  have i: "i < length es" and srt: "\<forall>k \<in> set ks. i < k" using assms by auto
  have "nths (drop 0 es) {k. k + 0 \<in> - set (i # ks)} =
      drop 0 (take i es) @ nths (drop i es) {k. k + i \<in> - set (i # ks)}"
    using i srt by (intro nths_drop_run) auto
  also have "drop i es = es ! i # drop (Suc i) es" using i by (simp add: Cons_nth_drop_Suc)
  also have "nths (es ! i # drop (Suc i) es) {k. k + i \<in> - set (i # ks)} = nths (drop (Suc i) es) {k. k + Suc i \<in> - set ks}"
    by (simp add: nths_Cons)
  finally show ?thesis using kept_nths [OF assms] by (simp add: Compl_eq)
qed

lemma pos_of_mono: "i \<le> j \<Longrightarrow> pos_of es i \<le> pos_of es j"
proof -
  assume "i \<le> j"
  then have "take j es = take i es @ take (j - i) (drop i es)" by (metis le_add_diff_inverse take_add)
  then show ?thesis by (simp add: lp_pos_def)
qed

lemma repr_bread_run:
  assumes "lp_repr lp es" "i \<le> j"
  shows "bread (pos_of es i) (pos_of es j - pos_of es i) lp = layout (drop i (take j es))"
    and "bread (pos_of es i) (lp_total es - pos_of es i) lp = layout (drop i es) @ [LP_EOF]"
proof -
  have "lp_repr lp (take i es @ drop i es)" using assms(1) by simp
  from repr_splitE [OF this] obtain H slack where H: "length H = 6"
      "lp = H @ layout (take i es) @ layout (drop i es) @ LP_EOF # slack" by blast
  have d: "drop (pos_of es i) lp = layout (drop i es) @ LP_EOF # slack"
    unfolding H(2) by (rule drop_lp_pos(1) [OF H(1)])
  have tj: "take j es = take i es @ drop i (take j es)"
    using assms(2) by (metis append_take_drop_id min.absorb1 take_take)
  have n: "pos_of es j - pos_of es i = length (layout (drop i (take j es)))"
    using arg_cong [OF tj, of lp_pos] by (simp add: lp_pos_def)
  have "drop i es = drop i (take j es) @ drop j es"
    using assms(2) by (metis append_take_drop_id drop_append drop_drop drop_take le_add_diff_inverse2 take_drop)
  then have "layout (drop i es) = layout (drop i (take j es)) @ layout (drop j es)" by (metis layout_simps(3))
  then show "bread (pos_of es i) (pos_of es j - pos_of es i) lp = layout (drop i (take j es))"
    unfolding bread_def d n by simp
  have "lp_total es - pos_of es i = length (layout (drop i es)) + 1"
  proof -
    have "layout es = layout (take i es) @ layout (drop i es)" by (metis append_take_drop_id layout_simps(3))
    then show ?thesis by (simp add: lp_total_def lp_pos_def)
  qed
  then show "bread (pos_of es i) (lp_total es - pos_of es i) lp = layout (drop i es) @ [LP_EOF]"
    unfolding bread_def d by simp
qed

lemma memmove_down:
  assumes "dst \<le> ks" "ks \<le> ke" "ke \<le> length lp" "n = ke - ks"
  shows "length (memmove dst ks n lp) = length lp"
    and "take (dst + n) (memmove dst ks n lp) = take dst lp @ bread ks n lp"
    and "drop ke (memmove dst ks n lp) = drop ke lp"
  using assms by (simp_all add: memmove_def bwrite_def length_bread)

lemma drop_agree: "drop p cur = drop p lp \<Longrightarrow> p \<le> q \<Longrightarrow> drop q cur = drop q lp"
  by (metis drop_drop le_add_diff_inverse2)

lemma batch_head:
  assumes r: "lp_repr lp es" and i: "i < length es" and cur: "drop (pos_of es i) cur = drop (pos_of es i) lp"
  shows "cur ! pos_of es i \<noteq> LP_EOF" "lpSkip cur (pos_of es i) = pos_of es (Suc i)"
proof -
  obtain e b where eb: "es ! i = (e, b)" by (cases "es ! i")
  have r1: "lp_repr lp (take i es @ (e, b) # drop (Suc i) es)" using r id_take_nth_drop [OF i] eb by simp
  have "pos_of es i < length lp" using repr_fits [OF r1] by (simp add: lp_pos_def)
  moreover have "pos_of es i < length cur" using cur calculation by (metis drop_eq_Nil not_le)
  ultimately have "cur ! pos_of es i = lp ! pos_of es i" using cur by (metis add_0_right nth_drop order_less_imp_le)
  then show "cur ! pos_of es i \<noteq> LP_EOF" using repr_at(2) [OF r1] by simp
  have "lpSkip cur (pos_of es i) = lpSkip lp (pos_of es i)" by (simp add: lpSkip_def cur)
  then show "lpSkip cur (pos_of es i) = pos_of es (Suc i)"
    using repr_at(3) [OF r1] eb i by (simp add: take_Suc_conv_app_nth)
qed

text \<open>The loop: \<open>cur\<close> has its first \<open>dst\<close> bytes final and agrees with \<open>lp\<close> from the next deleted entry on.\<close>

lemma lpBatchDelete_loop_repr:
  assumes r: "lp_repr lp es"
    and "sorted_wrt (<) (i # ks)" "\<forall>k \<in> set (i # ks). k < length es"
    and "length cur = length lp" "drop (pos_of es i) cur = drop (pos_of es i) lp" "dst \<le> pos_of es i"
  shows "\<exists>lp'. lpBatchDelete_loop cur (lp_total es) (map (pos_of es) (i # ks)) dst =
      Some (lp', dst + length (layout (kept es (i # ks))) + 1)
    \<and> take (dst + length (layout (kept es (i # ks))) + 1) lp' = take dst cur @ layout (kept es (i # ks)) @ [LP_EOF]
    \<and> length lp' = length lp"
  using assms(2-)
proof (induction ks arbitrary: i cur dst)
  case Nil
  have i: "i < length es" using Nil.prems(2) by simp
  note hd = batch_head [OF r i Nil.prems(4)]
  let ?ks = "pos_of es (Suc i)"
  have le: "pos_of es i \<le> ?ks" by (rule pos_of_mono) simp
  have kt: "?ks < lp_total es"
    using pos_of_mono [of "Suc i" "length es" es] i by (simp add: lp_total_def lp_pos_def)
  have fit: "lp_total es \<le> length cur" using repr_fits [OF r] Nil.prems(3) by (simp add: lp_total_def)
  let ?n = "lp_total es - ?ks" and ?new = "memmove dst (pos_of es (Suc i)) (lp_total es - pos_of es (Suc i)) cur"
  have "bread ?ks ?n cur = bread ?ks ?n lp"
    unfolding bread_def drop_agree [OF Nil.prems(4) le] ..
  then have br: "bread ?ks ?n cur = layout (drop (Suc i) es) @ [LP_EOF]"
    using repr_bread_run(2) [OF r order_refl] by simp
  have n: "?n = length (layout (drop (Suc i) es)) + 1"
    using arg_cong [OF br, of length] fit by (simp add: length_bread)
  have m: "length ?new = length cur" "take (dst + ?n) ?new = take dst cur @ bread ?ks ?n cur"
    using memmove_down(1,2) [of dst ?ks "lp_total es" cur ?n] Nil.prems(5) le kt fit by simp_all
  have "lpBatchDelete_loop cur (lp_total es) (map (pos_of es) [i]) dst = Some (?new, dst + ?n)"
    using hd kt by (simp add: lp_assert_def Let_def)
  then show ?case using m br n Nil.prems(3) by (simp add: add.assoc)
next
  case (Cons j ks)
  have i: "i < length es" and j: "j < length es" "i < j" using Cons.prems(1,2) by auto
  note hd = batch_head [OF r i Cons.prems(4)]
  let ?ks = "pos_of es (Suc i)" and ?ke = "pos_of es j"
  have le: "pos_of es i \<le> ?ks" "?ks \<le> ?ke" using j by (auto intro: pos_of_mono)
  have fit: "?ke \<le> length cur"
    using pos_of_mono [of j "length es" es] j repr_fits [OF r] Cons.prems(3) by (simp add: lp_pos_def)
  let ?n = "?ke - ?ks" and ?seg = "drop (Suc i) (take j es)"
  have "bread ?ks ?n cur = bread ?ks ?n lp"
    unfolding bread_def drop_agree [OF Cons.prems(4) le(1)] ..
  then have br: "bread ?ks ?n cur = layout ?seg"
    using repr_bread_run(1) [OF r, of "Suc i" j] j by simp
  have n: "?n = length (layout ?seg)" using arg_cong [OF br, of length] fit by (simp add: length_bread)
  define cur' where "cur' = (if ?ks = ?ke then cur else memmove dst ?ks ?n cur)"
  have m: "length cur' = length lp" "take (dst + ?n) cur' = take dst cur @ layout ?seg"
      "drop ?ke cur' = drop ?ke lp"
  proof -
    have "dst \<le> ?ks" using Cons.prems(5) le(1) by simp
    note mv = memmove_down [OF this le(2) fit refl]
    have ag: "drop ?ke cur = drop ?ke lp" using drop_agree [OF Cons.prems(4)] le by (meson order_trans)
    show "length cur' = length lp" unfolding cur'_def using mv(1) Cons.prems(3) by simp
    show "drop ?ke cur' = drop ?ke lp" unfolding cur'_def using mv(3) ag by simp
    show "take (dst + ?n) cur' = take dst cur @ layout ?seg"
    proof (cases "?ks = ?ke")
      case True
      then show ?thesis using n unfolding cur'_def by simp
    next
      case False
      then show ?thesis using mv(2) br unfolding cur'_def by simp
    qed
  qed
  have step: "lpBatchDelete_loop cur (lp_total es) (map (pos_of es) (i # j # ks)) dst =
      lpBatchDelete_loop cur' (lp_total es) (map (pos_of es) (j # ks)) (dst + ?n)"
    using hd le(2) unfolding cur'_def by (subst list.map, subst lpBatchDelete_loop.simps) (simp add: lp_assert_def Let_def)
  have dk: "dst + ?n \<le> ?ke" using Cons.prems(5) le by simp
  have srt: "sorted_wrt (<) (j # ks)" "\<forall>k \<in> set (j # ks). k < length es" using Cons.prems(1,2) by simp_all
  from Cons.IH [OF srt m(1,3) dk]
  obtain lp' where lp': "lpBatchDelete_loop cur' (lp_total es) (map (pos_of es) (j # ks)) (dst + ?n) =
        Some (lp', dst + ?n + length (layout (kept es (j # ks))) + 1)"
      "take (dst + ?n + length (layout (kept es (j # ks))) + 1) lp' = take (dst + ?n) cur' @ layout (kept es (j # ks)) @ [LP_EOF]"
      "length lp' = length lp" by blast
  have k: "kept es (i # j # ks) = ?seg @ kept es (j # ks)" by simp
  show ?case unfolding step k layout_simps(3) length_append n [symmetric]
    using lp' unfolding m(2) by (intro exI [of _ lp']) (simp only: add.assoc append_assoc simp_thms)
qed

lemma length_nths_deleted:
  assumes "sorted_wrt (<) ks" "\<forall>k \<in> set ks. k < length es"
  shows "length (nths es (- set ks)) = length es - length ks" "length ks \<le> length es"
proof -
  have d: "distinct ks" using assms(1) by (simp add: strict_sorted_iff)
  have sub: "set ks \<subseteq> {..<length es}" using assms(2) by auto
  have "{i. i < length es \<and> i \<in> - set ks} = {..<length es} - set ks" by auto
  then show "length (nths es (- set ks)) = length es - length ks"
    using sub d by (simp add: length_nths card_Diff_subset distinct_card)
  show "length ks \<le> length es" using card_mono [OF _ sub] d by (simp add: distinct_card)
qed

lemma layout_nths_le: "length (layout (nths es A)) \<le> length (layout es)"
proof (induction es arbitrary: A)
  case (Cons eb es)
  then show ?case by (cases eb) (simp add: nths_Cons trans_le_add2)
qed simp

lemma lpBatchDelete_repr:
  assumes r: "lp_repr lp es" and srt: "sorted_wrt (<) ks" "\<forall>k \<in> set ks. k < length es"
  shows "\<exists>lp'. lpBatchDelete lp (map (pos_of es) ks) = Some lp' \<and> lp_repr lp' (nths es (- set ks))"
proof (cases ks)
  case Nil
  then show ?thesis using r by (simp add: lpBatchDelete_def nths_all_below)
next
  case (Cons i js)
  let ?res = "take i es @ kept es (i # js)"
  have res: "nths es (- set ks) = ?res" using nths_deleted [of i js es] srt Cons by simp
  obtain lp1 where lp1: "lpBatchDelete_loop lp (lp_total es) (map (pos_of es) (i # js)) (pos_of es i) =
        Some (lp1, pos_of es i + length (layout (kept es (i # js))) + 1)"
      "take (pos_of es i + length (layout (kept es (i # js))) + 1) lp1 =
        take (pos_of es i) lp @ layout (kept es (i # js)) @ [LP_EOF]" "length lp1 = length lp"
    using lpBatchDelete_loop_repr [OF r _ _ refl refl order_refl, of i js] srt Cons by blast
  obtain A B slack n where lp: "lp = A @ B @ layout es @ LP_EOF # slack" "length A = 4"
      "B = le_bytes 2 (int n)" "lpGetNumElements lp = n" "n = 65535 \<or> n = length es \<and> n < 65535"
    using repr_headerE [OF r] by blast
  have B: "length B = 2" using lp(3) by (simp del: le_bytes.simps)
  have "layout es = layout (take i es) @ layout (drop i es)" by (metis append_take_drop_id layout_simps(3))
  then have tk: "take (pos_of es i) lp = A @ B @ layout (take i es)"
    unfolding lp(1) using lp(2) B by (simp add: lp_pos_def)
  let ?D = "lp_total ?res"
  have D: "pos_of es i + length (layout (kept es (i # js))) + 1 = ?D"
    unfolding lp_total_def layout_simps(3) lp_pos_def by simp
  define S where "S = drop ?D lp1"
  have "lp1 = take ?D lp1 @ S" by (simp add: S_def)
  then have lp1': "lp1 = A @ B @ layout ?res @ LP_EOF # S"
    using lp1(2) unfolding D tk layout_simps(3) by simp
  define lp2 where "lp2 = lpSetTotalBytes lp1 (int ?D)"
  define lp3 where "lp3 = (if lpGetNumElements lp2 \<noteq> 65535
      then lpSetNumElements lp2 (int (lpGetNumElements lp2) - int (length ks)) else lp2)"
  have eof: "lp1 ! (?D - 1) = LP_EOF" "lp ! (lp_total es - 1) = LP_EOF"
    unfolding lp1' lp(1) using lp(2) B by (simp_all add: lp_total_def nth_append del: layout_simps(3))
  have "?D \<le> lp_total es" using layout_nths_le [of es "- set ks"] unfolding res lp_total_def by simp
  then have run: "lpBatchDelete lp (map (pos_of es) ks) = Some (lpShrinkToFit lp3)"
    using lp1(1) eof Cons repr_total_bytes [OF r] unfolding D lp3_def lp2_def
    by (simp add: lpBatchDelete_def lp_assert_def Let_def LP_HDR_NUMELE_UNKNOWN_def
        del: lpBatchDelete_loop.simps kept.simps)
  have lp2': "lp2 = le_bytes 4 (int ?D) @ B @ layout ?res @ LP_EOF # S"
    unfolding lp2_def lp1' by (rule lp_set_headers(1) [OF lp(2) B])
  have num: "lpGetNumElements lp2 = n"
    unfolding lp2' lp_set_headers(3) [OF length_le_bytes B] using lp(3,5) by (auto simp del: le_bytes.simps)
  define m where "m = (if n \<noteq> 65535 then int n - int (length ks) else int n)"
  have lp3': "lp3 = le_bytes 4 (int ?D) @ le_bytes 2 m @ layout ?res @ LP_EOF # S"
  proof -
    have "lpSetNumElements lp2 x = le_bytes 4 (int ?D) @ le_bytes 2 x @ layout ?res @ LP_EOF # S" for x
      unfolding lp2' by (rule lp_set_headers(2) [OF length_le_bytes B])
    then show ?thesis unfolding lp3_def num m_def using lp2' lp(3) by simp
  qed
  have "lp_repr lp3 ?res"
  proof (rule lp_reprI)
    show "lp3 = le_bytes 4 (int (7 + length (layout ?res))) @ le_bytes 2 m @ layout ?res @ LP_EOF # S"
      using lp3' unfolding lp_total_def .
    show "7 + length (layout ?res) < 2 ^ 32" using \<open>?D \<le> lp_total es\<close> repr_total [OF r] unfolding lp_total_def by simp
    show "entry_ok eb" if "eb \<in> set ?res" for eb
      using that repr_ok [OF r, of eb] unfolding res [symmetric] by (meson notin_set_nthsI)
    show "m = 65535 \<or> m = int (length ?res) \<and> length ?res < 65535"
      using lp(5) length_nths_deleted [OF srt] unfolding m_def res [symmetric] by auto
  qed
  then show ?thesis using run res lpShrinkToFit_repr(1) by auto
qed

end
