(* ===== verification/Listpack_Spec.thy ===== *)
theory Listpack_Spec
  imports Listpack_Valid Listpack_Batch
begin

text \<open>
  The contract of the listpack: what each operation promises, stated for the elements a listpack holds.
\<close>

section \<open>Creation, copies and size estimates\<close>

lemma lpNew_repr: "lp_repr (lpNew capacity) []"
proof -
  define n where "n = (if capacity > 7 then capacity - 7 else 0)"
  define c where "c = (if capacity > LP_HDR_SIZE + 1 then capacity else LP_HDR_SIZE + 1)"
  have c: "c = 4 + (2 + (1 + n))" by (simp add: n_def c_def LP_HDR_SIZE_def)
  have "replicate c uninit = replicate 4 uninit @ replicate 2 uninit @ uninit # replicate n uninit"
    unfolding c replicate_add by simp
  then have "lpNew capacity = le_bytes 4 7 @ le_bytes 2 0 @ LP_EOF # replicate n uninit"
    unfolding lpNew_def Let_def c_def [symmetric]
    by (simp add: lp_set_headers [of "replicate 4 uninit" "replicate 2 uninit"] lp_set_headers(2) [of "le_bytes 4 7" "replicate 2 uninit"]
        LP_HDR_SIZE_def list_update_append del: le_bytes.simps)
  then show ?thesis by (intro lp_reprI [of _ "[]" 0]) (simp_all del: le_bytes.simps)
qed

lemma lpDup_repr:
  assumes "lp_repr lp es"
  shows "lp_repr (lpDup lp) es" "length (lpDup lp) = lp_total es"
proof -
  have le: "lp_total es \<le> length lp" using repr_fits [OF assms] by (simp add: lp_total_def)
  have "lpDup lp = take (lp_total es) lp"
    using repr_total_bytes [OF assms] le by (simp add: lpDup_def lpBytes_def bwrite_def bread_def)
  also have "\<dots> = lpShrinkToFit lp"
    using repr_total_bytes [OF assms] le
    by (cases "lp_total es < length lp") (simp_all add: lpShrinkToFit_def zrealloc_def)
  finally show "lp_repr (lpDup lp) es" "length (lpDup lp) = lp_total es"
    using lpShrinkToFit_repr [OF assms] by simp_all
qed

lemma layout_replicate: "length (layout (replicate n (e, b))) = n * (length e + length b)"
  by (induction n) simp_all

lemma lpEstimate_total:
  "lpEstimateBytesRepeatedInteger v rep = lp_total (replicate rep (canon (lpEncodeIntegerGetType v)))"
  by (simp add: lpEstimateBytesRepeatedInteger_def lp_total_def canon_def layout_replicate LP_HDR_SIZE_def Let_def mult.commute)

section \<open>Insertion\<close>

lemma entry_ok_ele: "length s + 10 < 2 ^ 32 \<Longrightarrow> entry_ok (canon (ele_enc (EleStr s)))"
  using raw_ok_encode [of s] raw_ok_less [of "lp_encode s"]
  by (intro entry_ok_canon) (simp_all add: ele_enc_def)

lemma lpInsertInteger_string:
  assumes "in_i64 v"
  shows "lpInsertInteger lp v p where = lpInsertString lp (int_dec v) p where"
proof -
  have "lpEncodeGetType (int_dec v) = (LP_ENCODING_INT (lpEncodeIntegerGetType v), length (lpEncodeIntegerGetType v))"
    using assms by (simp add: lpEncodeGetType_def lpStringToInt64_eq string2ll_iff [THEN iffD2])
  then show ?thesis by (simp add: lpInsertInteger_def lpInsertString_def lpInsert_def)
qed

text \<open>The listpack of the entries \<open>es\<close> with the encoded string \<open>s\<close> put between \<open>i\<close> and \<open>j\<close>.\<close>

definition lp_spliced :: "lp_entry list \<Rightarrow> nat \<Rightarrow> bytes \<Rightarrow> nat \<Rightarrow> lp_entry list" where
  "lp_spliced es i s j = take i es @ canon (lp_encode s) # drop j es"

lemma lp_spliced_vals:
  "length s + 10 < 2 ^ 32 \<Longrightarrow>
   map entry_val (lp_spliced es i s j) = take i (map entry_val es) @ s # drop j (map entry_val es)"
  using entry_val_canon [of s] by (simp add: lp_spliced_def take_map drop_map)

lemma lpInsert_at:
  assumes r: "lp_repr lp es" and s: "length s + 10 < 2 ^ 32" and i: "i < length es"
  shows "\<exists>lp'. lpInsertString lp s (pos_of es i) where =
      Some (let i' = (if where = LP_AFTER then i + 1 else i);
                es' = lp_spliced es i' s (if where = LP_BEFORE then i else i + 1)
            in if lp_total es' < 2 ^ 32 then Some (lp', Some (pos_of es i')) else None)
    \<and> (let es' = lp_spliced es (if where = LP_AFTER then i + 1 else i) s (if where = LP_BEFORE then i else i + 1)
       in lp_total es' < 2 ^ 32 \<longrightarrow> lp_repr lp' es')"
proof -
  obtain e b where eb: "es ! i = (e, b)" by (cases "es ! i")
  have r1: "lp_repr lp (take i es @ (e, b) # drop (Suc i) es)" using r id_take_nth_drop [OF i] eb by simp
  have r0: "lp_repr lp (take i es @ drop i es)" using r by simp
  have r2: "lp_repr lp (take (i + 1) es @ drop (i + 1) es)" using r by simp
  have t: "take i es @ [(e, b)] = take (i + 1) es" using i eb by (simp add: take_Suc_conv_app_nth)
  note ok = entry_ok_ele [OF s] and en = ele_enc_def
  have ne: "EleStr s \<noteq> EleNull" by simp
  show ?thesis
  proof (cases "where")
    case LP_BEFORE
    then show ?thesis
      using lpInsert_before [OF r0 ne ok] by (simp add: lpInsertString_def lp_spliced_def en Let_def)
  next
    case LP_AFTER
    then show ?thesis
      using lpInsert_after [OF r1 ne] lpInsert_before [OF r2 ne ok] unfolding t
      by (simp add: lpInsertString_def lp_spliced_def en Let_def cong: if_cong)
  next
    case LP_REPLACE
    then show ?thesis
      using lpInsert_replace [OF r1 ne ok] by (simp add: lpInsertString_def lp_spliced_def en Let_def)
  qed
qed

lemma lpAppend_repr:
  assumes r: "lp_repr lp es" and s: "length s + 10 < 2 ^ 32"
  shows "\<exists>lp'. lpAppend lp s = Some (if lp_total (es @ [canon (lp_encode s)]) < 2 ^ 32 then Some (lp', Some (lp_pos es)) else None)
    \<and> (lp_total (es @ [canon (lp_encode s)]) < 2 ^ 32 \<longrightarrow> lp_repr lp' (es @ [canon (lp_encode s)]))"
proof -
  have "lp_repr lp (es @ [])" using r by simp
  from lpInsert_before [OF this _ entry_ok_ele [OF s]] show ?thesis
    using repr_end(2) [OF r] by (simp add: lpAppend_def lpBytes_def Let_def ele_enc_def)
qed

lemma lpPrepend_repr:
  assumes r: "lp_repr lp es" and s: "length s + 10 < 2 ^ 32"
  shows "\<exists>lp'. lpPrepend lp s = Some (if lp_total (canon (lp_encode s) # es) < 2 ^ 32 then Some (lp', Some (lp_pos [])) else None)
    \<and> (lp_total (canon (lp_encode s) # es) < 2 ^ 32 \<longrightarrow> lp_repr lp' (canon (lp_encode s) # es))"
proof (cases "es = []")
  case True
  then show ?thesis using lpAppend_repr [OF r s] lpFirst_repr [OF r] by (simp add: lpPrepend_def cong: if_cong)
next
  case False
  have "lp_repr lp ([] @ es)" using r by simp
  from lpInsert_before [OF this _ entry_ok_ele [OF s]] False show ?thesis
    using lpFirst_repr [OF r] by (simp add: lpPrepend_def ele_enc_def)
qed

section \<open>Properties\<close>

text \<open>C18: Inserting a string before or after element \<open>i\<close> of a well-formed listpack, or replacing element \<open>i\<close>,
  never trips an assertion. It returns \<^verbatim>\<open>NULL\<close> exactly when the result would exceed \<^verbatim>\<open>UINT32_MAX\<close> bytes;
  otherwise the result is a well-formed listpack whose elements are the old ones with the new string spliced
  in, and \<^verbatim>\<open>*newp\<close> is the position of the new element.\<close>

theorem lpInsert_correct:
  assumes "lp_repr lp es" "i < length es" "length s + 10 < 2 ^ 32"
    and "es' = (case where of LP_BEFORE \<Rightarrow> lp_spliced es i s i | LP_AFTER \<Rightarrow> lp_spliced es (i + 1) s (i + 1)
      | LP_REPLACE \<Rightarrow> lp_spliced es i s (i + 1))"
  shows "(if lp_total es' < 2 ^ 32 then
      \<exists>lp'. lpInsertString lp s (pos_of es i) where =
          Some (Some (lp', Some (pos_of es (if where = LP_AFTER then i + 1 else i)))) \<and> lp_repr lp' es'
        \<and> map entry_val es' = take (if where = LP_AFTER then i + 1 else i) (map entry_val es) @ s #
            drop (if where = LP_BEFORE then i else i + 1) (map entry_val es)
    else lpInsertString lp s (pos_of es i) where = Some None)"
  using lpInsert_at [OF assms(1,3,2), of "where"] assms(4) lp_spliced_vals [OF assms(3)]
  by (cases "where"; cases "lp_total es' < 2 ^ 32") (simp_all add: Let_def)

text \<open>C19: Deleting element \<open>i\<close> of a well-formed listpack succeeds, leaves a well-formed listpack with that element
  removed, and \<^verbatim>\<open>*newp\<close> is the position of the element that followed it, or \<^verbatim>\<open>NULL\<close> if there is none.\<close>

theorem lpDelete_correct:
  assumes "lp_repr lp es" "i < length es"
  shows "\<exists>lp'. lpDelete lp (pos_of es i) =
      Some (Some (lp', if i + 1 = length es then None else Some (pos_of es i)))
    \<and> lp_repr lp' (take i es @ drop (i + 1) es)"
proof -
  obtain e b where eb: "es ! i = (e, b)" by (cases "es ! i")
  have "lp_repr lp (take i es @ (e, b) # drop (Suc i) es)" using assms id_take_nth_drop [OF assms(2)] eb by simp
  moreover have "drop (Suc i) es = [] \<longleftrightarrow> i + 1 = length es" using assms(2) by auto
  ultimately show ?thesis
    using lpInsert_delete [of lp "take i es" e b "drop (Suc i) es" LP_REPLACE] unfolding lpDelete_def by simp
qed

text \<open>C20: \<^verbatim>\<open>lpSeek\<close> on a well-formed listpack never trips an assertion and returns \<^verbatim>\<open>NULL\<close> exactly for an index out of
  range, counted from the back when negative; otherwise reading the returned position gives that element,
  whether the scan ran forwards or backwards and whether or not the header knows the number of elements.\<close>

theorem lpSeek_correct:
  assumes "lp_holds lp l"
  shows "\<exists>r. lpSeek lp index = Some r \<and> (case lp_index (length l) index of
      None \<Rightarrow> r = None
    | Some i \<Rightarrow> (\<exists>p. r = Some p \<and> lpGet_intbuf (drop p lp) = l ! i))"
proof -
  obtain es where es: "lp_repr lp es" "map entry_val es = l" using assms by (auto simp: lp_holds_def)
  have len: "length l = length es" using es(2) by auto
  show ?thesis
  proof (cases "lp_index (length es) index")
    case None
    then show ?thesis using lpSeek_repr [OF es(1), of index] len by simp
  next
    case (Some i)
    then have i: "i < length es" by (auto simp: lp_index_def Let_def split: if_splits)
    have "lp_repr lp (take i es @ es ! i # drop (Suc i) es)" using es(1) id_take_nth_drop [OF i] by simp
    from repr_lpGet(1) [OF this] show ?thesis
      using lpSeek_repr [OF es(1), of index] Some len i es(2) by auto
  qed
qed

text \<open>C21: Searching from element \<open>i\<close> with a given skip returns the position of the first element at a multiple of
  \<open>skip + 1\<close> from there that equals the string, comparing integers by value, and \<^verbatim>\<open>NULL\<close> if there is none. It
  terminates without tripping an assertion.\<close>

theorem lpFind_correct:
  assumes "lp_repr lp es" "i < length es"
  shows "lpFind lp (pos_of es i) s skip =
    Some (map_option (\<lambda>k. pos_of es (i + k)) (find_skip skip 0 (drop i (map entry_val es)) s))"
proof -
  have "lp_repr lp (take i es @ drop i es)" "drop i es \<noteq> []" using assms by simp_all
  from lpFind_loop_repr [OF this, of s VUntried skip 0 123456789]
  show ?thesis by (simp add: lpFind_def venc_ok_def drop_map take_add)
qed

text \<open>C22: Every byte string that deep validation accepts is a well-formed listpack, with one exception: a first
  entry \<^verbatim>\<open>0x80 0x81\<close>, whose back length is read into the header.\<close>

theorem lpValidateIntegrity_accepts:
  assumes "lpValidateIntegrity lp (length lp) True cb u = (True, u')" "\<not> lp_header_backlen lp"
  shows "\<exists>es. lp_repr lp es \<and> length lp = lp_total es"
  using assms by (rule lpValidateIntegrity_sound)

text \<open>C23: Deep validation accepts every well-formed listpack that fills its allocation.\<close>

theorem lpValidateIntegrity_own:
  assumes "lp_repr lp es" "length lp = lp_total es"
  shows "lpValidateIntegrity lp (length lp) deep None u = (True, u)"
  using assms by (rule lpValidateIntegrity_complete)

section \<open>Evaluation on concrete listpacks\<close>

lemma lpDecodeBacklen_eval_more:
  "128 \<le> unat (lp ! p) \<Longrightarrow> shift + 7 \<le> 28 \<Longrightarrow> lpDecodeBacklen_loop lp p shift val =
     lpDecodeBacklen_loop lp (p - 1) (shift + 7) (val + unat (lp ! p) mod 128 * 2 ^ shift)"
  by (subst lpDecodeBacklen_loop.simps) (simp add: Let_def lp_low_bits lp_bit7)

lemma lpValidate_loop_eval:
  "lp ! p = LP_EOF \<Longrightarrow> lpValidate_loop lp n m cb (Some p) c u = (Some (Some p, c), u)"
  "lp ! p \<noteq> LP_EOF \<Longrightarrow> lpValidateNext lp (Some p) n = Some t \<Longrightarrow>
    lpValidate_loop lp n m None (Some p) c u = lpValidate_loop lp n m None t ((c + 1) mod 2 ^ 32) u"
  "lp ! p \<noteq> LP_EOF \<Longrightarrow> lpValidateNext lp (Some p) n = None \<Longrightarrow> lpValidate_loop lp n m cb (Some p) c u = (None, u)"
  by (subst lpValidate_loop.simps; simp)+

lemmas lp_eval = lpValidateNext_def lp_out_of_range_def LP_HDR_SIZE_def lp_enc_ranges lpCurrentEncodedSizeBytes_def
  lpCurrentEncodedSizeUnsafe_def lpEncodeBacklen_def lpDecodeBacklen_def lp_bit7 lp_low_bits
  LP_ENCODING_6BIT_STR_LEN_def lpGetTotalBytes_def lpGetNumElements_def LP_HDR_NUMELE_UNKNOWN_def lpBytes_def
  lpAssertValidEntry_def lp_assert_def lpDecodeBacklen_stop lpDecodeBacklen_eval_more bread_def

lemma lpInsert_run_before:
  assumes "lpEncodeGetType s = (LP_ENCODING_STRING, k)" "lpEncodeString s = e" "lpEncodeBacklen k = b"
    and "lpGetTotalBytes lp = old" "new = old + k + length b" "new < 2 ^ 32"
    and "(if new > old \<and> new > length lp then zrealloc new lp else lp) = lp1"
    and "memmove (p + k + length b) p (old - p) lp1 = lp2" "bwrite (p + k) b (bwrite p e lp2) = lp3"
    and "lpGetNumElements lp3 = m" "m \<noteq> 65535"
  shows "lpInsert lp (EleStr s) p LP_BEFORE =
    Some (Some (lpSetTotalBytes (lpSetNumElements lp3 (int m + 1)) (int new), Some p))"
  using assms(1,5,6,11)
  unfolding assms(2) [symmetric] assms(3) [symmetric] assms(4) [symmetric] assms(7) [symmetric] assms(8) [symmetric]
    assms(9) [symmetric] assms(10) [symmetric]
  by (simp add: lpInsert_def Let_def LP_HDR_NUMELE_UNKNOWN_def cong: if_cong)

lemma lpPrepend_demo: "lpInsert [9, 0, 0, 0, 1, 0, 0x80, 0x81, 0xFF] (EleStr [97]) 6 LP_BEFORE = Some (Some ([12, 0, 0, 0, 2, 0, 0x81, 97, 2, 0x80, 0x81, 0xFF], Some 6))"
proof -
  let ?lp1 = "[9, 0, 0, 0, 1, 0, 0x80, 0x81, 0xFF, uninit, uninit, uninit]"
  let ?lp3 = "[9, 0, 0, 0, 1, 0, 0x81, 97, 2, 0x80, 0x81, 0xFF]"
  have "lpInsert [9, 0, 0, 0, 1, 0, 0x80, 0x81, 0xFF] (EleStr [97]) 6 LP_BEFORE =
     Some (Some (lpSetTotalBytes (lpSetNumElements ?lp3 (int 1 + 1)) (int 12), Some 6))"
  proof (rule lpInsert_run_before)
    show "lpEncodeGetType [97] = (LP_ENCODING_STRING, 2)" by (simp add: lpEncodeGetType_def lpStringToInt64_def)
    show "lpEncodeString [97] = [0x81, 97]" by (simp add: lpEncodeString_def)
    show "lpEncodeBacklen 2 = [2]" by (simp add: lpEncodeBacklen_def)
    show "lpGetTotalBytes [9, 0, 0, 0, 1, 0, 0x80, 0x81, 0xFF] = 9" by (simp add: lpGetTotalBytes_def bread_def)
    show "(if (12 :: nat) > 9 \<and> 12 > length [9, 0, 0, 0, 1, 0, 0x80, 0x81, 0xFF :: byte] then zrealloc 12 [9, 0, 0, 0, 1, 0, 0x80, 0x81, 0xFF]
      else [9, 0, 0, 0, 1, 0, 0x80, 0x81, 0xFF]) = ?lp1" by (simp add: zrealloc_def numeral_eq_Suc)
    show "memmove (6 + 2 + length [2 :: byte]) 6 (9 - 6) ?lp1 = [9, 0, 0, 0, 1, 0, 0x80, 0x81, 0xFF, 0x80, 0x81, 0xFF]"
      by (simp add: memmove_def bwrite_def bread_def)
    show "bwrite (6 + 2) [2] (bwrite 6 [0x81, 97] [9, 0, 0, 0, 1, 0, 0x80, 0x81, 0xFF, 0x80, 0x81, 0xFF]) = ?lp3"
      by (simp add: bwrite_def)
    show "lpGetNumElements ?lp3 = 1" by (simp add: lpGetNumElements_def bread_def)
  qed simp_all
  moreover have "le_bytes 4 12 = [12, 0, 0, 0]" "le_bytes 2 2 = [2, 0]" by (simp_all add: eval_nat_numeral)
  ultimately show ?thesis by (simp add: lpSetTotalBytes_def lpSetNumElements_def bwrite_def)
qed

lemma lpLast_demo: "lpLast [12, 0, 0, 0, 2, 0, 0x81, 97, 2, 0x80, 0x81, 0xFF] = None"
proof -
  let ?lp = "[12, 0, 0, 0, 2, 0, 0x81, 97, 2, 0x80, 0x81, 0xFF]"
  have t: "lpGetTotalBytes ?lp = 12" and d: "lpDecodeBacklen ?lp 10 = 32769" by (simp_all add: lp_eval)
  have l: "length (lpEncodeBacklen 32769) = 3" by (simp add: lpEncodeBacklen_def)
  have "lpAssertValidEntry ?lp (lpBytes ?lp) 0 = None"
    by (simp add: lpAssertValidEntry_def lp_assert_def lpValidateNext_def lp_out_of_range_def LP_HDR_SIZE_def)
  then show ?thesis unfolding lpLast_def lpPrev_def t using d l by (simp add: LP_HDR_SIZE_def)
qed

text \<open>C24: The listpack \<^verbatim>\<open>09 00 00 00 01 00 80 81 ff\<close> passes deep validation, but after prepending an element its
  old first entry no longer validates and \<^verbatim>\<open>lpLast\<close> trips an assertion: the back length \<^verbatim>\<open>0x81\<close> had borrowed a
  zero byte of the header.\<close>

theorem lpValidateIntegrity_header_backlen:
  "fst (lpValidateIntegrity [9, 0, 0, 0, 1, 0, 0x80, 0x81, 0xFF] 9 True None ()) = True \<and>
   (case lpPrepend [9, 0, 0, 0, 1, 0, 0x80, 0x81, 0xFF] [ch (CHR ''a'')] of
      Some (Some (lp', _)) \<Rightarrow> \<not> fst (lpValidateIntegrity lp' (length lp') True None ()) \<and> lpLast lp' = None
    | _ \<Rightarrow> False)"
proof -
  let ?lp = "[9, 0, 0, 0, 1, 0, 0x80, 0x81, 0xFF]" and ?lp' = "[12, 0, 0, 0, 2, 0, 0x81, 97, 2, 0x80, 0x81, 0xFF]"
  have "lpValidateIntegrity ?lp 9 True None () = (True, ())"
    by (simp add: lpValidateIntegrity_def lpValidate_loop_eval lp_eval)
  moreover have "lpValidateIntegrity ?lp' (length ?lp') True None () = (False, ())"
  proof -
    have len: "length ?lp' = 12" by simp
    show ?thesis unfolding len by (simp add: lpValidateIntegrity_def lpValidate_loop_eval lp_eval)
  qed
  moreover have "lpFirst ?lp = Some (Some 6)" by (simp add: lpFirst_def lp_eval)
  then have "lpPrepend ?lp [97] = Some (Some (?lp', Some 6))"
    unfolding lpPrepend_def using lpPrepend_demo by simp
  ultimately show ?thesis using lpLast_demo by simp
qed

text \<open>C26: Deleting a range of elements by index (negative from the back, any count) never trips an assertion and
  leaves a well-formed listpack without exactly those elements; an index out of range deletes nothing.\<close>

theorem lpDeleteRange_correct:
  assumes "lp_repr lp es"
  shows "\<exists>lp'. lpDeleteRange lp index num = Some lp' \<and>
    lp_repr lp' (case lp_index (length es) index of None \<Rightarrow> es | Some i \<Rightarrow> take i es @ drop (i + num) es)"
  using assms by (rule lpDeleteRange_repr)

text \<open>C27: Deleting a batch of elements, given by their positions in increasing order, never trips an assertion and
  leaves a well-formed listpack without exactly those elements.\<close>

theorem lpBatchDelete_correct:
  assumes "lp_repr lp es" "sorted_wrt (<) ks" "\<forall>k \<in> set ks. k < length es"
  shows "\<exists>lp'. lpBatchDelete lp (map (pos_of es) ks) = Some lp' \<and> lp_repr lp' (nths es (- set ks))"
  using assms by (rule lpBatchDelete_repr)

text \<open>C28: Merging two well-formed listpacks gives a well-formed listpack with the elements of the first followed by
  those of the second, whichever of the two allocations is reused; the other argument becomes \<^verbatim>\<open>NULL\<close>.\<close>

theorem lpMerge_correct:
  assumes "lp_repr first xs" "lp_repr second ys" "lp_total (xs @ ys) < 2 ^ 32 - 1"
  shows "\<exists>t. lpMerge (Some first) (Some second) False =
      Some (Some (t, if lpBytes first \<ge> lpBytes second then (Some t, None) else (None, Some t)))
    \<and> lp_repr t (xs @ ys)"
  using assms by (rule lpMerge_repr)

text \<open>C29: Encoding a string and decoding it gives the string back, whatever follows it, integers included; the
  encoded size read from the first bytes is the size written; and comparing the encoded element with any
  string decides equality with the original.\<close>

theorem lp_element_roundtrip:
  assumes "length s + 10 < 2 ^ 32"
  shows "lpGet_intbuf (lp_encode s @ rest) = s \<and> lpCurrentEncodedSizeUnsafe (lp_encode s @ rest) = length (lp_encode s)
    \<and> snd (lpEncodeGetType s) = length (lp_encode s) \<and> (lpCompare (lp_encode s @ rest) t \<longleftrightarrow> s = t)"
  using assms lpGet_encode [of s rest] lpSize_encode(1) [of s rest] lpCompare_encode [of s rest t] snd_lpEncodeGetType
  by simp

section \<open>Witnesses\<close>

text \<open>A listpack with the elements \<open>5\<close> and \<open>ab\<close>.\<close>

definition demo_es :: "lp_entry list" where
  "demo_es = [canon [5], canon [0x82, 97, 98]]"

definition demo_lp :: bytes where
  "demo_lp = [13, 0, 0, 0, 2, 0, 5, 1, 0x82, 97, 98, 3, 0xFF]"

lemma demo_layout: "layout demo_es = [5, 1, 0x82, 97, 98, 3]" "length demo_es = 2" "lp_total demo_es = 13"
  by (simp_all add: demo_es_def canon_def lpEncodeBacklen_def lp_total_def)

lemma demo_encode: "lpEncodeIntegerGetType 5 = [5]" "lp_encode [97, 98] = [0x82, 97, 98]"
proof -
  have "lpStringToInt64 [97, 98] = None" by (simp add: lpStringToInt64_def LONG_STR_SIZE_def)
  then show "lp_encode [97, 98] = [0x82, 97, 98]"
    by (simp add: lp_encode_def lpEncodeGetType_def lpEncodeString_def Let_def)
qed (simp add: lpEncodeIntegerGetType_def)

lemma demo_repr: "lp_repr demo_lp demo_es"
proof (rule lp_reprI)
  show "demo_lp = le_bytes 4 (int (7 + length (layout demo_es))) @ le_bytes 2 2 @ layout demo_es @ LP_EOF # []"
    unfolding demo_layout(1) by (simp add: demo_lp_def LP_EOF_def eval_nat_numeral)
  show "entry_ok eb" if "eb \<in> set demo_es" for eb
    using that raw_ok_integer [of 5] raw_ok_encode [of "[97, 98]"] entry_ok_canon
    by (auto simp: demo_es_def demo_encode in_i64_def)
qed (simp_all add: demo_layout)

lemma demo_vals: "map entry_val demo_es = [[53], [97, 98]]" "lp_holds demo_lp [[53], [97, 98]]"
proof -
  have "lp_encode [53] = lpEncodeIntegerGetType 5"
  proof -
    have "int_dec 5 = [53]" by (simp add: int_dec_def nat_dec_small)
    then show ?thesis using lp_encode_int_dec [of 5] by (simp add: in_i64_def)
  qed
  then show v: "map entry_val demo_es = [[53], [97, 98]]"
    using entry_val_canon [of "[53]"] entry_val_canon [of "[97, 98]"] by (simp add: demo_es_def demo_encode)
  show "lp_holds demo_lp [[53], [97, 98]]" unfolding lp_holds_def using v demo_repr by (intro exI [of _ demo_es] conjI)
qed

lemma demo_pos: "pos_of demo_es 0 = 6" "pos_of demo_es 1 = 8" "pos_of demo_es (Suc 0) = 8"
  by (simp_all add: demo_es_def canon_def lpEncodeBacklen_def lp_pos_def)

theorem lpInsert_correct_witness:
  "\<exists>lp' es'. lpInsertString demo_lp [99] 6 LP_AFTER = Some (Some (lp', Some 8)) \<and> lp_repr lp' es' \<and>
    map entry_val es' = [[53], [99], [97, 98]]"
proof -
  let ?es' = "lp_spliced demo_es (0 + 1) [99] (0 + 1)"
  have "lp_encode [99] = [0x81, 99]"
    by (simp add: lp_encode_def lpEncodeGetType_def lpStringToInt64_def LONG_STR_SIZE_def lpEncodeString_def)
  then have "lp_total ?es' < 2 ^ 32"
    by (simp add: lp_spliced_def demo_es_def canon_def lpEncodeBacklen_def lp_total_def)
  then have "\<exists>lp'. lpInsertString demo_lp [99] 6 LP_AFTER = Some (Some (lp', Some 8)) \<and> lp_repr lp' ?es' \<and>
      map entry_val ?es' = [[53], [99], [97, 98]]"
    using lpInsert_correct [OF demo_repr, of 0 "[99]" ?es' LP_AFTER] demo_vals(1) demo_pos demo_layout(2) by simp
  then show ?thesis by (elim exE) (rule exI, rule exI)
qed

theorem lpDelete_correct_witness:
  "\<exists>lp'. lpDelete demo_lp 8 = Some (Some (lp', None)) \<and> lp_repr lp' (take 1 demo_es)"
  using lpDelete_correct [OF demo_repr, of 1] demo_pos demo_layout by simp

theorem lpSeek_correct_witness:
  "\<exists>p. lpSeek demo_lp (- 1) = Some (Some p) \<and> lpGet_intbuf (drop p demo_lp) = [97, 98]"
proof -
  have "lp_index (length [[53], [97, 98 :: byte]]) (- 1) = Some 1" by (simp add: lp_index_def)
  with lpSeek_correct [OF demo_vals(2), of "- 1"] obtain r p where
    "lpSeek demo_lp (- 1) = Some r" "r = Some p" "lpGet_intbuf (drop p demo_lp) = [[53], [97, 98]] ! 1"
    by (simp only: option.case) blast
  then show ?thesis by simp
qed

theorem lpFind_correct_witness:
  "lpFind demo_lp 6 [97, 98] 0 = Some (Some 8)"
  using lpFind_correct [OF demo_repr, of 0 "[97, 98]" 0] demo_pos demo_layout demo_vals by simp

theorem lpValidateIntegrity_accepts_witness:
  "\<exists>es. lp_repr demo_lp es \<and> length demo_lp = lp_total es"
proof (rule lpValidateIntegrity_accepts)
  show "lpValidateIntegrity demo_lp (length demo_lp) True None () = (True, ())"
    by (rule lpValidateIntegrity_complete [OF demo_repr]) (simp add: demo_layout demo_lp_def)
  show "\<not> lp_header_backlen demo_lp" by (simp add: lp_header_backlen_def demo_lp_def bread_def)
qed

theorem lpValidateIntegrity_own_witness:
  "lpValidateIntegrity demo_lp (length demo_lp) True None () = (True, ())"
  by (rule lpValidateIntegrity_own [OF demo_repr]) (simp add: demo_layout demo_lp_def)

theorem lpDeleteRange_correct_witness:
  "\<exists>lp'. lpDeleteRange demo_lp (- 2) 1 = Some lp' \<and> lp_repr lp' (drop 1 demo_es)"
  using lpDeleteRange_correct [OF demo_repr, of "- 2" 1] by (simp add: lp_index_def demo_layout)

theorem lpBatchDelete_correct_witness:
  "\<exists>lp'. lpBatchDelete demo_lp [6, 8] = Some lp' \<and> lp_repr lp' []"
proof -
  have "nths demo_es (- set [0, 1]) = []" by (simp add: demo_es_def nths_Cons)
  then show ?thesis
    using lpBatchDelete_correct [OF demo_repr, of "[0, 1]"] demo_pos demo_layout by simp
qed

theorem lpMerge_correct_witness:
  "\<exists>t. lpMerge (Some demo_lp) (Some demo_lp) False = Some (Some (t, Some t, None)) \<and> lp_repr t (demo_es @ demo_es)"
proof -
  have "lp_total (demo_es @ demo_es) < 2 ^ 32 - 1" by (simp add: lp_total_def demo_layout)
  from lpMerge_correct [OF demo_repr demo_repr this] show ?thesis by simp
qed

theorem lp_element_roundtrip_witness:
  "lpGet_intbuf (lp_encode [97, 98] @ [3]) = [97, 98] \<and> lpCompare (lp_encode [97, 98] @ [3]) [97, 98]"
  using lp_element_roundtrip [of "[97, 98]" "[3]" "[97, 98]"] by simp

end
