(* ===== verification/Dict.thy ===== *)
theory Dict
  imports Redis_Prelude "HOL-Library.Monad_Syntax"
begin

text \<open>
  The hash table of \<^verbatim>\<open>dict.c\<close>: two power-of-two tables of chained entries with incremental
  rehashing. The state is the C struct: \<^verbatim>\<open>ht_table[i]\<close>, \<^verbatim>\<open>ht_used[i]\<close> and \<^verbatim>\<open>ht_size_exp[i]\<close> are the
  three fields of a table record, and \<^verbatim>\<open>NULL\<close> is the empty list (an allocated table has at least four
  buckets). A chain is private to its bucket, so it is the list of its entries, and a
  \<^verbatim>\<open>dictEntry *\<close> returned to a caller is the place of the entry: table, bucket, position in the chain.
  The caller's callbacks (hash, compare, duplicate, expansion policy) are fields of the type record;
  keys and values are abstract. A failed \<^verbatim>\<open>assert\<close>, a \<^verbatim>\<open>NULL\<close> dereference and an access outside a
  table are \<^term>\<open>None\<close>. Functions that release entries return the entries whose destructors run.
\<close>

section \<open>Data\<close>

datatype dictResizeEnable = DICT_RESIZE_ENABLE | DICT_RESIZE_AVOID | DICT_RESIZE_FORBID

datatype dict_status = DICT_OK | DICT_ERR

text \<open>
  The three kinds of entry the low pointer bits distinguish: a bare key, an entry without a value,
  and an entry with a value, unset until the first \<^verbatim>\<open>dictSetVal\<close>.
\<close>

datatype ('k, 'v) dictEntry =
    EntryKey (entry_key: 'k)
  | EntryNoValue (entry_key: 'k)
  | EntryNormal (entry_key: 'k) (entry_val: "'v option")

type_synonym ('k, 'v) chain = "('k, 'v) dictEntry list"

text \<open>
  \<open>expandAllowed\<close> gets the requested bytes and the two operands of the load factor; \<open>keyLsb\<close> is the
  least significant bit of the key pointer, which \<^verbatim>\<open>entryIsKey(key)\<close> tests.
\<close>

record ('k, 'v) dictType =
  hashFunction :: "'k \<Rightarrow> 64 word"
  keyDup :: "('k \<Rightarrow> 'k) option"
  valDup :: "('v \<Rightarrow> 'v) option"
  keyCompare :: "('k \<Rightarrow> 'k \<Rightarrow> bool) option"
  expandAllowed :: "(nat \<Rightarrow> nat \<Rightarrow> nat \<Rightarrow> bool) option"
  no_value :: bool
  keys_are_odd :: bool
  keyLsb :: "'k \<Rightarrow> bool"

record ('k, 'v) dictht =
  ht_table :: "('k, 'v) chain list"
  ht_used :: nat
  ht_size_exp :: int

record ('k, 'v) dict =
  dtype :: "('k, 'v) dictType"
  ht0 :: "('k, 'v) dictht"
  ht1 :: "('k, 'v) dictht"
  rehashidx :: int
  pauserehash :: int

type_synonym entry_ref = "nat \<times> nat \<times> nat"

definition ht :: "('k, 'v) dict \<Rightarrow> nat \<Rightarrow> ('k, 'v) dictht" where
  "ht d i = (if i = 0 then ht0 d else ht1 d)"

definition set_ht :: "nat \<Rightarrow> ('k, 'v) dictht \<Rightarrow> ('k, 'v) dict \<Rightarrow> ('k, 'v) dict" where
  "set_ht i t d = (if i = 0 then d\<lparr>ht0 := t\<rparr> else d\<lparr>ht1 := t\<rparr>)"

definition tbl_get :: "'a list \<Rightarrow> nat \<Rightarrow> 'a option" where
  "tbl_get xs i = (if i < length xs then Some (xs ! i) else None)"

definition DICTHT_SIZE :: "int \<Rightarrow> nat" where
  "DICTHT_SIZE e = (if e = -1 then 0 else 2 ^ nat e)"

definition DICTHT_SIZE_MASK :: "int \<Rightarrow> 64 word" where
  "DICTHT_SIZE_MASK e = (if e = -1 then 0 else word_of_nat (DICTHT_SIZE e) - 1)"

definition dictSlots :: "('k, 'v) dict \<Rightarrow> nat" where
  "dictSlots d = DICTHT_SIZE (ht_size_exp (ht0 d)) + DICTHT_SIZE (ht_size_exp (ht1 d))"

definition dictSize :: "('k, 'v) dict \<Rightarrow> nat" where
  "dictSize d = ht_used (ht0 d) + ht_used (ht1 d)"

definition dictIsRehashing :: "('k, 'v) dict \<Rightarrow> bool" where
  "dictIsRehashing d \<longleftrightarrow> rehashidx d \<noteq> -1"

definition dictPauseRehashing :: "('k, 'v) dict \<Rightarrow> ('k, 'v) dict" where
  "dictPauseRehashing d = d\<lparr>pauserehash := pauserehash d + 1\<rparr>"

definition dictResumeRehashing :: "('k, 'v) dict \<Rightarrow> ('k, 'v) dict" where
  "dictResumeRehashing d = d\<lparr>pauserehash := pauserehash d - 1\<rparr>"

definition DICT_HT_INITIAL_EXP :: nat where
  "DICT_HT_INITIAL_EXP = 2"

definition DICT_HT_INITIAL_SIZE :: nat where
  "DICT_HT_INITIAL_SIZE = 2 ^ DICT_HT_INITIAL_EXP"

definition dict_force_resize_ratio :: nat where
  "dict_force_resize_ratio = 5"

section \<open>Entries\<close>

definition entryIsKey :: "('k, 'v) dictEntry \<Rightarrow> bool" where
  "entryIsKey de = (case de of EntryKey _ \<Rightarrow> True | _ \<Rightarrow> False)"

definition entryIsNormal :: "('k, 'v) dictEntry \<Rightarrow> bool" where
  "entryIsNormal de = (case de of EntryNormal _ _ \<Rightarrow> True | _ \<Rightarrow> False)"

definition entryIsNoValue :: "('k, 'v) dictEntry \<Rightarrow> bool" where
  "entryIsNoValue de = (case de of EntryNoValue _ \<Rightarrow> True | _ \<Rightarrow> False)"

definition entryHasValue :: "('k, 'v) dictEntry \<Rightarrow> bool" where
  "entryHasValue de = entryIsNormal de"

definition dictGetKey :: "('k, 'v) dictEntry \<Rightarrow> 'k" where
  "dictGetKey de = (case de of EntryKey k \<Rightarrow> k | EntryNoValue k \<Rightarrow> k | EntryNormal k _ \<Rightarrow> k)"

definition dictGetVal :: "('k, 'v) dictEntry \<Rightarrow> 'v option" where
  "dictGetVal de = (case de of EntryNormal _ v \<Rightarrow> v | _ \<Rightarrow> None)"

definition dictHashKey :: "('k, 'v) dict \<Rightarrow> 'k \<Rightarrow> 64 word" where
  "dictHashKey d key = hashFunction (dtype d) key"

definition dictCompareKeys :: "('k, 'v) dictType \<Rightarrow> 'k \<Rightarrow> 'k \<Rightarrow> bool" where
  "dictCompareKeys T key1 key2 =
     (case keyCompare T of Some f \<Rightarrow> f key1 key2 | None \<Rightarrow> key1 = key2)"

text \<open>The test of every search loop: \<^verbatim>\<open>key == he_key || dictCompareKeys(d, key, he_key)\<close>.\<close>

definition key_match :: "('k, 'v) dictType \<Rightarrow> 'k \<Rightarrow> 'k \<Rightarrow> bool" where
  "key_match T key he_key \<longleftrightarrow> key = he_key \<or> dictCompareKeys T key he_key"

section \<open>Creation and expansion\<close>

definition dictReset :: "('k, 'v) dictht" where
  "dictReset = \<lparr>ht_table = [], ht_used = 0, ht_size_exp = -1\<rparr>"

definition dictCreate :: "('k, 'v) dictType \<Rightarrow> ('k, 'v) dict" where
  "dictCreate T = \<lparr>dtype = T, ht0 = dictReset, ht1 = dictReset, rehashidx = -1, pauserehash = 0\<rparr>"

function dictNextExp_loop :: "nat \<Rightarrow> nat \<Rightarrow> nat" where
  "dictNextExp_loop sz e = (if sz \<le> 2 ^ e then e else dictNextExp_loop sz (e + 1))"
  by pat_completeness auto
termination
proof (relation "measure (\<lambda>(sz, e). sz - e)")
  fix sz e :: nat
  assume "\<not> sz \<le> 2 ^ e"
  with less_exp [of e] have "e < sz" by linarith
  then show "((sz, e + 1), sz, e) \<in> measure (\<lambda>(sz, e). sz - e)" by simp
qed simp

declare dictNextExp_loop.simps [simp del]

definition dictNextExp :: "nat \<Rightarrow> nat" where
  "dictNextExp sz =
     (if sz \<ge> 2 ^ 63 - 1 then 63 else dictNextExp_loop sz DICT_HT_INITIAL_EXP)"

text \<open>
  \<^verbatim>\<open>_dictExpand\<close>: \<open>alloc = None\<close> is a null \<^verbatim>\<open>malloc_failed\<close> (the allocation aborts the process
  instead of failing); \<open>Some f\<close> is \<^verbatim>\<open>ztrycalloc\<close>, which fails on the sizes where \<open>f\<close> does not hold.
  The middle component of the result is \<^verbatim>\<open>*malloc_failed\<close>.
\<close>

definition dictExpand_alloc ::
  "('k, 'v) dict \<Rightarrow> nat \<Rightarrow> (nat \<Rightarrow> bool) option \<Rightarrow> dict_status \<times> bool \<times> ('k, 'v) dict" where
  "dictExpand_alloc d sz alloc =
     (if dictIsRehashing d \<or> ht_used (ht0 d) > sz then (DICT_ERR, False, d)
      else
        let new_exp = dictNextExp sz;
            newsize = 2 ^ new_exp :: nat
        in if newsize < sz \<or> (newsize * 8) mod 2 ^ 64 < newsize then (DICT_ERR, False, d)
           else if int new_exp = ht_size_exp (ht0 d) then (DICT_ERR, False, d)
           else if (case alloc of None \<Rightarrow> False | Some f \<Rightarrow> \<not> f (newsize * 8))
             then (DICT_ERR, True, d)
           else
             let t = \<lparr>ht_table = replicate newsize [], ht_used = 0, ht_size_exp = int new_exp\<rparr>
             in if ht_table (ht0 d) = [] then (DICT_OK, False, d\<lparr>ht0 := t\<rparr>)
                else (DICT_OK, False, d\<lparr>ht1 := t, rehashidx := 0\<rparr>))"

definition dictExpand :: "('k, 'v) dict \<Rightarrow> nat \<Rightarrow> dict_status \<times> ('k, 'v) dict" where
  "dictExpand d sz = (case dictExpand_alloc d sz None of (r, _, d) \<Rightarrow> (r, d))"

definition dictTryExpand ::
  "(nat \<Rightarrow> bool) \<Rightarrow> ('k, 'v) dict \<Rightarrow> nat \<Rightarrow> dict_status \<times> ('k, 'v) dict" where
  "dictTryExpand alloc_ok d sz =
     (case dictExpand_alloc d sz (Some alloc_ok) of
        (_, malloc_failed, d) \<Rightarrow> (if malloc_failed then DICT_ERR else DICT_OK, d))"

definition dictResize ::
  "dictResizeEnable \<Rightarrow> ('k, 'v) dict \<Rightarrow> dict_status \<times> ('k, 'v) dict" where
  "dictResize cr d =
     (if cr \<noteq> DICT_RESIZE_ENABLE \<or> dictIsRehashing d then (DICT_ERR, d)
      else
        let minimal = ht_used (ht0 d);
            minimal = (if minimal < DICT_HT_INITIAL_SIZE then DICT_HT_INITIAL_SIZE else minimal)
        in dictExpand d minimal)"

definition dictTypeExpandAllowed :: "('k, 'v) dict \<Rightarrow> bool" where
  "dictTypeExpandAllowed d =
     (case expandAllowed (dtype d) of
        None \<Rightarrow> True
      | Some f \<Rightarrow> f (DICTHT_SIZE (int (dictNextExp (ht_used (ht0 d) + 1))) * 8)
                   (ht_used (ht0 d)) (DICTHT_SIZE (ht_size_exp (ht0 d))))"

definition dictExpandIfNeeded ::
  "dictResizeEnable \<Rightarrow> ('k, 'v) dict \<Rightarrow> dict_status \<times> ('k, 'v) dict" where
  "dictExpandIfNeeded cr d =
     (let used = ht_used (ht0 d);
          sz = DICTHT_SIZE (ht_size_exp (ht0 d))
      in if dictIsRehashing d then (DICT_OK, d)
         else if sz = 0 then dictExpand d DICT_HT_INITIAL_SIZE
         else if \<not> dictTypeExpandAllowed d then (DICT_OK, d)
         else if (cr = DICT_RESIZE_ENABLE \<and> used \<ge> sz) \<or>
                 (cr \<noteq> DICT_RESIZE_FORBID \<and> used div sz > dict_force_resize_ratio)
           then dictExpand d (used + 1)
         else (DICT_OK, d))"

section \<open>Incremental rehashing\<close>

text \<open>
  The index in the new table: from the hash when growing, from the old index when shrinking.
\<close>

definition dictRehash_idx :: "('k, 'v) dict \<Rightarrow> 'k \<Rightarrow> nat" where
  "dictRehash_idx d key =
     (if ht_size_exp (ht1 d) > ht_size_exp (ht0 d)
      then unat (dictHashKey d key AND DICTHT_SIZE_MASK (ht_size_exp (ht1 d)))
      else unat (word_of_int (rehashidx d) AND DICTHT_SIZE_MASK (ht_size_exp (ht1 d))))"

text \<open>
  The form an entry takes in the new bucket \<open>b\<close>: a bare key, a key-only entry, or itself.
\<close>

definition dictRehash_link ::
  "('k, 'v) dictType \<Rightarrow> ('k, 'v) chain \<Rightarrow> ('k, 'v) dictEntry \<Rightarrow> ('k, 'v) dictEntry option" where
  "dictRehash_link T b de =
     (let key = dictGetKey de in
      if no_value T then
        (if keys_are_odd T \<and> b = [] then
           (if keyLsb T key then Some (EntryKey key) else None)
         else if entryIsKey de then Some (EntryNoValue key)
         else if entryIsNoValue de then Some de
         else None)
      else if entryIsKey de then None else Some de)"

text \<open>The body of the inner loop of \<^verbatim>\<open>dictRehash\<close>: one entry moves to the head of its new bucket.\<close>

definition dictRehash_entry ::
  "('k, 'v) dict \<Rightarrow> ('k, 'v) dictEntry \<Rightarrow> ('k, 'v) dict option" where
  "dictRehash_entry d de =
     (let t0 = ht0 d; t1 = ht1 d; h = dictRehash_idx d (dictGetKey de)
      in do {
        b \<leftarrow> tbl_get (ht_table t1) h;
        de' \<leftarrow> dictRehash_link (dtype d) b de;
        Some (d\<lparr>ht0 := t0\<lparr>ht_used := ht_used t0 - 1\<rparr>,
                ht1 := t1\<lparr>ht_table := (ht_table t1)[h := de' # b], ht_used := ht_used t1 + 1\<rparr>\<rparr>)
      })"

fun dictRehash_bucket ::
  "('k, 'v) chain \<Rightarrow> ('k, 'v) dict \<Rightarrow> ('k, 'v) dict option" where
  "dictRehash_bucket [] d = Some d"
| "dictRehash_bucket (de # des) d =
     do { d \<leftarrow> dictRehash_entry d de; dictRehash_bucket des d }"

text \<open>
  \<^verbatim>\<open>while (d->ht_table[0][d->rehashidx] == NULL)\<close>: the new index, the empty visits left, and whether
  the visits ran out.
\<close>

function dictRehash_skip ::
  "('k, 'v) chain list \<Rightarrow> nat \<Rightarrow> int \<Rightarrow> (nat \<times> int \<times> bool) option" where
  "dictRehash_skip tbl idx empty_visits =
     (if idx < length tbl then
        if tbl ! idx = [] then
          if empty_visits - 1 = 0 then Some (idx + 1, 0, True)
          else dictRehash_skip tbl (idx + 1) (empty_visits - 1)
        else Some (idx, empty_visits, False)
      else None)"
  by pat_completeness auto
termination by (relation "measure (\<lambda>(tbl, idx, _). length tbl - idx)") auto

declare dictRehash_skip.simps [simp del]

text \<open>The outer loop: the flag says that it returned from inside, out of empty visits.\<close>

fun dictRehash_loop ::
  "nat \<Rightarrow> int \<Rightarrow> ('k, 'v) dict \<Rightarrow> (bool \<times> ('k, 'v) dict) option" where
  "dictRehash_loop 0 empty_visits d = Some (False, d)"
| "dictRehash_loop (Suc n) empty_visits d =
     (if ht_used (ht0 d) = 0 then Some (False, d)
      else if \<not> int (DICTHT_SIZE (ht_size_exp (ht0 d))) > rehashidx d then None
      else do {
        (idx, empty_visits, out) \<leftarrow>
          dictRehash_skip (ht_table (ht0 d)) (nat (rehashidx d)) empty_visits;
        if out then Some (True, d\<lparr>rehashidx := int idx\<rparr>)
        else do {
          d \<leftarrow> dictRehash_bucket (ht_table (ht0 d) ! idx) (d\<lparr>rehashidx := int idx\<rparr>);
          dictRehash_loop n empty_visits
            (d\<lparr>ht0 := (ht0 d)\<lparr>ht_table := (ht_table (ht0 d))[idx := []]\<rparr>,
               rehashidx := int idx + 1\<rparr>)
        }
      })"

text \<open>\<^verbatim>\<open>dictRehash\<close>: the flag is its return value, true when there are still keys to move.\<close>

definition dictRehash ::
  "dictResizeEnable \<Rightarrow> ('k, 'v) dict \<Rightarrow> nat \<Rightarrow> (bool \<times> ('k, 'v) dict) option" where
  "dictRehash cr d n =
     (let s0 = DICTHT_SIZE (ht_size_exp (ht0 d));
          s1 = DICTHT_SIZE (ht_size_exp (ht1 d))
      in if cr = DICT_RESIZE_FORBID \<or> \<not> dictIsRehashing d then Some (False, d)
         else if cr = DICT_RESIZE_AVOID \<and>
                 ((s1 > s0 \<and> s1 div s0 < dict_force_resize_ratio) \<or>
                  (s1 < s0 \<and> s0 div s1 < dict_force_resize_ratio)) then Some (False, d)
         else do {
           (out, d) \<leftarrow> dictRehash_loop n (int n * 10) d;
           if out then Some (True, d)
           else if ht_used (ht0 d) = 0
             then Some (False, d\<lparr>ht0 := ht1 d, ht1 := dictReset, rehashidx := -1\<rparr>)
           else Some (True, d)
         })"

definition dictRehashStep ::
  "dictResizeEnable \<Rightarrow> ('k, 'v) dict \<Rightarrow> ('k, 'v) dict option" where
  "dictRehashStep cr d =
     (if pauserehash d = 0 then map_option snd (dictRehash cr d 1) else Some d)"

text \<open>
  \<^verbatim>\<open>dictRehashMilliseconds\<close>: \<open>clock i\<close> is the \<open>i\<close>-th reading of the system clock. The loop is not
  bounded by a counter, so it is a partial function of the state.
\<close>

partial_function (option) dictRehashMilliseconds_loop ::
  "dictResizeEnable \<Rightarrow> (nat \<Rightarrow> int) \<Rightarrow> int \<Rightarrow> nat \<Rightarrow> nat \<Rightarrow> ('k, 'v) dict \<Rightarrow>
   (nat \<times> ('k, 'v) dict) option" where
  "dictRehashMilliseconds_loop cr clock ms i rehashes d =
     do {
       (more, d) \<leftarrow> dictRehash cr d 100;
       if more then
         if clock i - clock 0 > ms then Some (rehashes + 100, d)
         else dictRehashMilliseconds_loop cr clock ms (i + 1) (rehashes + 100) d
       else Some (rehashes, d)
     }"

definition dictRehashMilliseconds ::
  "dictResizeEnable \<Rightarrow> (nat \<Rightarrow> int) \<Rightarrow> ('k, 'v) dict \<Rightarrow> int \<Rightarrow>
   (nat \<times> ('k, 'v) dict) option" where
  "dictRehashMilliseconds cr clock d ms =
     (if pauserehash d > 0 then Some (0, d)
      else dictRehashMilliseconds_loop cr clock ms 1 0 d)"

section \<open>Lookup\<close>

definition bucket_idx :: "64 word \<Rightarrow> ('k, 'v) dictht \<Rightarrow> nat" where
  "bucket_idx h t = unat (h AND DICTHT_SIZE_MASK (ht_size_exp t))"

text \<open>The walk along a chain: the position of the first matching entry.\<close>

fun chain_find :: "('k, 'v) dictType \<Rightarrow> 'k \<Rightarrow> ('k, 'v) chain \<Rightarrow> nat option" where
  "chain_find T key [] = None"
| "chain_find T key (he # hes) =
     (if key_match T key (dictGetKey he) then Some 0
      else map_option Suc (chain_find T key hes))"

text \<open>
  The loop over the tables that \<^verbatim>\<open>dictFind\<close>, \<^verbatim>\<open>dictGenericDelete\<close>, \<^verbatim>\<open>dictTwoPhaseUnlinkFind\<close> and
  \<^verbatim>\<open>dictFindPositionForInsert\<close> share: the second table is searched only while rehashing.
\<close>

definition dict_search :: "('k, 'v) dict \<Rightarrow> 64 word \<Rightarrow> 'k \<Rightarrow> entry_ref option option" where
  "dict_search d h key =
     do {
       let i0 = bucket_idx h (ht0 d);
       b0 \<leftarrow> tbl_get (ht_table (ht0 d)) i0;
       case chain_find (dtype d) key b0 of
         Some p \<Rightarrow> Some (Some (0, i0, p))
       | None \<Rightarrow>
           if \<not> dictIsRehashing d then Some None
           else do {
             let i1 = bucket_idx h (ht1 d);
             b1 \<leftarrow> tbl_get (ht_table (ht1 d)) i1;
             case chain_find (dtype d) key b1 of
               Some p \<Rightarrow> Some (Some (1, i1, p))
             | None \<Rightarrow> Some None
           }
     }"

definition dictFind ::
  "dictResizeEnable \<Rightarrow> ('k, 'v) dict \<Rightarrow> 'k \<Rightarrow> (entry_ref option \<times> ('k, 'v) dict) option" where
  "dictFind cr d key =
     (if dictSize d = 0 then Some (None, d)
      else do {
        d \<leftarrow> (if dictIsRehashing d then dictRehashStep cr d else Some d);
        r \<leftarrow> dict_search d (dictHashKey d key) key;
        Some (r, d)
      })"

text \<open>Reading the entry a reference denotes.\<close>

definition entry_at :: "('k, 'v) dict \<Rightarrow> entry_ref \<Rightarrow> ('k, 'v) dictEntry option" where
  "entry_at d r = (case r of (i, idx, p) \<Rightarrow>
     do { b \<leftarrow> tbl_get (ht_table (ht d i)) idx; tbl_get b p })"

definition dictFetchValue ::
  "dictResizeEnable \<Rightarrow> ('k, 'v) dict \<Rightarrow> 'k \<Rightarrow> ('v option \<times> ('k, 'v) dict) option" where
  "dictFetchValue cr d key =
     do {
       (he, d) \<leftarrow> dictFind cr d key;
       case he of
         None \<Rightarrow> Some (None, d)
       | Some r \<Rightarrow> do { de \<leftarrow> entry_at d r;
                        v \<leftarrow> dictGetVal de;
                        Some (Some v, d) }
     }"

section \<open>Insertion\<close>

text \<open>
  \<^verbatim>\<open>dictFindPositionForInsert\<close>: the bucket to insert in (table and index) or \<^verbatim>\<open>NULL\<close>, and \<^verbatim>\<open>*existing\<close>.
\<close>

definition dictFindPositionForInsert ::
  "dictResizeEnable \<Rightarrow> ('k, 'v) dict \<Rightarrow> 'k \<Rightarrow>
   ((nat \<times> nat) option \<times> entry_ref option \<times> ('k, 'v) dict) option" where
  "dictFindPositionForInsert cr d key =
     (let h = dictHashKey d key in
      do {
        d \<leftarrow> (if dictIsRehashing d then dictRehashStep cr d else Some d);
        let (st, d) = dictExpandIfNeeded cr d;
        if st = DICT_ERR then Some (None, None, d)
        else do {
          r \<leftarrow> dict_search d h key;
          case r of
            Some existing \<Rightarrow> Some (None, Some existing, d)
          | None \<Rightarrow>
              let i = (if dictIsRehashing d then 1 else 0)
              in Some (Some (i, bucket_idx h (ht d i)), None, d)
        }
      })"

definition dictInsertAtPosition ::
  "('k, 'v) dict \<Rightarrow> 'k \<Rightarrow> nat \<times> nat \<Rightarrow> (entry_ref \<times> ('k, 'v) dict) option" where
  "dictInsertAtPosition d key position =
     (let T = dtype d;
          htidx = (if dictIsRehashing d then 1 else 0);
          t = ht d htidx;
          (i, idx) = position
      in if \<not> (i = htidx \<and> idx \<le> unat (DICTHT_SIZE_MASK (ht_size_exp t))) then None
         else do {
           b \<leftarrow> tbl_get (ht_table t) idx;
           entry \<leftarrow> (if no_value T then
                      (if keys_are_odd T \<and> b = [] then
                         (if keyLsb T key then Some (EntryKey key) else None)
                       else Some (EntryNoValue key))
                    else Some (EntryNormal key None));
           Some ((htidx, idx, 0),
                 set_ht htidx (t\<lparr>ht_table := (ht_table t)[idx := entry # b],
                                 ht_used := ht_used t + 1\<rparr>) d)
         })"

definition dictAddRaw ::
  "dictResizeEnable \<Rightarrow> ('k, 'v) dict \<Rightarrow> 'k \<Rightarrow>
   (entry_ref option \<times> entry_ref option \<times> ('k, 'v) dict) option" where
  "dictAddRaw cr d key =
     do {
       (position, existing, d) \<leftarrow> dictFindPositionForInsert cr d key;
       case position of
         None \<Rightarrow> Some (None, existing, d)
       | Some pos \<Rightarrow>
           let key = (case keyDup (dtype d) of Some f \<Rightarrow> f key | None \<Rightarrow> key)
           in do {
             (entry, d) \<leftarrow> dictInsertAtPosition d key pos;
             Some (Some entry, existing, d)
           }
     }"

definition dictSetVal ::
  "('k, 'v) dict \<Rightarrow> entry_ref \<Rightarrow> 'v \<Rightarrow> ('k, 'v) dict option" where
  "dictSetVal d de val =
     (case de of (i, idx, p) \<Rightarrow>
        do {
          e \<leftarrow> entry_at d de;
          if \<not> entryHasValue e then None
          else
            let t = ht d i;
                v = (case valDup (dtype d) of Some f \<Rightarrow> f val | None \<Rightarrow> val);
                e = EntryNormal (dictGetKey e) (Some v)
            in Some (set_ht i (t\<lparr>ht_table :=
                 (ht_table t)[idx := ((ht_table t) ! idx)[p := e]]\<rparr>) d)
        })"

definition dictAdd ::
  "dictResizeEnable \<Rightarrow> ('k, 'v) dict \<Rightarrow> 'k \<Rightarrow> 'v \<Rightarrow> (dict_status \<times> ('k, 'v) dict) option" where
  "dictAdd cr d key val =
     do {
       (entry, _, d) \<leftarrow> dictAddRaw cr d key;
       case entry of
         None \<Rightarrow> Some (DICT_ERR, d)
       | Some de \<Rightarrow>
           if \<not> no_value (dtype d) then do { d \<leftarrow> dictSetVal d de val; Some (DICT_OK, d) }
           else Some (DICT_OK, d)
     }"

text \<open>
  \<^verbatim>\<open>dictReplace\<close>: whether the key was added, and the old value handed to the destructor. The failed
  expansion, where \<^verbatim>\<open>existing\<close> stays \<^verbatim>\<open>NULL\<close>, dereferences it.
\<close>

definition dictReplace ::
  "dictResizeEnable \<Rightarrow> ('k, 'v) dict \<Rightarrow> 'k \<Rightarrow> 'v \<Rightarrow>
   (bool \<times> 'v option \<times> ('k, 'v) dict) option" where
  "dictReplace cr d key val =
     do {
       (entry, existing, d) \<leftarrow> dictAddRaw cr d key;
       case entry of
         Some de \<Rightarrow> do { d \<leftarrow> dictSetVal d de val; Some (True, None, d) }
       | None \<Rightarrow>
           do {
             ex \<leftarrow> existing;
             e \<leftarrow> entry_at d ex;
             oldval \<leftarrow> dictGetVal e;
             d \<leftarrow> dictSetVal d ex val;
             Some (False, Some oldval, d)
           }
     }"

definition dictAddOrFind ::
  "dictResizeEnable \<Rightarrow> ('k, 'v) dict \<Rightarrow> 'k \<Rightarrow> (entry_ref option \<times> ('k, 'v) dict) option" where
  "dictAddOrFind cr d key =
     do {
       (entry, existing, d) \<leftarrow> dictAddRaw cr d key;
       Some (case entry of Some e \<Rightarrow> Some e | None \<Rightarrow> existing, d)
     }"

section \<open>Removal\<close>

definition remove_nth :: "nat \<Rightarrow> 'a list \<Rightarrow> 'a list" where
  "remove_nth p xs = take p xs @ drop (Suc p) xs"

text \<open>Unlinking the entry at a reference: \<^verbatim>\<open>*plink = dictGetNext(he)\<close> and the counter.\<close>

definition unlink_at :: "('k, 'v) dict \<Rightarrow> entry_ref \<Rightarrow> ('k, 'v) dict" where
  "unlink_at d r = (case r of (i, idx, p) \<Rightarrow>
     let t = ht d i
     in set_ht i (t\<lparr>ht_table := (ht_table t)[idx := remove_nth p ((ht_table t) ! idx)],
                    ht_used := ht_used t - 1\<rparr>) d)"

definition dictGenericDelete ::
  "dictResizeEnable \<Rightarrow> ('k, 'v) dict \<Rightarrow> 'k \<Rightarrow>
   (('k, 'v) dictEntry option \<times> ('k, 'v) dict) option" where
  "dictGenericDelete cr d key =
     (if dictSize d = 0 then Some (None, d)
      else do {
        d \<leftarrow> (if dictIsRehashing d then dictRehashStep cr d else Some d);
        r \<leftarrow> dict_search d (dictHashKey d key) key;
        case r of
          None \<Rightarrow> Some (None, d)
        | Some ref \<Rightarrow> do { he \<leftarrow> entry_at d ref; Some (Some he, unlink_at d ref) }
      })"

text \<open>\<^verbatim>\<open>dictDelete\<close> also runs the destructors of the entry, \<^verbatim>\<open>dictUnlink\<close> returns it.\<close>

definition dictDelete ::
  "dictResizeEnable \<Rightarrow> ('k, 'v) dict \<Rightarrow> 'k \<Rightarrow>
   (dict_status \<times> ('k, 'v) chain \<times> ('k, 'v) dict) option" where
  "dictDelete cr d key =
     do {
       (he, d) \<leftarrow> dictGenericDelete cr d key;
       Some (case he of Some e \<Rightarrow> (DICT_OK, [e], d) | None \<Rightarrow> (DICT_ERR, [], d))
     }"

definition dictUnlink ::
  "dictResizeEnable \<Rightarrow> ('k, 'v) dict \<Rightarrow> 'k \<Rightarrow>
   (('k, 'v) dictEntry option \<times> ('k, 'v) dict) option" where
  "dictUnlink cr d key = dictGenericDelete cr d key"

definition dictTwoPhaseUnlinkFind ::
  "dictResizeEnable \<Rightarrow> ('k, 'v) dict \<Rightarrow> 'k \<Rightarrow> (entry_ref option \<times> ('k, 'v) dict) option" where
  "dictTwoPhaseUnlinkFind cr d key =
     (if dictSize d = 0 then Some (None, d)
      else do {
        d \<leftarrow> (if dictIsRehashing d then dictRehashStep cr d else Some d);
        r \<leftarrow> dict_search d (dictHashKey d key) key;
        case r of
          None \<Rightarrow> Some (None, d)
        | Some ref \<Rightarrow> Some (Some ref, dictPauseRehashing d)
      })"

definition dictTwoPhaseUnlinkFree ::
  "('k, 'v) dict \<Rightarrow> entry_ref option \<Rightarrow> (('k, 'v) chain \<times> ('k, 'v) dict) option" where
  "dictTwoPhaseUnlinkFree d he =
     (case he of
        None \<Rightarrow> Some ([], d)
      | Some ref \<Rightarrow>
          do { e \<leftarrow> entry_at d ref; Some ([e], dictResumeRehashing (unlink_at d ref)) })"

text \<open>
  \<^verbatim>\<open>_dictClear\<close>: the loop stops at the first index where the counter is zero. The result holds the
  released entries. The callback that is called every 65536 buckets does not touch the dictionary.
\<close>

fun dictClear_loop :: "('k, 'v) chain list \<Rightarrow> nat \<Rightarrow> ('k, 'v) chain" where
  "dictClear_loop [] used = []"
| "dictClear_loop (b # bs) used =
     (if used > 0 then b @ dictClear_loop bs (used - length b) else [])"

definition dictClear ::
  "('k, 'v) dict \<Rightarrow> nat \<Rightarrow> ('k, 'v) chain \<times> ('k, 'v) dict" where
  "dictClear d htidx =
     (dictClear_loop (ht_table (ht d htidx)) (ht_used (ht d htidx)), set_ht htidx dictReset d)"

definition dictEmpty :: "('k, 'v) dict \<Rightarrow> ('k, 'v) chain \<times> ('k, 'v) dict" where
  "dictEmpty d =
     (let (f0, d) = dictClear d 0; (f1, d) = dictClear d 1
      in (f0 @ f1, d\<lparr>rehashidx := -1, pauserehash := 0\<rparr>))"

definition dictRelease :: "('k, 'v) dict \<Rightarrow> ('k, 'v) chain" where
  "dictRelease d = (let (f0, d) = dictClear d 0; (f1, d) = dictClear d 1 in f0 @ f1)"

end
