(* ===== verification/Dict_Inv.thy ===== *)
theory Dict_Inv
  imports Dict "HOL-Library.Multiset"
begin

text \<open>
  The invariant of the hash table (every entry in the bucket its hash selects, counters equal to the
  number of entries, no two equal keys over both tables, the buckets below the rehash index empty)
  and that every operation keeps it. The abstract content of a dictionary is the list of its key and
  value pairs up to order; lookups in it are what the operations are specified by.
\<close>

named_theorems dict_simps \<open>unfolding of the accessors of a dictionary\<close>

section \<open>Contract of the callbacks\<close>

text \<open>
  What a \<^verbatim>\<open>dictType\<close> has to promise: comparison is an equivalence that the hash respects, a
  duplicated key equals the original, and keys are odd where the type says so.
\<close>

definition dtype_ok :: "('k, 'v) dictType \<Rightarrow> bool" where
  "dtype_ok T \<longleftrightarrow>
     symp (key_match T) \<and> transp (key_match T) \<and>
     (\<forall>a b. key_match T a b \<longrightarrow> hashFunction T a = hashFunction T b) \<and>
     (\<forall>f k. keyDup T = Some f \<longrightarrow> key_match T k (f k)) \<and>
     (keys_are_odd T \<longrightarrow> (\<forall>k. keyLsb T k))"

lemma key_match_refl [simp]: "key_match T k k"
  by (simp add: key_match_def)

lemma key_match_sym: "dtype_ok T \<Longrightarrow> key_match T a b \<Longrightarrow> key_match T b a"
  by (simp add: dtype_ok_def sympD)

lemma key_match_trans:
  "dtype_ok T \<Longrightarrow> key_match T a b \<Longrightarrow> key_match T b c \<Longrightarrow> key_match T a c"
  using transpD [of "key_match T" a b c] by (simp add: dtype_ok_def)

lemma key_match_hash: "dtype_ok T \<Longrightarrow> key_match T a b \<Longrightarrow> hashFunction T a = hashFunction T b"
  by (simp add: dtype_ok_def)

lemma keyLsb_odd: "dtype_ok T \<Longrightarrow> keys_are_odd T \<Longrightarrow> keyLsb T k"
  by (simp add: dtype_ok_def)

section \<open>Abstract content\<close>

definition kv :: "('k, 'v) dictEntry \<Rightarrow> 'k \<times> 'v option" where
  "kv e = (dictGetKey e, dictGetVal e)"

definition ht_kvs :: "('k, 'v) dictht \<Rightarrow> ('k \<times> 'v option) list" where
  "ht_kvs t = map kv (concat (ht_table t))"

definition dict_kvs :: "('k, 'v) dict \<Rightarrow> ('k \<times> 'v option) list" where
  "dict_kvs d = ht_kvs (ht0 d) @ ht_kvs (ht1 d)"

definition keys_apart :: "('k, 'v) dictType \<Rightarrow> ('k \<times> 'v option) list \<Rightarrow> bool" where
  "keys_apart T kvs = sorted_wrt (\<lambda>p q. \<not> key_match T (fst p) (fst q)) kvs"

definition kv_get :: "('k, 'v) dictType \<Rightarrow> ('k \<times> 'v option) list \<Rightarrow> 'k \<Rightarrow> 'v option option" where
  "kv_get T kvs k = map_option snd (find (\<lambda>p. key_match T k (fst p)) kvs)"

text \<open>The map a dictionary stands for: \<^term>\<open>None\<close> for an absent key.\<close>

definition dict_map :: "('k, 'v) dict \<Rightarrow> 'k \<Rightarrow> 'v option option" where
  "dict_map d k = kv_get (dtype d) (dict_kvs d) k"

lemma fst_kv [simp]: "fst (kv e) = dictGetKey e" and snd_kv [simp]: "snd (kv e) = dictGetVal e"
  by (simp_all add: kv_def)

subsection \<open>Lists of pairs up to order\<close>

lemma keys_apart_append:
  "keys_apart T (xs @ ys) \<longleftrightarrow> keys_apart T xs \<and> keys_apart T ys \<and>
     (\<forall>p \<in> set xs. \<forall>q \<in> set ys. \<not> key_match T (fst p) (fst q))"
  by (simp add: keys_apart_def sorted_wrt_append)

lemma keys_apart_Cons:
  "keys_apart T (p # xs) \<longleftrightarrow> keys_apart T xs \<and> (\<forall>q \<in> set xs. \<not> key_match T (fst p) (fst q))"
  by (auto simp: keys_apart_def)

lemma keys_apart_Nil [simp]: "keys_apart T []"
  by (simp add: keys_apart_def)

lemma keys_apart_swap_middle:
  assumes "dtype_ok T"
  shows "keys_apart T (xs @ p # ys) \<longleftrightarrow> keys_apart T (p # xs @ ys)"
proof -
  have "(\<forall>q \<in> set xs. \<not> key_match T (fst q) (fst p)) \<longleftrightarrow> (\<forall>q \<in> set xs. \<not> key_match T (fst p) (fst q))"
    using key_match_sym [OF assms] by blast
  then show ?thesis by (auto simp: keys_apart_append keys_apart_Cons)
qed

lemma keys_apart_mset:
  assumes T: "dtype_ok T" and "mset xs = mset ys"
  shows "keys_apart T xs \<longleftrightarrow> keys_apart T ys"
  using assms(2)
proof (induction xs arbitrary: ys)
  case (Cons p xs)
  then have "p \<in> set ys" by (metis list.set_intros(1) set_mset_mset)
  then obtain us vs where ys: "ys = us @ p # vs" by (meson split_list)
  have m: "mset xs = mset (us @ vs)" using Cons.prems ys by simp
  then have s: "set xs = set (us @ vs)" by (metis set_mset_mset)
  have "keys_apart T (p # xs) \<longleftrightarrow> keys_apart T (p # us @ vs)"
    unfolding keys_apart_Cons s using Cons.IH [OF m] by simp
  then show ?case using keys_apart_swap_middle [OF T] ys by simp
qed simp

lemma kv_get_None:
  "kv_get T kvs k = None \<longleftrightarrow> (\<forall>p \<in> set kvs. \<not> key_match T k (fst p))"
  by (auto simp: kv_get_def find_None_iff)

lemma kv_get_Some:
  assumes T: "dtype_ok T" and "keys_apart T kvs" "p \<in> set kvs" "key_match T k (fst p)"
  shows "kv_get T kvs k = Some (snd p)"
  using assms(2-)
proof (induction kvs)
  case (Cons q kvs)
  show ?case
  proof (cases "p = q")
    case True
    then show ?thesis using Cons.prems by (simp add: kv_get_def)
  next
    case False
    then have p: "p \<in> set kvs" using Cons.prems by simp
    have "\<not> key_match T (fst q) (fst p)" using Cons.prems p by (auto simp: keys_apart_Cons)
    then have "\<not> key_match T k (fst q)"
      using key_match_trans [OF T key_match_sym [OF T, of k "fst q"] Cons.prems(3)] by blast
    then show ?thesis using Cons p by (simp add: kv_get_def keys_apart_Cons)
  qed
qed simp

lemma kv_get_mset:
  assumes T: "dtype_ok T" and xs: "keys_apart T xs" and m: "mset xs = mset ys"
  shows "kv_get T xs k = kv_get T ys k"
proof -
  have s: "set xs = set ys" by (metis m set_mset_mset)
  have ys: "keys_apart T ys" using keys_apart_mset [OF T m] xs by simp
  show ?thesis
  proof (cases "\<exists>p \<in> set xs. key_match T k (fst p)")
    case True
    then obtain p where p: "p \<in> set xs" "key_match T k (fst p)" by blast
    then show ?thesis
      using kv_get_Some [OF T xs p] kv_get_Some [OF T ys, of p k] s by simp
  next
    case False
    then have "kv_get T xs k = None" "kv_get T ys k = None" by (simp_all add: kv_get_None s)
    then show ?thesis by simp
  qed
qed

lemma kv_get_Cons:
  "kv_get T (p # kvs) k = (if key_match T k (fst p) then Some (snd p) else kv_get T kvs k)"
  by (simp add: kv_get_def)

section \<open>Indices and tables\<close>

lemma DICTHT_SIZE_pos: "0 \<le> e \<Longrightarrow> DICTHT_SIZE e = 2 ^ nat e"
  by (simp add: DICTHT_SIZE_def)

lemma DICTHT_SIZE_MASK_mask: "0 \<le> e \<Longrightarrow> DICTHT_SIZE_MASK e = mask (nat e)"
  by (simp add: DICTHT_SIZE_MASK_def DICTHT_SIZE_def mask_eq_exp_minus_1)

lemma unat_and_SIZE_MASK:
  assumes "0 \<le> e"
  shows "unat (h AND DICTHT_SIZE_MASK e) = unat h mod 2 ^ nat e"
proof -
  have "h AND mask (nat e) = take_bit (nat e) h" by (simp only: take_bit_eq_mask)
  moreover have "unat (take_bit (nat e) h) = take_bit (nat e) (unat h)"
    by (rule unsigned_take_bit_eq)
  ultimately show ?thesis
    by (simp only: DICTHT_SIZE_MASK_mask [OF assms]) (rule take_bit_eq_mod)
qed

lemma bucket_idx_mod: "0 \<le> ht_size_exp t \<Longrightarrow> bucket_idx h t = unat h mod 2 ^ nat (ht_size_exp t)"
  by (simp add: bucket_idx_def unat_and_SIZE_MASK)

lemma mset_concat_update:
  assumes "i < length tbl"
  shows "mset (concat (tbl[i := b])) + mset (tbl ! i) = mset (concat tbl) + mset b"
proof -
  have "mset (concat tbl) = mset (concat (take i tbl @ tbl ! i # drop (Suc i) tbl))"
    using id_take_nth_drop [OF assms] by simp
  moreover have "concat (tbl[i := b]) = concat (take i tbl @ b # drop (Suc i) tbl)"
    using assms by (simp add: upd_conv_take_nth_drop)
  ultimately show ?thesis by simp
qed

lemma length_concat_update:
  assumes "i < length tbl"
  shows "length (concat (tbl[i := b])) + length (tbl ! i) = length (concat tbl) + length b"
  using arg_cong [OF mset_concat_update [OF assms, of b], of size] by (simp add: size_mset)

definition chain_ok :: "('k, 'v) dictType \<Rightarrow> ('k, 'v) chain \<Rightarrow> bool" where
  "chain_ok T b \<longleftrightarrow>
     (if no_value T then (\<forall>e \<in> set b. \<not> entryIsNormal e) \<and> (\<forall>e \<in> set (butlast b). \<not> entryIsKey e)
      else (\<forall>e \<in> set b. entryIsNormal e))"

definition bucket_ok :: "('k, 'v) dictType \<Rightarrow> ('k, 'v) dictht \<Rightarrow> nat \<Rightarrow> ('k, 'v) chain \<Rightarrow> bool" where
  "bucket_ok T t i b \<longleftrightarrow>
     chain_ok T b \<and> (\<forall>e \<in> set b. bucket_idx (hashFunction T (dictGetKey e)) t = i)"

definition ht_ok :: "('k, 'v) dictType \<Rightarrow> ('k, 'v) dictht \<Rightarrow> bool" where
  "ht_ok T t \<longleftrightarrow>
     (ht_size_exp t = -1 \<or> (2 \<le> ht_size_exp t \<and> ht_size_exp t \<le> 60)) \<and>
     length (ht_table t) = DICTHT_SIZE (ht_size_exp t) \<and>
     ht_used t = length (concat (ht_table t)) \<and>
     (\<forall>i < length (ht_table t). bucket_ok T t i (ht_table t ! i))"

definition dict_ok :: "('k, 'v) dict \<Rightarrow> bool" where
  "dict_ok d \<longleftrightarrow>
     ht_ok (dtype d) (ht0 d) \<and> ht_ok (dtype d) (ht1 d) \<and> keys_apart (dtype d) (dict_kvs d) \<and>
     0 \<le> pauserehash d \<and>
     (if rehashidx d = -1 then ht_size_exp (ht1 d) = -1
      else 0 \<le> rehashidx d \<and> rehashidx d < int (DICTHT_SIZE (ht_size_exp (ht0 d))) \<and>
        ht_size_exp (ht1 d) \<noteq> -1 \<and> ht_size_exp (ht0 d) \<noteq> ht_size_exp (ht1 d) \<and>
        (\<forall>i < nat (rehashidx d). ht_table (ht0 d) ! i = []))"

lemma ht_ok_exp: "ht_ok T t \<Longrightarrow> ht_size_exp t \<noteq> -1 \<Longrightarrow> 2 \<le> ht_size_exp t \<and> ht_size_exp t \<le> 60"
  by (auto simp: ht_ok_def)

lemma ht_ok_length: "ht_ok T t \<Longrightarrow> ht_size_exp t \<noteq> -1 \<Longrightarrow> length (ht_table t) = 2 ^ nat (ht_size_exp t)"
  by (simp add: ht_ok_def DICTHT_SIZE_def)

lemma ht_ok_empty: "ht_ok T t \<Longrightarrow> ht_size_exp t = -1 \<Longrightarrow> ht_table t = [] \<and> ht_used t = 0"
  by (auto simp: ht_ok_def DICTHT_SIZE_def)

lemma ht_ok_used: "ht_ok T t \<Longrightarrow> ht_used t = length (ht_kvs t)"
  by (simp add: ht_ok_def ht_kvs_def)

lemma ht_ok_bucket: "ht_ok T t \<Longrightarrow> i < length (ht_table t) \<Longrightarrow> bucket_ok T t i (ht_table t ! i)"
  by (simp add: ht_ok_def)

lemma ht_ok_idx:
  assumes "ht_ok T t" "ht_size_exp t \<noteq> -1"
  shows "bucket_idx h t < length (ht_table t)"
  using ht_ok_exp [OF assms] by (simp add: ht_ok_length [OF assms] bucket_idx_mod)

lemma ht_ok_reset [simp]: "ht_ok T dictReset"
  by (simp add: ht_ok_def dictReset_def DICTHT_SIZE_def)

lemma bucket_idx_update [simp]:
  "bucket_idx h (t\<lparr>ht_table := x\<rparr>) = bucket_idx h t" "bucket_idx h (t\<lparr>ht_used := n\<rparr>) = bucket_idx h t"
  by (simp_all add: bucket_idx_def)

lemma bucket_ok_update [simp]:
  "bucket_ok T (t\<lparr>ht_table := x\<rparr>) i b = bucket_ok T t i b"
  "bucket_ok T (t\<lparr>ht_used := n\<rparr>) i b = bucket_ok T t i b"
  by (simp_all add: bucket_ok_def)

lemma bucket_ok_Nil [simp]: "bucket_ok T t i []"
  by (simp add: bucket_ok_def chain_ok_def)

text \<open>Replacing one bucket of a table, the step of every operation that changes entries.\<close>

lemma ht_ok_update:
  assumes "ht_ok T t" "i < length (ht_table t)" "bucket_ok T t i b"
    and "n + length (ht_table t ! i) = ht_used t + length b"
  shows "ht_ok T (t\<lparr>ht_table := (ht_table t)[i := b], ht_used := n\<rparr>)"
proof -
  have "n = length (concat ((ht_table t)[i := b]))"
    using length_concat_update [OF assms(2), of b] assms(1,4) by (simp add: ht_ok_def)
  moreover have "\<forall>j < length (ht_table t). bucket_ok T t j ((ht_table t)[i := b] ! j)"
    using assms by (auto simp: nth_list_update ht_ok_def)
  ultimately show ?thesis using assms(1) by (simp add: ht_ok_def)
qed

lemma ht_kvs_update:
  assumes "i < length (ht_table t)"
  shows "mset (ht_kvs (t\<lparr>ht_table := (ht_table t)[i := b], ht_used := n\<rparr>)) +
      mset (map kv (ht_table t ! i)) = mset (ht_kvs t) + mset (map kv b)"
  using arg_cong [OF mset_concat_update [OF assms, of b], of "image_mset kv"]
  by (simp add: ht_kvs_def flip: mset_map map_concat)

lemma in_bucket_kvs:
  "i < length (ht_table t) \<Longrightarrow> e \<in> set (ht_table t ! i) \<Longrightarrow> kv e \<in> set (ht_kvs t)"
  by (auto simp: ht_kvs_def intro!: imageI dest: nth_mem)

lemma kvs_in_bucket:
  assumes "ht_ok T t" "p \<in> set (ht_kvs t)"
  obtains e where "e \<in> set (ht_table t ! bucket_idx (hashFunction T (fst p)) t)" "kv e = p"
    "bucket_idx (hashFunction T (fst p)) t < length (ht_table t)" "ht_size_exp t \<noteq> -1"
proof -
  obtain i e where e: "i < length (ht_table t)" "e \<in> set (ht_table t ! i)" "p = kv e"
    using assms(2) by (auto simp: ht_kvs_def) (metis in_set_conv_nth)
  have "bucket_idx (hashFunction T (dictGetKey e)) t = i"
    using ht_ok_bucket [OF assms(1) e(1)] e(2) by (simp add: bucket_ok_def)
  moreover have "ht_size_exp t \<noteq> -1" using ht_ok_empty [OF assms(1)] e(1) by auto
  ultimately show thesis using e that by simp
qed

end
