(* ===== verification/Dict_Rehash.thy ===== *)
theory Dict_Rehash
  imports Dict_Inv
begin

text \<open>
  Expansion and incremental rehashing keep the invariant and the content of the dictionary, every
  call of \<^verbatim>\<open>dictRehash\<close> that reports work left has advanced the rehash index, and the loop of
  \<^verbatim>\<open>dictRehashMilliseconds\<close> ends whatever the clock shows.
\<close>

section \<open>Moving a bucket\<close>

definition kind_ok :: "('k, 'v) dictType \<Rightarrow> ('k, 'v) dictEntry \<Rightarrow> bool" where
  "kind_ok T e \<longleftrightarrow> (if no_value T then \<not> entryIsNormal e else entryIsNormal e)"

lemma chain_ok_kind: "chain_ok T b \<Longrightarrow> e \<in> set b \<Longrightarrow> kind_ok T e"
  by (auto simp: chain_ok_def kind_ok_def split: if_splits)

lemma chain_ok_push:
  assumes "chain_ok T b" "kind_ok T e" "no_value T \<Longrightarrow> b \<noteq> [] \<Longrightarrow> \<not> entryIsKey e"
  shows "chain_ok T (e # b)"
  using assms by (auto simp: chain_ok_def kind_ok_def)

lemmas entry_kind_defs =
  kind_ok_def entryIsKey_def entryIsNormal_def entryIsNoValue_def entryHasValue_def
  dictGetKey_def dictGetVal_def kv_def

lemma ht_ok_push:
  assumes t: "ht_ok T t" and e1: "ht_size_exp t \<noteq> -1"
    and b: "h = bucket_idx (hashFunction T (dictGetKey e)) t"
    and k: "kind_ok T e" "no_value T \<Longrightarrow> ht_table t ! h \<noteq> [] \<Longrightarrow> \<not> entryIsKey e"
  defines "t' \<equiv> t\<lparr>ht_table := (ht_table t)[h := e # ht_table t ! h], ht_used := ht_used t + 1\<rparr>"
  shows "ht_ok T t'" "mset (ht_kvs t') = add_mset (kv e) (mset (ht_kvs t))" "h < length (ht_table t)"
proof -
  show h: "h < length (ht_table t)" using ht_ok_idx [OF t e1] b by simp
  have ob: "bucket_ok T t h (ht_table t ! h)" by (rule ht_ok_bucket [OF t h])
  then have "bucket_ok T t h (e # ht_table t ! h)"
    using chain_ok_push [of T "ht_table t ! h" e] k b by (auto simp: bucket_ok_def)
  then show "ht_ok T t'"
    unfolding t'_def by (intro ht_ok_update t h) simp_all
  show "mset (ht_kvs t') = add_mset (kv e) (mset (ht_kvs t))"
    using ht_kvs_update [OF h, of "ht_used t + 1" "e # ht_table t ! h"] by (simp add: t'_def)
qed

lemma dictRehash_link_ok:
  assumes "dtype_ok T" "kind_ok T de"
  obtains de' where "dictRehash_link T b de = Some de'" "kv de' = kv de" "kind_ok T de'"
    "dictGetKey de' = dictGetKey de" "no_value T \<Longrightarrow> b \<noteq> [] \<Longrightarrow> \<not> entryIsKey de'"
proof -
  let ?de = "if no_value T then if keys_are_odd T \<and> b = [] then EntryKey (dictGetKey de)
      else EntryNoValue (dictGetKey de) else de"
  have "dictRehash_link T b de = Some ?de"
    using assms(2) keyLsb_odd [OF assms(1), of "dictGetKey de"]
    by (cases de) (simp_all add: dictRehash_link_def entry_kind_defs split: if_splits)
  moreover have "kv ?de = kv de" "kind_ok T ?de" "dictGetKey ?de = dictGetKey de"
    "no_value T \<Longrightarrow> b \<noteq> [] \<Longrightarrow> \<not> entryIsKey ?de"
    using assms(2) by (cases de; simp add: entry_kind_defs split: if_splits)+
  ultimately show thesis by (rule that)
qed

lemma dictRehash_entry_ok:
  assumes T: "dtype_ok (dtype d)" and t1: "ht_ok (dtype d) (ht1 d)"
    and e1: "ht_size_exp (ht1 d) \<noteq> -1" and kind: "kind_ok (dtype d) de"
    and idx: "dictRehash_idx d (dictGetKey de) =
      bucket_idx (hashFunction (dtype d) (dictGetKey de)) (ht1 d)"
  obtains t1' where
    "dictRehash_entry d de =
       Some (d\<lparr>ht0 := (ht0 d)\<lparr>ht_used := ht_used (ht0 d) - 1\<rparr>, ht1 := t1'\<rparr>)"
    "ht_ok (dtype d) t1'" "ht_size_exp t1' = ht_size_exp (ht1 d)"
    "mset (ht_kvs t1') = add_mset (kv de) (mset (ht_kvs (ht1 d)))"
proof -
  let ?T = "dtype d" and ?t = "ht1 d"
  define h where "h = dictRehash_idx d (dictGetKey de)"
  define b where "b = ht_table ?t ! h"
  obtain de' where link: "dictRehash_link ?T b de = Some de'" and kv': "kv de' = kv de"
    and ki: "kind_ok ?T de'" and key: "dictGetKey de' = dictGetKey de"
    and nk: "no_value ?T \<Longrightarrow> b \<noteq> [] \<Longrightarrow> \<not> entryIsKey de'"
    by (rule dictRehash_link_ok [where b = b, OF T kind]) (rule that)
  have hb: "h = bucket_idx (hashFunction ?T (dictGetKey de')) ?t" using idx by (simp add: h_def key)
  note push = ht_ok_push [OF t1 e1 hb ki nk [unfolded b_def]]
  have "dictRehash_entry d de =
      Some (d\<lparr>ht0 := (ht0 d)\<lparr>ht_used := ht_used (ht0 d) - 1\<rparr>,
        ht1 := ?t\<lparr>ht_table := (ht_table ?t)[h := de' # b], ht_used := ht_used ?t + 1\<rparr>\<rparr>)"
    using push(3) link by (simp add: dictRehash_entry_def flip: h_def b_def add: tbl_get_def Let_def)
  then show thesis
    using push kv' by (intro that) (simp_all add: b_def)
qed

lemma dictRehash_bucket_ok:
  assumes T: "dtype_ok (dtype d)" and t1: "ht_ok (dtype d) (ht1 d)"
    and e1: "ht_size_exp (ht1 d) \<noteq> -1"
    and des: "\<And>e. e \<in> set des \<Longrightarrow> kind_ok (dtype d) e \<and> dictRehash_idx d (dictGetKey e) =
      bucket_idx (hashFunction (dtype d) (dictGetKey e)) (ht1 d)"
  shows "\<exists>t1'. dictRehash_bucket des d =
       Some (d\<lparr>ht0 := (ht0 d)\<lparr>ht_used := ht_used (ht0 d) - length des\<rparr>, ht1 := t1'\<rparr>) \<and>
    ht_ok (dtype d) t1' \<and> ht_size_exp t1' = ht_size_exp (ht1 d) \<and>
    mset (ht_kvs t1') = mset (map kv des) + mset (ht_kvs (ht1 d))"
  using t1 e1 T des
proof (induction des arbitrary: d)
  case Nil
  then show ?case by (intro exI [of _ "ht1 d"]) simp
next
  case (Cons de des)
  obtain t where t: "dictRehash_entry d de =
       Some (d\<lparr>ht0 := (ht0 d)\<lparr>ht_used := ht_used (ht0 d) - 1\<rparr>, ht1 := t\<rparr>)"
    "ht_ok (dtype d) t" "ht_size_exp t = ht_size_exp (ht1 d)"
    "mset (ht_kvs t) = add_mset (kv de) (mset (ht_kvs (ht1 d)))"
    using dictRehash_entry_ok [OF Cons.prems(3,1,2), of de] Cons.prems(4) by auto
  define d' where "d' = d\<lparr>ht0 := (ht0 d)\<lparr>ht_used := ht_used (ht0 d) - 1\<rparr>, ht1 := t\<rparr>"
  have d': "dtype d' = dtype d" "ht1 d' = t" "ht0 d' = (ht0 d)\<lparr>ht_used := ht_used (ht0 d) - 1\<rparr>"
    "d'\<lparr>ht0 := x, ht1 := y\<rparr> = d\<lparr>ht0 := x, ht1 := y\<rparr>" for x y
    by (simp_all add: d'_def)
  have idx: "dictRehash_idx d' k = dictRehash_idx d k" "bucket_idx h t = bucket_idx h (ht1 d)" for k h
    using t(3) by (simp_all add: dictRehash_idx_def dictHashKey_def bucket_idx_def d'_def)
  have des: "kind_ok (dtype d') e \<and> dictRehash_idx d' (dictGetKey e) =
      bucket_idx (hashFunction (dtype d') (dictGetKey e)) (ht1 d')" if "e \<in> set des" for e
    using Cons.prems(4) [of e] that by (simp add: d' idx)
  obtain t1' where "dictRehash_bucket des d' =
       Some (d'\<lparr>ht0 := (ht0 d')\<lparr>ht_used := ht_used (ht0 d') - length des\<rparr>, ht1 := t1'\<rparr>)"
    "ht_ok (dtype d') t1'" "ht_size_exp t1' = ht_size_exp (ht1 d')"
    "mset (ht_kvs t1') = mset (map kv des) + mset (ht_kvs (ht1 d'))"
    using Cons.IH [of d', OF _ _ _ des] Cons.prems(2,3) t(2,3) by (auto simp: d')
  then show ?case
    using t(1) [folded d'_def] t(3,4) by (intro exI [of _ t1']) (simp add: d')
qed

section \<open>Rehashing\<close>

text \<open>The index computed for a moved entry is the one its hash selects, also when shrinking.\<close>

lemma dictRehash_idx_ok:
  assumes t0: "ht_ok (dtype d) (ht0 d)" "ht_size_exp (ht0 d) \<noteq> -1"
    and t1: "ht_ok (dtype d) (ht1 d)" "ht_size_exp (ht1 d) \<noteq> -1"
    and i: "rehashidx d = int i" "i < length (ht_table (ht0 d))" "e \<in> set (ht_table (ht0 d) ! i)"
  shows "dictRehash_idx d (dictGetKey e) =
    bucket_idx (hashFunction (dtype d) (dictGetKey e)) (ht1 d)"
proof (cases "ht_size_exp (ht1 d) > ht_size_exp (ht0 d)")
  case True
  then show ?thesis by (simp add: dictRehash_idx_def bucket_idx_def dictHashKey_def)
next
  case False
  let ?h = "unat (hashFunction (dtype d) (dictGetKey e))"
  let ?a = "nat (ht_size_exp (ht0 d))" and ?b = "nat (ht_size_exp (ht1 d))"
  have a: "2 \<le> ht_size_exp (ht0 d)" "ht_size_exp (ht0 d) \<le> 60" using ht_ok_exp [OF t0] by auto
  have b: "2 \<le> ht_size_exp (ht1 d)" "?b \<le> ?a" using ht_ok_exp [OF t1] False by auto
  have "i = ?h mod 2 ^ ?a"
    using ht_ok_bucket [OF t0(1) i(2)] i(3) a(1) by (auto simp: bucket_ok_def bucket_idx_mod)
  moreover have "i < 2 ^ 64"
  proof -
    have "i < 2 ^ ?a" using i(2) ht_ok_length [OF t0] by simp
    also have "(2 :: nat) ^ ?a \<le> 2 ^ 64" using a(2) by (intro power_increasing) auto
    finally show ?thesis .
  qed
  moreover have "(2 :: nat) ^ ?b dvd 2 ^ ?a" using b(2) by (rule le_imp_power_dvd)
  ultimately have "unat (word_of_nat i :: 64 word) mod 2 ^ ?b = ?h mod 2 ^ ?b"
    by (simp add: unat_of_nat mod_mod_cancel)
  then show ?thesis
    using False b(1) i(1) by (simp add: dictRehash_idx_def bucket_idx_mod unat_and_SIZE_MASK)
qed

lemma dictRehash_skip_ok:
  assumes "i \<le> j" "j < length tbl" "tbl ! j \<noteq> []" "\<And>k. k < i \<Longrightarrow> tbl ! k = []"
  shows "\<exists>idx ev out. dictRehash_skip tbl i n = Some (idx, ev, out) \<and> i \<le> idx \<and>
    (\<forall>k < idx. tbl ! k = []) \<and> idx < length tbl \<and> (out \<longrightarrow> i < idx) \<and> (\<not> out \<longrightarrow> tbl ! idx \<noteq> [])"
  using assms
proof (induction tbl i n rule: dictRehash_skip.induct)
  case (1 tbl i n)
  show ?case
  proof (cases "tbl ! i = []")
    case False
    then show ?thesis using 1 by (subst dictRehash_skip.simps) auto
  next
    case True
    then have ij: "Suc i \<le> j" using 1 by (metis Suc_leI le_neq_implies_less)
    have below: "tbl ! k = []" if "k < Suc i" for k using 1(5) True that by (auto simp: less_Suc_eq)
    have len: "i < length tbl" using 1(2,3) by simp
    show ?thesis
    proof (cases "n - 1 = 0")
      case True
      then have "dictRehash_skip tbl i n = Some (i + 1, 0, True)"
        using \<open>tbl ! i = []\<close> len by (subst dictRehash_skip.simps) simp
      then show ?thesis
        using ij below 1(3) by (intro exI [of _ "i + 1"] exI [of _ 0] exI [of _ True]) simp
    next
      case False
      then have eq: "dictRehash_skip tbl i n = dictRehash_skip tbl (i + 1) (n - 1)"
        using \<open>tbl ! i = []\<close> len by (subst dictRehash_skip.simps) simp
      have "\<exists>idx ev out. dictRehash_skip tbl (i + 1) (n - 1) = Some (idx, ev, out) \<and> i + 1 \<le> idx \<and>
        (\<forall>k < idx. tbl ! k = []) \<and> idx < length tbl \<and> (out \<longrightarrow> i + 1 < idx) \<and>
        (\<not> out \<longrightarrow> tbl ! idx \<noteq> [])"
        using 1(1) [OF len \<open>tbl ! i = []\<close> False _ 1(3,4)] ij below by simp
      then show ?thesis unfolding eq by (elim exE conjE) (intro exI conjI; assumption | simp)
    qed
  qed
qed

text \<open>The invariant inside the loop, where the rehash index may have reached the end of the table.\<close>

definition rehash_inv :: "('k, 'v) dict \<Rightarrow> bool" where
  "rehash_inv d \<longleftrightarrow>
     ht_ok (dtype d) (ht0 d) \<and> ht_ok (dtype d) (ht1 d) \<and> keys_apart (dtype d) (dict_kvs d) \<and>
     0 \<le> pauserehash d \<and> 0 \<le> rehashidx d \<and>
     rehashidx d \<le> int (DICTHT_SIZE (ht_size_exp (ht0 d))) \<and>
     ht_size_exp (ht0 d) \<noteq> -1 \<and> ht_size_exp (ht1 d) \<noteq> -1 \<and>
     ht_size_exp (ht0 d) \<noteq> ht_size_exp (ht1 d) \<and>
     (\<forall>i < nat (rehashidx d). ht_table (ht0 d) ! i = [])"

lemma dict_ok_rehash_inv: "dict_ok d \<Longrightarrow> dictIsRehashing d \<Longrightarrow> rehash_inv d"
  by (auto simp: dict_ok_def rehash_inv_def dictIsRehashing_def DICTHT_SIZE_def)

lemma ht_used_nonempty:
  assumes "ht_ok T t" "ht_used t \<noteq> 0"
  obtains j where "j < length (ht_table t)" "ht_table t ! j \<noteq> []"
proof -
  have "concat (ht_table t) \<noteq> []" using assms by (auto simp: ht_ok_def)
  then obtain b where "b \<in> set (ht_table t)" "b \<noteq> []" by (auto simp: concat_eq_Nil_conv)
  then show thesis using that by (auto simp: in_set_conv_nth)
qed

lemma rehash_inv_pending:
  assumes "rehash_inv d" "ht_used (ht0 d) \<noteq> 0"
  obtains j where "nat (rehashidx d) \<le> j" "j < length (ht_table (ht0 d))" "ht_table (ht0 d) ! j \<noteq> []"
proof -
  have "ht_ok (dtype d) (ht0 d)" using assms(1) by (simp add: rehash_inv_def)
  then obtain j where j: "j < length (ht_table (ht0 d))" "ht_table (ht0 d) ! j \<noteq> []"
    using assms(2) by (rule ht_used_nonempty)
  moreover have "nat (rehashidx d) \<le> j"
    using assms(1) j(2) unfolding rehash_inv_def by (metis not_le_imp_less)
  ultimately show thesis using that by blast
qed

lemma rehash_inv_dict_ok:
  assumes "rehash_inv d" "ht_used (ht0 d) \<noteq> 0"
  shows "dict_ok d"
proof -
  obtain j where "nat (rehashidx d) \<le> j" "j < length (ht_table (ht0 d))"
    using rehash_inv_pending [OF assms] by blast
  moreover have "length (ht_table (ht0 d)) = DICTHT_SIZE (ht_size_exp (ht0 d))"
    using assms(1) by (simp add: rehash_inv_def ht_ok_def)
  ultimately have "rehashidx d < int (DICTHT_SIZE (ht_size_exp (ht0 d)))" by simp
  then show ?thesis using assms(1) by (simp add: rehash_inv_def dict_ok_def)
qed

text \<open>What every step keeps: the type, the pause counter and the content.\<close>

definition same_content :: "('k, 'v) dict \<Rightarrow> ('k, 'v) dict \<Rightarrow> bool" where
  "same_content d d' \<longleftrightarrow>
     dtype d' = dtype d \<and> pauserehash d' = pauserehash d \<and> mset (dict_kvs d') = mset (dict_kvs d)"

lemma same_content_refl [simp]: "same_content d d"
  by (simp add: same_content_def)

lemma same_content_trans: "same_content a b \<Longrightarrow> same_content b c \<Longrightarrow> same_content a c"
  by (simp add: same_content_def)

lemma same_content_size:
  assumes "same_content d d'" "ht_ok (dtype d) (ht0 d)" "ht_ok (dtype d) (ht1 d)"
    "ht_ok (dtype d) (ht0 d')" "ht_ok (dtype d) (ht1 d')"
  shows "dictSize d' = dictSize d"
proof -
  have "length (dict_kvs d') = length (dict_kvs d)"
    using assms(1) by (metis same_content_def size_mset)
  then show ?thesis
    using assms(2-) by (simp add: dictSize_def ht_ok_used dict_kvs_def)
qed

lemma keys_apart_same_content:
  "dtype_ok (dtype d) \<Longrightarrow> same_content d d' \<Longrightarrow> keys_apart (dtype d) (dict_kvs d) \<Longrightarrow>
   keys_apart (dtype d') (dict_kvs d')"
  using keys_apart_mset [of "dtype d" "dict_kvs d'" "dict_kvs d"] by (simp add: same_content_def)

lemma dict_map_same_content:
  assumes "dtype_ok (dtype d)" "same_content d d'" "keys_apart (dtype d) (dict_kvs d)"
  shows "dict_map d' = dict_map d"
  using kv_get_mset [OF assms(1,3), of "dict_kvs d'"] assms(2)
  by (auto simp: dict_map_def same_content_def)

lemma dictRehash_move:
  assumes T: "dtype_ok (dtype d)" and inv: "rehash_inv d"
    and i: "i < length (ht_table (ht0 d))" "\<forall>k < i. ht_table (ht0 d) ! k = []"
  shows "\<exists>d1 d2. dictRehash_bucket (ht_table (ht0 d) ! i) (d\<lparr>rehashidx := int i\<rparr>) = Some d1 \<and>
    d2 = d1\<lparr>ht0 := (ht0 d1)\<lparr>ht_table := (ht_table (ht0 d1))[i := []]\<rparr>, rehashidx := int i + 1\<rparr> \<and>
    rehash_inv d2 \<and> same_content d d2 \<and>
    ht_size_exp (ht0 d2) = ht_size_exp (ht0 d) \<and> ht_size_exp (ht1 d2) = ht_size_exp (ht1 d)"
proof -
  let ?T = "dtype d" and ?b = "ht_table (ht0 d) ! i" and ?d = "d\<lparr>rehashidx := int i\<rparr>"
  have t0: "ht_ok ?T (ht0 d)" "ht_size_exp (ht0 d) \<noteq> -1"
    and t1: "ht_ok ?T (ht1 d)" "ht_size_exp (ht1 d) \<noteq> -1"
    using inv by (simp_all add: rehash_inv_def)
  have bk: "bucket_ok ?T (ht0 d) i ?b" by (rule ht_ok_bucket [OF t0(1) i(1)])
  have des: "kind_ok (dtype ?d) e \<and> dictRehash_idx ?d (dictGetKey e) =
      bucket_idx (hashFunction (dtype ?d) (dictGetKey e)) (ht1 ?d)" if "e \<in> set ?b" for e
    using dictRehash_idx_ok [of ?d i e] t0 t1 i(1) that bk chain_ok_kind [of ?T ?b e]
    by (simp add: bucket_ok_def)
  obtain t where run: "dictRehash_bucket ?b ?d =
       Some (?d\<lparr>ht0 := (ht0 d)\<lparr>ht_used := ht_used (ht0 d) - length ?b\<rparr>, ht1 := t\<rparr>)"
    and t: "ht_ok ?T t" "ht_size_exp t = ht_size_exp (ht1 d)"
      "mset (ht_kvs t) = mset (map kv ?b) + mset (ht_kvs (ht1 d))"
    using dictRehash_bucket_ok [of ?d ?b, OF _ _ _ des] T t1 by auto
  define u where "u = (ht0 d)\<lparr>ht_table := (ht_table (ht0 d))[i := []], ht_used := ht_used (ht0 d) - length ?b\<rparr>"
  define d2 where "d2 = d\<lparr>ht0 := u, ht1 := t, rehashidx := int i + 1\<rparr>"
  have len: "length ?b \<le> ht_used (ht0 d)"
    using length_concat_update [OF i(1), of "[]"] t0(1) by (simp add: ht_ok_def)
  have u: "ht_ok ?T u" "mset (ht_kvs u) + mset (map kv ?b) = mset (ht_kvs (ht0 d))"
    using ht_ok_update [OF t0(1) i(1) bucket_ok_Nil, of "ht_used (ht0 d) - length ?b"] len
      ht_kvs_update [OF i(1), of "ht_used (ht0 d) - length ?b" "[]"]
    by (simp_all add: u_def)
  have sc: "same_content d d2"
    using u(2) t(3) by (simp add: same_content_def d2_def dict_kvs_def ac_simps flip: u(2))
  have size: "int i + 1 \<le> int (DICTHT_SIZE (ht_size_exp (ht0 d)))"
    using i(1) t0(1) by (simp add: ht_ok_def)
  have "\<forall>k < Suc i. ht_table u ! k = []"
    using i by (simp add: u_def nth_list_update less_Suc_eq)
  then have "rehash_inv d2"
    using inv u(1) t(1,2) size keys_apart_same_content [OF T sc]
    by (simp add: rehash_inv_def d2_def nat_add_distrib) (simp add: u_def)
  moreover have "d2 = d1\<lparr>ht0 := (ht0 d1)\<lparr>ht_table := (ht_table (ht0 d1))[i := []]\<rparr>, rehashidx := int i + 1\<rparr>"
    if "d1 = ?d\<lparr>ht0 := (ht0 d)\<lparr>ht_used := ht_used (ht0 d) - length ?b\<rparr>, ht1 := t\<rparr>" for d1
    unfolding that by (intro dict.equality dictht.equality) (simp_all add: d2_def u_def)
  moreover have "ht_size_exp (ht0 d2) = ht_size_exp (ht0 d)" "ht_size_exp (ht1 d2) = ht_size_exp (ht1 d)"
    using t(2) by (simp_all add: d2_def u_def)
  ultimately show ?thesis using run sc by blast
qed

lemma dictRehash_loop_ok:
  assumes "dtype_ok (dtype d)" "rehash_inv d"
  shows "\<exists>out d'. dictRehash_loop n ev d = Some (out, d') \<and> rehash_inv d' \<and> same_content d d' \<and>
    ht_size_exp (ht0 d') = ht_size_exp (ht0 d) \<and> ht_size_exp (ht1 d') = ht_size_exp (ht1 d) \<and>
    (out \<longrightarrow> ht_used (ht0 d') \<noteq> 0) \<and> rehashidx d \<le> rehashidx d' \<and>
    (n \<noteq> 0 \<longrightarrow> ht_used (ht0 d) \<noteq> 0 \<longrightarrow> rehashidx d < rehashidx d')"
  using assms
proof (induction n arbitrary: ev d)
  case (Suc n)
  show ?case
  proof (cases "ht_used (ht0 d) = 0")
    case True
    then show ?thesis using Suc.prems by (simp add: ex_bool_eq)
  next
    case False
    have ok: "dict_ok d" by (rule rehash_inv_dict_ok [OF Suc.prems(2) False])
    obtain j where j: "nat (rehashidx d) \<le> j" "j < length (ht_table (ht0 d))" "ht_table (ht0 d) ! j \<noteq> []"
      by (rule rehash_inv_pending [OF Suc.prems(2) False])
    have r: "0 \<le> rehashidx d" "rehashidx d < int (DICTHT_SIZE (ht_size_exp (ht0 d)))"
      "\<And>k. k < nat (rehashidx d) \<Longrightarrow> ht_table (ht0 d) ! k = []"
      using Suc.prems(2) ok by (auto simp: rehash_inv_def dict_ok_def)
    obtain idx ev' out where sk: "dictRehash_skip (ht_table (ht0 d)) (nat (rehashidx d)) ev = Some (idx, ev', out)"
      "nat (rehashidx d) \<le> idx" "\<forall>k < idx. ht_table (ht0 d) ! k = []" "idx < length (ht_table (ht0 d))"
      "out \<longrightarrow> nat (rehashidx d) < idx"
      using dictRehash_skip_ok [OF j r(3), of ev] by blast
    show ?thesis
    proof (cases out)
      case True
      let ?d = "d\<lparr>rehashidx := int idx\<rparr>"
      have "idx \<le> DICTHT_SIZE (ht_size_exp (ht0 d))"
        using sk(4) Suc.prems(2) by (simp add: rehash_inv_def ht_ok_def)
      then have "rehash_inv ?d" using Suc.prems(2) sk(3) by (simp add: rehash_inv_def dict_kvs_def)
      moreover have "dictRehash_loop (Suc n) ev d = Some (True, ?d)"
        using False r(2) sk(1) True by simp
      moreover have "rehashidx d < int idx" using sk(5) True r(1) by simp
      ultimately show ?thesis
        using False by (simp add: same_content_def dict_kvs_def ex_bool_eq del: dictRehash_loop.simps)
    next
      case False
      obtain d1 d2 where mv: "dictRehash_bucket (ht_table (ht0 d) ! idx) (d\<lparr>rehashidx := int idx\<rparr>) = Some d1"
        "d2 = d1\<lparr>ht0 := (ht0 d1)\<lparr>ht_table := (ht_table (ht0 d1))[idx := []]\<rparr>, rehashidx := int idx + 1\<rparr>"
        "rehash_inv d2" "same_content d d2"
        "ht_size_exp (ht0 d2) = ht_size_exp (ht0 d)" "ht_size_exp (ht1 d2) = ht_size_exp (ht1 d)"
        using dictRehash_move [OF Suc.prems sk(4,3)] by blast
      have T2: "dtype_ok (dtype d2)" using mv(4) Suc.prems(1) by (simp add: same_content_def)
      obtain out' d' where IH: "dictRehash_loop n ev' d2 = Some (out', d')" "rehash_inv d'"
        "same_content d2 d'" "ht_size_exp (ht0 d') = ht_size_exp (ht0 d2)"
        "ht_size_exp (ht1 d') = ht_size_exp (ht1 d2)" "out' \<longrightarrow> ht_used (ht0 d') \<noteq> 0"
        "rehashidx d2 \<le> rehashidx d'"
        using Suc.IH [OF T2 mv(3), of ev'] by blast
      have "rehashidx d < rehashidx d'" using IH(7) mv(2) sk(2) by simp
      moreover have "dictRehash_loop (Suc n) ev d = Some (out', d')"
        using sk(1) False \<open>ht_used (ht0 d) \<noteq> 0\<close> r(2) mv(1) IH(1)
        by (simp flip: mv(2))
      ultimately show ?thesis
        using IH mv(5,6) same_content_trans [OF mv(4) IH(3)]
        by (intro exI [of _ out'] exI [of _ d']) simp
    qed
  qed
qed (simp add: ex_bool_eq)

lemma dictRehash_ok:
  assumes T: "dtype_ok (dtype d)" and ok: "dict_ok d"
  shows "\<exists>more d'. dictRehash cr d n = Some (more, d') \<and> dict_ok d' \<and> same_content d d' \<and>
    (more \<longrightarrow> dictIsRehashing d \<and> dictIsRehashing d' \<and> rehashidx d \<le> rehashidx d' \<and>
      ht_size_exp (ht0 d') = ht_size_exp (ht0 d) \<and> (n \<noteq> 0 \<longrightarrow> rehashidx d < rehashidx d'))"
proof (cases "dictRehash cr d n = Some (False, d)")
  case True
  then show ?thesis using ok by (simp add: ex_bool_eq)
next
  case False
  have re: "dictIsRehashing d"
    by (rule ccontr) (use False in \<open>simp add: dictRehash_def Let_def\<close>)
  have inv: "rehash_inv d" by (rule dict_ok_rehash_inv [OF ok re])
  obtain out d' where lp: "dictRehash_loop n (int n * 10) d = Some (out, d')" "rehash_inv d'"
    "same_content d d'" "ht_size_exp (ht0 d') = ht_size_exp (ht0 d)" "out \<longrightarrow> ht_used (ht0 d') \<noteq> 0"
    "rehashidx d \<le> rehashidx d'" "n \<noteq> 0 \<longrightarrow> ht_used (ht0 d) \<noteq> 0 \<longrightarrow> rehashidx d < rehashidx d'"
    using dictRehash_loop_ok [OF T inv, of n "int n * 10"] by blast
  show ?thesis
  proof (cases "ht_used (ht0 d') = 0")
    case True
    let ?d = "d'\<lparr>ht0 := ht1 d', ht1 := dictReset, rehashidx := -1\<rparr>"
    have "dictRehash cr d n = Some (False, ?d)"
      using False lp(1,5) True by (auto simp: dictRehash_def Let_def split: if_splits)
    moreover have "ht_kvs (ht0 d') = []"
      using True lp(2) ht_ok_used [of "dtype d'" "ht0 d'"] by (simp add: rehash_inv_def)
    then have kv: "dict_kvs ?d = dict_kvs d'"
      by (simp add: dict_kvs_def ht_kvs_def dictReset_def)
    have "dict_ok ?d" unfolding dict_ok_def kv
      using lp(2) by (simp add: rehash_inv_def) (simp add: dictReset_def)
    moreover have "same_content d ?d" using lp(3) by (simp add: same_content_def kv)
    ultimately show ?thesis by (simp add: ex_bool_eq)
  next
    case False
    have ok': "dict_ok d'" by (rule rehash_inv_dict_ok [OF lp(2) False])
    have "dictRehash cr d n = Some (True, d')"
      using \<open>dictRehash cr d n \<noteq> Some (False, d)\<close> lp(1) False
      by (auto simp: dictRehash_def Let_def split: if_splits)
    moreover have "dictIsRehashing d'" using lp(2) by (simp add: rehash_inv_def dictIsRehashing_def)
    moreover have "n \<noteq> 0 \<longrightarrow> ht_used (ht0 d) \<noteq> 0"
      using False lp(1) by (cases n; cases "ht_used (ht0 d) = 0") auto
    ultimately show ?thesis using ok' re lp by (simp add: ex_bool_eq)
  qed
qed

lemma dictRehash_done:
  "dictRehash DICT_RESIZE_ENABLE d n = Some (False, d') \<Longrightarrow> \<not> dictIsRehashing d'"
  by (auto simp: dictRehash_def dictIsRehashing_def Let_def split: if_splits bind_splits)

lemma dictRehashStep_ok:
  assumes "dtype_ok (dtype d)" "dict_ok d"
  obtains d' where "dictRehashStep cr d = Some d'" "dict_ok d'" "same_content d d'"
proof (cases "pauserehash d = 0")
  case True
  then show thesis
    using dictRehash_ok [OF assms, of cr 1] that by (auto simp: dictRehashStep_def)
next
  case False
  then show thesis using that [of d] assms(2) by (simp add: dictRehashStep_def)
qed

text \<open>
  Each call that leaves work advances the rehash index, which the size of the old table bounds: the
  loop of \<^verbatim>\<open>dictRehashMilliseconds\<close> returns for every sequence of clock readings.
\<close>

lemma dictRehashMilliseconds_loop_ok:
  assumes "dtype_ok (dtype d)" "dict_ok d"
  shows "\<exists>r d'. dictRehashMilliseconds_loop cr clock ms i k d = Some (r, d') \<and> dict_ok d' \<and>
    same_content d d' \<and> (cr = DICT_RESIZE_ENABLE \<and> (\<forall>j. clock j - clock 0 \<le> ms) \<longrightarrow> \<not> dictIsRehashing d')"
  using assms
proof (induction "nat (int (DICTHT_SIZE (ht_size_exp (ht0 d))) - rehashidx d)"
    arbitrary: d i k rule: less_induct)
  case less
  obtain more d1 where r: "dictRehash cr d 100 = Some (more, d1)" "dict_ok d1" "same_content d d1"
    "more \<longrightarrow> dictIsRehashing d1 \<and> ht_size_exp (ht0 d1) = ht_size_exp (ht0 d) \<and>
      rehashidx d < rehashidx d1"
    using dictRehash_ok [OF less.prems, of cr 100] by auto
  note unf = dictRehashMilliseconds_loop.simps [of cr clock ms i k d]
  show ?case
  proof (cases "more \<and> \<not> clock i - clock 0 > ms")
    case False
    show ?thesis
    proof (cases more)
      case True
      then have "clock i - clock 0 > ms" using False by simp
      then show ?thesis
        unfolding unf using r(1-3) True by (auto dest: spec [of _ i])
    next
      case False
      then show ?thesis unfolding unf using r(1-3) by (auto dest: dictRehash_done)
    qed
  next
    case True
    have "rehashidx d1 < int (DICTHT_SIZE (ht_size_exp (ht0 d1)))"
      using r(2,4) True by (simp add: dict_ok_def dictIsRehashing_def split: if_splits)
    then have m: "nat (int (DICTHT_SIZE (ht_size_exp (ht0 d1))) - rehashidx d1) <
        nat (int (DICTHT_SIZE (ht_size_exp (ht0 d))) - rehashidx d)"
      using r(4) True by simp
    have T: "dtype_ok (dtype d1)" using r(3) less.prems(1) by (simp add: same_content_def)
    obtain r' d' where IH: "dictRehashMilliseconds_loop cr clock ms (i + 1) (k + 100) d1 = Some (r', d')"
      "dict_ok d'" "same_content d1 d'" "cr = DICT_RESIZE_ENABLE \<and> (\<forall>j. clock j - clock 0 \<le> ms) \<longrightarrow> \<not> dictIsRehashing d'"
      using less.hyps [OF m T r(2), of "i + 1" "k + 100"] by blast
    have "dictRehashMilliseconds_loop cr clock ms i k d = Some (r', d')"
      unfolding unf using r(1) True IH(1) by simp
    then show ?thesis
      using IH same_content_trans [OF r(3) IH(3)] by (intro exI [of _ r'] exI [of _ d']) simp
  qed
qed

section \<open>Expansion\<close>

lemma dictNextExp_loop_ge: "e \<le> dictNextExp_loop n e \<and> n \<le> 2 ^ dictNextExp_loop n e"
  by (induction n e rule: dictNextExp_loop.induct) (subst (1 2) dictNextExp_loop.simps, auto)

lemma dictNextExp_loop_le: "n \<le> 2 ^ k \<Longrightarrow> e \<le> k \<Longrightarrow> dictNextExp_loop n e \<le> k"
proof (induction n e rule: dictNextExp_loop.induct)
  case (1 n e)
  show ?case
  proof (cases "n \<le> 2 ^ e")
    case True
    then show ?thesis using 1(3) by (subst dictNextExp_loop.simps) simp
  next
    case False
    then have "e \<noteq> k" using 1(2) by auto
    then show ?thesis using False 1 by (subst dictNextExp_loop.simps) simp
  qed
qed

text \<open>\<^verbatim>\<open>_dictNextExp\<close> is the least exponent, from the initial one on, whose power holds the size.\<close>

lemma dictNextExp_bounds:
  assumes "n < 2 ^ 63 - 1"
  shows "2 \<le> dictNextExp n" "n \<le> 2 ^ dictNextExp n"
    and "2 \<le> k \<Longrightarrow> n \<le> 2 ^ k \<Longrightarrow> dictNextExp n \<le> k"
  using assms dictNextExp_loop_ge [of 2 n] dictNextExp_loop_le [of n k 2]
  by (simp_all add: dictNextExp_def DICT_HT_INITIAL_EXP_def)

lemma dictNextExp_ge2: "2 \<le> dictNextExp n"
  using dictNextExp_loop_ge [of 2 n] by (simp add: dictNextExp_def DICT_HT_INITIAL_EXP_def)

lemma dictNextExp_le63: "dictNextExp n \<le> 63"
  using dictNextExp_loop_le [of n 63 2] by (simp add: dictNextExp_def DICT_HT_INITIAL_EXP_def)

text \<open>The overflow test of \<^verbatim>\<open>_dictExpand\<close> accepts exactly the exponents up to 60.\<close>

lemma expand_overflow: 
  assumes "e \<le> 63"
  shows "((2 :: nat) ^ e * 8) mod 2 ^ 64 < 2 ^ e \<longleftrightarrow> 60 < e"
proof (cases "e \<le> 60")
  case True
  have "(2 :: nat) ^ e * 8 = 2 ^ (e + 3)" by (simp add: power_add)
  moreover have "(2 :: nat) ^ (e + 3) < 2 ^ 64" using True by (intro power_strict_increasing) auto
  ultimately show ?thesis using True by simp
next
  case False
  then have "(2 :: nat) ^ 64 dvd 2 ^ (e + 3)" by (intro le_imp_power_dvd) simp
  then have "(2 :: nat) ^ e * 8 mod 2 ^ 64 = 0" by (simp add: power_add mult.commute dvd_imp_mod_0)
  then show ?thesis using False by simp
qed

lemma ht_ok_new:
  assumes "2 \<le> e" "e \<le> 60"
  shows "ht_ok T \<lparr>ht_table = replicate (2 ^ e) [], ht_used = 0, ht_size_exp = int e\<rparr>"
  using assms by (simp add: ht_ok_def DICTHT_SIZE_def)

lemma ht_kvs_new [simp]: "ht_kvs \<lparr>ht_table = replicate n [], ht_used = m, ht_size_exp = e\<rparr> = []"
  by (simp add: ht_kvs_def)

lemma dictExpand_alloc_ok:
  assumes ok: "dict_ok d" and r: "dictExpand_alloc d n alloc = (st, mf, d')"
  shows "dict_ok d' \<and> same_content d d'"
proof (cases "d' = d")
  case True
  then show ?thesis using ok by simp
next
  case False
  let ?e = "dictNextExp n"
  let ?t = "\<lparr>ht_table = replicate (2 ^ ?e) [], ht_used = 0, ht_size_exp = int ?e\<rparr>
    :: ('a, 'b) dictht"
  have nr: "\<not> dictIsRehashing d" and ov: "\<not> (2 ^ ?e * 8) mod 2 ^ 64 < (2 ^ ?e :: nat)"
    and ne: "int ?e \<noteq> ht_size_exp (ht0 d)"
    and d': "d' = (if ht_table (ht0 d) = [] then d\<lparr>ht0 := ?t\<rparr> else d\<lparr>ht1 := ?t, rehashidx := 0\<rparr>)"
    using r False by (auto simp: dictExpand_alloc_def Let_def split: if_splits)
  have e: "2 \<le> ?e" "?e \<le> 60"
    using dictNextExp_ge2 [of n] expand_overflow [OF dictNextExp_le63, of n] ov by simp_all
  have t: "ht_ok (dtype d) ?t" by (rule ht_ok_new [OF e])
  have ok1: "ht_ok (dtype d) (ht0 d)" "ht_ok (dtype d) (ht1 d)" "ht_size_exp (ht1 d) = -1"
    using ok nr by (simp_all add: dict_ok_def dictIsRehashing_def)
  have kv1: "ht_kvs (ht1 d) = []" using ht_ok_empty [OF ok1(2,3)] by (simp add: ht_kvs_def)
  show ?thesis
  proof (cases "ht_table (ht0 d) = []")
    case True
    then have "dict_kvs d' = dict_kvs d" using d' by (simp add: dict_kvs_def ht_kvs_def)
    then show ?thesis
      using True d' ok nr t by (simp add: dict_ok_def same_content_def dictIsRehashing_def)
  next
    case False
    then have "dict_kvs d' = dict_kvs d" using d' kv1 by (simp add: dict_kvs_def)
    moreover have "ht_size_exp (ht0 d) \<noteq> -1" using ht_ok_empty [OF ok1(1)] False by blast
    ultimately show ?thesis
      using False d' ok nr t ne by (simp add: dict_ok_def same_content_def DICTHT_SIZE_def)
  qed
qed

lemma dictExpand_ok:
  "dict_ok d \<Longrightarrow> dictExpand d n = (st, d') \<Longrightarrow> dict_ok d' \<and> same_content d d'"
  by (cases "dictExpand_alloc d n None") (auto simp: dictExpand_def dest: dictExpand_alloc_ok)

lemma dictTryExpand_ok:
  "dict_ok d \<Longrightarrow> dictTryExpand f d n = (st, d') \<Longrightarrow> dict_ok d' \<and> same_content d d'"
  by (cases "dictExpand_alloc d n (Some f)") (auto simp: dictTryExpand_def dest: dictExpand_alloc_ok)

lemma dictResize_ok:
  "dict_ok d \<Longrightarrow> dictResize cr d = (st, d') \<Longrightarrow> dict_ok d' \<and> same_content d d'"
  by (auto simp: dictResize_def Let_def dest: dictExpand_ok split: if_splits)

text \<open>
  \<^verbatim>\<open>_dictExpandIfNeeded\<close> never fails below \<open>2\<^sup>5\<^sup>9\<close> entries, and afterwards the first table is allocated.
\<close>

lemma dictExpandIfNeeded_ok:
  assumes ok: "dict_ok d" and sz: "dictSize d < 2 ^ 59"
  obtains d' where "dictExpandIfNeeded cr d = (DICT_OK, d')" "dict_ok d'" "same_content d d'"
    "ht_size_exp (ht0 d') \<noteq> -1"
proof -
  note result = that
  have t0: "ht_ok (dtype d) (ht0 d)" using ok by (simp add: dict_ok_def)
  let ?u = "ht_used (ht0 d)" and ?e = "ht_size_exp (ht0 d)"
  have grow: thesis if nr: "\<not> dictIsRehashing d"
    and run: "dictExpandIfNeeded cr d = dictExpand d n"
    and n: "?u \<le> n" "n \<le> 2 ^ 60" "?e \<noteq> int (dictNextExp n)" for n
  proof -
    have n63: "n < 2 ^ 63 - 1" using n(2) by (rule le_less_trans) simp
    have e: "dictNextExp n \<le> 60" "n \<le> 2 ^ dictNextExp n"
      using dictNextExp_bounds(2) [OF n63] dictNextExp_bounds(3) [OF n63, of 60] n(2) by simp_all
    obtain st d' where ex: "dictExpand d n = (st, d')" by fastforce
    have ov: "\<not> (2 ^ dictNextExp n * 8) mod 2 ^ 64 < (2 ^ dictNextExp n :: nat)"
      using expand_overflow [of "dictNextExp n"] e(1) by simp
    have "st = DICT_OK \<and> ht_size_exp (ht0 d') \<noteq> -1"
      using ex nr n(1,3) e(2) ov ht_ok_empty [OF t0]
      by (auto simp: dictExpand_def dictExpand_alloc_def Let_def split: if_splits)
    then show thesis using result run ex dictExpand_ok [OF ok ex] by simp
  qed
  show thesis
  proof (cases "dictExpandIfNeeded cr d = (DICT_OK, d) \<and> ?e \<noteq> -1")
    case True
    then show thesis using that ok by simp
  next
    case False
    show thesis
    proof (cases "?e = -1")
      case True
      then have "\<not> dictIsRehashing d" "?u = 0"
        using ok ht_ok_empty [OF t0 True] by (auto simp: dict_ok_def dictIsRehashing_def DICTHT_SIZE_def split: if_splits)
      moreover have "dictExpandIfNeeded cr d = dictExpand d DICT_HT_INITIAL_SIZE"
        using True calculation by (simp add: dictExpandIfNeeded_def DICTHT_SIZE_def)
      ultimately show thesis
        using grow [of DICT_HT_INITIAL_SIZE] True
        by (simp add: DICT_HT_INITIAL_SIZE_def DICT_HT_INITIAL_EXP_def)
    next
      case e: False
      have div: "DICTHT_SIZE ?e \<le> ?u" if "5 < ?u div DICTHT_SIZE ?e"
        by (rule ccontr) (use that in simp)
      have sz0: "DICTHT_SIZE ?e \<noteq> 0" using e by (simp add: DICTHT_SIZE_def)
      have run: "\<not> dictIsRehashing d" "dictExpandIfNeeded cr d = dictExpand d (?u + 1)"
        and ge: "DICTHT_SIZE ?e \<le> ?u"
        using False e sz0 div
        by (simp_all add: dictExpandIfNeeded_def Let_def dict_force_resize_ratio_def split: if_splits)
          (erule disjE; simp)
      have u: "?u + 1 \<le> 2 ^ 60" using sz by (simp add: dictSize_def)
      then have u63: "?u + 1 < 2 ^ 63 - 1" by (rule le_less_trans) simp
      have "?e \<noteq> int (dictNextExp (?u + 1))"
        using dictNextExp_bounds(2) [OF u63] ge e by (auto simp: DICTHT_SIZE_def)
      then show thesis using grow [OF run] u by simp
    qed
  qed
qed

end
