(* ===== verification/Dict_Ops.thy ===== *)
theory Dict_Ops
  imports Dict_Rehash
begin

text \<open>
  What lookup, insertion, update, removal and release do to the content of a dictionary in any state
  of the rehashing, and that they keep the invariant.
\<close>

section \<open>Search\<close>

lemma chain_find_None: "chain_find T k b = None \<longleftrightarrow> (\<forall>e \<in> set b. \<not> key_match T k (dictGetKey e))"
  by (induction b) auto

lemma chain_find_Some:
  "chain_find T k b = Some p \<Longrightarrow> p < length b \<and> key_match T k (dictGetKey (b ! p))"
  by (induction b arbitrary: p) (auto split: if_splits)

lemma chain_find_table:
  assumes T: "dtype_ok T" and t: "ht_ok T t"
    and c: "chain_find T k (ht_table t ! bucket_idx (hashFunction T k) t) = None"
  shows "\<forall>p \<in> set (ht_kvs t). \<not> key_match T k (fst p)"
proof (intro ballI notI)
  fix p assume p: "p \<in> set (ht_kvs t)" and m: "key_match T k (fst p)"
  obtain e where "e \<in> set (ht_table t ! bucket_idx (hashFunction T (fst p)) t)" "kv e = p"
    using kvs_in_bucket [OF t p] by blast
  moreover have "hashFunction T k = hashFunction T (fst p)" by (rule key_match_hash [OF T m])
  ultimately show False using c m by (auto simp: chain_find_None)
qed

lemma dict_search_ok:
  assumes T: "dtype_ok (dtype d)" and ok: "dict_ok d" and e0: "ht_size_exp (ht0 d) \<noteq> -1"
  shows "\<exists>r. dict_search d (dictHashKey d k) k = Some r \<and>
    (case r of None \<Rightarrow> dict_map d k = None
     | Some ref \<Rightarrow> \<exists>e. entry_at d ref = Some e \<and> key_match (dtype d) k (dictGetKey e))"
proof -
  let ?T = "dtype d" and ?h = "hashFunction (dtype d) k"
  let ?b0 = "ht_table (ht0 d) ! bucket_idx ?h (ht0 d)" and ?b1 = "ht_table (ht1 d) ! bucket_idx ?h (ht1 d)"
  have t: "ht_ok ?T (ht0 d)" "ht_ok ?T (ht1 d)" using ok by (simp_all add: dict_ok_def)
  have i0: "bucket_idx ?h (ht0 d) < length (ht_table (ht0 d))" by (rule ht_ok_idx [OF t(1) e0])
  have hit: "\<exists>e. entry_at d (j, bucket_idx ?h (ht d j), p) = Some e \<and> key_match ?T k (dictGetKey e)"
    if "chain_find ?T k (ht_table (ht d j) ! bucket_idx ?h (ht d j)) = Some p"
      "bucket_idx ?h (ht d j) < length (ht_table (ht d j))" for j p
    using chain_find_Some [OF that(1)] that(2) by (simp add: entry_at_def tbl_get_def)
  show ?thesis
  proof (cases "chain_find ?T k ?b0")
    case (Some p)
    then show ?thesis
      using hit [of 0 p] i0 by (simp add: dict_search_def dictHashKey_def tbl_get_def Let_def ht_def)
  next
    case None
    have n0: "\<forall>p \<in> set (ht_kvs (ht0 d)). \<not> key_match ?T k (fst p)"
      by (rule chain_find_table [OF T t(1) None])
    show ?thesis
    proof (cases "dictIsRehashing d")
      case False
      then have "ht_kvs (ht1 d) = []"
        using ok ht_ok_empty [OF t(2)] by (simp add: dict_ok_def dictIsRehashing_def ht_kvs_def)
      then have "dict_map d k = None"
        using n0 by (simp add: dict_map_def dict_kvs_def kv_get_None)
      then show ?thesis
        using None False i0 by (simp add: dict_search_def dictHashKey_def tbl_get_def Let_def)
    next
      case True
      then have e1: "ht_size_exp (ht1 d) \<noteq> -1" using ok by (simp add: dict_ok_def dictIsRehashing_def)
      have i1: "bucket_idx ?h (ht1 d) < length (ht_table (ht1 d))" by (rule ht_ok_idx [OF t(2) e1])
      show ?thesis
      proof (cases "chain_find ?T k ?b1")
        case (Some p)
        then show ?thesis using None True hit [of 1 p] i0 i1
          by (simp add: dict_search_def dictHashKey_def tbl_get_def Let_def ht_def)
      next
        case n1: None
        have "dict_map d k = None"
          using n0 chain_find_table [OF T t(2) n1] by (auto simp: dict_map_def dict_kvs_def kv_get_None)
        then show ?thesis using None True n1 i0 i1
          by (simp add: dict_search_def dictHashKey_def tbl_get_def Let_def)
      qed
    qed
  qed
qed

text \<open>An entry of the tables and the abstract map.\<close>

lemma entry_at_kvs:
  assumes "entry_at d ref = Some e"
  shows "kv e \<in> set (dict_kvs d)"
proof -
  obtain i idx p where ref: "ref = (i, idx, p)" by (cases ref)
  then have "idx < length (ht_table (ht d i))" "e \<in> set (ht_table (ht d i) ! idx)"
    using assms by (auto simp: entry_at_def tbl_get_def split: if_splits bind_splits)
  then have "kv e \<in> set (ht_kvs (ht d i))" by (rule in_bucket_kvs)
  then show ?thesis by (auto simp: dict_kvs_def ht_def split: if_splits)
qed

lemma entry_at_map:
  assumes "dtype_ok (dtype d)" "dict_ok d" "entry_at d ref = Some e" "key_match (dtype d) k (dictGetKey e)"
  shows "dict_map d k = Some (dictGetVal e)"
  using kv_get_Some [OF assms(1) _ entry_at_kvs [OF assms(3)], of k] assms(2,4)
  by (simp add: dict_map_def dict_ok_def)

lemma dictSize_kvs: "dict_ok d \<Longrightarrow> dictSize d = length (dict_kvs d)"
  using ht_ok_used [of "dtype d" "ht0 d"] ht_ok_used [of "dtype d" "ht1 d"]
  by (simp add: dict_ok_def dictSize_def dict_kvs_def)

lemma dict_ok_nonempty:
  assumes "dict_ok d" "dictSize d \<noteq> 0"
  shows "ht_size_exp (ht0 d) \<noteq> -1"
proof
  assume e: "ht_size_exp (ht0 d) = -1"
  then have "rehashidx d = -1" using assms(1) by (auto simp: dict_ok_def DICTHT_SIZE_def split: if_splits)
  then have "ht_size_exp (ht1 d) = -1" using assms(1) by (simp add: dict_ok_def)
  then show False
    using assms e ht_ok_empty [of "dtype d" "ht0 d"] ht_ok_empty [of "dtype d" "ht1 d"]
    by (simp add: dict_ok_def dictSize_def)
qed

text \<open>The rehash step that opens every operation.\<close>

lemma lookup_rehash:
  assumes "dtype_ok (dtype d)" "dict_ok d"
  obtains d1 where "(if dictIsRehashing d then dictRehashStep cr d else Some d) = Some d1"
    "dict_ok d1" "same_content d d1"
proof (cases "dictIsRehashing d")
  case True
  then show thesis using dictRehashStep_ok [OF assms, of cr] that by (metis (full_types))
next
  case False
  then show thesis using that [of d] assms(2) by simp
qed

lemma same_content_kvs_length: "same_content d d1 \<Longrightarrow> length (dict_kvs d1) = length (dict_kvs d)"
  unfolding same_content_def by (metis size_mset)

lemma dictFind_ok:
  assumes T: "dtype_ok (dtype d)" and ok: "dict_ok d"
  shows "\<exists>r d'. dictFind cr d k = Some (r, d') \<and> dict_ok d' \<and> same_content d d' \<and>
    (case r of None \<Rightarrow> dict_map d k = None
     | Some ref \<Rightarrow> \<exists>e. entry_at d' ref = Some e \<and> key_match (dtype d) k (dictGetKey e) \<and>
                      dict_map d k = Some (dictGetVal e))"
proof (cases "dictSize d = 0")
  case True
  then have "dict_map d k = None" using dictSize_kvs [OF ok] by (simp add: dict_map_def kv_get_None)
  then show ?thesis using True ok by (simp add: dictFind_def)
next
  case False
  obtain d1 where d1: "(if dictIsRehashing d then dictRehashStep cr d else Some d) = Some d1"
    "dict_ok d1" "same_content d d1"
    by (rule lookup_rehash [OF T ok])
  have T1: "dtype_ok (dtype d1)" and ty: "dtype d1 = dtype d" using d1(3) T by (simp_all add: same_content_def)
  have ap: "keys_apart (dtype d) (dict_kvs d)" using ok by (simp add: dict_ok_def)
  have m: "dict_map d1 = dict_map d" by (rule dict_map_same_content [OF T d1(3) ap])
  have "dictSize d1 \<noteq> 0"
    using False same_content_kvs_length [OF d1(3)] dictSize_kvs [OF ok] dictSize_kvs [OF d1(2)] by simp
  then have e0: "ht_size_exp (ht0 d1) \<noteq> -1" by (rule dict_ok_nonempty [OF d1(2)])
  obtain r where r: "dict_search d1 (dictHashKey d1 k) k = Some r"
    "case r of None \<Rightarrow> dict_map d1 k = None
     | Some ref \<Rightarrow> \<exists>e. entry_at d1 ref = Some e \<and> key_match (dtype d1) k (dictGetKey e)"
    using dict_search_ok [OF T1 d1(2) e0, of k] by blast
  have "dictFind cr d k = Some (r, d1)" using False d1(1) r(1) by (simp add: dictFind_def)
  moreover have "case r of None \<Rightarrow> dict_map d k = None
     | Some ref \<Rightarrow> \<exists>e. entry_at d1 ref = Some e \<and> key_match (dtype d) k (dictGetKey e) \<and>
                      dict_map d k = Some (dictGetVal e)"
    using r(2) entry_at_map [OF T1 d1(2), of _ _ k] by (cases r) (auto simp: m ty)
  ultimately show ?thesis using d1(2,3) by blast
qed

section \<open>Changing one bucket\<close>

lemma set_ht_fields [simp]:
  "dtype (set_ht i t d) = dtype d" "pauserehash (set_ht i t d) = pauserehash d"
  "rehashidx (set_ht i t d) = rehashidx d"
  "ht0 (set_ht i t d) = (if i = 0 then t else ht0 d)" "ht1 (set_ht i t d) = (if i = 0 then ht1 d else t)"
  by (simp_all add: set_ht_def)

lemma dict_kvs_set_ht:
  "mset (dict_kvs (set_ht i t d)) + mset (ht_kvs (ht d i)) = mset (dict_kvs d) + mset (ht_kvs t)"
  by (simp add: dict_kvs_def ht_def)

definition set_bucket :: "nat \<Rightarrow> nat \<Rightarrow> ('k, 'v) chain \<Rightarrow> nat \<Rightarrow> ('k, 'v) dict \<Rightarrow> ('k, 'v) dict" where
  "set_bucket i idx b n d =
     set_ht i ((ht d i)\<lparr>ht_table := (ht_table (ht d i))[idx := b], ht_used := n\<rparr>) d"

lemma mset_swap_part:
  fixes A B C D E F :: "'a multiset"
  assumes "A + B = C + D" "D + E = B + F"
  shows "A + E = C + F"
proof -
  have "(A + E) + B = C + (D + E)" using assms(1) by (simp add: ac_simps flip: assms(1))
  also have "\<dots> = (C + F) + B" unfolding assms(2) by (simp add: ac_simps)
  finally show ?thesis by simp
qed

lemma set_bucket_kvs:
  assumes "idx < length (ht_table (ht d i))"
  shows "mset (dict_kvs (set_bucket i idx b n d)) + mset (map kv (ht_table (ht d i) ! idx)) =
    mset (dict_kvs d) + mset (map kv b)"
proof -
  let ?t = "(ht d i)\<lparr>ht_table := (ht_table (ht d i))[idx := b], ht_used := n\<rparr>"
  have a: "mset (ht_kvs ?t) + mset (map kv (ht_table (ht d i) ! idx)) =
      mset (ht_kvs (ht d i)) + mset (map kv b)"
    by (rule ht_kvs_update [OF assms])
  have b: "mset (dict_kvs (set_ht i ?t d)) + mset (ht_kvs (ht d i)) = mset (dict_kvs d) + mset (ht_kvs ?t)"
    by (rule dict_kvs_set_ht)
  show ?thesis unfolding set_bucket_def by (rule mset_swap_part [OF b a])
qed

lemma dict_ok_set_bucket:
  assumes ok: "dict_ok d" and idx: "idx < length (ht_table (ht d i))"
    and b: "bucket_ok (dtype d) (ht d i) idx b"
    and n: "n + length (ht_table (ht d i) ! idx) = ht_used (ht d i) + length b"
    and ap: "keys_apart (dtype d) (dict_kvs (set_bucket i idx b n d))"
    and re: "i = 0 \<Longrightarrow> dictIsRehashing d \<Longrightarrow> ht_table (ht0 d) ! idx \<noteq> []"
  shows "dict_ok (set_bucket i idx b n d)"
proof -
  have t: "ht_ok (dtype d) (ht d i)" using ok by (simp add: dict_ok_def ht_def)
  have t': "ht_ok (dtype d) ((ht d i)\<lparr>ht_table := (ht_table (ht d i))[idx := b], ht_used := n\<rparr>)"
    by (rule ht_ok_update [OF t idx b n])
  have "(ht_table (ht0 d))[idx := b] ! k = []" if "i = 0" "dictIsRehashing d" "k < nat (rehashidx d)" for k
    using ok re that by (cases "k = idx") (auto simp: dict_ok_def dictIsRehashing_def)
  then show ?thesis
    using ok t' ap by (auto simp: dict_ok_def set_bucket_def ht_def dictIsRehashing_def)
qed

lemma entry_atD:
  assumes "entry_at d (i, idx, p) = Some e"
  shows "idx < length (ht_table (ht d i))" "p < length (ht_table (ht d i) ! idx)"
    "e = ht_table (ht d i) ! idx ! p"
  using assms by (auto simp: entry_at_def tbl_get_def split: if_splits bind_splits)

text \<open>How the map changes when one pair is added, exchanged or taken away.\<close>

lemma dict_map_add:
  assumes T: "dtype_ok (dtype d)" and ty: "dtype d' = dtype d"
    and m: "mset (dict_kvs d') = add_mset p (mset (dict_kvs d))"
    and ap: "keys_apart (dtype d) (dict_kvs d')"
  shows "dict_map d' k = (if key_match (dtype d) k (fst p) then Some (snd p) else dict_map d k)"
  using kv_get_mset [OF T ap, of "p # dict_kvs d" k] m by (simp add: dict_map_def ty kv_get_Cons)

lemma keys_apart_add:
  assumes T: "dtype_ok T" and m: "mset kvs' = add_mset p (mset kvs)"
  shows "keys_apart T kvs' \<longleftrightarrow> keys_apart T kvs \<and> kv_get T kvs (fst p) = None"
  using keys_apart_mset [OF T, of kvs' "p # kvs"] m by (simp add: keys_apart_Cons kv_get_None)

lemma dict_map_remove:
  assumes T: "dtype_ok (dtype d)" and ty: "dtype d' = dtype d"
    and m: "mset (dict_kvs d) = add_mset p (mset (dict_kvs d'))"
    and ap: "keys_apart (dtype d) (dict_kvs d)"
  shows "dict_map d' k = (if key_match (dtype d) k (fst p) then None else dict_map d k)"
proof (cases "key_match (dtype d) k (fst p)")
  case True
  have "kv_get (dtype d) (dict_kvs d') (fst p) = None"
    using keys_apart_add [OF T m] ap by simp
  then have no: "\<not> key_match (dtype d) (fst p) (fst q)" if "q \<in> set (dict_kvs d')" for q
    using that by (simp add: kv_get_None)
  have "\<not> key_match (dtype d) k (fst q)" if "q \<in> set (dict_kvs d')" for q
    using key_match_trans [OF T key_match_sym [OF T True]] no [OF that] by blast
  then show ?thesis using True ty by (simp add: dict_map_def kv_get_None)
next
  case False
  have "dict_map d k = (if key_match (dtype d') k (fst p) then Some (snd p) else dict_map d' k)"
    by (rule dict_map_add [OF _ ty [symmetric] m]) (simp_all add: ty T ap)
  then show ?thesis using False ty by simp
qed

subsection \<open>Values\<close>

definition dup_val :: "('k, 'v) dictType \<Rightarrow> 'v \<Rightarrow> 'v" where
  "dup_val T v = (case valDup T of Some f \<Rightarrow> f v | None \<Rightarrow> v)"

definition dup_key :: "('k, 'v) dictType \<Rightarrow> 'k \<Rightarrow> 'k" where
  "dup_key T k = (case keyDup T of Some f \<Rightarrow> f k | None \<Rightarrow> k)"

lemma dup_key_match: "dtype_ok T \<Longrightarrow> key_match T k (dup_key T k)"
  by (auto simp: dup_key_def dtype_ok_def split: option.splits)

lemma mset_update_nth:
  "p < length b \<Longrightarrow> mset (b[p := e]) + {#b ! p#} = mset b + {#e#}"
  by (simp add: mset_update)

lemma dictSetVal_ok:
  assumes T: "dtype_ok (dtype d)" and ok: "dict_ok d"
    and e: "entry_at d ref = Some e" "entryHasValue e"
  shows "\<exists>d'. dictSetVal d ref v = Some d' \<and> dict_ok d' \<and> dtype d' = dtype d \<and>
    pauserehash d' = pauserehash d \<and> dictSize d' = dictSize d \<and>
    (\<forall>k. dict_map d' k = (if key_match (dtype d) k (dictGetKey e) then Some (Some (dup_val (dtype d) v))
                          else dict_map d k))"
proof -
  obtain i idx p where ref: "ref = (i, idx, p)" by (cases ref)
  note at = entry_atD [OF e(1) [unfolded ref]]
  let ?T = "dtype d" and ?b = "ht_table (ht d i) ! idx"
  define e' :: "('a, 'b) dictEntry" where "e' = EntryNormal (dictGetKey e) (Some (dup_val ?T v))"
  define d' where "d' = set_bucket i idx (?b[p := e']) (ht_used (ht d i)) d"
  have e'f: "dictGetKey e' = dictGetKey e" "dictGetVal e' = Some (dup_val ?T v)" "entryIsNormal e'"
    by (simp_all add: e'_def dictGetKey_def dictGetVal_def entryIsNormal_def)
  have run: "dictSetVal d ref v = Some d'"
    using e by (simp add: dictSetVal_def ref d'_def set_bucket_def Let_def e'_def dup_val_def)
  have t: "ht_ok ?T (ht d i)" using ok by (simp add: dict_ok_def ht_def)
  have bk: "bucket_ok ?T (ht d i) idx ?b" by (rule ht_ok_bucket [OF t at(1)])
  have "\<not> no_value ?T"
    using bk at(2,3) e(2) by (auto simp: bucket_ok_def chain_ok_def entryHasValue_def split: if_splits)
  then have bk': "bucket_ok ?T (ht d i) idx (?b[p := e'])"
    using bk at(2,3) e'f by (auto simp: bucket_ok_def chain_ok_def dest: set_update_subset_insert [THEN subsetD])
  have b': "mset (map kv (?b[p := e'])) + {#kv e#} = mset (map kv ?b) + {#kv e'#}"
    using arg_cong [OF mset_update_nth [OF at(2), of e'], of "image_mset kv"] at(3) by simp
  have ms: "mset (dict_kvs d') + {#kv e#} = mset (dict_kvs d) + {#kv e'#}"
    by (rule mset_swap_part [OF _ b']) (use set_bucket_kvs [OF at(1)] in \<open>simp add: d'_def\<close>)
  obtain rest where rest: "mset (dict_kvs d) = add_mset (kv e) (mset rest)"
    using entry_at_kvs [OF e(1)] by (metis in_multiset_in_set ex_mset insert_DiffM)
  have rest': "mset (dict_kvs d') = add_mset (kv e') (mset rest)" using ms rest by simp
  have ap: "keys_apart ?T (dict_kvs d)" using ok by (simp add: dict_ok_def)
  then have ap': "keys_apart ?T (dict_kvs d')"
    using keys_apart_add [OF T rest] keys_apart_add [OF T rest'] e'f by simp
  have ok': "dict_ok d'"
    unfolding d'_def
    by (rule dict_ok_set_bucket [OF ok at(1) bk'])
      (use ap' at(2) in \<open>auto simp: d'_def ht_def split: if_splits\<close>)
  have "kv_get ?T (dict_kvs d') k = (if key_match ?T k (dictGetKey e) then Some (Some (dup_val ?T v))
                          else kv_get ?T (dict_kvs d) k)" for k
    using kv_get_mset [OF T ap, of "kv e # rest" k] kv_get_mset [OF T ap', of "kv e' # rest" k]
      rest rest' e'f by (simp add: kv_get_Cons)
  moreover have "length (dict_kvs d') = length (dict_kvs d)"
    using arg_cong [OF ms, of size] by simp
  moreover have "dtype d' = ?T" "pauserehash d' = pauserehash d" by (simp_all add: d'_def set_bucket_def)
  ultimately show ?thesis
    using run ok' dictSize_kvs [OF ok] dictSize_kvs [OF ok'] by (simp add: dict_map_def)
qed

subsection \<open>Insertion\<close>

lemma dictInsertAtPosition_ok:
  assumes T: "dtype_ok (dtype d)" and ok: "dict_ok d"
    and i: "i = (if dictIsRehashing d then 1 else 0)" and ex: "ht_size_exp (ht d i) \<noteq> -1"
    and idx: "idx = bucket_idx (hashFunction (dtype d) key) (ht d i)"
    and new: "dict_map d key = None"
  shows "\<exists>d' e. dictInsertAtPosition d key (i, idx) = Some ((i, idx, 0), d') \<and> dict_ok d' \<and>
    dtype d' = dtype d \<and> pauserehash d' = pauserehash d \<and>
    mset (dict_kvs d') = add_mset (key, None) (mset (dict_kvs d)) \<and>
    entry_at d' (i, idx, 0) = Some e \<and> dictGetKey e = key \<and> (\<not> no_value (dtype d) \<longrightarrow> entryHasValue e)"
proof -
  let ?T = "dtype d" and ?t = "ht d i" and ?b = "ht_table (ht d i) ! idx"
  have t: "ht_ok ?T ?t" using ok by (simp add: dict_ok_def ht_def)
  define e :: "('a, 'b) dictEntry" where "e = (if no_value ?T then
      if keys_are_odd ?T \<and> ?b = [] then EntryKey key else EntryNoValue key else EntryNormal key None)"
  have ef: "kv e = (key, None)" "dictGetKey e = key" "kind_ok ?T e" "\<not> no_value ?T \<longrightarrow> entryHasValue e"
    "no_value ?T \<Longrightarrow> ?b \<noteq> [] \<Longrightarrow> \<not> entryIsKey e"
    by (simp_all add: e_def entry_kind_defs)
  have hb: "idx = bucket_idx (hashFunction ?T (dictGetKey e)) ?t" using idx ef(2) by simp
  note push = ht_ok_push [OF t ex hb ef(3,5)]
  have le: "idx \<le> unat (DICTHT_SIZE_MASK (ht_size_exp ?t))"
    unfolding idx bucket_idx_def by (rule word_le_nat_alt [THEN iffD1]) (rule word_and_le1)
  define d' where "d' = set_bucket i idx (e # ?b) (ht_used ?t + 1) d"
  have run: "dictInsertAtPosition d key (i, idx) = Some ((i, idx, 0), d')"
    using push(3) le keyLsb_odd [OF T, of key] i
    by (simp add: dictInsertAtPosition_def Let_def tbl_get_def e_def d'_def set_bucket_def)
  have ms: "mset (dict_kvs d') = add_mset (key, None) (mset (dict_kvs d))"
    using set_bucket_kvs [OF push(3), of "e # ?b" "ht_used ?t + 1"] ef(1) by (simp add: d'_def)
  have ap': "keys_apart ?T (dict_kvs d')"
    using keys_apart_add [OF T ms] ok new by (simp add: dict_ok_def dict_map_def)
  have bk: "bucket_ok ?T ?t idx (e # ?b)"
    using ht_ok_bucket [OF t push(3)] chain_ok_push [of ?T ?b e] ef(3,5) hb by (auto simp: bucket_ok_def)
  have "dict_ok d'"
    unfolding d'_def
    by (rule dict_ok_set_bucket [OF ok push(3) bk]) (use ap' i in \<open>auto simp: d'_def\<close>)
  moreover have "entry_at d' (i, idx, 0) = Some e"
    using push(3) by (cases "i = 0") (simp_all add: entry_at_def d'_def set_bucket_def tbl_get_def ht_def)
  ultimately show ?thesis
    using run ms ef by (simp add: d'_def set_bucket_def)
qed

lemma dict_map_match:
  assumes T: "dtype_ok (dtype d)" and m: "key_match (dtype d) a b"
  shows "dict_map d a = dict_map d b"
proof -
  have "key_match (dtype d) a c \<longleftrightarrow> key_match (dtype d) b c" for c
    using key_match_trans [OF T m] key_match_trans [OF T key_match_sym [OF T m]] by blast
  then show ?thesis by (simp add: dict_map_def kv_get_def)
qed

text \<open>
  \<^verbatim>\<open>dictAddRaw\<close> in every state: it never aborts, adds an entry exactly when the key is new, and
  otherwise hands out the existing entry.
\<close>

lemma dictAddRaw_ok:
  assumes T: "dtype_ok (dtype d)" and ok: "dict_ok d" and sz: "dictSize d < 2 ^ 59"
  shows "case dict_map d key of
      None \<Rightarrow> \<exists>ref d' e. dictAddRaw cr d key = Some (Some ref, None, d') \<and> dict_ok d' \<and>
        dtype d' = dtype d \<and> pauserehash d' = pauserehash d \<and>
        mset (dict_kvs d') = add_mset (dup_key (dtype d) key, None) (mset (dict_kvs d)) \<and>
        entry_at d' ref = Some e \<and> dictGetKey e = dup_key (dtype d) key \<and>
        (\<not> no_value (dtype d) \<longrightarrow> entryHasValue e)
    | Some v \<Rightarrow> \<exists>ref d' e. dictAddRaw cr d key = Some (None, Some ref, d') \<and> dict_ok d' \<and>
        same_content d d' \<and> entry_at d' ref = Some e \<and> key_match (dtype d) key (dictGetKey e) \<and>
        dictGetVal e = v"
proof -
  obtain d1 where d1: "(if dictIsRehashing d then dictRehashStep cr d else Some d) = Some d1"
    "dict_ok d1" "same_content d d1"
    by (rule lookup_rehash [OF T ok])
  have "dictSize d1 < 2 ^ 59"
    using sz same_content_kvs_length [OF d1(3)] dictSize_kvs [OF ok] dictSize_kvs [OF d1(2)] by simp
  then obtain d2 where d2: "dictExpandIfNeeded cr d1 = (DICT_OK, d2)" "dict_ok d2" "same_content d1 d2"
    "ht_size_exp (ht0 d2) \<noteq> -1"
    by (rule dictExpandIfNeeded_ok [OF d1(2)])
  have sc: "same_content d d2" by (rule same_content_trans [OF d1(3) d2(3)])
  then have ty: "dtype d2 = dtype d" and T2: "dtype_ok (dtype d2)" using T by (simp_all add: same_content_def)
  have ap: "keys_apart (dtype d) (dict_kvs d)" using ok by (simp add: dict_ok_def)
  have m: "dict_map d2 = dict_map d" by (rule dict_map_same_content [OF T sc ap])
  have h: "dictHashKey d key = dictHashKey d2 key" by (simp add: dictHashKey_def ty)
  obtain r where r: "dict_search d2 (dictHashKey d2 key) key = Some r"
    "case r of None \<Rightarrow> dict_map d2 key = None
     | Some ref \<Rightarrow> \<exists>e. entry_at d2 ref = Some e \<and> key_match (dtype d2) key (dictGetKey e)"
    using dict_search_ok [OF T2 d2(2,4), of key] by blast
  have pos: "dictFindPositionForInsert cr d key = Some (case r of
      Some ex \<Rightarrow> (None, Some ex, d2)
    | None \<Rightarrow> (Some (if dictIsRehashing d2 then 1 else 0,
        bucket_idx (hashFunction (dtype d) key) (ht d2 (if dictIsRehashing d2 then 1 else 0))), None, d2))"
    using d1(1) d2(1) r(1)
    by (simp add: dictFindPositionForInsert_def Let_def h ty [symmetric] dictHashKey_def split: option.splits)
  show ?thesis
  proof (cases r)
    case (Some ref)
    then obtain e where e: "entry_at d2 ref = Some e" "key_match (dtype d2) key (dictGetKey e)"
      using r(2) by auto
    have "dict_map d key = Some (dictGetVal e)" using entry_at_map [OF T2 d2(2) e] m by simp
    then show ?thesis using pos Some e d2(2) sc ty by (simp add: dictAddRaw_def)
  next
    case None
    let ?i = "if dictIsRehashing d2 then 1 else 0 :: nat" and ?k = "dup_key (dtype d) key"
    let ?idx = "bucket_idx (hashFunction (dtype d) key) (ht d2 ?i)"
    have km: "key_match (dtype d2) key ?k" unfolding ty by (rule dup_key_match [OF T])
    have nk: "dict_map d2 ?k = None" using dict_map_match [OF T2 km] r(2) None by simp
    have ex: "ht_size_exp (ht d2 ?i) \<noteq> -1"
      using d2(2,4) by (simp add: ht_def dict_ok_def dictIsRehashing_def)
    have "?idx = bucket_idx (hashFunction (dtype d2) ?k) (ht d2 ?i)"
      using key_match_hash [OF T2 km] ty by simp
    from dictInsertAtPosition_ok [OF T2 d2(2) refl ex this nk]
    obtain d' e where ins: "dictInsertAtPosition d2 ?k (?i, ?idx) = Some ((?i, ?idx, 0), d')" "dict_ok d'"
      "dtype d' = dtype d2" "pauserehash d' = pauserehash d2"
      "mset (dict_kvs d') = add_mset (?k, None) (mset (dict_kvs d2))"
      "entry_at d' (?i, ?idx, 0) = Some e" "dictGetKey e = ?k" "\<not> no_value (dtype d2) \<longrightarrow> entryHasValue e"
      by blast
    have "dictAddRaw cr d key = Some (Some (?i, ?idx, 0), None, d')"
      using pos None ins(1) by (simp add: dictAddRaw_def ty flip: dup_key_def)
    moreover have "dict_map d key = None" using m r(2) None by simp
    ultimately show ?thesis
      using ins(2-) sc ty by (auto simp: same_content_def)
  qed
qed

section \<open>The operations on the map\<close>

text \<open>Update and removal in a map over keys up to the comparison of the type.\<close>

definition map_put ::
  "('k, 'v) dictType \<Rightarrow> 'k \<Rightarrow> 'w \<Rightarrow> ('k \<Rightarrow> 'w option) \<Rightarrow> 'k \<Rightarrow> 'w option" where
  "map_put T key v m = (\<lambda>k. if key_match T k key then Some v else m k)"

definition map_del :: "('k, 'v) dictType \<Rightarrow> 'k \<Rightarrow> ('k \<Rightarrow> 'w option) \<Rightarrow> 'k \<Rightarrow> 'w option" where
  "map_del T key m = (\<lambda>k. if key_match T k key then None else m k)"

lemma key_match_cong:
  assumes T: "dtype_ok T" and m: "key_match T a b"
  shows "key_match T k a \<longleftrightarrow> key_match T k b"
  using key_match_trans [OF T _ m] key_match_trans [OF T _ key_match_sym [OF T m]] by blast

lemma key_match_dup: "dtype_ok T \<Longrightarrow> key_match T k (dup_key T key) \<longleftrightarrow> key_match T k key"
  using key_match_cong [OF _ dup_key_match, of T k key] by simp

lemma same_content_map:
  assumes "dtype_ok (dtype d)" "dict_ok d" "same_content d d'"
  shows "dict_map d' = dict_map d"
  using dict_map_same_content [OF assms(1,3)] assms(2) by (simp add: dict_ok_def)

lemma same_content_dictSize:
  "dict_ok d \<Longrightarrow> dict_ok d' \<Longrightarrow> same_content d d' \<Longrightarrow> dictSize d' = dictSize d"
  by (simp add: dictSize_kvs same_content_kvs_length)

text \<open>What an operation may change besides the content: nothing of the type and the pause counter.\<close>

definition framed :: "('k, 'v) dict \<Rightarrow> ('k, 'v) dict \<Rightarrow> bool" where
  "framed d d' \<longleftrightarrow> dict_ok d' \<and> dtype d' = dtype d \<and> pauserehash d' = pauserehash d"

lemma framed_same_content: "dict_ok d' \<Longrightarrow> same_content d d' \<Longrightarrow> framed d d'"
  by (simp add: framed_def same_content_def)

lemma dictAddRaw_new:
  assumes T: "dtype_ok (dtype d)" and ok: "dict_ok d" and sz: "dictSize d < 2 ^ 59"
    and new: "dict_map d key = None"
  obtains ref d' e where "dictAddRaw cr d key = Some (Some ref, None, d')" "framed d d'"
    "dict_map d' = map_put (dtype d) key None (dict_map d)" "dictSize d' = dictSize d + 1"
    "entry_at d' ref = Some e" "dictGetKey e = dup_key (dtype d) key"
    "\<not> no_value (dtype d) \<longrightarrow> entryHasValue e"
proof -
  obtain ref d' e where r: "dictAddRaw cr d key = Some (Some ref, None, d')" "dict_ok d'"
    "dtype d' = dtype d" "pauserehash d' = pauserehash d"
    "mset (dict_kvs d') = add_mset (dup_key (dtype d) key, None) (mset (dict_kvs d))"
    "entry_at d' ref = Some e" "dictGetKey e = dup_key (dtype d) key"
    "\<not> no_value (dtype d) \<longrightarrow> entryHasValue e"
    using dictAddRaw_ok [OF T ok sz, of cr key, unfolded new option.case] by blast
  have ap: "keys_apart (dtype d) (dict_kvs d')" using r(2,3) by (simp add: dict_ok_def)
  have "dict_map d' = map_put (dtype d) key None (dict_map d)"
    using dict_map_add [OF T r(3,5) ap] by (auto simp: map_put_def key_match_dup [OF T])
  moreover have "dictSize d' = dictSize d + 1"
    using arg_cong [OF r(5), of size] dictSize_kvs [OF ok] dictSize_kvs [OF r(2)] by simp
  ultimately show thesis using that r(1-4,6-) by (simp add: framed_def)
qed

lemma dictAddRaw_existing:
  assumes T: "dtype_ok (dtype d)" and ok: "dict_ok d" and sz: "dictSize d < 2 ^ 59"
    and ex: "dict_map d key = Some v"
  obtains ref d' e where "dictAddRaw cr d key = Some (None, Some ref, d')" "framed d d'"
    "dict_map d' = dict_map d" "dictSize d' = dictSize d"
    "entry_at d' ref = Some e" "key_match (dtype d) key (dictGetKey e)" "dictGetVal e = v"
proof -
  obtain ref d' e where r: "dictAddRaw cr d key = Some (None, Some ref, d')" "dict_ok d'"
    "same_content d d'" "entry_at d' ref = Some e" "key_match (dtype d) key (dictGetKey e)"
    "dictGetVal e = v"
    using dictAddRaw_ok [OF T ok sz, of cr key, unfolded ex option.case] by blast
  show thesis
    using that r framed_same_content [OF r(2,3)] same_content_map [OF T ok r(3)]
      same_content_dictSize [OF ok r(2,3)] by simp
qed

lemma framed_dtype: "framed d d' \<Longrightarrow> dtype d' = dtype d" and framed_ok: "framed d d' \<Longrightarrow> dict_ok d'"
  by (simp_all add: framed_def)

lemma framed_trans: "framed a b \<Longrightarrow> framed b c \<Longrightarrow> framed a c"
  by (simp add: framed_def)

lemma dictSetVal_framed:
  assumes "dtype_ok (dtype d)" "dict_ok d" "entry_at d ref = Some e" "entryHasValue e"
    and "key_match (dtype d) key (dictGetKey e)"
  obtains d' where "dictSetVal d ref v = Some d'" "framed d d'" "dictSize d' = dictSize d"
    "dict_map d' = map_put (dtype d) key (Some (dup_val (dtype d) v)) (dict_map d)"
proof -
  obtain d' where r: "dictSetVal d ref v = Some d'" "dict_ok d'" "dtype d' = dtype d"
    "pauserehash d' = pauserehash d" "dictSize d' = dictSize d"
    "\<forall>k. dict_map d' k = (if key_match (dtype d) k (dictGetKey e) then Some (Some (dup_val (dtype d) v))
                          else dict_map d k)"
    using dictSetVal_ok [OF assms(1-4), of v] by (elim exE conjE) (rule that; assumption)
  have "dict_map d' = map_put (dtype d) key (Some (dup_val (dtype d) v)) (dict_map d)"
    by (rule ext) (simp add: map_put_def r(6) key_match_cong [OF assms(1,5)])
  then show thesis using that r(1-5) by (simp add: framed_def)
qed

lemma map_put_put [simp]: "map_put T k v (map_put T k w m) = map_put T k v m"
  by (auto simp: map_put_def)

lemma dictAdd_ok:
  assumes T: "dtype_ok (dtype d)" and ok: "dict_ok d" and sz: "dictSize d < 2 ^ 59"
  obtains d' where "framed d d'"
    "dictAdd cr d key v = Some (if dict_map d key = None then DICT_OK else DICT_ERR, d')"
    "dict_map d' = (if dict_map d key = None
       then map_put (dtype d) key (if no_value (dtype d) then None else Some (dup_val (dtype d) v)) (dict_map d)
       else dict_map d)"
    "dictSize d' = dictSize d + (if dict_map d key = None then 1 else 0)"
proof (cases "dict_map d key")
  case (Some w)
  obtain ref d' e where "dictAddRaw cr d key = Some (None, Some ref, d')" "framed d d'"
    "dict_map d' = dict_map d" "dictSize d' = dictSize d"
    by (rule dictAddRaw_existing [OF T ok sz Some])
  then show thesis using that [of d'] Some by (simp add: dictAdd_def)
next
  case None
  obtain ref d1 e where a: "dictAddRaw cr d key = Some (Some ref, None, d1)" "framed d d1"
    "dict_map d1 = map_put (dtype d) key None (dict_map d)" "dictSize d1 = dictSize d + 1"
    "entry_at d1 ref = Some e" "dictGetKey e = dup_key (dtype d) key"
    "\<not> no_value (dtype d) \<longrightarrow> entryHasValue e"
    by (rule dictAddRaw_new [OF T ok sz None])
  have ty: "dtype d1 = dtype d" by (rule framed_dtype [OF a(2)])
  show thesis
  proof (cases "no_value (dtype d)")
    case True
    then show thesis using that [OF a(2)] a None ty by (simp add: dictAdd_def)
  next
    case False
    have T1: "dtype_ok (dtype d1)" using T ty by simp
    have hv: "entryHasValue e" and km: "key_match (dtype d1) key (dictGetKey e)"
      using a(6,7) False dup_key_match [OF T] ty by simp_all
    obtain d' where s: "dictSetVal d1 ref v = Some d'" "framed d1 d'" "dictSize d' = dictSize d1"
      "dict_map d' = map_put (dtype d1) key (Some (dup_val (dtype d1) v)) (dict_map d1)"
      by (rule dictSetVal_framed [OF T1 framed_ok [OF a(2)] a(5) hv km])
    show thesis
      using that [OF framed_trans [OF a(2) s(2)]] a s False None ty by (simp add: dictAdd_def)
  qed
qed

lemma dict_entries_have_value:
  assumes "dict_ok d" "entry_at d ref = Some e" "\<not> no_value (dtype d)"
  shows "entryHasValue e"
proof -
  obtain i idx p where ref: "ref = (i, idx, p)" by (cases ref)
  note at = entry_atD [OF assms(2) [unfolded ref]]
  have "ht_ok (dtype d) (ht d i)" using assms(1) by (simp add: dict_ok_def ht_def)
  then have "chain_ok (dtype d) (ht_table (ht d i) ! idx)"
    using ht_ok_bucket [OF _ at(1)] by (simp add: bucket_ok_def)
  then show ?thesis using at assms(3) by (auto simp: chain_ok_def entryHasValue_def)
qed

lemma dictReplace_ok:
  assumes T: "dtype_ok (dtype d)" and ok: "dict_ok d" and sz: "dictSize d < 2 ^ 59"
    and nv: "\<not> no_value (dtype d)" and init: "dict_map d key \<noteq> Some None"
  obtains d' where "framed d d'"
    "dictReplace cr d key v =
       Some (dict_map d key = None, case dict_map d key of None \<Rightarrow> None | Some w \<Rightarrow> w, d')"
    "dict_map d' = map_put (dtype d) key (Some (dup_val (dtype d) v)) (dict_map d)"
    "dictSize d' = dictSize d + (if dict_map d key = None then 1 else 0)"
proof (cases "dict_map d key")
  case None
  obtain ref d1 e where a: "dictAddRaw cr d key = Some (Some ref, None, d1)" "framed d d1"
    "dict_map d1 = map_put (dtype d) key None (dict_map d)" "dictSize d1 = dictSize d + 1"
    "entry_at d1 ref = Some e" "dictGetKey e = dup_key (dtype d) key"
    "\<not> no_value (dtype d) \<longrightarrow> entryHasValue e"
    by (rule dictAddRaw_new [OF T ok sz None])
  have ty: "dtype d1 = dtype d" by (rule framed_dtype [OF a(2)])
  have T1: "dtype_ok (dtype d1)" using T ty by simp
  have hv: "entryHasValue e" and km: "key_match (dtype d1) key (dictGetKey e)"
    using a(6,7) nv dup_key_match [OF T] ty by simp_all
  obtain d' where s: "dictSetVal d1 ref v = Some d'" "framed d1 d'" "dictSize d' = dictSize d1"
    "dict_map d' = map_put (dtype d1) key (Some (dup_val (dtype d1) v)) (dict_map d1)"
    by (rule dictSetVal_framed [OF T1 framed_ok [OF a(2)] a(5) hv km])
  show thesis
    using that [OF framed_trans [OF a(2) s(2)]] a s None ty by (simp add: dictReplace_def)
next
  case (Some w)
  obtain ref d1 e where a: "dictAddRaw cr d key = Some (None, Some ref, d1)" "framed d d1"
    "dict_map d1 = dict_map d" "dictSize d1 = dictSize d"
    "entry_at d1 ref = Some e" "key_match (dtype d) key (dictGetKey e)" "dictGetVal e = w"
    by (rule dictAddRaw_existing [OF T ok sz Some])
  have ty: "dtype d1 = dtype d" by (rule framed_dtype [OF a(2)])
  have T1: "dtype_ok (dtype d1)" using T ty by simp
  have hv: "entryHasValue e" and km: "key_match (dtype d1) key (dictGetKey e)"
    using dict_entries_have_value [OF framed_ok [OF a(2)] a(5)] nv a(6) ty by simp_all
  obtain d' where s: "dictSetVal d1 ref v = Some d'" "framed d1 d'" "dictSize d' = dictSize d1"
    "dict_map d' = map_put (dtype d1) key (Some (dup_val (dtype d1) v)) (dict_map d1)"
    by (rule dictSetVal_framed [OF T1 framed_ok [OF a(2)] a(5) hv km])
  obtain u where "w = Some u" using init Some by auto
  then show thesis
    using that [OF framed_trans [OF a(2) s(2)]] a s Some ty by (simp add: dictReplace_def)
qed

lemma dictFetchValue_ok:
  assumes T: "dtype_ok (dtype d)" and ok: "dict_ok d" and init: "dict_map d key \<noteq> Some None"
  obtains d' where "framed d d'" "dict_map d' = dict_map d" "dictSize d' = dictSize d"
    "dictFetchValue cr d key = Some (case dict_map d key of None \<Rightarrow> None | Some w \<Rightarrow> w, d')"
proof -
  obtain r d' where f: "dictFind cr d key = Some (r, d')" "dict_ok d'" "same_content d d'"
    "case r of None \<Rightarrow> dict_map d key = None
     | Some ref \<Rightarrow> \<exists>e. entry_at d' ref = Some e \<and> key_match (dtype d) key (dictGetKey e) \<and>
                      dict_map d key = Some (dictGetVal e)"
    using dictFind_ok [OF T ok, of cr key] by blast
  have "dictFetchValue cr d key = Some (case dict_map d key of None \<Rightarrow> None | Some w \<Rightarrow> w, d')"
    using f(1,4) init by (cases r) (auto simp: dictFetchValue_def)
  then show thesis
    using that framed_same_content [OF f(2,3)] same_content_map [OF T ok f(3)]
      same_content_dictSize [OF ok f(2,3)] by simp
qed

section \<open>Removal\<close>

lemma mset_remove_nth: "p < length b \<Longrightarrow> mset (remove_nth p b) + {#b ! p#} = mset b"
proof -
  assume p: "p < length b"
  have "mset b = mset (take p b @ b ! p # drop (Suc p) b)" using id_take_nth_drop [OF p] by simp
  then show ?thesis by (simp add: remove_nth_def)
qed

lemma length_remove_nth: "p < length b \<Longrightarrow> length (remove_nth p b) = length b - 1"
  by (simp add: remove_nth_def)

lemma set_remove_nth: "set (remove_nth p b) \<subseteq> set b"
  using set_take_subset [of p b] set_drop_subset [of "Suc p" b] by (auto simp: remove_nth_def)

lemma butlast_remove_nth:
  assumes "p < length b"
  shows "set (butlast (remove_nth p b)) \<subseteq> set (butlast b)"
proof (cases "Suc p < length b")
  case True
  then have "butlast (remove_nth p b) = take p b @ butlast (drop (Suc p) b)"
    by (simp add: remove_nth_def butlast_append)
  also have "\<dots> = take p (butlast b) @ drop (Suc p) (butlast b)"
    using True by (simp add: butlast_drop take_butlast)
  finally show ?thesis using set_take_subset [of p "butlast b"] set_drop_subset [of "Suc p" "butlast b"] by auto
next
  case False
  then have "p = length b - 1" using assms by simp
  then have "remove_nth p b = butlast b" using assms by (simp add: remove_nth_def butlast_conv_take)
  then show ?thesis by (metis in_set_butlastD subsetI)
qed

lemma unlink_at_ok:
  assumes T: "dtype_ok (dtype d)" and ok: "dict_ok d" and e: "entry_at d ref = Some e"
  shows "framed d (unlink_at d ref)"
    "dict_map (unlink_at d ref) = map_del (dtype d) (dictGetKey e) (dict_map d)"
    "mset (dict_kvs d) = add_mset (kv e) (mset (dict_kvs (unlink_at d ref)))"
    "dictSize d = dictSize (unlink_at d ref) + 1"
proof -
  obtain i idx p where ref: "ref = (i, idx, p)" by (cases ref)
  note at = entry_atD [OF e [unfolded ref]]
  let ?T = "dtype d" and ?b = "ht_table (ht d i) ! idx"
  define d' where "d' = set_bucket i idx (remove_nth p ?b) (ht_used (ht d i) - 1) d"
  have d': "unlink_at d ref = d'" by (simp add: unlink_at_def ref d'_def set_bucket_def Let_def)
  have t: "ht_ok ?T (ht d i)" using ok by (simp add: dict_ok_def ht_def)
  have bk: "bucket_ok ?T (ht d i) idx ?b" by (rule ht_ok_bucket [OF t at(1)])
  have bk': "bucket_ok ?T (ht d i) idx (remove_nth p ?b)"
    using bk set_remove_nth [of p ?b] butlast_remove_nth [OF at(2)]
    unfolding bucket_ok_def chain_ok_def by (auto split: if_splits)
  have len: "length ?b \<le> ht_used (ht d i)"
    using length_concat_update [OF at(1), of "[]"] t by (simp add: ht_ok_def)
  have rm: "mset (map kv (remove_nth p ?b)) + {#kv e#} = mset (map kv ?b)"
    using arg_cong [OF mset_remove_nth [OF at(2)], of "image_mset kv"] at(3) by simp
  have "mset (dict_kvs d') + {#kv e#} = mset (dict_kvs d) + {#}"
    by (rule mset_swap_part [of _ "mset (map kv ?b)" _ "mset (map kv (remove_nth p ?b))"])
      (use set_bucket_kvs [OF at(1)] rm in \<open>simp_all add: d'_def\<close>)
  then show ms: "mset (dict_kvs d) = add_mset (kv e) (mset (dict_kvs (unlink_at d ref)))"
    by (simp add: d')
  have ap: "keys_apart ?T (dict_kvs d)" using ok by (simp add: dict_ok_def)
  then have ap': "keys_apart ?T (dict_kvs d')" using keys_apart_add [OF T ms] d' by simp
  have "dict_ok d'"
    unfolding d'_def
    by (rule dict_ok_set_bucket [OF ok at(1) bk'])
      (use ap' at(2) len length_remove_nth [OF at(2)] in \<open>auto simp: d'_def ht_def split: if_splits\<close>)
  then show fr: "framed d (unlink_at d ref)" by (simp add: framed_def d') (simp add: d'_def set_bucket_def)
  show "dict_map (unlink_at d ref) = map_del ?T (dictGetKey e) (dict_map d)"
    using dict_map_remove [OF T framed_dtype [OF fr] ms ap] by (auto simp: map_del_def)
  show "dictSize d = dictSize (unlink_at d ref) + 1"
    using arg_cong [OF ms, of size] dictSize_kvs [OF ok] dictSize_kvs [OF framed_ok [OF fr]] by simp
qed

lemma map_del_cong:
  "dtype_ok T \<Longrightarrow> key_match T a b \<Longrightarrow> map_del T b m = map_del T a m"
  by (rule ext) (simp add: map_del_def key_match_cong [of T a b])

lemma map_del_absent:
  assumes "dtype_ok (dtype d)" "dict_map d key = None"
  shows "map_del (dtype d) key (dict_map d) = dict_map d"
proof (rule ext)
  fix k
  show "map_del (dtype d) key (dict_map d) k = dict_map d k"
    using dict_map_match [OF assms(1), of k key] assms(2) by (simp add: map_del_def)
qed

text \<open>The released or returned entry holds the value the key had.\<close>

lemma dictGenericDelete_ok:
  assumes T: "dtype_ok (dtype d)" and ok: "dict_ok d"
  obtains r d' where "framed d d'" "dictGenericDelete cr d key = Some (r, d')"
    "dict_map d' = map_del (dtype d) key (dict_map d)"
    "map_option dictGetVal r = dict_map d key"
    "dictSize d = dictSize d' + (if dict_map d key = None then 0 else 1)"
proof (cases "dictSize d = 0")
  case True
  then have "dict_map d key = None" using dictSize_kvs [OF ok] by (simp add: dict_map_def kv_get_None)
  then show thesis
    using that [of d None] True ok map_del_absent [OF T] by (simp add: dictGenericDelete_def framed_def)
next
  case False
  obtain r d1 where f: "dictFind cr d key = Some (r, d1)" "dict_ok d1" "same_content d d1"
    "case r of None \<Rightarrow> dict_map d key = None
     | Some ref \<Rightarrow> \<exists>e. entry_at d1 ref = Some e \<and> key_match (dtype d) key (dictGetKey e) \<and>
                      dict_map d key = Some (dictGetVal e)"
    using dictFind_ok [OF T ok, of cr key] by blast
  note fr = framed_same_content [OF f(2,3)] and m = same_content_map [OF T ok f(3)]
    and sz = same_content_dictSize [OF ok f(2,3)]
  have gen: "dictGenericDelete cr d key =
      (case r of None \<Rightarrow> Some (None, d1)
       | Some ref \<Rightarrow> do { he \<leftarrow> entry_at d1 ref; Some (Some he, unlink_at d1 ref) })"
    using f(1) False
    by (cases "dictIsRehashing d") (auto simp: dictGenericDelete_def dictFind_def split: bind_splits)
  show thesis
  proof (cases r)
    case None
    then show thesis
      using that [OF fr, of None] gen f(4) m sz map_del_absent [OF T] by simp
  next
    case (Some ref)
    then obtain e where e: "entry_at d1 ref = Some e" "key_match (dtype d) key (dictGetKey e)"
      "dict_map d key = Some (dictGetVal e)" using f(4) by auto
    have ty: "dtype d1 = dtype d" by (rule framed_dtype [OF fr])
    have T1: "dtype_ok (dtype d1)" using T ty by simp
    note u = unlink_at_ok [OF T1 f(2) e(1)]
    show thesis
      using that [OF framed_trans [OF fr u(1)], of "Some e"] gen Some e u(2,4) m sz ty
        map_del_cong [OF T e(2), of "dict_map d"] by simp
  qed
qed

lemma dict_map_pause [simp]: "dict_map (d\<lparr>pauserehash := n\<rparr>) = dict_map d"
  by (rule ext) (simp add: dict_map_def dict_kvs_def)

lemma dictSize_pause [simp]:
  "dictSize (dictPauseRehashing d) = dictSize d" "dictSize (dictResumeRehashing d) = dictSize d"
  by (simp_all add: dictSize_def dictPauseRehashing_def dictResumeRehashing_def)

lemma dictTwoPhaseUnlink_ok:
  assumes T: "dtype_ok (dtype d)" and ok: "dict_ok d"
  obtains r d1 es d' where "dictTwoPhaseUnlinkFind cr d key = Some (r, d1)" "dict_ok d1"
    "pauserehash d1 = pauserehash d + (if dict_map d key = None then 0 else 1)"
    "dictTwoPhaseUnlinkFree d1 r = Some (es, d')" "framed d d'"
    "dict_map d' = map_del (dtype d) key (dict_map d)"
    "map dictGetVal es = (case dict_map d key of None \<Rightarrow> [] | Some v \<Rightarrow> [v])"
    "r = None \<longleftrightarrow> dict_map d key = None"
    "dictSize d = dictSize d' + (if dict_map d key = None then 0 else 1)"
proof (cases "dictSize d = 0")
  case True
  then have "dict_map d key = None" using dictSize_kvs [OF ok] by (simp add: dict_map_def kv_get_None)
  then show thesis
    using that [of None d] True ok map_del_absent [OF T]
    by (simp add: dictTwoPhaseUnlinkFind_def dictTwoPhaseUnlinkFree_def framed_def)
next
  case False
  obtain r d1 where f: "dictFind cr d key = Some (r, d1)" "dict_ok d1" "same_content d d1"
    "case r of None \<Rightarrow> dict_map d key = None
     | Some ref \<Rightarrow> \<exists>e. entry_at d1 ref = Some e \<and> key_match (dtype d) key (dictGetKey e) \<and>
                      dict_map d key = Some (dictGetVal e)"
    using dictFind_ok [OF T ok, of cr key] by blast
  note fr = framed_same_content [OF f(2,3)] and m = same_content_map [OF T ok f(3)]
  have gen: "dictTwoPhaseUnlinkFind cr d key =
      Some (r, case r of None \<Rightarrow> d1 | Some _ \<Rightarrow> dictPauseRehashing d1)"
    using f(1) False
    by (cases "dictIsRehashing d")
      (auto simp: dictTwoPhaseUnlinkFind_def dictFind_def split: bind_splits option.splits)
  show thesis
  proof (cases r)
    case None
    then show thesis
      using that [OF gen] fr f(2,4) m map_del_absent [OF T] same_content_dictSize [OF ok f(2,3)]
      by (simp add: dictTwoPhaseUnlinkFree_def framed_def)
  next
    case (Some ref)
    then obtain e where e: "entry_at d1 ref = Some e" "key_match (dtype d) key (dictGetKey e)"
      "dict_map d key = Some (dictGetVal e)" using f(4) by auto
    let ?p = "dictPauseRehashing d1"
    have ty: "dtype d1 = dtype d" by (rule framed_dtype [OF fr])
    have p: "dict_ok ?p" "dtype ?p = dtype d" "dict_map ?p = dict_map d" "entry_at ?p ref = Some e"
      "pauserehash ?p = pauserehash d + 1"
      using f(2) fr e(1) m
      by (auto simp: dictPauseRehashing_def dict_ok_def dict_kvs_def entry_at_def ht_def
          framed_def split: prod.splits)
    have Tp: "dtype_ok (dtype ?p)" using T p(2) by simp
    note u = unlink_at_ok [OF Tp p(1,4)]
    have res: "dict_ok (dictResumeRehashing x) \<longleftrightarrow> dict_ok x"
      "dict_map (dictResumeRehashing x) = dict_map x" if "0 < pauserehash x" for x :: "('a, 'b) dict"
      using that by (simp_all add: dictResumeRehashing_def dict_ok_def dict_kvs_def)
    have up: "pauserehash (unlink_at ?p ref) = pauserehash d + 1" "0 \<le> pauserehash d"
      using u(1) p(5) ok by (simp_all add: framed_def dict_ok_def)
    have "framed d (dictResumeRehashing (unlink_at ?p ref))"
      using u(1) up p(2) res(1) [of "unlink_at ?p ref"] by (simp add: framed_def dictResumeRehashing_def)
    moreover have "dictTwoPhaseUnlinkFree ?p r = Some ([e], dictResumeRehashing (unlink_at ?p ref))"
      using Some p(4) by (simp add: dictTwoPhaseUnlinkFree_def)
    ultimately show thesis
      using that [OF gen] p(1,5) u(2) up p(2,3) res(2) [of "unlink_at ?p ref"] e Some
        map_del_cong [OF T e(2), of "dict_map d"] u(4) same_content_dictSize [OF ok f(2,3)] by simp
  qed
qed

text \<open>\<^verbatim>\<open>_dictClear\<close> stops early only on an empty rest: every entry is released, once.\<close>

lemma dictClear_loop_all: "used = length (concat tbl) \<Longrightarrow> dictClear_loop tbl used = concat tbl"
  by (induction tbl arbitrary: used) (auto simp: concat_eq_Nil_conv)

lemma dictEmpty_ok:
  assumes "dict_ok d"
  shows "dictEmpty d = (concat (ht_table (ht0 d)) @ concat (ht_table (ht1 d)), dictCreate (dtype d))"
proof -
  have "dictClear_loop (ht_table (ht d i)) (ht_used (ht d i)) = concat (ht_table (ht d i))" for i
    using assms by (intro dictClear_loop_all) (auto simp: dict_ok_def ht_ok_def ht_def)
  from this [of 0] this [of 1] show ?thesis
    by (simp add: dictEmpty_def dictClear_def dictCreate_def ht_def set_ht_def)
qed

lemma dict_ok_create: "dict_ok (dictCreate T)"
  by (simp add: dict_ok_def dictCreate_def dict_kvs_def ht_kvs_def) (simp add: dictReset_def)

lemma dict_map_create: "dict_map (dictCreate T) = (\<lambda>k. None)"
  by (auto simp: dict_map_def dictCreate_def dict_kvs_def ht_kvs_def dictReset_def kv_get_def)

lemma dictSize_create: "dictSize (dictCreate T) = 0"
  by (simp add: dictSize_def dictCreate_def dictReset_def)

end
