(* ===== verification/Dict_Scan.thy ===== *)
theory Dict_Scan
  imports Dict_Ops
begin

text \<open>
  The stateless iteration of \<^verbatim>\<open>dictScan\<close> and the iterators. Reversing the bits of a hash places every
  key at a point of the line \<open>[0, 2\<^sup>6\<^sup>4)\<close>, on which a bucket of a table of any size is an interval; a
  call visits everything from the point of the cursor to the end of an interval, and returns that
  end as the new cursor. This is why a scan misses no key that stays in the dictionary, whatever
  resizing happens between the calls.
\<close>

section \<open>Definitions\<close>

text \<open>\<^verbatim>\<open>rev\<close>: bits reversed by swapping ever smaller halves.\<close>

function rev_loop :: "nat \<Rightarrow> 64 word \<Rightarrow> 64 word \<Rightarrow> 64 word" where
  "rev_loop s msk v =
     (let s = s div 2 in
      if s > 0 then
        let msk = msk XOR push_bit s msk;
            v = (drop_bit s v AND msk) OR (push_bit s v AND NOT msk)
        in rev_loop s msk v
      else v)"
  by pat_completeness auto
termination by (relation "measure (\<lambda>(s, _, _). s)") auto

declare rev_loop.simps [simp del]

definition rev_ul :: "64 word \<Rightarrow> 64 word" where
  "rev_ul v = rev_loop 64 (NOT 0) v"

text \<open>Incrementing the reversed cursor above the mask \<open>m\<close>.\<close>

definition scan_next :: "64 word \<Rightarrow> 64 word \<Rightarrow> 64 word" where
  "scan_next v m = (let v = v OR NOT m; v = rev_ul v; v = v + 1 in rev_ul v)"

text \<open>The loop over the indices of the larger table that expand the cursor; the chains are emitted in order.\<close>

partial_function (option) dictScan_loop ::
  "('k, 'v) dictht \<Rightarrow> 64 word \<Rightarrow> 64 word \<Rightarrow> 64 word \<Rightarrow> (('k, 'v) chain \<times> 64 word) option" where
  "dictScan_loop t m0 m1 v =
     do {
       b \<leftarrow> tbl_get (ht_table t) (unat (v AND m1));
       let v = scan_next v m1;
       if v AND (m0 XOR m1) \<noteq> 0 then do {
         (es, v) \<leftarrow> dictScan_loop t m0 m1 v;
         Some (b @ es, v)
       }
       else Some (b, v)
     }"

text \<open>
  \<^verbatim>\<open>dictScan\<close>: the entries the callback is called with, and the next cursor. Rehashing is paused during
  the call and resumed at its end, so the dictionary itself does not change; the callback does not
  change it either.
\<close>

definition dictScan ::
  "('k, 'v) dict \<Rightarrow> 64 word \<Rightarrow> (('k, 'v) chain \<times> 64 word) option" where
  "dictScan d v =
     (if dictSize d = 0 then Some ([], 0)
      else if \<not> dictIsRehashing d then
        let m0 = DICTHT_SIZE_MASK (ht_size_exp (ht0 d))
        in do {
          b \<leftarrow> tbl_get (ht_table (ht0 d)) (unat (v AND m0));
          Some (b, scan_next v m0)
        }
      else
        let (t0, t1) = (if DICTHT_SIZE (ht_size_exp (ht0 d)) > DICTHT_SIZE (ht_size_exp (ht1 d))
                        then (ht1 d, ht0 d) else (ht0 d, ht1 d));
            m0 = DICTHT_SIZE_MASK (ht_size_exp t0);
            m1 = DICTHT_SIZE_MASK (ht_size_exp t1)
        in do {
          b \<leftarrow> tbl_get (ht_table t0) (unat (v AND m0));
          (es, v) \<leftarrow> dictScan_loop t1 m0 m1 v;
          Some (b @ es, v)
        })"

section \<open>Bit reversal\<close>

text \<open>Bit \<open>n\<close> comes from the other half of its block of \<open>2 * s\<close> bits.\<close>

definition swap_half :: "nat \<Rightarrow> nat \<Rightarrow> nat" where
  "swap_half s n = (if even (n div s) then n + s else n - s)"

lemma even_half_blocks:
  fixes n s :: nat
  assumes "0 < s"
  shows "even (n div (2 * s)) \<noteq> (s \<le> n \<and> even ((n - s) div (2 * s))) \<longleftrightarrow> even (n div s)"
proof -
  define q where "q = n div s"
  have a: "n div (2 * s) = q div 2" by (simp add: q_def mult.commute div_mult2_eq)
  have b: "(n - s) div (2 * s) = (q - 1) div 2" if "s \<le> n"
    using that assms by (simp add: q_def mult.commute div_mult2_eq) (simp add: le_div_geq)
  have c: "s \<le> n \<longleftrightarrow> 1 \<le> q" using assms by (simp add: q_def div_greater_zero_iff Suc_le_eq)
  have "even (q div 2) \<noteq> (1 \<le> q \<and> even ((q - 1) div 2)) \<longleftrightarrow> even q"
  proof (cases "even q")
    case True
    then obtain a where a: "q = 2 * a" by blast
    show ?thesis by (cases a) (simp_all add: a)
  next
    case False
    then obtain a where "q = 2 * a + 1" by (blast elim: oddE)
    then show ?thesis by simp
  qed
  then show ?thesis using a b c by (auto simp: q_def)
qed

lemma rev_loop_step:
  assumes s: "s' = 2 * s" "0 < s" "s' dvd 64"
    and m: "\<And>n. n < 64 \<Longrightarrow> bit m n \<longleftrightarrow> even (n div s')"
  obtains m' v' where "rev_loop s' m v = rev_loop s m' v'"
    "\<And>n. n < 64 \<Longrightarrow> bit m' n \<longleftrightarrow> even (n div s)"
    "\<And>n. n < 64 \<Longrightarrow> bit v' n \<longleftrightarrow> bit v (swap_half s n)"
proof -
  define m' where "m' = m XOR push_bit s m"
  define v' where "v' = (drop_bit s v AND m') OR (push_bit s v AND NOT m')"
  have m': "bit m' n \<longleftrightarrow> even (n div s)" if "n < 64" for n
    using m [OF that] m [of "n - s"] that even_half_blocks [OF s(2), of n]
    by (auto simp: m'_def s(1) bit_xor_iff bit_push_bit_iff)
  have "bit v' n \<longleftrightarrow> bit v (swap_half s n)" if n: "n < 64" for n
  proof (cases "even (n div s)")
    case True
    then show ?thesis using m' [OF n] n
      by (simp add: v'_def swap_half_def bit_or_iff bit_and_iff bit_not_iff bit_drop_bit_eq add.commute)
  next
    case False
    then have "s \<le> n" by (metis div_less even_zero not_le)
    then show ?thesis using False m' [OF n] n
      by (simp add: v'_def swap_half_def bit_or_iff bit_and_iff bit_not_iff bit_push_bit_iff)
  qed
  moreover have "rev_loop s' m v = rev_loop s m' v'"
    using s(1,2) by (subst rev_loop.simps) (simp add: Let_def m'_def v'_def)
  ultimately show thesis using that m' by blast
qed

lemma halve: "n < 2 * k \<Longrightarrow> \<exists>m < k. n = 2 * m \<or> n = 2 * m + (1 :: nat)"
  by (rule exI [of _ "n div 2"]) auto

lemma swap_halves:
  assumes "n < 64"
  shows "swap_half 32 (swap_half 16 (swap_half 8 (swap_half 4 (swap_half 2 (swap_half 1 n))))) = 63 - n"
proof -
  obtain a where a: "a < 32" "n = 2 * a \<or> n = 2 * a + 1" using halve [of n 32] assms by auto
  obtain b where b: "b < 16" "a = 2 * b \<or> a = 2 * b + 1" using halve [of a 16] a by auto
  obtain c where c: "c < 8" "b = 2 * c \<or> b = 2 * c + 1" using halve [of b 8] b by auto
  obtain d where d: "d < 4" "c = 2 * d \<or> c = 2 * d + 1" using halve [of c 4] c by auto
  obtain e where e: "e < 2" "d = 2 * e \<or> d = 2 * e + 1" using halve [of d 2] d by auto
  have "e = 0 \<or> e = 1" using e(1) by auto
  with a(2) b(2) c(2) d(2) e(2) show ?thesis
    by (elim disjE; hypsubst; simp add: swap_half_def)
qed

lemma swap_half_less: "s' = 2 * s \<Longrightarrow> 0 < s \<Longrightarrow> s' dvd 64 \<Longrightarrow> n < 64 \<Longrightarrow> swap_half s n < 64"
proof -
  assume s: "s' = 2 * s" "0 < s" "s' dvd 64" and n: "n < 64"
  show "swap_half s n < 64"
  proof (cases "even (n div s)")
    case True
    obtain k where k: "64 = 2 * s * k" using s by (auto elim: dvdE)
    have "n div s < 2 * k" using n k s(2) by (simp add: less_mult_imp_div_less ac_simps)
    then have "n div s + 2 \<le> 2 * k" using True by (auto elim!: evenE)
    then have "(n div s + 2) * s \<le> 64" unfolding k by (metis mult.assoc mult.commute mult_le_mono1)
    moreover have "n < (n div s + 1) * s" using s(2) by (simp add: dividend_less_div_times)
    ultimately show ?thesis using True by (simp add: swap_half_def algebra_simps)
  qed (use n in \<open>simp add: swap_half_def\<close>)
qed

lemma rev_ul_reverse: "rev_ul v = word_reverse v"
proof -
  have "bit (NOT 0 :: 64 word) n \<longleftrightarrow> even (n div 64)" if "n < 64" for n
    using that by simp
  from rev_loop_step [of 64 32 "NOT 0" v, OF _ _ _ this] obtain m1 v1 where
    1: "rev_loop 64 (NOT 0) v = rev_loop 32 m1 v1" "\<And>n. n < 64 \<Longrightarrow> bit m1 n \<longleftrightarrow> even (n div 32)"
    "\<And>n. n < 64 \<Longrightarrow> bit v1 n \<longleftrightarrow> bit v (swap_half 32 n)" by auto
  from rev_loop_step [of 32 16 m1 v1, OF _ _ _ 1(2)] obtain m2 v2 where
    2: "rev_loop 32 m1 v1 = rev_loop 16 m2 v2" "\<And>n. n < 64 \<Longrightarrow> bit m2 n \<longleftrightarrow> even (n div 16)"
    "\<And>n. n < 64 \<Longrightarrow> bit v2 n \<longleftrightarrow> bit v1 (swap_half 16 n)" by auto
  from rev_loop_step [of 16 8 m2 v2, OF _ _ _ 2(2)] obtain m3 v3 where
    3: "rev_loop 16 m2 v2 = rev_loop 8 m3 v3" "\<And>n. n < 64 \<Longrightarrow> bit m3 n \<longleftrightarrow> even (n div 8)"
    "\<And>n. n < 64 \<Longrightarrow> bit v3 n \<longleftrightarrow> bit v2 (swap_half 8 n)" by auto
  from rev_loop_step [of 8 4 m3 v3, OF _ _ _ 3(2)] obtain m4 v4 where
    4: "rev_loop 8 m3 v3 = rev_loop 4 m4 v4" "\<And>n. n < 64 \<Longrightarrow> bit m4 n \<longleftrightarrow> even (n div 4)"
    "\<And>n. n < 64 \<Longrightarrow> bit v4 n \<longleftrightarrow> bit v3 (swap_half 4 n)" by auto
  from rev_loop_step [of 4 2 m4 v4, OF _ _ _ 4(2)] obtain m5 v5 where
    5: "rev_loop 4 m4 v4 = rev_loop 2 m5 v5" "\<And>n. n < 64 \<Longrightarrow> bit m5 n \<longleftrightarrow> even (n div 2)"
    "\<And>n. n < 64 \<Longrightarrow> bit v5 n \<longleftrightarrow> bit v4 (swap_half 2 n)" by auto
  from rev_loop_step [of 2 1 m5 v5, OF _ _ _ 5(2)] obtain m6 v6 where
    6: "rev_loop 2 m5 v5 = rev_loop 1 m6 v6" "\<And>n. n < 64 \<Longrightarrow> bit m6 n \<longleftrightarrow> even (n div 1)"
    "\<And>n. n < 64 \<Longrightarrow> bit v6 n \<longleftrightarrow> bit v5 (swap_half 1 n)" by auto
  have "rev_ul v = v6"
    using 1(1) 2(1) 3(1) 4(1) 5(1) 6(1) rev_loop.simps [of 1 m6 v6] by (simp add: rev_ul_def)
  moreover have "bit v6 n \<longleftrightarrow> bit v (63 - n)" if n: "n < 64" for n
  proof -
    note n1 = swap_half_less [of 2 1, OF _ _ _ n, simplified]
    note n2 = swap_half_less [of 4 2, OF _ _ _ n1, simplified]
    note n3 = swap_half_less [of 8 4, OF _ _ _ n2, simplified]
    note n4 = swap_half_less [of 16 8, OF _ _ _ n3, simplified]
    note n5 = swap_half_less [of 32 16, OF _ _ _ n4, simplified]
    show ?thesis
      using 6(3) [OF n] 5(3) [OF n1] 4(3) [OF n2] 3(3) [OF n3] 2(3) [OF n4] 1(3) [OF n5] swap_halves [OF n]
      by simp
  qed
  ultimately show ?thesis
    by (intro bit_word_eqI) (simp add: bit_word_reverse_iff)
qed

section \<open>Points on the line of reversed hashes\<close>

definition point :: "64 word \<Rightarrow> nat" where
  "point v = unat (word_reverse v)"

lemma point_less: "point v < 2 ^ 64"
  using unsigned_less [of "word_reverse v", where 'a = nat] by (simp add: point_def)

lemma point_inj: "point v = point w \<longleftrightarrow> v = w"
  by (metis point_def word_rev_rev word_unat_eq_iff)

lemma point_0 [simp]: "point 0 = 0"
proof -
  have "word_reverse (0 :: 64 word) = 0" by (rule bit_word_eqI) (simp add: bit_simps)
  then show ?thesis by (simp add: point_def)
qed

text \<open>Agreement on the low \<open>k\<close> bits of two hashes: the same interval of length \<open>2\<^sup>6\<^sup>4\<^sup>-\<^sup>k\<close>.\<close>

lemma unat_drop_bit_div: "unat (drop_bit j w) = unat (w :: 64 word) div 2 ^ j"
  unfolding unat_drop_bit_eq by (rule drop_bit_eq_div)

lemma unat_mask64: "j \<le> 63 \<Longrightarrow> unat (mask j :: 64 word) = 2 ^ j - 1"
proof -
  assume j: "j \<le> 63"
  have "unat (word_of_nat (mask j) :: 64 word) = mask j mod 2 ^ 64" by (simp only: unat_of_nat) simp
  moreover have "(mask j :: nat) < 2 ^ 64"
  proof -
    have "(mask j :: nat) < 2 ^ j" by (simp add: mask_eq_exp_minus_1)
    also have "(2 :: nat) ^ j \<le> 2 ^ 64" using j by (intro power_increasing) auto
    finally show ?thesis .
  qed
  ultimately show ?thesis by (simp add: of_nat_mask_eq) (simp add: mask_eq_exp_minus_1)
qed

lemma point_div: "k \<le> 64 \<Longrightarrow> point v div 2 ^ (64 - k) = unat (drop_bit (64 - k) (word_reverse v))"
  by (simp only: point_def unat_drop_bit_div)

lemma same_bucket_point:
  assumes "k \<le> 64"
  shows "h AND mask k = v AND mask k \<longleftrightarrow> point h div 2 ^ (64 - k) = point v div 2 ^ (64 - k)"
proof -
  have "h AND mask k = v AND mask k \<longleftrightarrow> (\<forall>n < k. bit h n = bit v n)"
    using assms unfolding bit_eq_iff [of "h AND mask k"]
    by (auto simp: bit_simps) (metis order_less_le_trans)+
  also have "\<dots> \<longleftrightarrow> (\<forall>m < k. bit h (k - 1 - m) = bit v (k - 1 - m))"
  proof (rule iffI; intro allI impI)
    fix n assume a: "\<forall>m < k. bit h (k - 1 - m) = bit v (k - 1 - m)" and n: "n < k"
    then have "k - 1 - (k - 1 - n) = n" "k - 1 - n < k" by simp_all
    with a show "bit h n = bit v n" by metis
  qed simp
  also have "\<dots> \<longleftrightarrow> drop_bit (64 - k) (word_reverse h) = drop_bit (64 - k) (word_reverse v)"
  proof -
    have b: "bit (drop_bit (64 - k) (word_reverse w)) m \<longleftrightarrow> m < k \<and> bit w (k - 1 - m)" for w :: "64 word" and m
    proof (cases "m < k")
      case True
      have "64 - Suc (64 - k + m) = k - 1 - m" using assms True by simp
      moreover have "64 + m - k < 64" using assms True by simp
      ultimately show ?thesis using assms True by (simp add: bit_drop_bit_eq bit_word_reverse_iff)
    next
      case False
      then have "64 \<le> 64 - k + m" using assms by simp
      then show ?thesis using False by (simp add: bit_drop_bit_eq bit_word_reverse_iff)
    qed
    show ?thesis
    proof
      assume a: "\<forall>m < k. bit h (k - 1 - m) = bit v (k - 1 - m)"
      show "drop_bit (64 - k) (word_reverse h) = drop_bit (64 - k) (word_reverse v)"
        by (rule bit_word_eqI) (simp only: b; use a in blast)
    next
      assume a: "drop_bit (64 - k) (word_reverse h) = drop_bit (64 - k) (word_reverse v)"
      have "m < k \<and> bit h (k - 1 - m) \<longleftrightarrow> m < k \<and> bit v (k - 1 - m)" for m
        using b [of h m, unfolded a] b [of v m] by blast
      then show "\<forall>m < k. bit h (k - 1 - m) = bit v (k - 1 - m)" by blast
    qed
  qed
  also have "\<dots> \<longleftrightarrow> point h div 2 ^ (64 - k) = point v div 2 ^ (64 - k)"
    unfolding point_div [OF assms] by (simp add: word_unat_eq_iff)
  finally show ?thesis .
qed

text \<open>The end of the interval of length \<open>D\<close> around a point.\<close>

definition iend :: "nat \<Rightarrow> nat \<Rightarrow> nat" where
  "iend D p = (p div D + 1) * D"

lemma unat_or_mask_Suc:
  fixes w :: "64 word"
  assumes "j \<le> 63"
  shows "unat (w OR mask j) + 1 = iend (2 ^ j) (unat w)"
proof -
  have d: "drop_bit j (w OR mask j) = drop_bit j w" by (rule bit_word_eqI) (auto simp: bit_simps)
  have t: "take_bit j (w OR mask j) = mask j" by (rule bit_word_eqI) (auto simp: bit_simps)
  have "unat (w OR mask j) div 2 ^ j = unat w div 2 ^ j"
    using arg_cong [OF d, of unat] by (simp only: unat_drop_bit_div)
  moreover have "unat (w OR mask j) mod 2 ^ j = 2 ^ j - 1"
  proof -
    have "unat (take_bit j (w OR mask j)) = take_bit j (unat (w OR mask j))"
      by (rule unsigned_take_bit_eq)
    then have "take_bit j (unat (w OR mask j)) = unat (mask j :: 64 word)" using t by simp
    also have "\<dots> = 2 ^ j - 1" by (rule unat_mask64 [OF assms])
    finally show ?thesis by (simp only: take_bit_eq_mod)
  qed
  moreover have "unat (w OR mask j) = unat (w OR mask j) div 2 ^ j * 2 ^ j + unat (w OR mask j) mod 2 ^ j"
    by (simp add: div_mult_mod_eq)
  ultimately have "unat (w OR mask j) = unat w div 2 ^ j * 2 ^ j + (2 ^ j - 1)" by simp
  then show ?thesis by (simp add: iend_def)
qed

lemma point_scan_next:
  assumes "1 \<le> k" "k \<le> 64"
  shows "point (scan_next v (mask k)) = iend (2 ^ (64 - k)) (point v) mod 2 ^ 64"
proof -
  have r: "word_reverse (v OR NOT (mask k)) = word_reverse v OR mask (64 - k)"
    using assms by (intro bit_word_eqI) (auto simp: bit_simps)
  have "point (scan_next v (mask k)) = unat ((word_reverse v OR mask (64 - k)) + 1)"
    by (simp add: point_def scan_next_def rev_ul_reverse r)
  also have "\<dots> = (unat (word_reverse v OR mask (64 - k)) + 1) mod 2 ^ 64"
    by (simp add: unat_word_ariths)
  also have "\<dots> = iend (2 ^ (64 - k)) (point v) mod 2 ^ 64"
    using assms by (subst unat_or_mask_Suc) (simp_all add: point_def)
  finally show ?thesis .
qed

lemma iend_gt: "0 < D \<Longrightarrow> p < iend D p"
  by (simp add: iend_def dividend_less_div_times)

lemma iend_dvd: "D dvd iend D p"
  by (simp add: iend_def)

lemma iend_le:
  assumes "D dvd N" "p < N"
  shows "iend D p \<le> N"
proof -
  obtain m where m: "N = D * m" using assms(1) by (rule dvdE)
  then have "p div D < m" using assms(2) by (simp add: less_mult_imp_div_less mult.commute)
  then have "(p div D + 1) * D \<le> m * D" by (intro mult_le_mono1) simp
  then show ?thesis by (simp add: iend_def m mult.commute)
qed

lemma iend_unique:
  assumes "D dvd q" "p < q" "q \<le> iend D p"
  shows "q = iend D p"
  using iend_le [OF assms(1,2)] assms(3) by simp

lemma iend_same:
  assumes "0 < D" "p \<le> q" "q < iend D p"
  shows "iend D q = iend D p" "q div D = p div D"
proof -
  have "p div D \<le> q div D" using assms(2) by (rule div_le_mono)
  moreover have "q div D < p div D + 1" using assms by (simp add: iend_def less_mult_imp_div_less)
  ultimately show "q div D = p div D" by simp
  then show "iend D q = iend D p" by (simp add: iend_def)
qed

lemma point_dvd:
  assumes "j \<le> 64"
  shows "2 ^ j dvd point v \<longleftrightarrow> (\<forall>n < j. \<not> bit v (63 - n))"
proof -
  have "unat (take_bit j (word_reverse v)) = take_bit j (unat (word_reverse v))"
    by (rule unsigned_take_bit_eq)
  then have "point v mod 2 ^ j = unat (take_bit j (word_reverse v))"
    unfolding point_def by (simp only: take_bit_eq_mod [of j "unat (word_reverse v)"])
  then have "2 ^ j dvd point v \<longleftrightarrow> take_bit j (word_reverse v) = 0"
    by (simp add: dvd_eq_mod_eq_0 unat_eq_0)
  also have "\<dots> \<longleftrightarrow> (\<forall>n < j. \<not> bit v (63 - n))"
    using assms by (simp add: bit_eq_iff bit_simps) auto
  finally show ?thesis .
qed

text \<open>The loop condition of \<^verbatim>\<open>dictScan\<close>: the cursor is at the start of a bucket of the smaller table.\<close>

lemma scan_loop_cond:
  assumes "k0 \<le> k1" "k1 \<le> 64" "2 ^ (64 - k1) dvd point v"
  shows "v AND (mask k0 XOR mask k1) = 0 \<longleftrightarrow> 2 ^ (64 - k0) dvd point v"
proof -
  have low: "\<not> bit v (63 - n)" if "n < 64 - k1" for n
    using assms(3) that by (simp add: point_dvd)
  have "v AND (mask k0 XOR mask k1) = 0 \<longleftrightarrow> (\<forall>n < k1. k0 \<le> n \<longrightarrow> \<not> bit v n)"
    using assms(1,2) unfolding bit_eq_iff [of "v AND (mask k0 XOR mask k1)"]
    by (auto simp: bit_simps not_less) (meson not_le order_less_le_trans)
  also have "\<dots> \<longleftrightarrow> (\<forall>n < 64 - k0. \<not> bit v (63 - n))"
  proof (rule iffI; intro allI impI)
    fix n assume a: "\<forall>n < k1. k0 \<le> n \<longrightarrow> \<not> bit v n" and n: "n < 64 - k0"
    show "\<not> bit v (63 - n)"
    proof (cases "n < 64 - k1")
      case False
      then have "63 - n < k1" "k0 \<le> 63 - n" using n assms(1,2) by auto
      then show ?thesis using a by blast
    qed (rule low)
  next
    fix n assume a: "\<forall>n < 64 - k0. \<not> bit v (63 - n)" and n: "n < k1" "k0 \<le> n"
    then have "63 - n < 64 - k0" "63 - (63 - n) = n" using assms by auto
    then show "\<not> bit v n" using a by metis
  qed
  finally show ?thesis using assms by (simp add: point_dvd)
qed

section \<open>What a call visits\<close>

definition entries :: "('k, 'v) dictht \<Rightarrow> ('k, 'v) dictEntry set" where
  "entries t = set (concat (ht_table t))"

abbreviation (input) entry_point :: "('k, 'v) dictType \<Rightarrow> ('k, 'v) dictEntry \<Rightarrow> nat" where
  "entry_point T e \<equiv> point (hashFunction T (dictGetKey e))"

lemma bucket_visits:
  assumes t: "ht_ok T t" "ht_size_exp t \<noteq> -1" and k: "k = nat (ht_size_exp t)"
  obtains b where "tbl_get (ht_table t) (unat (v AND mask k)) = Some b" "set b \<subseteq> entries t"
    "\<And>e. e \<in> entries t \<Longrightarrow> point v \<le> entry_point T e \<Longrightarrow>
       entry_point T e < iend (2 ^ (64 - k)) (point v) \<Longrightarrow> e \<in> set b"
proof -
  have e: "2 \<le> ht_size_exp t" "k \<le> 60" using ht_ok_exp [OF t] k by auto
  have m: "DICTHT_SIZE_MASK (ht_size_exp t) = mask k" using e(1) k by (simp add: DICTHT_SIZE_MASK_mask)
  let ?i = "unat (v AND mask k)" and ?b = "ht_table t ! unat (v AND mask k)"
  have i: "?i < length (ht_table t)" using ht_ok_idx [OF t, of v] by (simp add: bucket_idx_def m)
  have "x \<in> set ?b" if x: "x \<in> entries t" "point v \<le> entry_point T x"
    "entry_point T x < iend (2 ^ (64 - k)) (point v)" for x
  proof -
    obtain j where j: "j < length (ht_table t)" "x \<in> set (ht_table t ! j)"
      using x(1) by (auto simp: entries_def) (metis in_set_conv_nth)
    have "bucket_idx (hashFunction T (dictGetKey x)) t = j"
      using ht_ok_bucket [OF t(1) j(1)] j(2) by (simp add: bucket_ok_def)
    moreover have "hashFunction T (dictGetKey x) AND mask k = v AND mask k"
      using same_bucket_point [of k] e(2) iend_same(2) [OF _ x(2,3)] by simp
    ultimately have "j = ?i" by (simp add: bucket_idx_def m)
    then show ?thesis using j by simp
  qed
  moreover have "set ?b \<subseteq> entries t" using i by (auto simp: entries_def intro: nth_mem)
  ultimately show thesis using that [of ?b] i by (simp add: tbl_get_def)
qed

lemma dictScan_loop_visits:
  assumes t: "ht_ok T t" "ht_size_exp t \<noteq> -1" and k: "k1 = nat (ht_size_exp t)" "k0 \<le> k1" "1 \<le> k0"
  shows "\<exists>es v'. dictScan_loop t (mask k0) (mask k1) v = Some (es, v') \<and> set es \<subseteq> entries t \<and>
    point v' = iend (2 ^ (64 - k0)) (point v) mod 2 ^ 64 \<and>
    (\<forall>e \<in> entries t. point v \<le> entry_point T e \<longrightarrow>
       entry_point T e < iend (2 ^ (64 - k0)) (point v) \<longrightarrow> e \<in> set es)"
proof (induction "iend (2 ^ (64 - k0)) (point v) - point v" arbitrary: v rule: less_induct)
  case less
  let ?D0 = "2 ^ (64 - k0) :: nat" and ?D1 = "2 ^ (64 - k1) :: nat"
  define p where "p = point v"
  define q where "q = iend ?D1 p"
  have k1: "k1 \<le> 60" using ht_ok_exp [OF t] k by auto
  have dv: "?D1 dvd ?D0" "?D0 dvd 2 ^ 64" by (rule le_imp_power_dvd; use k k1 in simp)+
  have p: "p < 2 ^ 64" by (simp only: p_def point_less)
  have q: "p < q" "q \<le> iend ?D0 p" "?D1 dvd q" "iend ?D0 p \<le> 2 ^ 64"
    using iend_gt [of ?D1 p] iend_le [of ?D1 "iend ?D0 p" p] iend_gt [of ?D0 p] iend_dvd [of ?D0 p]
      iend_dvd [of ?D1 p] dvd_trans [OF dv(1)] iend_le [OF dv(2) p] by (auto simp: q_def)
  obtain b where b: "tbl_get (ht_table t) (unat (v AND mask k1)) = Some b" "set b \<subseteq> entries t"
    "\<And>e. e \<in> entries t \<Longrightarrow> p \<le> entry_point T e \<Longrightarrow> entry_point T e < q \<Longrightarrow> e \<in> set b"
    using bucket_visits [OF t k(1), of v] unfolding p_def q_def by blast
  define v1 where "v1 = scan_next v (mask k1)"
  have v1: "point v1 = q mod 2 ^ 64" using point_scan_next [of k1 v] k k1 by (simp add: v1_def q_def p_def)
  have "?D1 dvd point v1" unfolding v1 using q(3) dvd_trans [OF dv] by (simp add: dvd_mod)
  then have cond: "v1 AND (mask k0 XOR mask k1) = 0 \<longleftrightarrow> ?D0 dvd point v1"
    using scan_loop_cond [of k0 k1 v1] k(2) k1 by simp
  have dq: "?D0 dvd point v1 \<longleftrightarrow> ?D0 dvd q" unfolding v1 using dv(2) by (simp add: dvd_mod_iff)
  note unf = dictScan_loop.simps [of t "mask k0" "mask k1" v, folded v1_def]
  show ?case
  proof (cases "?D0 dvd q")
    case True
    then have "q = iend ?D0 p" using iend_unique q(1,2) by blast
    moreover have "dictScan_loop t (mask k0) (mask k1) v = Some (b, v1)"
      unfolding unf using b(1) cond dq True by (simp add: Let_def flip: v1_def)
    ultimately show ?thesis using b(2,3) v1 by (auto simp: p_def)
  next
    case False
    then have "q \<noteq> iend ?D0 p" "q \<noteq> 2 ^ 64" using iend_dvd dv(2) by auto
    then have lt: "q < iend ?D0 p" "q < 2 ^ 64" using q by auto
    then have pv1: "point v1 = q" using v1 by simp
    have same: "iend ?D0 q = iend ?D0 p" using iend_same(1) [of ?D0 p q] q(1) lt(1) by simp
    have "iend ?D0 (point v1) - point v1 < iend ?D0 (point v) - point v"
      using same pv1 q lt(1) by (simp flip: p_def)
    from less.hyps [OF this] obtain es v' where IH: "dictScan_loop t (mask k0) (mask k1) v1 = Some (es, v')"
      "set es \<subseteq> entries t" "point v' = iend ?D0 p mod 2 ^ 64"
      "\<forall>e \<in> entries t. q \<le> entry_point T e \<longrightarrow> entry_point T e < iend ?D0 p \<longrightarrow> e \<in> set es"
      unfolding pv1 same by blast
    have "dictScan_loop t (mask k0) (mask k1) v = Some (b @ es, v')"
      unfolding unf using b(1) cond dq False IH(1) by (simp add: Let_def flip: v1_def)
    moreover have "e \<in> set (b @ es)" if "e \<in> entries t" "p \<le> entry_point T e" "entry_point T e < iend ?D0 p" for e
      using b(3) [OF that(1,2)] IH(4) that by (cases "entry_point T e < q") auto
    ultimately show ?thesis using b(2) IH(2,3) by (auto simp flip: p_def)
  qed
qed

lemma dictScan_visits:
  assumes ok: "dict_ok d" and ne: "dictSize d \<noteq> 0"
  shows "\<exists>es v' k. dictScan d v = Some (es, v') \<and> set es \<subseteq> entries (ht0 d) \<union> entries (ht1 d) \<and>
    1 \<le> k \<and> int k \<le> ht_size_exp (ht0 d) \<and>
    point v' = iend (2 ^ (64 - k)) (point v) mod 2 ^ 64 \<and>
    (\<forall>e \<in> entries (ht0 d) \<union> entries (ht1 d). point v \<le> entry_point (dtype d) e \<longrightarrow>
       entry_point (dtype d) e < iend (2 ^ (64 - k)) (point v) \<longrightarrow> e \<in> set es)"
proof -
  let ?T = "dtype d"
  have t0: "ht_ok ?T (ht0 d)" "ht_size_exp (ht0 d) \<noteq> -1" and t1: "ht_ok ?T (ht1 d)"
    using ok dict_ok_nonempty [OF ok ne] by (simp_all add: dict_ok_def)
  define k where "k = nat (ht_size_exp (ht0 d))"
  have ex: "2 \<le> ht_size_exp (ht0 d)" "k \<le> 60" using ht_ok_exp [OF t0] by (auto simp: k_def)
  have m0: "DICTHT_SIZE_MASK (ht_size_exp (ht0 d)) = mask k" using ex by (simp add: DICTHT_SIZE_MASK_mask k_def)
  show ?thesis
  proof (cases "dictIsRehashing d")
    case False
    then have "entries (ht1 d) = {}"
      using ok ht_ok_empty [OF t1] by (simp add: dict_ok_def dictIsRehashing_def entries_def)
    moreover obtain b where "tbl_get (ht_table (ht0 d)) (unat (v AND mask k)) = Some b" "set b \<subseteq> entries (ht0 d)"
      "\<And>e. e \<in> entries (ht0 d) \<Longrightarrow> point v \<le> entry_point ?T e \<Longrightarrow>
         entry_point ?T e < iend (2 ^ (64 - k)) (point v) \<Longrightarrow> e \<in> set b"
      by (rule bucket_visits [OF t0 k_def]) (rule that; assumption)
    moreover have "point (scan_next v (mask k)) = iend (2 ^ (64 - k)) (point v) mod 2 ^ 64"
      using point_scan_next [of k v] ex by (simp add: k_def)
    moreover have "1 \<le> k" "int k \<le> ht_size_exp (ht0 d)" using ex by (simp_all add: k_def)
    ultimately show ?thesis using ne False by (simp add: dictScan_def m0 Let_def) blast
  next
    case True
    define j where "j = nat (ht_size_exp (ht1 d))"
    have t1: "ht_ok ?T (ht1 d)" "ht_size_exp (ht1 d) \<noteq> -1" using ok True by (simp_all add: dict_ok_def dictIsRehashing_def)
    have ex1: "2 \<le> ht_size_exp (ht1 d)" "j \<le> 60" using ht_ok_exp [OF t1] by (auto simp: j_def)
    have m1: "DICTHT_SIZE_MASK (ht_size_exp (ht1 d)) = mask j" using ex1 by (simp add: DICTHT_SIZE_MASK_mask j_def)
    have gt: "DICTHT_SIZE (ht_size_exp (ht0 d)) > DICTHT_SIZE (ht_size_exp (ht1 d)) \<longleftrightarrow> j < k"
      using ex ex1 by (simp add: DICTHT_SIZE_def j_def k_def)
    define s l where "s = (if j < k then ht1 d else ht0 d)" and "l = (if j < k then ht0 d else ht1 d)"
    define ks kl where "ks = (if j < k then j else k)" and "kl = (if j < k then k else j)"
    have s: "ht_ok ?T s" "ht_size_exp s \<noteq> -1" "ks = nat (ht_size_exp s)"
      and l: "ht_ok ?T l" "ht_size_exp l \<noteq> -1" "kl = nat (ht_size_exp l)"
      and kk: "ks \<le> kl" "1 \<le> ks" "int ks \<le> ht_size_exp (ht0 d)"
      using t0 t1 ex ex1 by (auto simp: s_def l_def ks_def kl_def j_def k_def)
    have un: "entries (ht0 d) \<union> entries (ht1 d) = entries s \<union> entries l" by (auto simp: s_def l_def)
    obtain b where b: "tbl_get (ht_table s) (unat (v AND mask ks)) = Some b" "set b \<subseteq> entries s"
      "\<And>e. e \<in> entries s \<Longrightarrow> point v \<le> entry_point ?T e \<Longrightarrow>
         entry_point ?T e < iend (2 ^ (64 - ks)) (point v) \<Longrightarrow> e \<in> set b"
      by (rule bucket_visits [OF s]) (rule that; assumption)
    obtain es v' where lp: "dictScan_loop l (mask ks) (mask kl) v = Some (es, v')" "set es \<subseteq> entries l"
      "point v' = iend (2 ^ (64 - ks)) (point v) mod 2 ^ 64"
      "\<forall>e \<in> entries l. point v \<le> entry_point ?T e \<longrightarrow>
         entry_point ?T e < iend (2 ^ (64 - ks)) (point v) \<longrightarrow> e \<in> set es"
      using dictScan_loop_visits [OF l kk(1,2), of v] by blast
    have "dictScan d v = Some (b @ es, v')"
      using ne True b(1) lp(1) by (auto simp: dictScan_def gt m0 m1 Let_def s_def l_def ks_def kl_def split: if_splits)
    then show ?thesis unfolding un using b(2,3) lp(2-) kk by (intro exI [of _ "b @ es"] exI [of _ v'] exI [of _ ks]) auto
  qed
qed

section \<open>A scan session\<close>

text \<open>
  A client calls \<^verbatim>\<open>dictScan\<close> with the cursor of the previous call until the cursor is 0; the dictionary
  may be any other one at each call. The flag says whether the scan came to its end.
\<close>

fun scan_session :: "('k, 'v) dict list \<Rightarrow> 64 word \<Rightarrow> (('k, 'v) chain \<times> bool) option" where
  "scan_session [] v = Some ([], False)"
| "scan_session (d # ds) v =
     do {
       (es, v') \<leftarrow> dictScan d v;
       if v' = 0 then Some (es, True)
       else do { (out, fin) \<leftarrow> scan_session ds v'; Some (es @ out, fin) }
     }"

definition has_key :: "('k, 'v) dictType \<Rightarrow> 'k \<Rightarrow> ('k, 'v) dict \<Rightarrow> bool" where
  "has_key T k d \<longleftrightarrow> dict_ok d \<and> dtype d = T \<and> dict_map d k \<noteq> None"

lemma has_key_entry:
  assumes "has_key T k d"
  obtains e where "e \<in> entries (ht0 d) \<union> entries (ht1 d)" "key_match T k (dictGetKey e)" "dictSize d \<noteq> 0"
proof -
  obtain p where p: "p \<in> set (dict_kvs d)" "key_match T k (fst p)"
    using assms by (auto simp: has_key_def dict_map_def kv_get_None)
  then obtain e where "e \<in> entries (ht0 d) \<union> entries (ht1 d)" "p = kv e"
    by (auto simp: dict_kvs_def ht_kvs_def entries_def)
  moreover have "dictSize d \<noteq> 0" using p(1) dictSize_kvs [of d] assms by (auto simp: has_key_def)
  ultimately show thesis using that p(2) by auto
qed

lemma scan_session_complete:
  assumes T: "dtype_ok T" and "\<forall>d \<in> set ds. has_key T k d" "scan_session ds v = Some (out, True)"
    and "point v \<le> point (hashFunction T k)"
  shows "\<exists>e \<in> set out. key_match T k (dictGetKey e)"
  using assms(2-)
proof (induction ds arbitrary: v out)
  case (Cons d ds)
  let ?p = "point (hashFunction T k)"
  have hk: "has_key T k d" using Cons.prems(1) by simp
  then obtain e where e: "e \<in> entries (ht0 d) \<union> entries (ht1 d)" "key_match T k (dictGetKey e)" "dictSize d \<noteq> 0"
    by (rule has_key_entry)
  have d: "dict_ok d" "dtype d = T" using hk by (simp_all add: has_key_def)
  have pe: "entry_point T e = ?p" using key_match_hash [OF T e(2)] by simp
  obtain es v' j where s: "dictScan d v = Some (es, v')" "1 \<le> j"
    "point v' = iend (2 ^ (64 - j)) (point v) mod 2 ^ 64"
    "\<forall>e \<in> entries (ht0 d) \<union> entries (ht1 d). point v \<le> entry_point (dtype d) e \<longrightarrow>
       entry_point (dtype d) e < iend (2 ^ (64 - j)) (point v) \<longrightarrow> e \<in> set es"
    using dictScan_visits [OF d(1) e(3), of v] by blast
  show ?case
  proof (cases "?p < iend (2 ^ (64 - j)) (point v)")
    case True
    then have "e \<in> set es" using s(4) e(1) pe d(2) Cons.prems(3) by simp
    moreover have "set es \<subseteq> set out" using Cons.prems(2) s(1) by (auto split: if_splits bind_splits)
    ultimately show ?thesis using e(2) by blast
  next
    case False
    have "iend (2 ^ (64 - j)) (point v) \<le> 2 ^ 64"
      by (rule iend_le [OF le_imp_power_dvd point_less]) simp
    moreover have "?p < 2 ^ 64" by (rule point_less)
    ultimately have pv: "point v' = iend (2 ^ (64 - j)) (point v)" using False s(3) by simp
    then have "v' \<noteq> 0" using iend_gt [of "2 ^ (64 - j)" "point v"] by (auto simp: point_0)
    then obtain out' where o: "scan_session ds v' = Some (out', True)" "out = es @ out'"
      using Cons.prems(2) s(1) by (auto split: if_splits bind_splits)
    have "\<exists>e \<in> set out'. key_match T k (dictGetKey e)"
      using Cons.IH [OF _ o(1)] Cons.prems(1) False pv by simp
    then show ?thesis using o(2) by auto
  qed
qed simp

text \<open>With tables of at most \<open>2\<^sup>K\<close> buckets, \<open>2\<^sup>K\<close> calls end a scan.\<close>

lemma scan_session_ends:
  assumes "\<forall>d \<in> set ds. dict_ok d \<and> ht_size_exp (ht0 d) \<le> int K" "K \<le> 60"
    and "2 ^ (64 - K) dvd point v" "2 ^ K \<le> length ds + point v div 2 ^ (64 - K)" "ds \<noteq> []"
  shows "\<exists>out. scan_session ds v = Some (out, True)"
  using assms(1,3-)
proof (induction ds arbitrary: v)
  case (Cons d ds)
  let ?D = "2 ^ (64 - K) :: nat"
  have d: "dict_ok d" "ht_size_exp (ht0 d) \<le> int K" using Cons.prems(1) by simp_all
  show ?case
  proof (cases "dictSize d = 0")
    case True
    then show ?thesis by (simp add: dictScan_def)
  next
    case False
    obtain es v' j where s: "dictScan d v = Some (es, v')" "int j \<le> ht_size_exp (ht0 d)"
      "point v' = iend (2 ^ (64 - j)) (point v) mod 2 ^ 64"
      using dictScan_visits [OF d(1) False, of v] by blast
    let ?E = "iend (2 ^ (64 - j)) (point v)"
    have jK: "j \<le> K" using s(2) d(2) by simp
    have dv: "?D dvd ?E" by (rule dvd_trans [OF le_imp_power_dvd iend_dvd]) (use jK in simp)
    have E: "point v < ?E" "?E \<le> 2 ^ 64"
      using iend_gt [of "2 ^ (64 - j)" "point v"] iend_le [OF le_imp_power_dvd point_less, of "64 - j" v] by simp_all
    show ?thesis
    proof (cases "v' = 0")
      case True
      then show ?thesis using s(1) by simp
    next
      case vn: False
      then have "?E \<noteq> 2 ^ 64" using s(3) point_inj [of v' 0] by auto
      then have pv: "point v' = ?E" using s(3) E(2) by simp
      have "point v div ?D < point v' div ?D"
      proof -
        obtain a c where "point v = ?D * a" "?E = ?D * c" using Cons.prems(2) dv by (auto elim!: dvdE)
        then show ?thesis using E(1) pv by simp
      qed
      moreover have "ds \<noteq> []"
      proof
        assume "ds = []"
        then have "2 ^ K \<le> point v' div ?D" using Cons.prems(3) calculation by simp
        then have "2 ^ K * ?D \<le> point v'" by (metis div_mult_mod_eq le_add1 le_trans mult_le_mono1)
        moreover have "(2 :: nat) ^ K * ?D = 2 ^ 64" using assms(2) by (simp flip: power_add)
        ultimately show False using point_less [of v'] by simp
      qed
      ultimately obtain out where "scan_session ds v' = Some (out, True)"
        using Cons.IH [of v'] Cons.prems(1,3) dv pv by auto
      then show ?thesis using s(1) vn by simp
    qed
  qed
qed simp

end
