(* ===== verification/Refine.thy ===== *)
theory Refine
  imports Main "HOL-Library.Monad_Syntax"
begin

text \<open>
  Refinement of a stateful component: an implementation that may abort (\<^term>\<open>None\<close>) against an
  abstract machine that cannot. Each client call is an operation with a result; the contract is
  stated for one operation, and the locale lifts it to every sequence of operations. The number in
  the invariant is how many more operations the state has room for, so that size limits can be part
  of the contract.
\<close>

fun run :: "('s \<Rightarrow> 'o \<Rightarrow> ('r \<times> 's) option) \<Rightarrow> 's \<Rightarrow> 'o list \<Rightarrow> ('r list \<times> 's) option" where
  "run step s [] = Some ([], s)"
| "run step s (x # xs) =
     do { (r, s) \<leftarrow> step s x; (rs, s) \<leftarrow> run step s xs; Some (r # rs, s) }"

fun arun :: "('a \<Rightarrow> 'o \<Rightarrow> 'r \<times> 'a) \<Rightarrow> 'a \<Rightarrow> 'o list \<Rightarrow> 'r list \<times> 'a" where
  "arun astep a [] = ([], a)"
| "arun astep a (x # xs) =
     (let (r, a) = astep a x; (rs, a) = arun astep a xs in (r # rs, a))"

locale refinement =
  fixes inv :: "nat \<Rightarrow> 's \<Rightarrow> bool"
    and abs :: "'s \<Rightarrow> 'a"
    and step :: "'s \<Rightarrow> 'o \<Rightarrow> ('r \<times> 's) option"
    and astep :: "'a \<Rightarrow> 'o \<Rightarrow> 'r \<times> 'a"
  assumes step_refines: "inv (Suc n) s \<Longrightarrow>
    \<exists>r s'. step s x = Some (r, s') \<and> inv n s' \<and> astep (abs s) x = (r, abs s')"
begin

lemma run_refines:
  "inv (length xs + n) s \<Longrightarrow>
   \<exists>rs s'. run step s xs = Some (rs, s') \<and> inv n s' \<and> arun astep (abs s) xs = (rs, abs s')"
proof (induction xs arbitrary: s)
  case (Cons x xs)
  have "inv (Suc (length xs + n)) s" using Cons.prems by simp
  from step_refines [OF this, of x] obtain r s1 where
    s1: "step s x = Some (r, s1)" "inv (length xs + n) s1" "astep (abs s) x = (r, abs s1)"
    by blast
  obtain rs s2 where "run step s1 xs = Some (rs, s2)" "inv n s2" "arun astep (abs s1) xs = (rs, abs s2)"
    using Cons.IH [OF s1(2)] by blast
  then show ?case using s1 by simp
qed simp

text \<open>Two runs from states with the same abstraction answer the same.\<close>

lemma run_deterministic:
  assumes "inv (length xs) s" "inv (length xs) t" "abs s = abs t"
  shows "map_option fst (run step s xs) = map_option fst (run step t xs)"
proof -
  obtain rs s' where s: "run step s xs = Some (rs, s')" "arun astep (abs s) xs = (rs, abs s')"
    using run_refines [of xs 0 s] assms(1) by auto
  obtain rs' t' where t: "run step t xs = Some (rs', t')" "arun astep (abs t) xs = (rs', abs t')"
    using run_refines [of xs 0 t] assms(2) by auto
  show ?thesis using s t assms(3) by simp
qed

end

end
