(* ===== verification/Dict_Spec.thy ===== *)
theory Dict_Spec
  imports Dict_Scan Refine
begin

text \<open>
  The contract of the dictionary: any sequence of calls on it answers as a finite map would (as a set
  would, for dictionaries without values), whatever the resizing policy and however far rehashing
  has come, and no assertion of \<^verbatim>\<open>dict.c\<close> fails on the way.
\<close>

section \<open>Calls and their abstract meaning\<close>

datatype ('k, 'v) dict_op =
    OpAdd 'k 'v | OpReplace 'k 'v | OpFind 'k | OpFetchValue 'k | OpDelete 'k | OpUnlink 'k
  | OpTwoPhaseUnlink 'k | OpRehash nat | OpExpand nat | OpResize | OpEmpty | OpSize

datatype 'v dict_res =
    RStatus dict_status | RReplaced bool "'v option" | RFound bool | RVal "'v option" | RDone | RSize nat

text \<open>A call on the dictionary, with its result as far as a client of the map can see it.\<close>

fun dict_step :: "dictResizeEnable \<Rightarrow> ('k, 'v) dict \<Rightarrow> ('k, 'v) dict_op \<Rightarrow>
    ('v dict_res \<times> ('k, 'v) dict) option" where
  "dict_step cr d (OpAdd k v) = do { (st, d) \<leftarrow> dictAdd cr d k v; Some (RStatus st, d) }"
| "dict_step cr d (OpReplace k v) =
     do { (b, old, d) \<leftarrow> dictReplace cr d k v; Some (RReplaced b old, d) }"
| "dict_step cr d (OpFind k) = do { (r, d) \<leftarrow> dictFind cr d k; Some (RFound (r \<noteq> None), d) }"
| "dict_step cr d (OpFetchValue k) = do { (v, d) \<leftarrow> dictFetchValue cr d k; Some (RVal v, d) }"
| "dict_step cr d (OpDelete k) = do { (st, es, d) \<leftarrow> dictDelete cr d k; Some (RStatus st, d) }"
| "dict_step cr d (OpUnlink k) =
     do { (e, d) \<leftarrow> dictUnlink cr d k; Some (RVal (Option.bind e dictGetVal), d) }"
| "dict_step cr d (OpTwoPhaseUnlink k) =
     do { (r, d) \<leftarrow> dictTwoPhaseUnlinkFind cr d k;
          (es, d) \<leftarrow> dictTwoPhaseUnlinkFree d r;
          Some (RFound (r \<noteq> None), d) }"
| "dict_step cr d (OpRehash n) = do { (more, d) \<leftarrow> dictRehash cr d n; Some (RDone, d) }"
| "dict_step cr d (OpExpand n) = (let (st, d) = dictExpand d n in Some (RDone, d))"
| "dict_step cr d OpResize = (let (st, d) = dictResize cr d in Some (RDone, d))"
| "dict_step cr d OpEmpty = (let (es, d) = dictEmpty d in Some (RDone, d))"
| "dict_step cr d OpSize = Some (RSize (dictSize d), d)"

text \<open>The map a client has in mind, with the number of its keys.\<close>

type_synonym ('k, 'v) amap = "('k \<Rightarrow> 'v option) \<times> nat"

fun map_step :: "('k, 'v) dictType \<Rightarrow> ('k, 'v) amap \<Rightarrow> ('k, 'v) dict_op \<Rightarrow>
    'v dict_res \<times> ('k, 'v) amap" where
  "map_step T (m, n) (OpAdd k v) =
     (if m k = None then (RStatus DICT_OK, map_put T k (dup_val T v) m, n + 1)
      else (RStatus DICT_ERR, m, n))"
| "map_step T (m, n) (OpReplace k v) =
     (RReplaced (m k = None) (m k), map_put T k (dup_val T v) m, if m k = None then n + 1 else n)"
| "map_step T (m, n) (OpFind k) = (RFound (m k \<noteq> None), m, n)"
| "map_step T (m, n) (OpFetchValue k) = (RVal (m k), m, n)"
| "map_step T (m, n) (OpDelete k) =
     (RStatus (if m k = None then DICT_ERR else DICT_OK), map_del T k m, if m k = None then n else n - 1)"
| "map_step T (m, n) (OpUnlink k) = (RVal (m k), map_del T k m, if m k = None then n else n - 1)"
| "map_step T (m, n) (OpTwoPhaseUnlink k) =
     (RFound (m k \<noteq> None), map_del T k m, if m k = None then n else n - 1)"
| "map_step T (m, n) (OpRehash k) = (RDone, m, n)"
| "map_step T (m, n) (OpExpand k) = (RDone, m, n)"
| "map_step T (m, n) OpResize = (RDone, m, n)"
| "map_step T (m, n) OpEmpty = (RDone, \<lambda>k. None, 0)"
| "map_step T (m, n) OpSize = (RSize n, m, n)"

definition vmap :: "('k, 'v) dict \<Rightarrow> 'k \<Rightarrow> 'v option" where
  "vmap d k = Option.bind (dict_map d k) (\<lambda>v. v)"

definition dict_abs :: "('k, 'v) dict \<Rightarrow> ('k, 'v) amap" where
  "dict_abs d = (vmap d, dictSize d)"

definition dict_inv :: "('k, 'v) dictType \<Rightarrow> nat \<Rightarrow> ('k, 'v) dict \<Rightarrow> bool" where
  "dict_inv T n d \<longleftrightarrow> dtype_ok T \<and> \<not> no_value T \<and> dtype d = T \<and> dict_ok d \<and>
     (\<forall>k. dict_map d k \<noteq> Some None) \<and> dictSize d + n \<le> 2 ^ 59"

section \<open>Refinement\<close>

lemma vmap_None: "dict_map d k \<noteq> Some None \<Longrightarrow> vmap d k = None \<longleftrightarrow> dict_map d k = None"
  by (cases "dict_map d k") (auto simp: vmap_def)

lemma vmap_case: "vmap d k = (case dict_map d k of None \<Rightarrow> None | Some w \<Rightarrow> w)"
  by (simp add: vmap_def split: option.splits)

lemma vmap_put:
  "dict_map d' = map_put T k (Some v) (dict_map d) \<Longrightarrow> vmap d' = map_put T k v (vmap d)"
  by (rule ext) (simp add: vmap_def map_put_def)

lemma vmap_del: "dict_map d' = map_del T k (dict_map d) \<Longrightarrow> vmap d' = map_del T k (vmap d)"
  by (rule ext) (simp add: vmap_def map_del_def)

lemma vmap_same: "dict_map d' = dict_map d \<Longrightarrow> vmap d' = vmap d"
  by (rule ext) (simp add: vmap_def)

lemma dict_inv_put:
  assumes "dict_inv T (Suc n) d" "framed d d'" "dict_map d' = map_put T k (Some v) (dict_map d)"
    "dictSize d' \<le> dictSize d + 1"
  shows "dict_inv T n d'"
  using assms by (auto simp: dict_inv_def framed_def map_put_def)

lemma dict_inv_del:
  assumes "dict_inv T (Suc n) d" "framed d d'" "dict_map d' = map_del T k (dict_map d)"
    "dictSize d' \<le> dictSize d"
  shows "dict_inv T n d'"
  using assms by (auto simp: dict_inv_def framed_def map_del_def)

lemma dict_inv_same:
  assumes "dict_inv T (Suc n) d" "framed d d'" "dict_map d' = dict_map d" "dictSize d' = dictSize d"
  shows "dict_inv T n d'"
  using assms by (auto simp: dict_inv_def framed_def)

lemma dict_inv_content:
  assumes "dict_inv T (Suc n) d" "dict_ok d'" "same_content d d'"
  shows "dict_inv T n d'" "dict_abs d' = dict_abs d"
proof -
  have ok: "dtype_ok (dtype d)" "dict_ok d" using assms(1) by (simp_all add: dict_inv_def)
  note m = same_content_map [OF ok assms(3)] and s = same_content_dictSize [OF ok(2) assms(2,3)]
  show "dict_inv T n d'" by (rule dict_inv_same [OF assms(1) framed_same_content [OF assms(2,3)] m s])
  show "dict_abs d' = dict_abs d" using vmap_same [OF m] s by (simp add: dict_abs_def)
qed

lemma dict_step_delete:
  assumes inv: "dict_inv T (Suc n) d"
  obtains e d' where "dictGenericDelete cr d k = Some (e, d')" "dict_inv T n d'"
    "Option.bind e dictGetVal = vmap d k" "e = None \<longleftrightarrow> vmap d k = None"
    "dict_abs d' = (map_del T k (vmap d), if vmap d k = None then dictSize d else dictSize d - 1)"
proof -
  have ok: "dtype_ok (dtype d)" "dict_ok d" "dtype d = T" "dict_map d k \<noteq> Some None"
    using inv by (simp_all add: dict_inv_def)
  obtain e d' where r: "framed d d'" "dictGenericDelete cr d k = Some (e, d')"
    "dict_map d' = map_del (dtype d) k (dict_map d)" "map_option dictGetVal e = dict_map d k"
    "dictSize d = dictSize d' + (if dict_map d k = None then 0 else 1)"
    by (rule dictGenericDelete_ok [OF ok(1,2)])
  have "dict_inv T n d'" by (rule dict_inv_del [OF inv r(1) r(3) [unfolded ok(3)]]) (use r(5) in auto)
  moreover have "Option.bind e dictGetVal = vmap d k"
    unfolding vmap_def r(4) [symmetric] by (cases e) simp_all
  moreover have "e = None \<longleftrightarrow> vmap d k = None"
    unfolding vmap_None [OF ok(4)] r(4) [symmetric] by simp
  moreover have "dict_abs d' = (map_del T k (vmap d), if vmap d k = None then dictSize d else dictSize d - 1)"
    using vmap_del [OF r(3)] r(5) ok(3) vmap_None [OF ok(4)] by (auto simp: dict_abs_def)
  ultimately show thesis using that [OF r(2)] by simp
qed

lemma dict_step_refines:
  assumes inv: "dict_inv T (Suc n) d"
  shows "\<exists>r d'. dict_step cr d x = Some (r, d') \<and> dict_inv T n d' \<and> map_step T (dict_abs d) x = (r, dict_abs d')"
proof -
  have T: "dtype_ok (dtype d)" and ok: "dict_ok d" and ty: "dtype d = T" and nv: "\<not> no_value (dtype d)"
    and init: "\<And>k. dict_map d k \<noteq> Some None" and sz: "dictSize d < 2 ^ 59"
    using inv by (auto simp: dict_inv_def)
  note [simp] = dict_abs_def vmap_None [OF init] ty
  show ?thesis
  proof (cases x)
    case (OpAdd k v)
    obtain d' where r: "framed d d'"
      "dictAdd cr d k v = Some (if dict_map d k = None then DICT_OK else DICT_ERR, d')"
      "dict_map d' = (if dict_map d k = None
         then map_put (dtype d) k (if no_value (dtype d) then None else Some (dup_val (dtype d) v)) (dict_map d)
         else dict_map d)"
      "dictSize d' = dictSize d + (if dict_map d k = None then 1 else 0)"
      by (rule dictAdd_ok [OF T ok sz])
    show ?thesis
    proof (cases "dict_map d k")
      case None
      then have m: "dict_map d' = map_put T k (Some (dup_val T v)) (dict_map d)" using r(3) nv by simp
      show ?thesis using OpAdd None r(2,4) dict_inv_put [OF inv r(1) m] vmap_put [OF m] by simp
    next
      case (Some w)
      then have m: "dict_map d' = dict_map d" using r(3) by simp
      show ?thesis using OpAdd Some r(2,4) dict_inv_same [OF inv r(1) m] vmap_same [OF m] by simp
    qed
  next
    case (OpReplace k v)
    obtain d' where r: "framed d d'"
      "dictReplace cr d k v = Some (dict_map d k = None, case dict_map d k of None \<Rightarrow> None | Some w \<Rightarrow> w, d')"
      "dict_map d' = map_put (dtype d) k (Some (dup_val (dtype d) v)) (dict_map d)"
      "dictSize d' = dictSize d + (if dict_map d k = None then 1 else 0)"
      by (rule dictReplace_ok [OF T ok sz nv init])
    have m: "dict_map d' = map_put T k (Some (dup_val T v)) (dict_map d)" using r(3) by simp
    show ?thesis
      using OpReplace r(2) [folded vmap_case] r(4) dict_inv_put [OF inv r(1) m] vmap_put [OF m]
      by (cases "dict_map d k") simp_all
  next
    case (OpFind k)
    obtain r d' where f: "dictFind cr d k = Some (r, d')" "dict_ok d'" "same_content d d'"
      "case r of None \<Rightarrow> dict_map d k = None
       | Some ref \<Rightarrow> \<exists>e. entry_at d' ref = Some e \<and> key_match (dtype d) k (dictGetKey e) \<and>
                        dict_map d k = Some (dictGetVal e)"
      using dictFind_ok [OF T ok, of cr k] by blast
    have "r = None \<longleftrightarrow> dict_map d k = None" using f(4) by (cases r) auto
    then show ?thesis
      using OpFind f(1) dict_inv_content [OF inv f(2,3)] by (cases r; cases "dict_map d k") auto
  next
    case (OpFetchValue k)
    obtain d' where r: "framed d d'" "dict_map d' = dict_map d" "dictSize d' = dictSize d"
      "dictFetchValue cr d k = Some (case dict_map d k of None \<Rightarrow> None | Some w \<Rightarrow> w, d')"
      by (rule dictFetchValue_ok [OF T ok init])
    show ?thesis
      using OpFetchValue r(3,4) dict_inv_same [OF inv r(1-3)] vmap_same [OF r(2)] by (simp add: vmap_case)
  next
    case (OpDelete k)
    obtain e d' where "dictGenericDelete cr d k = Some (e, d')" "dict_inv T n d'"
      "Option.bind e dictGetVal = vmap d k" "e = None \<longleftrightarrow> vmap d k = None"
      "dict_abs d' = (map_del T k (vmap d), if vmap d k = None then dictSize d else dictSize d - 1)"
      by (rule dict_step_delete [OF inv])
    then show ?thesis using OpDelete by (cases e) (simp_all add: dictDelete_def)
  next
    case (OpUnlink k)
    obtain e d' where "dictGenericDelete cr d k = Some (e, d')" "dict_inv T n d'"
      "Option.bind e dictGetVal = vmap d k" "e = None \<longleftrightarrow> vmap d k = None"
      "dict_abs d' = (map_del T k (vmap d), if vmap d k = None then dictSize d else dictSize d - 1)"
      by (rule dict_step_delete [OF inv])
    then show ?thesis using OpUnlink by (simp add: dictUnlink_def)
  next
    case (OpTwoPhaseUnlink k)
    obtain r d1 es d' where t: "dictTwoPhaseUnlinkFind cr d k = Some (r, d1)"
      "dictTwoPhaseUnlinkFree d1 r = Some (es, d')" "framed d d'"
      "dict_map d' = map_del (dtype d) k (dict_map d)" "r = None \<longleftrightarrow> dict_map d k = None"
      "dictSize d = dictSize d' + (if dict_map d k = None then 0 else 1)"
      by (rule dictTwoPhaseUnlink_ok [OF T ok, of cr k]) (rule that; assumption)
    have "dict_inv T n d'" by (rule dict_inv_del [OF inv t(3) t(4) [unfolded ty]]) (use t(6) in auto)
    then show ?thesis
      using OpTwoPhaseUnlink t(1,2,5,6) vmap_del [OF t(4)] by (cases "dict_map d k") simp_all
  next
    case (OpRehash k)
    obtain more d' where "dictRehash cr d k = Some (more, d')" "dict_ok d'" "same_content d d'"
      using dictRehash_ok [OF T ok, of cr k] by blast
    then show ?thesis using OpRehash dict_inv_content [OF inv, of d'] by simp
  next
    case (OpExpand k)
    obtain st d' where e: "dictExpand d k = (st, d')" by fastforce
    then show ?thesis using OpExpand dict_inv_content [OF inv, of d'] dictExpand_ok [OF ok e] by simp
  next
    case OpResize
    obtain st d' where e: "dictResize cr d = (st, d')" by fastforce
    then show ?thesis using OpResize dict_inv_content [OF inv, of d'] dictResize_ok [OF ok e] by simp
  next
    case OpEmpty
    have "dict_inv T n (dictCreate T)"
      using inv by (simp add: dict_inv_def dict_ok_create dict_map_create dictSize_create)
        (simp add: dictCreate_def)
    moreover have "vmap (dictCreate T) = (\<lambda>k. None)"
      by (rule ext) (simp add: vmap_def dict_map_create)
    ultimately show ?thesis
      using OpEmpty dictEmpty_ok [OF ok] by (simp add: dictSize_create)
  next
    case OpSize
    then show ?thesis using inv by (simp add: dict_inv_def)
  qed
qed

text \<open>A call together with the resize policy in force, \<^verbatim>\<open>dict_can_resize\<close>, which may change between calls.\<close>

definition dict_call :: "('k, 'v) dict \<Rightarrow> dictResizeEnable \<times> ('k, 'v) dict_op \<Rightarrow>
    ('v dict_res \<times> ('k, 'v) dict) option" where
  "dict_call d c = dict_step (fst c) d (snd c)"

definition map_call :: "('k, 'v) dictType \<Rightarrow> ('k, 'v) amap \<Rightarrow> dictResizeEnable \<times> ('k, 'v) dict_op \<Rightarrow>
    'v dict_res \<times> ('k, 'v) amap" where
  "map_call T a c = map_step T a (snd c)"

interpretation dmap: refinement "dict_inv T" dict_abs dict_call "map_call T"
  by unfold_locales (simp add: dict_call_def map_call_def dict_step_refines)

section \<open>Dictionaries without values\<close>

datatype 'k set_op = SetAdd 'k | SetRemove 'k | SetIsMember 'k | SetRehash nat | SetSize

datatype set_res = SStatus dict_status | SMember bool | SDone | SSize nat

fun set_step :: "dictResizeEnable \<Rightarrow> ('k, unit) dict \<Rightarrow> 'k set_op \<Rightarrow> (set_res \<times> ('k, unit) dict) option" where
  "set_step cr d (SetAdd k) = do { (st, d) \<leftarrow> dictAdd cr d k (); Some (SStatus st, d) }"
| "set_step cr d (SetRemove k) = do { (st, es, d) \<leftarrow> dictDelete cr d k; Some (SStatus st, d) }"
| "set_step cr d (SetIsMember k) = do { (r, d) \<leftarrow> dictFind cr d k; Some (SMember (r \<noteq> None), d) }"
| "set_step cr d (SetRehash n) = do { (more, d) \<leftarrow> dictRehash cr d n; Some (SDone, d) }"
| "set_step cr d SetSize = Some (SSize (dictSize d), d)"

type_synonym 'k aset = "('k \<Rightarrow> bool) \<times> nat"

fun aset_step :: "('k, unit) dictType \<Rightarrow> 'k aset \<Rightarrow> 'k set_op \<Rightarrow> set_res \<times> 'k aset" where
  "aset_step T (m, n) (SetAdd k) =
     (if m k then (SStatus DICT_ERR, m, n) else (SStatus DICT_OK, \<lambda>j. key_match T j k \<or> m j, n + 1))"
| "aset_step T (m, n) (SetRemove k) =
     (if m k then (SStatus DICT_OK, \<lambda>j. \<not> key_match T j k \<and> m j, n - 1)
      else (SStatus DICT_ERR, \<lambda>j. \<not> key_match T j k \<and> m j, n))"
| "aset_step T (m, n) (SetIsMember k) = (SMember (m k), m, n)"
| "aset_step T (m, n) (SetRehash k) = (SDone, m, n)"
| "aset_step T (m, n) SetSize = (SSize n, m, n)"

definition set_abs :: "('k, unit) dict \<Rightarrow> 'k aset" where
  "set_abs d = (\<lambda>k. dict_map d k \<noteq> None, dictSize d)"

definition set_inv :: "('k, unit) dictType \<Rightarrow> nat \<Rightarrow> ('k, unit) dict \<Rightarrow> bool" where
  "set_inv T n d \<longleftrightarrow> dtype_ok T \<and> no_value T \<and> dtype d = T \<and> dict_ok d \<and> dictSize d + n \<le> 2 ^ 59"

lemma set_inv_framed:
  "set_inv T (Suc n) d \<Longrightarrow> framed d d' \<Longrightarrow> dictSize d' \<le> dictSize d + 1 \<Longrightarrow> set_inv T n d'"
  by (auto simp: set_inv_def framed_def)

lemma set_abs_content:
  assumes "set_inv T (Suc n) d" "dict_ok d'" "same_content d d'"
  shows "set_inv T n d'" "set_abs d' = set_abs d"
proof -
  have ok: "dtype_ok (dtype d)" "dict_ok d" using assms(1) by (simp_all add: set_inv_def)
  note m = same_content_map [OF ok assms(3)] and s = same_content_dictSize [OF ok(2) assms(2,3)]
  show "set_inv T n d'" by (rule set_inv_framed [OF assms(1) framed_same_content [OF assms(2,3)]]) (simp add: s)
  show "set_abs d' = set_abs d" by (simp add: set_abs_def m s)
qed

lemma set_step_refines:
  assumes inv: "set_inv T (Suc n) d"
  shows "\<exists>r d'. set_step cr d x = Some (r, d') \<and> set_inv T n d' \<and> aset_step T (set_abs d) x = (r, set_abs d')"
proof -
  have T: "dtype_ok (dtype d)" and ok: "dict_ok d" and ty: "dtype d = T" and sz: "dictSize d < 2 ^ 59"
    using inv by (auto simp: set_inv_def)
  note [simp] = set_abs_def ty
  show ?thesis
  proof (cases x)
    case (SetAdd k)
    obtain d' where r: "framed d d'"
      "dictAdd cr d k () = Some (if dict_map d k = None then DICT_OK else DICT_ERR, d')"
      "dict_map d' = (if dict_map d k = None
         then map_put (dtype d) k (if no_value (dtype d) then None else Some (dup_val (dtype d) ())) (dict_map d)
         else dict_map d)"
      "dictSize d' = dictSize d + (if dict_map d k = None then 1 else 0)"
      by (rule dictAdd_ok [OF T ok sz])
    have "set_inv T n d'" by (rule set_inv_framed [OF inv r(1)]) (use r(4) in simp)
    then show ?thesis using SetAdd r(2-) by (cases "dict_map d k") (auto simp: map_put_def)
  next
    case (SetRemove k)
    obtain e d' where r: "framed d d'" "dictGenericDelete cr d k = Some (e, d')"
      "dict_map d' = map_del (dtype d) k (dict_map d)" "map_option dictGetVal e = dict_map d k"
      "dictSize d = dictSize d' + (if dict_map d k = None then 0 else 1)"
      by (rule dictGenericDelete_ok [OF T ok])
    have "set_inv T n d'" by (rule set_inv_framed [OF inv r(1)]) (use r(5) in simp)
    then show ?thesis
      using SetRemove r(2,3,5) r(4) [symmetric] by (cases e) (auto simp: map_del_def dictDelete_def)
  next
    case (SetIsMember k)
    obtain r d' where f: "dictFind cr d k = Some (r, d')" "dict_ok d'" "same_content d d'"
      "case r of None \<Rightarrow> dict_map d k = None
       | Some ref \<Rightarrow> \<exists>e. entry_at d' ref = Some e \<and> key_match (dtype d) k (dictGetKey e) \<and>
                        dict_map d k = Some (dictGetVal e)"
      using dictFind_ok [OF T ok, of cr k] by blast
    have "r = None \<longleftrightarrow> dict_map d k = None" using f(4) by (cases r) auto
    then show ?thesis
      using SetIsMember f(1) set_abs_content [OF inv f(2,3)] by (cases r; cases "dict_map d k") auto
  next
    case (SetRehash k)
    obtain more d' where "dictRehash cr d k = Some (more, d')" "dict_ok d'" "same_content d d'"
      using dictRehash_ok [OF T ok, of cr k] by blast
    then show ?thesis using SetRehash set_abs_content [OF inv, of d'] by simp
  next
    case SetSize
    then show ?thesis using inv by (simp add: set_inv_def)
  qed
qed

definition set_call :: "('k, unit) dict \<Rightarrow> dictResizeEnable \<times> 'k set_op \<Rightarrow>
    (set_res \<times> ('k, unit) dict) option" where
  "set_call d c = set_step (fst c) d (snd c)"

definition aset_call :: "('k, unit) dictType \<Rightarrow> 'k aset \<Rightarrow> dictResizeEnable \<times> 'k set_op \<Rightarrow>
    set_res \<times> 'k aset" where
  "aset_call T a c = aset_step T a (snd c)"

interpretation dset: refinement "set_inv T" set_abs set_call "aset_call T"
  by unfold_locales (simp add: set_call_def aset_call_def set_step_refines)

section \<open>Properties\<close>

text \<open>A type with numbers as keys, hashed to themselves, for the examples.\<close>

definition demo_type :: "bool \<Rightarrow> (nat, 'v) dictType" where
  "demo_type nv = \<lparr>hashFunction = word_of_nat, keyDup = None, valDup = None, keyCompare = None,
     expandAllowed = None, no_value = nv, keys_are_odd = False, keyLsb = odd\<rparr>"

lemma demo_type_match [simp]: "key_match (demo_type nv) a b \<longleftrightarrow> a = b"
  by (auto simp: key_match_def dictCompareKeys_def demo_type_def)

lemma demo_type_ok: "dtype_ok (demo_type nv)"
  by (simp add: dtype_ok_def symp_def transp_def) (simp add: demo_type_def)

lemma demo_type_fields [simp]:
  "no_value (demo_type nv) = nv" "dup_val (demo_type nv) v = v" "dtype (dictCreate T) = T"
  by (simp_all add: demo_type_def dup_val_def dictCreate_def)

text \<open>C1: Every sequence of calls on a dictionary with values (additions, replacements, lookups,
  deletions, unlinking in one and two phases, rehashing by any number of steps, expansion, shrinking
  and clearing, with the resize policy chosen anew for each call) runs without a failed assertion and
  answers exactly as a finite map over the keys up to the comparison of the type. Room for as many
  entries as there are calls, below \<open>2\<^sup>5\<^sup>9\<close>, is all it needs.\<close>

theorem dict_refines_map:
  assumes "dict_inv T (length calls) d"
  shows "\<exists>rs d'. run dict_call d calls = Some (rs, d') \<and> dict_inv T 0 d' \<and>
    arun (map_call T) (dict_abs d) calls = (rs, dict_abs d')"
  using dmap.run_refines [of T calls 0 d] assms by simp

theorem dict_refines_map_witness:
  "\<exists>d'. run dict_call (dictCreate (demo_type False))
     [(DICT_RESIZE_ENABLE, OpAdd 1 (10 :: nat)), (DICT_RESIZE_AVOID, OpAdd 1 11),
      (DICT_RESIZE_ENABLE, OpReplace 5 12), (DICT_RESIZE_FORBID, OpFetchValue 1),
      (DICT_RESIZE_ENABLE, OpDelete 1), (DICT_RESIZE_ENABLE, OpFind 1), (DICT_RESIZE_ENABLE, OpSize)]
   = Some ([RStatus DICT_OK, RStatus DICT_ERR, RReplaced True None, RVal (Some 10),
        RStatus DICT_OK, RFound False, RSize 1], d')"
proof -
  let ?T = "demo_type False :: (nat, nat) dictType"
  have inv: "dict_inv ?T n (dictCreate ?T)" if "n \<le> 100" for n
    using that by (simp add: dict_inv_def demo_type_ok dict_ok_create dict_map_create dictSize_create)
  have "vmap (dictCreate ?T) = (\<lambda>k. None)"
    by (rule ext) (simp add: vmap_def dict_map_create)
  then show ?thesis
    using dict_refines_map [OF inv, of "[(DICT_RESIZE_ENABLE, OpAdd 1 (10 :: nat)), (DICT_RESIZE_AVOID, OpAdd 1 11),
      (DICT_RESIZE_ENABLE, OpReplace 5 12), (DICT_RESIZE_FORBID, OpFetchValue 1),
      (DICT_RESIZE_ENABLE, OpDelete 1), (DICT_RESIZE_ENABLE, OpFind 1), (DICT_RESIZE_ENABLE, OpSize)]"]
    by (auto simp: map_call_def dict_abs_def dictSize_create map_put_def map_del_def
        simp del: run.simps)
qed

text \<open>C38: A dictionary without values, whose entries are bare keys, key-only entries or both in one
  chain, answers every sequence of additions, removals, membership tests and rehashing steps as a set
  would.\<close>

theorem dict_refines_set:
  assumes "set_inv T (length calls) d"
  shows "\<exists>rs d'. run set_call d calls = Some (rs, d') \<and> set_inv T 0 d' \<and>
    arun (aset_call T) (set_abs d) calls = (rs, set_abs d')"
  using dset.run_refines [of T calls 0 d] assms by simp

theorem dict_refines_set_witness:
  "\<exists>d'. run set_call (dictCreate (demo_type True))
     [(DICT_RESIZE_ENABLE, SetAdd 3), (DICT_RESIZE_ENABLE, SetAdd 3), (DICT_RESIZE_ENABLE, SetIsMember 3),
      (DICT_RESIZE_ENABLE, SetRemove 3), (DICT_RESIZE_ENABLE, SetIsMember 3)]
   = Some ([SStatus DICT_OK, SStatus DICT_ERR, SMember True, SStatus DICT_OK, SMember False], d')"
proof -
  let ?T = "demo_type True :: (nat, unit) dictType"
  have inv: "set_inv ?T n (dictCreate ?T)" if "n \<le> 100" for n
    using that by (simp add: set_inv_def demo_type_ok dict_ok_create dictSize_create)
  show ?thesis
    using dict_refines_set [OF inv, of "[(DICT_RESIZE_ENABLE, SetAdd 3), (DICT_RESIZE_ENABLE, SetAdd 3),
      (DICT_RESIZE_ENABLE, SetIsMember 3), (DICT_RESIZE_ENABLE, SetRemove 3),
      (DICT_RESIZE_ENABLE, SetIsMember 3)]"]
    by (auto simp: aset_call_def set_abs_def dict_map_create dictSize_create simp del: run.simps)
qed

text \<open>A table of four buckets with one entry, for the examples of the scan.\<close>

definition demo_dict :: "(nat, nat) dict" where
  "demo_dict = \<lparr>dtype = demo_type False,
     ht0 = \<lparr>ht_table = [[], [], [], [EntryNormal 7 (Some 1)]], ht_used = 1, ht_size_exp = 2\<rparr>,
     ht1 = dictReset, rehashidx = -1, pauserehash = 0\<rparr>"

lemma demo_dict_ok: "dict_ok demo_dict"
proof -
  let ?t = "\<lparr>ht_table = [[], [], [], [EntryNormal 7 (Some 1)]], ht_used = 1, ht_size_exp = 2\<rparr>
    :: (nat, nat) dictht"
  have "bucket_idx (hashFunction (demo_type False) (7 :: nat)) ?t = 3"
    by (subst bucket_idx_mod) (simp_all add: demo_type_def unat_of_nat)
  then have "bucket_ok (demo_type False) ?t 3 [EntryNormal 7 (Some 1)]"
    by (simp add: bucket_ok_def chain_ok_def entryIsNormal_def dictGetKey_def)
  then have "\<forall>i < length (ht_table ?t). bucket_ok (demo_type False) ?t i (ht_table ?t ! i)"
    by (simp add: less_Suc_eq eval_nat_numeral)
  then have "ht_ok (demo_type False) ?t" by (simp add: ht_ok_def DICTHT_SIZE_def)
  then show ?thesis
    by (simp add: dict_ok_def demo_dict_def dict_kvs_def ht_kvs_def keys_apart_def dictReset_def)
      (simp add: ht_ok_def DICTHT_SIZE_def)
qed

lemma demo_dict_has_key: "has_key (demo_type False) 7 demo_dict"
  using demo_dict_ok
  by (simp add: has_key_def demo_dict_def dict_map_def dict_kvs_def ht_kvs_def kv_get_def kv_def
      dictGetKey_def)

text \<open>The same entry in the middle of a move to eight buckets.\<close>

definition demo_rehash :: "(nat, nat) dict" where
  "demo_rehash = demo_dict\<lparr>rehashidx := 0,
     ht1 := \<lparr>ht_table = replicate 8 [], ht_used = 0, ht_size_exp = 3\<rparr>\<rparr>"

lemma demo_rehash_ok: "dict_ok demo_rehash"
proof -
  have "ht_ok (demo_type False) (\<lparr>ht_table = replicate 8 [], ht_used = 0, ht_size_exp = 3\<rparr> :: (nat, nat) dictht)"
    by (simp add: ht_ok_def DICTHT_SIZE_def bucket_ok_def chain_ok_def)
  then show ?thesis
    using demo_dict_ok by (simp add: dict_ok_def demo_rehash_def demo_dict_def dict_kvs_def ht_kvs_def dictReset_def DICTHT_SIZE_def)
qed

lemma demo_rehash_map: "dict_map demo_rehash 7 = Some (Some 1)"
  by (simp add: dict_map_def demo_rehash_def demo_dict_def dict_kvs_def ht_kvs_def kv_get_def kv_def dictGetKey_def
      dictGetVal_def)

text \<open>C39: \<^verbatim>\<open>dictRehashMilliseconds\<close> returns whatever the clock shows and keeps the content of the dictionary. While
  rehashing is paused it returns 0 and changes nothing; otherwise it has completed the rehashing when resizing is
  enabled and the clock never passes the limit.\<close>

theorem dictRehashMilliseconds_returns:
  assumes "dtype_ok (dtype d)" "dict_ok d"
  shows "\<exists>r d'. dictRehashMilliseconds cr clock d ms = Some (r, d') \<and> dict_ok d' \<and>
    dict_map d' = dict_map d \<and>
    (if pauserehash d > 0 then r = 0 \<and> d' = d
     else cr = DICT_RESIZE_ENABLE \<and> (\<forall>j. clock j - clock 0 \<le> ms) \<longrightarrow> \<not> dictIsRehashing d')"
proof (cases "pauserehash d > 0")
  case True
  then show ?thesis using assms(2) by (simp add: dictRehashMilliseconds_def)
next
  case False
  obtain r d' where r: "dictRehashMilliseconds_loop cr clock ms 1 0 d = Some (r, d')" "dict_ok d'"
    "same_content d d'"
    "cr = DICT_RESIZE_ENABLE \<and> (\<forall>j. clock j - clock 0 \<le> ms) \<longrightarrow> \<not> dictIsRehashing d'"
    using dictRehashMilliseconds_loop_ok [OF assms, of cr clock ms 1 0] by blast
  then show ?thesis
    using False same_content_map [OF assms r(3)] by (auto simp: dictRehashMilliseconds_def)
qed

theorem dictRehashMilliseconds_returns_witness:
  "dictIsRehashing demo_rehash \<and>
   (\<exists>r d'. dictRehashMilliseconds DICT_RESIZE_ENABLE (\<lambda>_. 0) demo_rehash 1 = Some (r, d') \<and> dict_ok d' \<and>
      dict_map d' 7 = Some (Some 1) \<and> \<not> dictIsRehashing d') \<and>
   dictRehashMilliseconds DICT_RESIZE_ENABLE (\<lambda>_. 0) (demo_rehash\<lparr>pauserehash := 1\<rparr>) 1 =
     Some (0, demo_rehash\<lparr>pauserehash := 1\<rparr>)"
proof -
  let ?p = "demo_rehash\<lparr>pauserehash := 1\<rparr>"
  have t: "dtype_ok (dtype demo_rehash)" "dtype_ok (dtype ?p)" "pauserehash demo_rehash = 0" "dictIsRehashing demo_rehash"
    by (simp_all add: demo_rehash_def demo_dict_def demo_type_ok dictIsRehashing_def)
  have p: "dict_ok ?p" using demo_rehash_ok by (simp add: dict_ok_def dict_kvs_def)
  obtain r d' where d: "dictRehashMilliseconds DICT_RESIZE_ENABLE (\<lambda>_. 0) demo_rehash 1 = Some (r, d')" "dict_ok d'"
    "dict_map d' = dict_map demo_rehash" "\<not> dictIsRehashing d'"
    using dictRehashMilliseconds_returns [OF t(1) demo_rehash_ok, of DICT_RESIZE_ENABLE "\<lambda>_. 0" 1] t(3) by auto
  have "dict_map d' 7 = Some (Some 1)" using d(3) demo_rehash_map by simp
  moreover have "dictRehashMilliseconds DICT_RESIZE_ENABLE (\<lambda>_. 0) ?p 1 = Some (0, ?p)"
    using dictRehashMilliseconds_returns [OF t(2) p, of DICT_RESIZE_ENABLE "\<lambda>_. 0" 1] by auto
  ultimately show ?thesis using d t(4) by blast
qed

text \<open>C2: The guarantee of \<^verbatim>\<open>dictScan\<close>. A scan that starts at cursor 0 and has come back to 0 has returned
  every key that was in the dictionary at each of its calls, whatever happened to the dictionary
  between the calls: growing, shrinking, any progress of the rehashing, other keys coming and going.\<close>

theorem dictScan_returns_all:
  assumes "dtype_ok T" "\<forall>d \<in> set ds. has_key T k d" "scan_session ds 0 = Some (out, True)"
  shows "\<exists>e \<in> set out. key_match T k (dictGetKey e)"
  by (rule scan_session_complete [OF assms]) simp

text \<open>C37: A scan ends: when no table has more than \<open>2\<^sup>K\<close> buckets, the cursor is back at 0 after at most
  \<open>2\<^sup>K\<close> calls, and no call aborts.\<close>

theorem dictScan_ends:
  assumes "\<forall>d \<in> set ds. dict_ok d \<and> ht_size_exp (ht0 d) \<le> int K" "K \<le> 60" "length ds = 2 ^ K"
  shows "\<exists>out. scan_session ds 0 = Some (out, True)"
proof -
  have "length ds \<noteq> 0" using assms(3) by simp
  then have "ds \<noteq> []" by auto
  then show ?thesis using scan_session_ends [OF assms(1,2), of 0] assms(3) by simp
qed

theorem dictScan_ends_witness: "\<exists>out. scan_session (replicate 4 demo_dict) 0 = Some (out, True)"
  by (rule dictScan_ends [where K = 2]) (simp_all add: demo_dict_ok, simp add: demo_dict_def)

theorem dictScan_returns_all_witness:
  "\<exists>out. scan_session (replicate 4 demo_dict) 0 = Some (out, True) \<and> 7 \<in> dictGetKey ` set out"
proof -
  obtain out where out: "scan_session (replicate 4 demo_dict) 0 = Some (out, True)"
    using scan_session_ends [of "replicate 4 demo_dict" 2 0] demo_dict_ok by (auto simp: demo_dict_def)
  have "\<exists>e \<in> set out. key_match (demo_type False :: (nat, nat) dictType) 7 (dictGetKey e)"
    by (rule dictScan_returns_all [OF demo_type_ok _ out]) (simp add: demo_dict_has_key)
  then show ?thesis using out by auto
qed

text \<open>C40: \<^verbatim>\<open>dictEmpty\<close> and \<^verbatim>\<open>dictRelease\<close> run the destructors of every entry of both tables exactly once,
  although the clearing loop stops as soon as the counter of a table is zero, and \<^verbatim>\<open>dictEmpty\<close> leaves
  the dictionary as newly created.\<close>

theorem dictEmpty_releases_all:
  assumes "dict_ok d"
  shows "dictEmpty d = (concat (ht_table (ht0 d)) @ concat (ht_table (ht1 d)), dictCreate (dtype d)) \<and>
    dictRelease d = concat (ht_table (ht0 d)) @ concat (ht_table (ht1 d))"
  using dictEmpty_ok [OF assms] by (simp add: dictRelease_def dictEmpty_def split: prod.splits)

theorem dictEmpty_releases_all_witness:
  "dictEmpty demo_dict = ([EntryNormal 7 (Some 1)], dictCreate (demo_type False))"
  using dictEmpty_releases_all [OF demo_dict_ok] by (simp add: demo_dict_def dictReset_def)

end
