(* ===== verification/Rio.thy ===== *)
theory Rio
  imports Strnum "HOL-Library.Monad_Syntax"
begin

text \<open>
  The stream abstraction of \<^verbatim>\<open>rio.h\<close> and \<^verbatim>\<open>rio.c\<close> over an in-memory buffer: reads and writes in chunks of
  bounded size, the running checksum, the sticky error flags, and the writers of the protocol that the
  append only file uses. The checksum function is the \<^verbatim>\<open>update_cksum\<close> pointer of the stream, null or a
  function from the old checksum and the data to the new one. A read returns the bytes it stored into
  the caller's buffer, or \<^term>\<open>None\<close> for the result 0.
\<close>

section \<open>Streams\<close>

record rio =
  rio_ptr :: bytes
  rio_pos :: nat
  rio_update_cksum :: "(64 word \<Rightarrow> bytes \<Rightarrow> 64 word) option"
  rio_cksum :: "64 word"
  rio_read_error :: bool
  rio_write_error :: bool
  rio_processed_bytes :: nat
  rio_max_processing_chunk :: nat

definition rioInitWithBuffer :: "bytes \<Rightarrow> rio" where
  "rioInitWithBuffer s =
     \<lparr>rio_ptr = s, rio_pos = 0, rio_update_cksum = None, rio_cksum = 0, rio_read_error = False,
      rio_write_error = False, rio_processed_bytes = 0, rio_max_processing_chunk = 0\<rparr>"

definition rioBufferWrite :: "rio \<Rightarrow> bytes \<Rightarrow> rio \<times> bool" where
  "rioBufferWrite r buf = (r\<lparr>rio_ptr := rio_ptr r @ buf, rio_pos := rio_pos r + length buf\<rparr>, True)"

definition rioBufferRead :: "rio \<Rightarrow> nat \<Rightarrow> rio \<times> bytes option" where
  "rioBufferRead r len =
     (if length (rio_ptr r) - rio_pos r < len then (r, None)
      else (r\<lparr>rio_pos := rio_pos r + len\<rparr>, Some (bread (rio_pos r) len (rio_ptr r))))"

definition rioBufferTell :: "rio \<Rightarrow> nat" where
  "rioBufferTell r = rio_pos r"

definition rioBufferFlush :: "rio \<Rightarrow> bool" where
  "rioBufferFlush r = True"

section \<open>Reading and writing\<close>

definition chunk :: "rio \<Rightarrow> nat \<Rightarrow> nat" where
  "chunk r len =
     (if rio_max_processing_chunk r \<noteq> 0 \<and> rio_max_processing_chunk r < len then rio_max_processing_chunk r else len)"

lemma chunk_bounds: "0 < len \<Longrightarrow> 0 < chunk r len \<and> chunk r len \<le> len"
  by (simp add: chunk_def)

definition update_cksum :: "rio \<Rightarrow> bytes \<Rightarrow> rio" where
  "update_cksum r buf = (case rio_update_cksum r of None \<Rightarrow> r | Some f \<Rightarrow> r\<lparr>rio_cksum := f (rio_cksum r) buf\<rparr>)"

function rioWrite_loop :: "rio \<Rightarrow> bytes \<Rightarrow> rio \<times> bool" where
  "rioWrite_loop r buf =
     (if length buf = 0 then (r, True)
      else
        let n = chunk r (length buf);
            r = update_cksum r (take n buf)
        in case rioBufferWrite r (take n buf) of
             (r, False) \<Rightarrow> (r\<lparr>rio_write_error := True\<rparr>, False)
           | (r, True) \<Rightarrow> rioWrite_loop (r\<lparr>rio_processed_bytes := rio_processed_bytes r + n\<rparr>) (drop n buf))"
  by pat_completeness auto
termination
  by (relation "measure (\<lambda>(_, buf). length buf)") (auto simp: chunk_def)

declare rioWrite_loop.simps [simp del]

definition rioWrite :: "rio \<Rightarrow> bytes \<Rightarrow> rio \<times> bool" where
  "rioWrite r buf = (if rio_write_error r then (r, False) else rioWrite_loop r buf)"

function rioRead_loop :: "rio \<Rightarrow> nat \<Rightarrow> bytes \<Rightarrow> rio \<times> bytes option" where
  "rioRead_loop r len buf =
     (if len = 0 then (r, Some buf)
      else
        let n = chunk r len in
        case rioBufferRead r n of
          (r, None) \<Rightarrow> (r\<lparr>rio_read_error := True\<rparr>, None)
        | (r, Some b) \<Rightarrow>
            (let r = update_cksum r b in
             rioRead_loop (r\<lparr>rio_processed_bytes := rio_processed_bytes r + n\<rparr>) (len - n) (buf @ b)))"
  by pat_completeness auto
termination
  by (relation "measure (\<lambda>(_, len, _). len)") (auto simp: chunk_def)

declare rioRead_loop.simps [simp del]

definition rioRead :: "rio \<Rightarrow> nat \<Rightarrow> rio \<times> bytes option" where
  "rioRead r len = (if rio_read_error r then (r, None) else rioRead_loop r len [])"

definition rioTell :: "rio \<Rightarrow> nat" where
  "rioTell r = rioBufferTell r"

definition rioFlush :: "rio \<Rightarrow> bool" where
  "rioFlush r = rioBufferFlush r"

definition rioGetReadError :: "rio \<Rightarrow> bool" where
  "rioGetReadError r = rio_read_error r"

definition rioGetWriteError :: "rio \<Rightarrow> bool" where
  "rioGetWriteError r = rio_write_error r"

definition rioClearErrors :: "rio \<Rightarrow> rio" where
  "rioClearErrors r = r\<lparr>rio_read_error := False, rio_write_error := False\<rparr>"

section \<open>Writers of the protocol\<close>

text \<open>They return the number of bytes written, 0 on error.\<close>

definition rioWriteBulkCount :: "rio \<Rightarrow> byte \<Rightarrow> int \<Rightarrow> rio \<times> nat" where
  "rioWriteBulkCount r prefix count =
     (case ll2string (replicate 127 uninit) count of (buf, len) \<Rightarrow>
        let cbuf = prefix # take len buf @ [ch (CHR 0x0D), ch (CHR 0x0A)];
            clen = 1 + len + 2
        in case rioWrite r cbuf of (r, False) \<Rightarrow> (r, 0) | (r, True) \<Rightarrow> (r, clen))"

definition rioWriteBulkString :: "rio \<Rightarrow> bytes \<Rightarrow> rio \<times> nat" where
  "rioWriteBulkString r buf =
     (case rioWriteBulkCount r (ch (CHR ''$'')) (int (length buf)) of (r, nwritten) \<Rightarrow>
        if nwritten = 0 then (r, 0)
        else case (if length buf > 0 then rioWrite r buf else (r, True)) of
          (r, False) \<Rightarrow> (r, 0)
        | (r, True) \<Rightarrow>
            (case rioWrite r [ch (CHR 0x0D), ch (CHR 0x0A)] of
               (r, False) \<Rightarrow> (r, 0)
             | (r, True) \<Rightarrow> (r, nwritten + length buf + 2)))"

definition rioWriteBulkLongLong :: "rio \<Rightarrow> int \<Rightarrow> rio \<times> nat" where
  "rioWriteBulkLongLong r l =
     (case ll2string (replicate 32 uninit) l of (lbuf, llen) \<Rightarrow> rioWriteBulkString r (take llen lbuf))"

section \<open>What a write and a read do\<close>

text \<open>The bytes not yet read.\<close>

definition pending :: "rio \<Rightarrow> bytes" where
  "pending r = drop (rio_pos r) (rio_ptr r)"

lemma update_cksum_simps [simp]:
  "rio_ptr (update_cksum r b) = rio_ptr r" "rio_pos (update_cksum r b) = rio_pos r"
  "rio_read_error (update_cksum r b) = rio_read_error r" "rio_write_error (update_cksum r b) = rio_write_error r"
  "rio_processed_bytes (update_cksum r b) = rio_processed_bytes r"
  "rio_max_processing_chunk (update_cksum r b) = rio_max_processing_chunk r"
  "rio_update_cksum (update_cksum r b) = rio_update_cksum r"
  by (simp_all add: update_cksum_def split: option.splits)

text \<open>
  A write appends all the bytes, in one piece or in chunks, and counts them; the rest of the stream but
  the checksum is untouched.
\<close>

definition wrote :: "rio \<Rightarrow> bytes \<Rightarrow> rio \<Rightarrow> bool" where
  "wrote r buf r' \<longleftrightarrow> rio_ptr r' = rio_ptr r @ buf \<and> rio_pos r' = rio_pos r + length buf \<and>
     rio_processed_bytes r' = rio_processed_bytes r + length buf \<and> \<not> rio_write_error r' \<and>
     rio_read_error r' = rio_read_error r \<and> rio_update_cksum r' = rio_update_cksum r \<and>
     rio_max_processing_chunk r' = rio_max_processing_chunk r"

lemma wrote_trans: "wrote r a r' \<Longrightarrow> wrote r' b r'' \<Longrightarrow> wrote r (a @ b) r''"
  by (simp add: wrote_def)

lemma wrote_ok: "wrote r a r' \<Longrightarrow> \<not> rio_write_error r'"
  by (simp add: wrote_def)

lemma rioWrite_loop_wrote:
  "\<not> rio_write_error r \<Longrightarrow> \<exists>r'. rioWrite_loop r buf = (r', True) \<and> wrote r buf r'"
proof (induction r buf rule: rioWrite_loop.induct)
  case (1 r buf)
  show ?case
  proof (cases "length buf = 0")
    case True
    then show ?thesis using 1(2) by (subst rioWrite_loop.simps) (simp add: wrote_def)
  next
    case False
    define n where "n = chunk r (length buf)"
    define r1 where "r1 = fst (rioBufferWrite (update_cksum r (take n buf)) (take n buf))"
    define r2 where "r2 = r1\<lparr>rio_processed_bytes := rio_processed_bytes r1 + n\<rparr>"
    have n: "n \<le> length buf" "0 < n" using False chunk_bounds [of "length buf" r] by (simp_all add: n_def)
    have w: "wrote r (take n buf) r2" using 1(2) n by (simp add: wrote_def r2_def r1_def rioBufferWrite_def)
    have b: "rioBufferWrite (update_cksum r (take n buf)) (take n buf) = (r1, True)"
      by (simp add: r1_def rioBufferWrite_def)
    obtain r' where "rioWrite_loop r2 (drop n buf) = (r', True)" "wrote r2 (drop n buf) r'"
      using 1(1) [OF False n_def refl b [symmetric] refl] wrote_ok [OF w] unfolding r2_def by blast
    moreover have "rioWrite_loop r buf = rioWrite_loop r2 (drop n buf)"
      using False b by (subst rioWrite_loop.simps) (simp add: Let_def n_def [symmetric] r2_def)
    ultimately show ?thesis using wrote_trans [OF w, of "drop n buf" r'] by simp
  qed
qed

lemma rioWrite_wrote:
  assumes "\<not> rio_write_error r"
  obtains r' where "rioWrite r buf = (r', True)" "wrote r buf r'"
  using rioWrite_loop_wrote [OF assms] assms by (auto simp: rioWrite_def)

text \<open>A read returns the next bytes exactly when there are enough of them, whatever the chunk size.\<close>

definition consumed :: "rio \<Rightarrow> bytes \<Rightarrow> rio \<Rightarrow> bool" where
  "consumed r buf r' \<longleftrightarrow> pending r = buf @ pending r' \<and> \<not> rio_read_error r' \<and> rio_ptr r' = rio_ptr r \<and>
     rio_processed_bytes r' = rio_processed_bytes r + length buf"

lemma consumed_trans: "consumed r a r' \<Longrightarrow> consumed r' b r'' \<Longrightarrow> consumed r (a @ b) r''"
  by (simp add: consumed_def)

lemma consumed_ok: "consumed r a r' \<Longrightarrow> \<not> rio_read_error r'"
  by (simp add: consumed_def)

lemma rioRead_loop_consumed:
  "\<not> rio_read_error r \<Longrightarrow>
     (if len \<le> length (pending r)
      then \<exists>r'. rioRead_loop r len buf = (r', Some (buf @ take len (pending r))) \<and> consumed r (take len (pending r)) r'
      else \<exists>r'. rioRead_loop r len buf = (r', None) \<and> rio_read_error r')"
proof (induction r len buf rule: rioRead_loop.induct)
  case (1 r len buf)
  show ?case
  proof (cases "len = 0")
    case True
    then show ?thesis using 1(2) by (subst rioRead_loop.simps) (simp add: consumed_def)
  next
    case False
    define n where "n = chunk r len"
    have n: "0 < n" "n \<le> len" using False chunk_bounds [of len r] by (simp_all add: n_def)
    show ?thesis
    proof (cases "length (pending r) < n")
      case True
      then have "rioBufferRead r n = (r, None)" by (simp add: rioBufferRead_def pending_def)
      then show ?thesis using False True n by (subst (1 2) rioRead_loop.simps) (simp add: Let_def n_def [symmetric])
    next
      case ge: False
      let ?b = "take n (pending r)"
      define r1 where "r1 = r\<lparr>rio_pos := rio_pos r + n\<rparr>"
      define r2 where "r2 = (update_cksum r1 ?b)\<lparr>rio_processed_bytes := rio_processed_bytes (update_cksum r1 ?b) + n\<rparr>"
      have b: "rioBufferRead r n = (r1, Some ?b)" using ge by (simp add: rioBufferRead_def pending_def bread_def r1_def)
      have p: "pending r2 = drop n (pending r)" "\<not> rio_read_error r2" "rio_ptr r2 = rio_ptr r"
        "rio_processed_bytes r2 = rio_processed_bytes r + n"
        using 1(2) by (simp_all add: r2_def r1_def pending_def add.commute)
      then have c: "consumed r ?b r2" using ge by (simp add: consumed_def)
      have e: "rioRead_loop r len buf = rioRead_loop r2 (len - n) (buf @ ?b)"
        using False b by (subst rioRead_loop.simps) (simp add: Let_def n_def [symmetric] r2_def)
      note IH = 1(1) [OF False n_def b [symmetric] refl refl, folded r2_def, OF p(2)]
      have t: "take n (pending r) @ take (len - n) (drop n (pending r)) = take len (pending r)"
        using n take_add [of n "len - n" "pending r"] by simp
      show ?thesis
      proof (cases "len \<le> length (pending r)")
        case True
        then have "len - n \<le> length (pending r2)" by (simp add: p(1))
        then obtain r' where r': "rioRead_loop r2 (len - n) (buf @ ?b) = (r', Some ((buf @ ?b) @ take (len - n) (pending r2)))"
          "consumed r2 (take (len - n) (pending r2)) r'" using IH by auto
        have "consumed r (take len (pending r)) r'" using consumed_trans [OF c r'(2)] t by (simp add: p(1))
        then show ?thesis using True e r'(1) t by (simp add: p(1))
      next
        case False
        then have "\<not> len - n \<le> length (pending r2)" using ge n by (simp add: p(1))
        then show ?thesis using IH e False by auto
      qed
    qed
  qed
qed

lemma rioRead_consumed:
  assumes "\<not> rio_read_error r" "pending r = bs @ rest" "length bs = len"
  obtains r' where "rioRead r len = (r', Some bs)" "consumed r bs r'" "pending r' = rest" "\<not> rio_read_error r'"
proof -
  have t: "take len (pending r) = bs" using assms(2,3) by simp
  have "\<exists>r'. rioRead_loop r len [] = (r', Some bs) \<and> consumed r bs r'"
    using rioRead_loop_consumed [OF assms(1), of len "[]"] assms(2,3) t by simp
  then obtain r' where r': "rioRead_loop r len [] = (r', Some bs)" "consumed r bs r'" by blast
  have "rioRead r len = (r', Some bs)" using assms(1) r'(1) by (simp add: rioRead_def)
  moreover have "pending r' = rest" "\<not> rio_read_error r'" using r'(2) assms(2) by (simp_all add: consumed_def)
  ultimately show ?thesis using that r'(2) by blast
qed

lemma rioRead_short:
  assumes "length (pending r) < len"
  obtains r' where "rioRead r len = (r', None)" "rio_read_error r'"
  using rioRead_loop_consumed [of r len "[]"] assms that by (cases "rio_read_error r") (auto simp: rioRead_def)

end
