(* ===== verification/Object.thy ===== *)
theory Object
  imports Strnum "HOL-Library.Monad_Syntax"
begin

text \<open>
  String objects (\<^verbatim>\<open>object.c\<close>): creation, reference counts, the choice between the raw, embedded and
  integer encodings, decoding, comparison and conversion to integers. An object is a record with the
  fields of \<^verbatim>\<open>struct redisObject\<close>; the pointer field is a value of a datatype with one constructor for
  each thing it may point to, and the content of the other object types is left out. The outer
  \<^term>\<open>None\<close> is a failed assertion or a panic. What the functions read of the global \<^verbatim>\<open>server\<close> is a record,
  in which the allocator is a parameter: the spare bytes it grants and whether it can serve a request.
\<close>

section \<open>Objects\<close>

datatype obj_type = OBJ_STRING | OBJ_LIST | OBJ_SET | OBJ_ZSET | OBJ_HASH | OBJ_MODULE | OBJ_STREAM

datatype obj_encoding =
  OBJ_ENCODING_RAW | OBJ_ENCODING_INT | OBJ_ENCODING_HT | OBJ_ENCODING_ZIPMAP | OBJ_ENCODING_LINKEDLIST
| OBJ_ENCODING_ZIPLIST | OBJ_ENCODING_INTSET | OBJ_ENCODING_SKIPLIST | OBJ_ENCODING_EMBSTR
| OBJ_ENCODING_QUICKLIST | OBJ_ENCODING_STREAM | OBJ_ENCODING_LISTPACK

text \<open>\<^verbatim>\<open>ptr\<close>: null, an sds string with its bytes and its free space, a \<^verbatim>\<open>long\<close>, or another structure.\<close>

datatype obj_ptr = Null | Sds bytes nat | Long int | Other

record robj =
  r_type :: obj_type
  r_encoding :: obj_encoding
  r_lru :: nat
  r_refcount :: int
  r_ptr :: obj_ptr

record obj_server =
  sv_maxmemory :: nat
  sv_policy :: "32 word"
  sv_script :: bool
  sv_slack :: "nat \<Rightarrow> nat"
  sv_can_alloc :: "nat \<Rightarrow> bool"

definition OBJ_SHARED_INTEGERS :: int where "OBJ_SHARED_INTEGERS = 10000"
definition OBJ_SHARED_REFCOUNT :: int where "OBJ_SHARED_REFCOUNT = 2 ^ 31 - 1"
definition OBJ_STATIC_REFCOUNT :: int where "OBJ_STATIC_REFCOUNT = 2 ^ 31 - 1 - 1"
definition OBJ_ENCODING_EMBSTR_SIZE_LIMIT :: nat where "OBJ_ENCODING_EMBSTR_SIZE_LIMIT = 44"
definition PROTO_MBULK_BIG_ARG :: nat where "PROTO_MBULK_BIG_ARG = 1024 * 32"
definition LUA_CMD_OBJCACHE_MAX_LEN :: nat where "LUA_CMD_OBJCACHE_MAX_LEN = 64"
definition MAXMEMORY_FLAG_NO_SHARED_INTEGERS :: "32 word" where
  "MAXMEMORY_FLAG_NO_SHARED_INTEGERS = 1 OR 2"

definition sdsEncodedObject :: "robj \<Rightarrow> bool" where
  "sdsEncodedObject o' \<longleftrightarrow> r_encoding o' = OBJ_ENCODING_RAW \<or> r_encoding o' = OBJ_ENCODING_EMBSTR"

text \<open>Using \<^verbatim>\<open>ptr\<close> as an sds, or as a \<^verbatim>\<open>long\<close>, is only defined when it is one.\<close>

definition ptr_sds :: "robj \<Rightarrow> bytes option" where
  "ptr_sds o' = (case r_ptr o' of Sds s _ \<Rightarrow> Some s | _ \<Rightarrow> None)"

definition ptr_long :: "robj \<Rightarrow> int option" where
  "ptr_long o' = (case r_ptr o' of Long v \<Rightarrow> Some v | _ \<Rightarrow> None)"

definition sdsnewlen :: "obj_server \<Rightarrow> bytes \<Rightarrow> obj_ptr" where
  "sdsnewlen sv s = Sds s (sv_slack sv (length s))"

section \<open>Creation\<close>

definition createObject :: "obj_type \<Rightarrow> obj_ptr \<Rightarrow> robj" where
  "createObject type ptr =
     \<lparr>r_type = type, r_encoding = OBJ_ENCODING_RAW, r_lru = 0, r_refcount = 1, r_ptr = ptr\<rparr>"

definition makeObjectShared :: "robj \<Rightarrow> robj option" where
  "makeObjectShared o' = (if r_refcount o' = 1 then Some (o'\<lparr>r_refcount := OBJ_SHARED_REFCOUNT\<rparr>) else None)"

text \<open>The macro of \<^verbatim>\<open>server.h\<close> that makes a variable on the stack a string object.\<close>

definition initStaticStringObject :: "robj \<Rightarrow> obj_ptr \<Rightarrow> robj" where
  "initStaticStringObject var ptr =
     var\<lparr>r_refcount := OBJ_STATIC_REFCOUNT, r_type := OBJ_STRING, r_encoding := OBJ_ENCODING_RAW, r_ptr := ptr\<rparr>"

definition createRawStringObject :: "obj_server \<Rightarrow> bytes \<Rightarrow> robj" where
  "createRawStringObject sv s = createObject OBJ_STRING (sdsnewlen sv s)"

text \<open>The length goes into the \<^verbatim>\<open>uint8_t\<close> of an \<^verbatim>\<open>sdshdr8\<close>. The content is given: no null pointer and not \<^verbatim>\<open>SDS_NOINIT\<close>.\<close>

definition createEmbeddedStringObject :: "bytes \<Rightarrow> robj" where
  "createEmbeddedStringObject s =
     \<lparr>r_type = OBJ_STRING, r_encoding = OBJ_ENCODING_EMBSTR, r_lru = 0, r_refcount = 1,
      r_ptr = Sds (take (unat (word_of_nat (length s) :: byte)) s) 0\<rparr>"

definition createStringObject :: "obj_server \<Rightarrow> bytes \<Rightarrow> robj" where
  "createStringObject sv s =
     (if length s \<le> OBJ_ENCODING_EMBSTR_SIZE_LIMIT then createEmbeddedStringObject s
      else createRawStringObject sv s)"

definition tryCreateRawStringObject :: "obj_server \<Rightarrow> bytes \<Rightarrow> robj option" where
  "tryCreateRawStringObject sv s =
     (if sv_can_alloc sv (length s) then Some (createObject OBJ_STRING (sdsnewlen sv s)) else None)"

definition tryCreateStringObject :: "obj_server \<Rightarrow> bytes \<Rightarrow> robj option" where
  "tryCreateStringObject sv s =
     (if length s \<le> OBJ_ENCODING_EMBSTR_SIZE_LIMIT then Some (createEmbeddedStringObject s)
      else tryCreateRawStringObject sv s)"

text \<open>\<^verbatim>\<open>shared.integers[value]\<close> as \<^verbatim>\<open>createSharedObjects\<close> fills it.\<close>

definition shared_integer :: "int \<Rightarrow> robj" where
  "shared_integer v =
     \<lparr>r_type = OBJ_STRING, r_encoding = OBJ_ENCODING_INT, r_lru = 0, r_refcount = OBJ_SHARED_REFCOUNT, r_ptr = Long v\<rparr>"

datatype ll2strobj = LL2STROBJ_AUTO | LL2STROBJ_NO_SHARED | LL2STROBJ_NO_INT_ENC

definition createStringObjectFromLongLongWithOptions :: "obj_server \<Rightarrow> int \<Rightarrow> ll2strobj \<Rightarrow> robj" where
  "createStringObjectFromLongLongWithOptions sv v flag =
     (if v \<ge> 0 \<and> v < OBJ_SHARED_INTEGERS \<and> flag = LL2STROBJ_AUTO then shared_integer v
      else if v \<ge> - (2 ^ 63) \<and> v \<le> 2 ^ 63 - 1 \<and> flag \<noteq> LL2STROBJ_NO_INT_ENC then
        (createObject OBJ_STRING Null)\<lparr>r_encoding := OBJ_ENCODING_INT, r_ptr := Long v\<rparr>
      else case ll2string (replicate LONG_STR_SIZE uninit) v of (buf, len) \<Rightarrow> createStringObject sv (take len buf))"

definition createStringObjectFromLongLong :: "obj_server \<Rightarrow> int \<Rightarrow> robj" where
  "createStringObjectFromLongLong sv v = createStringObjectFromLongLongWithOptions sv v LL2STROBJ_AUTO"

definition createStringObjectFromLongLongForValue :: "obj_server \<Rightarrow> int \<Rightarrow> robj" where
  "createStringObjectFromLongLongForValue sv v =
     (if sv_maxmemory sv = 0 \<or> sv_policy sv AND MAXMEMORY_FLAG_NO_SHARED_INTEGERS = 0
      then createStringObjectFromLongLongWithOptions sv v LL2STROBJ_AUTO
      else createStringObjectFromLongLongWithOptions sv v LL2STROBJ_NO_SHARED)"

definition createStringObjectFromLongLongWithSds :: "obj_server \<Rightarrow> int \<Rightarrow> robj" where
  "createStringObjectFromLongLongWithSds sv v = createStringObjectFromLongLongWithOptions sv v LL2STROBJ_NO_INT_ENC"

definition dupStringObject :: "obj_server \<Rightarrow> robj \<Rightarrow> robj option" where
  "dupStringObject sv o' =
     (if r_type o' \<noteq> OBJ_STRING then None
      else case r_encoding o' of
        OBJ_ENCODING_RAW \<Rightarrow> do { s \<leftarrow> ptr_sds o'; Some (createRawStringObject sv s) }
      | OBJ_ENCODING_EMBSTR \<Rightarrow> do { s \<leftarrow> ptr_sds o'; Some (createEmbeddedStringObject s) }
      | OBJ_ENCODING_INT \<Rightarrow> Some ((createObject OBJ_STRING Null)\<lparr>r_encoding := OBJ_ENCODING_INT, r_ptr := r_ptr o'\<rparr>)
      | _ \<Rightarrow> None)"

section \<open>Reference counts\<close>

definition incrRefCount :: "robj \<Rightarrow> robj option" where
  "incrRefCount o' =
     (if r_refcount o' < OBJ_STATIC_REFCOUNT then Some (o'\<lparr>r_refcount := r_refcount o' + 1\<rparr>)
      else if r_refcount o' = OBJ_SHARED_REFCOUNT then Some o'
      else if r_refcount o' = OBJ_STATIC_REFCOUNT then None
      else Some o')"

text \<open>The inner \<^term>\<open>None\<close>: the object and its content are freed.\<close>

definition decrRefCount :: "robj \<Rightarrow> robj option option" where
  "decrRefCount o' =
     (if r_refcount o' = 1 then Some None
      else if r_refcount o' \<le> 0 then None
      else if r_refcount o' \<noteq> OBJ_SHARED_REFCOUNT then Some (Some (o'\<lparr>r_refcount := r_refcount o' - 1\<rparr>))
      else Some (Some o'))"

section \<open>Encoding\<close>

definition isSdsRepresentableAsLongLong :: "bytes \<Rightarrow> int option" where
  "isSdsRepresentableAsLongLong s = string2ll s"

definition isObjectRepresentableAsLongLong :: "robj \<Rightarrow> int option option" where
  "isObjectRepresentableAsLongLong o' =
     (if r_type o' \<noteq> OBJ_STRING then None
      else if r_encoding o' = OBJ_ENCODING_INT then do { v \<leftarrow> ptr_long o'; Some (Some v) }
      else do { s \<leftarrow> ptr_sds o'; Some (isSdsRepresentableAsLongLong s) })"

definition trimStringObjectIfNeeded :: "obj_server \<Rightarrow> robj \<Rightarrow> bool \<Rightarrow> robj" where
  "trimStringObjectIfNeeded sv o' trim_small_values =
     (if r_encoding o' \<noteq> OBJ_ENCODING_RAW then o'
      else case r_ptr o' of
        Sds s avail \<Rightarrow>
          (let len = length s in
           if (len \<ge> PROTO_MBULK_BIG_ARG \<or> trim_small_values \<or> (sv_script sv \<and> len < LUA_CMD_OBJCACHE_MAX_LEN)) \<and>
              avail > len div 10
           then o'\<lparr>r_ptr := Sds s 0\<rparr> else o')
      | _ \<Rightarrow> o')"

text \<open>The part of \<^verbatim>\<open>tryObjectEncodingEx\<close> after the test for an integer.\<close>

definition tryEmbedding :: "obj_server \<Rightarrow> robj \<Rightarrow> bytes \<Rightarrow> bool \<Rightarrow> robj option" where
  "tryEmbedding sv o' s try_trim =
     (if length s \<le> OBJ_ENCODING_EMBSTR_SIZE_LIMIT then
        if r_encoding o' = OBJ_ENCODING_EMBSTR then Some o'
        else do { _ \<leftarrow> decrRefCount o'; Some (createEmbeddedStringObject s) }
      else Some (if try_trim then trimStringObjectIfNeeded sv o' False else o'))"

definition tryObjectEncodingEx :: "obj_server \<Rightarrow> robj \<Rightarrow> bool \<Rightarrow> robj option" where
  "tryObjectEncodingEx sv o' try_trim =
     (if r_type o' \<noteq> OBJ_STRING then None
      else if \<not> sdsEncodedObject o' then Some o'
      else if r_refcount o' > 1 then Some o'
      else do {
        s \<leftarrow> ptr_sds o';
        (case (if length s \<le> 20 then string2l s else None) of
           Some v \<Rightarrow>
             if (sv_maxmemory sv = 0 \<or> sv_policy sv AND MAXMEMORY_FLAG_NO_SHARED_INTEGERS = 0) \<and>
                v \<ge> 0 \<and> v < OBJ_SHARED_INTEGERS
             then do { _ \<leftarrow> decrRefCount o'; Some (shared_integer v) }
             else if r_encoding o' = OBJ_ENCODING_RAW
             then Some (o'\<lparr>r_encoding := OBJ_ENCODING_INT, r_ptr := Long v\<rparr>)
             else if r_encoding o' = OBJ_ENCODING_EMBSTR
             then do { _ \<leftarrow> decrRefCount o'; Some (createStringObjectFromLongLongForValue sv v) }
             else tryEmbedding sv o' s try_trim
         | None \<Rightarrow> tryEmbedding sv o' s try_trim)
      })"

definition tryObjectEncoding :: "obj_server \<Rightarrow> robj \<Rightarrow> robj option" where
  "tryObjectEncoding sv o' = tryObjectEncodingEx sv o' True"

definition getDecodedObject :: "obj_server \<Rightarrow> robj \<Rightarrow> robj option" where
  "getDecodedObject sv o' =
     (if sdsEncodedObject o' then incrRefCount o'
      else if r_type o' = OBJ_STRING \<and> r_encoding o' = OBJ_ENCODING_INT then
        do { v \<leftarrow> ptr_long o'; Some (createStringObject sv (takeWhile ((\<noteq>) 0) (fst (ll2string (replicate 32 uninit) v)))) }
      else None)"

section \<open>Comparison\<close>

text \<open>\<^verbatim>\<open>memcmp\<close>: the difference of the first bytes that differ, as unsigned characters.\<close>

fun memcmp :: "bytes \<Rightarrow> bytes \<Rightarrow> int" where
  "memcmp (a # as) (b # bs) = (if a = b then memcmp as bs else uint a - uint b)"
| "memcmp _ _ = 0"

text \<open>The bytes an object stands for, integers printed into a buffer of 128 bytes.\<close>

definition cmp_str :: "robj \<Rightarrow> bytes option" where
  "cmp_str a =
     (if sdsEncodedObject a then ptr_sds a
      else do { v \<leftarrow> ptr_long a; Some (case ll2string (replicate 128 uninit) v of (buf, len) \<Rightarrow> take len buf) })"

text \<open>\<open>strcoll\<close> is the collation of the C library, used with \<^verbatim>\<open>REDIS_COMPARE_COLL\<close>; the result is an \<^verbatim>\<open>int\<close>.\<close>

definition compareStringObjectsWithFlags ::
  "(bytes \<Rightarrow> bytes \<Rightarrow> int) \<Rightarrow> robj \<Rightarrow> robj \<Rightarrow> bool \<Rightarrow> int option" where
  "compareStringObjectsWithFlags strcoll a b coll =
     (if r_type a \<noteq> OBJ_STRING \<or> r_type b \<noteq> OBJ_STRING then None
      else if a = b then Some 0
      else do {
        astr \<leftarrow> cmp_str a;
        bstr \<leftarrow> cmp_str b;
        Some (if coll then strcoll astr bstr
              else let alen = length astr; blen = length bstr;
                       minlen = (if alen < blen then alen else blen);
                       cmp = memcmp (take minlen astr) (take minlen bstr)
                   in if cmp = 0 then sint (word_of_int (int alen - int blen) :: 32 word) else cmp)
      })"

definition compareStringObjects :: "robj \<Rightarrow> robj \<Rightarrow> int option" where
  "compareStringObjects a b = compareStringObjectsWithFlags (\<lambda>_ _. 0) a b False"

definition collateStringObjects :: "(bytes \<Rightarrow> bytes \<Rightarrow> int) \<Rightarrow> robj \<Rightarrow> robj \<Rightarrow> int option" where
  "collateStringObjects strcoll a b = compareStringObjectsWithFlags strcoll a b True"

definition equalStringObjects :: "robj \<Rightarrow> robj \<Rightarrow> bool option" where
  "equalStringObjects a b =
     (if r_encoding a = OBJ_ENCODING_INT \<and> r_encoding b = OBJ_ENCODING_INT then Some (r_ptr a = r_ptr b)
      else do { c \<leftarrow> compareStringObjects a b; Some (c = 0) })"

definition stringObjectLen :: "robj \<Rightarrow> nat option" where
  "stringObjectLen o' =
     (if r_type o' \<noteq> OBJ_STRING then None
      else if sdsEncodedObject o' then do { s \<leftarrow> ptr_sds o'; Some (length s) }
      else do { v \<leftarrow> ptr_long o'; Some (sdigits10 v) })"

section \<open>Integers from objects\<close>

text \<open>
  The null object counts as 0. The functions with a reply return it on the left: the caller's message
  or the one of the function.
\<close>

definition getLongLongFromObject :: "robj option \<Rightarrow> int option option" where
  "getLongLongFromObject o' =
     (case o' of
        None \<Rightarrow> Some (Some 0)
      | Some o' \<Rightarrow>
          if r_type o' \<noteq> OBJ_STRING then None
          else if sdsEncodedObject o' then do { s \<leftarrow> ptr_sds o'; Some (string2ll s) }
          else if r_encoding o' = OBJ_ENCODING_INT then do { v \<leftarrow> ptr_long o'; Some (Some v) }
          else None)"

definition getLongLongFromObjectOrReply :: "robj option \<Rightarrow> string option \<Rightarrow> (string + int) option" where
  "getLongLongFromObjectOrReply o' msg =
     do {
       r \<leftarrow> getLongLongFromObject o';
       Some (case r of
         None \<Rightarrow> Inl (case msg of Some m \<Rightarrow> m | None \<Rightarrow> ''value is not an integer or out of range'')
       | Some v \<Rightarrow> Inr v)
     }"

definition getLongFromObjectOrReply :: "robj option \<Rightarrow> string option \<Rightarrow> (string + int) option" where
  "getLongFromObjectOrReply o' msg =
     do {
       r \<leftarrow> getLongLongFromObjectOrReply o' msg;
       Some (case r of
         Inl e \<Rightarrow> Inl e
       | Inr v \<Rightarrow> if v < - (2 ^ 63) \<or> v > 2 ^ 63 - 1
                 then Inl (case msg of Some m \<Rightarrow> m | None \<Rightarrow> ''value is out of range'') else Inr v)
     }"

text \<open>The default message of the range check prints the two bounds.\<close>

definition range_msg :: "int \<Rightarrow> int \<Rightarrow> string" where
  "range_msg mn mx = ''value is out of range, value must between '' @ map (\<lambda>b. char_of (unat b)) (int_dec mn) @
     '' and '' @ map (\<lambda>b. char_of (unat b)) (int_dec mx)"

definition getRangeLongFromObjectOrReply ::
  "robj option \<Rightarrow> int \<Rightarrow> int \<Rightarrow> string option \<Rightarrow> (string + int) option" where
  "getRangeLongFromObjectOrReply o' mn mx msg =
     do {
       r \<leftarrow> getLongFromObjectOrReply o' msg;
       Some (case r of
         Inl e \<Rightarrow> Inl e
       | Inr v \<Rightarrow> if v < mn \<or> v > mx then Inl (case msg of Some m \<Rightarrow> m | None \<Rightarrow> range_msg mn mx) else Inr v)
     }"

definition getPositiveLongFromObjectOrReply :: "robj option \<Rightarrow> string option \<Rightarrow> (string + int) option" where
  "getPositiveLongFromObjectOrReply o' msg =
     (case msg of
        Some m \<Rightarrow> getRangeLongFromObjectOrReply o' 0 (2 ^ 63 - 1) (Some m)
      | None \<Rightarrow> getRangeLongFromObjectOrReply o' 0 (2 ^ 63 - 1) (Some ''value is out of range, must be positive''))"

definition getIntFromObjectOrReply :: "robj option \<Rightarrow> string option \<Rightarrow> (string + int) option" where
  "getIntFromObjectOrReply o' msg = getRangeLongFromObjectOrReply o' (- (2 ^ 31)) (2 ^ 31 - 1) msg"

section \<open>Well-formed string objects\<close>

text \<open>
  The pointer is what the encoding says: a \<^verbatim>\<open>long\<close> for integers, an sds without free space and of at most
  44 bytes for embedded strings, any sds for raw ones. The reference count is that of a live object.
\<close>

fun enc_ok :: "obj_encoding \<Rightarrow> obj_ptr \<Rightarrow> bool" where
  "enc_ok OBJ_ENCODING_INT (Long v) = in_i64 v"
| "enc_ok OBJ_ENCODING_EMBSTR (Sds s f) = (length s \<le> OBJ_ENCODING_EMBSTR_SIZE_LIMIT \<and> f = 0)"
| "enc_ok OBJ_ENCODING_RAW (Sds s f) = True"
| "enc_ok _ _ = False"

definition wf_robj :: "robj \<Rightarrow> bool" where
  "wf_robj o' \<longleftrightarrow> r_type o' = OBJ_STRING \<and> 1 \<le> r_refcount o' \<and> r_refcount o' \<le> OBJ_SHARED_REFCOUNT \<and>
     enc_ok (r_encoding o') (r_ptr o')"

text \<open>The string an object denotes, whatever its encoding.\<close>

definition str_of :: "robj \<Rightarrow> bytes" where
  "str_of o' = (case r_ptr o' of Sds s _ \<Rightarrow> s | Long v \<Rightarrow> int_dec v | _ \<Rightarrow> [])"

lemma wf_robj_cases:
  assumes "wf_robj o'"
  obtains (Raw) s f where "r_encoding o' = OBJ_ENCODING_RAW" "r_ptr o' = Sds s f"
  | (Emb) s where "r_encoding o' = OBJ_ENCODING_EMBSTR" "r_ptr o' = Sds s 0" "length s \<le> 44"
  | (Int) v where "r_encoding o' = OBJ_ENCODING_INT" "r_ptr o' = Long v" "in_i64 v"
  using assms unfolding wf_robj_def
  by (cases "r_encoding o'"; cases "r_ptr o'") (auto simp: OBJ_ENCODING_EMBSTR_SIZE_LIMIT_def)

lemma wf_robj_type [simp]: "wf_robj o' \<Longrightarrow> r_type o' = OBJ_STRING"
  by (simp add: wf_robj_def)

lemmas obj_consts = OBJ_ENCODING_EMBSTR_SIZE_LIMIT_def OBJ_SHARED_REFCOUNT_def OBJ_STATIC_REFCOUNT_def
  OBJ_SHARED_INTEGERS_def

lemma int_dec_length: "in_i64 v \<Longrightarrow> length (int_dec v) \<le> 20"
  using length_int_dec(1) [of v] by (simp add: LONG_STR_SIZE_def)

lemma int_dec_inj: "in_i64 v \<Longrightarrow> in_i64 w \<Longrightarrow> int_dec v = int_dec w \<longleftrightarrow> v = w"
  using string2ll_iff [of "int_dec v" v] string2ll_iff [of "int_dec v" w] by auto

lemma ll2string_take:
  "in_i64 v \<Longrightarrow> 20 < n \<Longrightarrow> (case ll2string (replicate n uninit) v of (buf, len) \<Rightarrow> take len buf) = int_dec v"
  using int_dec_length [of v] by (subst ll2string_fits) simp_all

lemma string2l_iff: "string2l s = Some v \<longleftrightarrow> in_i64 v \<and> s = int_dec v"
proof -
  have "string2l s = string2ll s"
  proof (cases "string2ll s")
    case (Some w)
    then have "in_i64 w" by (simp add: string2ll_iff)
    then show ?thesis using Some by (simp add: string2l_def in_i64_def)
  qed (simp add: string2l_def)
  then show ?thesis by (simp add: string2ll_iff)
qed

text \<open>A digit is not the terminator, so \<^verbatim>\<open>strlen\<close> of a printed integer is its length.\<close>

lemma nat_dec_nonzero: "c \<in> set (nat_dec n) \<Longrightarrow> c \<noteq> 0"
proof (induction n rule: nat_dec.induct)
  case (1 n)
  have z: "ch (CHR ''0'') + of_nat k \<noteq> (0 :: byte)" if "k < 10" for k
  proof -
    have "unat (ch (CHR ''0'') + of_nat k :: byte) = 48 + k" using that by (simp add: unat_word_ariths unat_of_nat)
    then show ?thesis by auto
  qed
  show ?case
  proof (cases "n < 10")
    case True
    then show ?thesis using 1(2) z [of n] by (simp add: nat_dec_small)
  next
    case False
    then have "nat_dec n = nat_dec (n div 10) @ [ch (CHR ''0'') + of_nat (n mod 10)]" by (intro nat_dec_step) simp
    then show ?thesis using 1 z [of "n mod 10"] False by auto
  qed
qed

lemma int_dec_strlen: "takeWhile (\<lambda>c. c \<noteq> 0) (int_dec v @ 0 # r) = int_dec v"
proof -
  have "0 \<notin> set (nat_dec n)" for n using nat_dec_nonzero [of 0 n] by auto
  then have "0 \<notin> set (int_dec v)" by (simp add: int_dec_def)
  then show ?thesis by (subst takeWhile_append2) auto
qed

lemma createEmbedded_str [simp]:
  "length s \<le> 44 \<Longrightarrow> wf_robj (createEmbeddedStringObject s) \<and> str_of (createEmbeddedStringObject s) = s \<and>
     r_encoding (createEmbeddedStringObject s) = OBJ_ENCODING_EMBSTR"
  by (simp add: createEmbeddedStringObject_def wf_robj_def str_of_def obj_consts unat_of_nat)

lemma createRaw_str [simp]:
  "wf_robj (createRawStringObject sv s)" "str_of (createRawStringObject sv s) = s"
  "r_encoding (createRawStringObject sv s) = OBJ_ENCODING_RAW"
  by (simp_all add: createRawStringObject_def createObject_def sdsnewlen_def wf_robj_def str_of_def obj_consts)

lemma createStringObject_str [simp]:
  "wf_robj (createStringObject sv s)" "str_of (createStringObject sv s) = s"
  "r_encoding (createStringObject sv s) = (if length s \<le> 44 then OBJ_ENCODING_EMBSTR else OBJ_ENCODING_RAW)"
  by (simp_all add: createStringObject_def obj_consts)

lemma shared_integer_str [simp]:
  "in_i64 v \<Longrightarrow> wf_robj (shared_integer v)" "str_of (shared_integer v) = int_dec v"
  "r_encoding (shared_integer v) = OBJ_ENCODING_INT"
  by (simp_all add: shared_integer_def wf_robj_def str_of_def obj_consts)

lemma int_object_str:
  "in_i64 v \<Longrightarrow> wf_robj ((createObject OBJ_STRING Null)\<lparr>r_encoding := OBJ_ENCODING_INT, r_ptr := Long v\<rparr>)"
  "str_of ((createObject OBJ_STRING Null)\<lparr>r_encoding := OBJ_ENCODING_INT, r_ptr := Long v\<rparr>) = int_dec v"
  "r_encoding ((createObject OBJ_STRING Null)\<lparr>r_encoding := OBJ_ENCODING_INT, r_ptr := Long v\<rparr>) = OBJ_ENCODING_INT"
  by (simp_all add: createObject_def wf_robj_def str_of_def obj_consts)

lemma createFromLongLong_cases:
  assumes "in_i64 v"
  shows "createStringObjectFromLongLongWithOptions sv v flag =
    (if v \<ge> 0 \<and> v < OBJ_SHARED_INTEGERS \<and> flag = LL2STROBJ_AUTO then shared_integer v
     else if flag \<noteq> LL2STROBJ_NO_INT_ENC then
       (createObject OBJ_STRING Null)\<lparr>r_encoding := OBJ_ENCODING_INT, r_ptr := Long v\<rparr>
     else createStringObject sv (int_dec v))"
proof -
  have b: "v \<ge> - (2 ^ 63)" "v \<le> 2 ^ 63 - 1" using assms by (auto simp: in_i64_def)
  obtain buf len where l: "ll2string (replicate LONG_STR_SIZE uninit) v = (buf, len)" by force
  then have "take len buf = int_dec v" using ll2string_take [OF assms, of LONG_STR_SIZE] by (simp add: LONG_STR_SIZE_def)
  then show ?thesis using b by (simp add: createStringObjectFromLongLongWithOptions_def l)
qed

lemma createFromLongLong_str:
  assumes "in_i64 v"
  shows "wf_robj (createStringObjectFromLongLongWithOptions sv v flag)"
    "str_of (createStringObjectFromLongLongWithOptions sv v flag) = int_dec v"
    "r_encoding (createStringObjectFromLongLongWithOptions sv v flag) =
       (if flag = LL2STROBJ_NO_INT_ENC then OBJ_ENCODING_EMBSTR else OBJ_ENCODING_INT)"
  using assms int_dec_length [OF assms] by (simp_all add: createFromLongLong_cases int_object_str)

lemma createForValue_str:
  "in_i64 v \<Longrightarrow> wf_robj (createStringObjectFromLongLongForValue sv v)"
  "in_i64 v \<Longrightarrow> str_of (createStringObjectFromLongLongForValue sv v) = int_dec v"
  "in_i64 v \<Longrightarrow> r_encoding (createStringObjectFromLongLongForValue sv v) = OBJ_ENCODING_INT"
  by (simp_all add: createStringObjectFromLongLongForValue_def createFromLongLong_str)

lemma decrRefCount_live: "wf_robj o' \<Longrightarrow> \<exists>r. decrRefCount o' = Some r"
  by (auto simp: wf_robj_def decrRefCount_def)

lemma trim_cases:
  "trimStringObjectIfNeeded sv o' b = o' \<or>
   (\<exists>s f. r_encoding o' = OBJ_ENCODING_RAW \<and> r_ptr o' = Sds s f \<and>
      trimStringObjectIfNeeded sv o' b = o'\<lparr>r_ptr := Sds s 0\<rparr>)"
  by (simp add: trimStringObjectIfNeeded_def Let_def split: obj_ptr.split)

lemma str_of_ptr:
  "r_ptr o' = Sds s f \<Longrightarrow> str_of o' = s" "r_ptr o' = Long v \<Longrightarrow> str_of o' = int_dec v"
  by (simp_all add: str_of_def)

lemma wf_robj_trimmed:
  "wf_robj o' \<Longrightarrow> r_encoding o' = OBJ_ENCODING_RAW \<Longrightarrow> wf_robj (o'\<lparr>r_ptr := Sds s 0\<rparr>)"
  by (simp add: wf_robj_def)

lemma trim_str:
  assumes "wf_robj o'"
  shows "wf_robj (trimStringObjectIfNeeded sv o' b)" "str_of (trimStringObjectIfNeeded sv o' b) = str_of o'"
    "r_encoding (trimStringObjectIfNeeded sv o' b) = r_encoding o'"
  using trim_cases [of sv o' b] assms wf_robj_trimmed by (auto simp: str_of_ptr)

lemma tryEmbedding_str:
  assumes "wf_robj o'" "sdsEncodedObject o'" "s = str_of o'"
  shows "\<exists>t. tryEmbedding sv o' s b = Some t \<and> wf_robj t \<and> str_of t = s \<and>
    r_encoding t = (if length s \<le> 44 then OBJ_ENCODING_EMBSTR else OBJ_ENCODING_RAW)"
proof -
  obtain r where d: "decrRefCount o' = Some r" using decrRefCount_live [OF assms(1)] by blast
  from assms(1) show ?thesis
    by (cases rule: wf_robj_cases)
      (use assms d in \<open>auto simp: tryEmbedding_def obj_consts sdsEncodedObject_def str_of_ptr trim_str\<close>)
qed

lemma tryObjectEncodingEx_str:
  assumes wf: "wf_robj o'" and one: "r_refcount o' = 1"
  shows "\<exists>t. tryObjectEncodingEx sv o' b = Some t \<and> wf_robj t \<and> str_of t = str_of o' \<and>
    r_encoding t = (if \<exists>v. in_i64 v \<and> str_of o' = int_dec v then OBJ_ENCODING_INT
                    else if length (str_of o') \<le> 44 then OBJ_ENCODING_EMBSTR else OBJ_ENCODING_RAW)"
proof (cases "sdsEncodedObject o'")
  case False
  from wf show ?thesis
    by (cases rule: wf_robj_cases)
      (use False wf in \<open>auto simp: sdsEncodedObject_def tryObjectEncodingEx_def str_of_ptr\<close>)
next
  case True
  obtain r where d: "decrRefCount o' = Some r" using decrRefCount_live [OF wf] by blast
  have p: "ptr_sds o' = Some (str_of o')"
    using wf by (cases rule: wf_robj_cases) (use True in \<open>auto simp: ptr_sds_def str_of_def sdsEncodedObject_def\<close>)
  show ?thesis
  proof (cases "\<exists>v. in_i64 v \<and> str_of o' = int_dec v")
    case int: True
    then obtain v where v: "in_i64 v" "str_of o' = int_dec v" by blast
    then have "string2l (str_of o') = Some v" "length (str_of o') \<le> 20"
      by (simp_all add: string2l_iff int_dec_length)
    moreover have "r_encoding o' = OBJ_ENCODING_RAW \<or> r_encoding o' = OBJ_ENCODING_EMBSTR"
      using True by (simp add: sdsEncodedObject_def)
    moreover have "wf_robj (o'\<lparr>r_encoding := OBJ_ENCODING_INT, r_ptr := Long v\<rparr>)" using wf v(1) by (simp add: wf_robj_def)
    ultimately show ?thesis using True one wf v p d int
      by (auto simp: tryObjectEncodingEx_def createForValue_str str_of_ptr)
  next
    case False
    then have "string2l (str_of o') = None" using string2l_iff [of "str_of o'"] by (cases "string2l (str_of o')") auto
    then have "tryObjectEncodingEx sv o' b = tryEmbedding sv o' (str_of o') b"
      using True one wf p by (simp add: tryObjectEncodingEx_def)
    then show ?thesis using tryEmbedding_str [OF wf True refl, of sv b] unfolding if_not_P [OF False] by simp
  qed
qed

lemma wf_robj_encoding: "wf_robj o' \<Longrightarrow> \<not> sdsEncodedObject o' \<Longrightarrow> r_encoding o' = OBJ_ENCODING_INT"
  by (erule wf_robj_cases) (auto simp: sdsEncodedObject_def)

lemma ptr_str:
  "wf_robj o' \<Longrightarrow> sdsEncodedObject o' \<Longrightarrow> ptr_sds o' = Some (str_of o')"
  by (erule wf_robj_cases) (auto simp: ptr_sds_def str_of_ptr sdsEncodedObject_def)

lemma ptr_int:
  assumes "wf_robj o'" "\<not> sdsEncodedObject o'"
  obtains v where "r_ptr o' = Long v" "ptr_long o' = Some v" "in_i64 v" "str_of o' = int_dec v"
  using assms(1) by (rule wf_robj_cases) (use assms(2) that in \<open>auto simp: ptr_long_def str_of_ptr sdsEncodedObject_def\<close>)

lemma getDecodedObject_str:
  assumes wf: "wf_robj o'" and "r_refcount o' \<noteq> OBJ_STATIC_REFCOUNT"
  shows "\<exists>d. getDecodedObject sv o' = Some d \<and> wf_robj d \<and> sdsEncodedObject d \<and> str_of d = str_of o'"
proof (cases "sdsEncodedObject o'")
  case True
  have r: "r_refcount o' < OBJ_STATIC_REFCOUNT \<or> r_refcount o' = OBJ_SHARED_REFCOUNT" "1 \<le> r_refcount o'"
    using assms by (auto simp: wf_robj_def obj_consts)
  then have "wf_robj (o'\<lparr>r_refcount := r_refcount o' + 1\<rparr>)" if "r_refcount o' < OBJ_STATIC_REFCOUNT"
    using wf that by (simp add: wf_robj_def obj_consts)
  then show ?thesis using True r wf by (auto simp: getDecodedObject_def incrRefCount_def sdsEncodedObject_def str_of_def)
next
  case False
  obtain v where v: "ptr_long o' = Some v" "in_i64 v" "str_of o' = int_dec v" using ptr_int [OF wf False] .
  have "takeWhile ((\<noteq>) 0) (fst (ll2string (replicate 32 uninit) v)) = int_dec v"
    using int_dec_length [OF v(2)] by (subst ll2string_fits [OF v(2)]) (simp_all add: int_dec_strlen)
  then show ?thesis using False v wf wf_robj_encoding [OF wf False]
    by (simp add: getDecodedObject_def sdsEncodedObject_def)
qed

lemma cmp_str_str: "wf_robj a \<Longrightarrow> cmp_str a = Some (str_of a)"
  by (cases "sdsEncodedObject a") (auto simp: cmp_str_def ptr_str ll2string_take elim!: ptr_int)

lemma memcmp_eq: "length as = length bs \<Longrightarrow> memcmp as bs = 0 \<longleftrightarrow> as = bs"
  by (induction as bs rule: memcmp.induct) (auto simp: word_uint_eq_iff)

lemma memcmp_less:
  "length as = length bs \<Longrightarrow> memcmp as bs < 0 \<longleftrightarrow> ord_class.lexordp as bs"
  by (induction as bs rule: memcmp.induct) (auto simp: word_less_def word_uint_eq_iff)

lemma lexordp_take:
  "n = min (length as) (length bs) \<Longrightarrow> ord_class.lexordp as bs \<longleftrightarrow>
     ord_class.lexordp (take n as) (take n bs) \<or> take n as = take n bs \<and> length as < length (bs :: byte list)"
proof (induction as arbitrary: bs n)
  case (Cons a as)
  then show ?case by (cases bs) auto
qed (auto simp: neq_Nil_conv)

lemma sint_diff:
  assumes "m < 2 ^ 31" "n < 2 ^ 31"
  shows "sint (word_of_int (int m - int n) :: 32 word) = int m - int n"
  using assms by (subst signed_of_int) (simp add: signed_take_bit_int_eq_self)

text \<open>For strings below 2 GiB the comparison is the lexicographic order of the denoted strings.\<close>

lemma compareStringObjects_str:
  assumes "wf_robj a" "wf_robj b" "length (str_of a) < 2 ^ 31" "length (str_of b) < 2 ^ 31"
  shows "\<exists>c. compareStringObjects a b = Some c \<and> (c = 0 \<longleftrightarrow> str_of a = str_of b) \<and> (c < 0 \<longleftrightarrow> ord_class.lexordp (str_of a) (str_of b))"
proof (cases "a = b")
  case True
  then show ?thesis using assms(1) by (simp add: compareStringObjects_def compareStringObjectsWithFlags_def lexordp_irreflexive')
next
  case False
  let ?a = "str_of a" and ?b = "str_of b"
  define n where "n = min (length ?a) (length ?b)"
  have l: "length (take n ?a) = length (take n ?b)" by (simp add: n_def)
  have m: "(if length ?a < length ?b then length ?a else length ?b) = n" by (simp add: n_def)
  have "compareStringObjects a b = Some (if memcmp (take n ?a) (take n ?b) = 0
      then int (length ?a) - int (length ?b) else memcmp (take n ?a) (take n ?b))"
    using False assms sint_diff [OF assms(3,4), simplified]
    by (simp add: compareStringObjects_def compareStringObjectsWithFlags_def cmp_str_str Let_def m)
  moreover have "?a = ?b \<longleftrightarrow> take n ?a = take n ?b \<and> length ?a = length ?b" by (auto simp: n_def)
  moreover note lexordp_take [OF n_def] memcmp_eq [OF l] memcmp_less [OF l]
  ultimately show ?thesis by (auto simp: lexordp_irreflexive')
qed

lemma equalStringObjects_str:
  assumes "wf_robj a" "wf_robj b" "length (str_of a) < 2 ^ 31" "length (str_of b) < 2 ^ 31"
  shows "equalStringObjects a b = Some (str_of a = str_of b)"
proof (cases "r_encoding a = OBJ_ENCODING_INT \<and> r_encoding b = OBJ_ENCODING_INT")
  case True
  then have "\<not> sdsEncodedObject a" "\<not> sdsEncodedObject b" by (auto simp: sdsEncodedObject_def)
  then obtain v w where "r_ptr a = Long v" "in_i64 v" "str_of a = int_dec v" "r_ptr b = Long w" "in_i64 w" "str_of b = int_dec w"
    using ptr_int [OF assms(1)] ptr_int [OF assms(2)] by metis
  then show ?thesis using True by (simp add: equalStringObjects_def int_dec_inj)
next
  case False
  then show ?thesis using compareStringObjects_str [OF assms] by (auto simp: equalStringObjects_def)
qed

lemma stringObjectLen_str: "wf_robj o' \<Longrightarrow> stringObjectLen o' = Some (length (str_of o'))"
  by (cases "sdsEncodedObject o'") (auto simp: stringObjectLen_def ptr_str sdigits10_length elim!: ptr_int)

text \<open>Reading an integer depends only on the denoted string.\<close>

lemma getLongLongFromObject_str:
  assumes "wf_robj o'"
  shows "getLongLongFromObject (Some o') = Some (string2ll (str_of o'))"
proof (cases "sdsEncodedObject o'")
  case True
  then show ?thesis using assms by (simp add: getLongLongFromObject_def ptr_str)
next
  case False
  obtain v where "ptr_long o' = Some v" "in_i64 v" "str_of o' = int_dec v" using ptr_int [OF assms False] .
  moreover from this have "string2ll (str_of o') = Some v" by (simp add: string2ll_iff)
  ultimately show ?thesis using assms False wf_robj_encoding [OF assms False] by (simp add: getLongLongFromObject_def)
qed

lemma getRangeLong_str:
  assumes "wf_robj o'"
  shows "\<exists>r. getRangeLongFromObjectOrReply (Some o') mn mx msg = Some r \<and>
    (\<forall>v. r = Inr v \<longleftrightarrow> in_i64 v \<and> mn \<le> v \<and> v \<le> mx \<and> str_of o' = int_dec v)"
proof (cases "string2ll (str_of o')")
  case None
  then have "\<not> (in_i64 v \<and> str_of o' = int_dec v)" for v using string2ll_iff [of "str_of o'" v] by simp
  then show ?thesis using None
    by (auto simp: getRangeLongFromObjectOrReply_def getLongFromObjectOrReply_def getLongLongFromObjectOrReply_def
        getLongLongFromObject_str [OF assms])
next
  case (Some w)
  then have w: "in_i64 w" "str_of o' = int_dec w" by (auto simp: string2ll_iff)
  then have u: "(in_i64 v \<and> mn \<le> v \<and> v \<le> mx \<and> str_of o' = int_dec v) \<longleftrightarrow> v = w \<and> mn \<le> v \<and> v \<le> mx" for v
    using int_dec_inj [of v w] by auto
  have "\<not> (w < - (2 ^ 63) \<or> w > 2 ^ 63 - 1)" using w(1) by (auto simp: in_i64_def)
  then have "\<exists>e. getRangeLongFromObjectOrReply (Some o') mn mx msg = Some (if w < mn \<or> w > mx then Inl e else Inr w)"
    using Some by (simp add: getRangeLongFromObjectOrReply_def getLongFromObjectOrReply_def getLongLongFromObjectOrReply_def
        getLongLongFromObject_str [OF assms])
  then show ?thesis unfolding u by auto
qed

lemma dupStringObject_str:
  "wf_robj o' \<Longrightarrow> \<exists>d. dupStringObject sv o' = Some d \<and> wf_robj d \<and> str_of d = str_of o' \<and>
     r_encoding d = r_encoding o' \<and> r_refcount d = 1"
  by (frule wf_robj_type, erule wf_robj_cases)
    (auto simp: dupStringObject_def ptr_sds_def str_of_ptr createRawStringObject_def createEmbeddedStringObject_def
      createObject_def sdsnewlen_def wf_robj_def obj_consts unat_of_nat)

lemma tryObjectEncodingEx_any:
  assumes "wf_robj o'"
  shows "\<exists>t. tryObjectEncodingEx sv o' b = Some t \<and> wf_robj t \<and> str_of t = str_of o' \<and>
    (if r_refcount o' > 1 then t = o'
     else r_encoding t = (if \<exists>v. in_i64 v \<and> str_of o' = int_dec v then OBJ_ENCODING_INT
                          else if length (str_of o') \<le> 44 then OBJ_ENCODING_EMBSTR else OBJ_ENCODING_RAW))"
proof (cases "r_refcount o' > 1")
  case True
  then show ?thesis using assms by (simp add: tryObjectEncodingEx_def)
next
  case False
  then have "r_refcount o' = 1" using assms by (simp add: wf_robj_def)
  then show ?thesis using tryObjectEncodingEx_str [OF assms, of sv b] unfolding if_not_P [OF False] by blast
qed

lemma incrRefCount_str:
  assumes "wf_robj o'"
  shows "incrRefCount o' = None \<longleftrightarrow> r_refcount o' = OBJ_STATIC_REFCOUNT"
    "incrRefCount o' = Some t \<Longrightarrow> wf_robj t \<and> str_of t = str_of o' \<and> r_encoding t = r_encoding o'"
  using assms by (auto simp: incrRefCount_def wf_robj_def str_of_def obj_consts split: if_splits)

lemma decrRefCount_str:
  "wf_robj o' \<Longrightarrow> decrRefCount o' = Some (Some t) \<Longrightarrow> wf_robj t \<and> str_of t = str_of o'"
  by (auto simp: decrRefCount_def wf_robj_def str_of_def obj_consts split: if_splits)

lemma getDecodedObject_static:
  assumes "wf_robj o'"
  shows "getDecodedObject sv o' = None \<longleftrightarrow> sdsEncodedObject o' \<and> r_refcount o' = OBJ_STATIC_REFCOUNT"
    "getDecodedObject sv o' = Some d \<Longrightarrow> wf_robj d \<and> sdsEncodedObject d \<and> str_of d = str_of o'"
proof -
  show "getDecodedObject sv o' = None \<longleftrightarrow> sdsEncodedObject o' \<and> r_refcount o' = OBJ_STATIC_REFCOUNT"
  proof (cases "sdsEncodedObject o'")
    case True
    then show ?thesis using incrRefCount_str(1) [OF assms] by (simp add: getDecodedObject_def)
  next
    case False
    obtain v where "ptr_long o' = Some v" by (rule ptr_int [OF assms False])
    then show ?thesis using False assms wf_robj_encoding [OF assms False] by (simp add: getDecodedObject_def wf_robj_def)
  qed
  show "getDecodedObject sv o' = Some d \<Longrightarrow> wf_robj d \<and> sdsEncodedObject d \<and> str_of d = str_of o'"
  proof -
    assume d: "getDecodedObject sv o' = Some d"
    show ?thesis
    proof (cases "r_refcount o' = OBJ_STATIC_REFCOUNT \<and> sdsEncodedObject o'")
      case True
      then show ?thesis using d incrRefCount_str(1) [OF assms] by (simp add: getDecodedObject_def)
    next
      case False
      show ?thesis
      proof (cases "sdsEncodedObject o'")
        case True
        then show ?thesis using d incrRefCount_str(2) [OF assms] by (simp add: getDecodedObject_def sdsEncodedObject_def)
      next
        case int: False
        have "getDecodedObject sv o' = getDecodedObject sv (o'\<lparr>r_refcount := 1\<rparr>)"
          using int by (simp add: getDecodedObject_def sdsEncodedObject_def ptr_long_def)
        moreover have "wf_robj (o'\<lparr>r_refcount := 1\<rparr>)" "str_of (o'\<lparr>r_refcount := 1\<rparr>) = str_of o'"
          using assms by (simp_all add: wf_robj_def str_of_def obj_consts)
        ultimately show ?thesis using d getDecodedObject_str [of "o'\<lparr>r_refcount := 1\<rparr>" sv] by (auto simp: obj_consts)
      qed
    qed
  qed
qed

section \<open>The string objects of the server\<close>

text \<open>
  The string objects the code can hold: those it creates, and what the operations make of them. The embedded constructor
  is called for at most 44 bytes, and a static object with an sds. The two constructors that may fail return
  \<^term>\<open>None\<close> when the allocator cannot serve them.
\<close>

inductive made :: "obj_server \<Rightarrow> robj \<Rightarrow> bool" for sv where
  object: "made sv (createObject OBJ_STRING (Sds s f))"
| static: "made sv (initStaticStringObject var (Sds s f))"
| raw: "made sv (createRawStringObject sv s)"
| embedded: "length s \<le> OBJ_ENCODING_EMBSTR_SIZE_LIMIT \<Longrightarrow> made sv (createEmbeddedStringObject s)"
| string: "made sv (createStringObject sv s)"
| try_raw: "tryCreateRawStringObject sv s = Some o' \<Longrightarrow> made sv o'"
| try_string: "tryCreateStringObject sv s = Some o' \<Longrightarrow> made sv o'"
| shared_int: "0 \<le> v \<Longrightarrow> v < OBJ_SHARED_INTEGERS \<Longrightarrow> made sv (shared_integer v)"
| from_long_long: "in_i64 v \<Longrightarrow> made sv (createStringObjectFromLongLong sv v)"
| for_value: "in_i64 v \<Longrightarrow> made sv (createStringObjectFromLongLongForValue sv v)"
| with_sds: "in_i64 v \<Longrightarrow> made sv (createStringObjectFromLongLongWithSds sv v)"
| share: "made sv o' \<Longrightarrow> makeObjectShared o' = Some t \<Longrightarrow> made sv t"
| dup: "made sv o' \<Longrightarrow> dupStringObject sv o' = Some t \<Longrightarrow> made sv t"
| incr: "made sv o' \<Longrightarrow> incrRefCount o' = Some t \<Longrightarrow> made sv t"
| decr: "made sv o' \<Longrightarrow> decrRefCount o' = Some (Some t) \<Longrightarrow> made sv t"
| trim: "made sv o' \<Longrightarrow> made sv (trimStringObjectIfNeeded sv o' b)"
| encode: "made sv o' \<Longrightarrow> tryObjectEncodingEx sv o' b = Some t \<Longrightarrow> made sv t"
| decode: "made sv o' \<Longrightarrow> getDecodedObject sv o' = Some t \<Longrightarrow> made sv t"

lemma made_wf: "made sv o' \<Longrightarrow> wf_robj o'"
proof (induction rule: made.induct)
  case (object s f)
  then show ?case by (simp add: createObject_def wf_robj_def obj_consts)
next
  case (static var s f)
  then show ?case by (simp add: initStaticStringObject_def wf_robj_def obj_consts)
next
  case (try_raw s o')
  then show ?case using createRaw_str(1) [of sv s] by (simp add: tryCreateRawStringObject_def createRawStringObject_def split: if_splits)
next
  case (try_string s o')
  then show ?case using createRaw_str(1) [of sv s]
    by (auto simp: tryCreateStringObject_def tryCreateRawStringObject_def createRawStringObject_def obj_consts split: if_splits)
next
  case (shared_int v)
  then show ?case by (simp add: in_i64_def obj_consts)
next
  case (share o' t)
  then show ?case by (auto simp: makeObjectShared_def wf_robj_def obj_consts split: if_splits)
next
  case (dup o' t)
  then show ?case using dupStringObject_str [of o' sv] by auto
next
  case (incr o' t)
  then show ?case using incrRefCount_str(2) [of o' t] by simp
next
  case (decr o' t)
  then show ?case using decrRefCount_str [of o' t] by simp
next
  case (encode o' b t)
  then show ?case using tryObjectEncodingEx_any [of o' sv b] by auto
next
  case (decode o' t)
  then show ?case using getDecodedObject_static(2) [of o' sv t] by simp
qed (simp_all add: obj_consts createFromLongLong_str createForValue_str trim_str createStringObjectFromLongLong_def
    createStringObjectFromLongLongWithSds_def)

definition demo_sv :: obj_server where
  "demo_sv = \<lparr>sv_maxmemory = 0, sv_policy = 0, sv_script = False, sv_slack = \<lambda>_. 0, sv_can_alloc = \<lambda>_. True\<rparr>"

section \<open>Properties\<close>

text \<open>C30: \<^verbatim>\<open>tryObjectEncoding\<close> never trips an assertion on a string object and keeps the string it denotes. An object with
  more than one reference, or a static one, is returned as it is; for any other the encoding is picked by the
  string alone: an integer exactly for the decimal notations of the 64 bit integers, else an embedded string up to
  44 bytes, else a raw one.\<close>

theorem tryObjectEncoding_correct:
  assumes "wf_robj o'"
  shows "\<exists>t. tryObjectEncoding sv o' = Some t \<and> wf_robj t \<and> str_of t = str_of o' \<and>
    (if r_refcount o' > 1 then t = o'
     else r_encoding t = (if \<exists>v. in_i64 v \<and> str_of o' = int_dec v then OBJ_ENCODING_INT
                          else if length (str_of o') \<le> OBJ_ENCODING_EMBSTR_SIZE_LIMIT then OBJ_ENCODING_EMBSTR
                          else OBJ_ENCODING_RAW))"
  unfolding tryObjectEncoding_def OBJ_ENCODING_EMBSTR_SIZE_LIMIT_def by (rule tryObjectEncodingEx_any [OF assms])

theorem tryObjectEncoding_correct_witness:
  "(\<exists>t. tryObjectEncoding demo_sv (createObject OBJ_STRING (Sds [ch (CHR ''-''), ch (CHR ''7'')] 3)) = Some t \<and>
      r_encoding t = OBJ_ENCODING_INT) \<and>
   tryObjectEncoding demo_sv ((createObject OBJ_STRING (Sds [ch (CHR ''7'')] 3))\<lparr>r_refcount := 2\<rparr>) =
     Some ((createObject OBJ_STRING (Sds [ch (CHR ''7'')] 3))\<lparr>r_refcount := 2\<rparr>)"
proof -
  let ?o = "createObject OBJ_STRING (Sds [ch (CHR ''-''), ch (CHR ''7'')] 3)"
  let ?p = "(createObject OBJ_STRING (Sds [ch (CHR ''7'')] 3))\<lparr>r_refcount := 2\<rparr>"
  have w: "wf_robj ?o" "r_refcount ?o = 1" "wf_robj ?p" "r_refcount ?p > 1"
    by (simp_all add: createObject_def wf_robj_def obj_consts)
  have "in_i64 (-7)" "str_of ?o = int_dec (-7)"
    by (simp_all add: in_i64_def createObject_def str_of_def int_dec_def nat_dec.simps)
  then have i: "\<exists>v. in_i64 v \<and> str_of ?o = int_dec v" by blast
  obtain t where "tryObjectEncoding demo_sv ?o = Some t" "r_encoding t = OBJ_ENCODING_INT"
    using tryObjectEncoding_correct [OF w(1), of demo_sv] unfolding w(2) if_P [OF i] by auto
  moreover have "tryObjectEncoding demo_sv ?p = Some ?p"
    using tryObjectEncoding_correct [OF w(3), of demo_sv] unfolding if_P [OF w(4)] by auto
  ultimately show ?thesis by blast
qed

text \<open>C31: comparing two string objects is comparing the strings they denote, in any combination of
  encodings: the sign of the result is the lexicographic order of the bytes, 0 means equal, and
  \<^verbatim>\<open>equalStringObjects\<close> agrees. The strings must be shorter than 2 GiB.\<close>

theorem compareStringObjects_correct:
  assumes "wf_robj a" "wf_robj b" "length (str_of a) < 2 ^ 31" "length (str_of b) < 2 ^ 31"
  shows "(\<exists>c. compareStringObjects a b = Some c \<and> (c = 0 \<longleftrightarrow> str_of a = str_of b) \<and>
            (c < 0 \<longleftrightarrow> ord_class.lexordp (str_of a) (str_of b))) \<and>
         equalStringObjects a b = Some (str_of a = str_of b)"
  using compareStringObjects_str [OF assms] equalStringObjects_str [OF assms] by blast

theorem compareStringObjects_correct_witness:
  "\<exists>c. compareStringObjects (shared_integer 12) (createEmbeddedStringObject [ch (CHR ''2'')]) = Some c \<and> c < 0"
proof -
  let ?a = "shared_integer 12" and ?b = "createEmbeddedStringObject [ch (CHR ''2'')]"
  have w: "wf_robj ?a" "wf_robj ?b" by (simp_all add: in_i64_def)
  have s: "str_of ?a = [ch (CHR ''1''), ch (CHR ''2'')]" "str_of ?b = [ch (CHR ''2'')]"
    by (simp_all add: int_dec_def nat_dec.simps)
  show ?thesis using compareStringObjects_correct [OF w] unfolding s by auto
qed

text \<open>C35: the \<^verbatim>\<open>int\<close> result wraps beyond that: a string that extends another by \<open>2 ^ 32\<close> bytes compares
  equal to it.\<close>

theorem compareStringObjects_wraps:
  assumes "r_encoding a = OBJ_ENCODING_RAW" "r_encoding b = OBJ_ENCODING_RAW" "wf_robj a" "wf_robj b"
    and "str_of a = str_of b @ t" "length t = 2 ^ 32"
  shows "equalStringObjects a b = Some True \<and> str_of a \<noteq> str_of b"
proof -
  have z: "memcmp s s = 0" for s using memcmp_eq [of s s] by simp
  have "int (length (str_of a)) - int (length (str_of b)) = 2 ^ 32" using assms(5,6) by simp
  moreover have "sint (word_of_int (2 ^ 32) :: 32 word) = 0" by simp
  ultimately have "sint (word_of_int (int (length (str_of a)) - int (length (str_of b))) :: 32 word) = 0" by (simp only:)
  moreover have "a \<noteq> b" using assms(5,6) by auto
  ultimately have "compareStringObjects a b = Some 0"
    unfolding compareStringObjects_def compareStringObjectsWithFlags_def Let_def
    using assms(3-6) by (simp only: cmp_str_str bind.bind_lunit) (simp add: z)
  then show ?thesis using assms(1,5,6) by (auto simp: equalStringObjects_def)
qed

theorem compareStringObjects_wraps_witness:
  "equalStringObjects (createObject OBJ_STRING (Sds (replicate (2 ^ 32) 0) 0)) (createObject OBJ_STRING (Sds [] 0)) = Some True"
proof -
  let ?a = "createObject OBJ_STRING (Sds (replicate (2 ^ 32) 0) 0)" and ?b = "createObject OBJ_STRING (Sds [] 0)"
  have "r_encoding ?a = OBJ_ENCODING_RAW" "r_encoding ?b = OBJ_ENCODING_RAW" "wf_robj ?a" "wf_robj ?b"
    "str_of ?a = str_of ?b @ replicate (2 ^ 32) 0"
    unfolding createObject_def wf_robj_def str_of_def obj_consts by simp_all
  from compareStringObjects_wraps [OF this length_replicate] show ?thesis by blast
qed

text \<open>C33: type soundness. The pointer of every string object that the constructors of \<^const>\<open>made\<close> create and the
  operations on string objects return is what its encoding says, and its reference count is that of a live object. On
  such an object duplication, encoding, trimming, the length and the release of a reference meet no failed assertion,
  and what they return denotes the same string (the release of the last reference frees it); taking a reference panics
  exactly when the count is that of a static object, decoding exactly when in addition the object is not an
  integer, and sharing fails its assertion exactly when the count is not 1.\<close>

theorem string_objects_typed:
  assumes "made sv o'"
  shows "wf_robj o' \<and>
    (\<exists>d. dupStringObject sv o' = Some d \<and> str_of d = str_of o' \<and> r_encoding d = r_encoding o' \<and> r_refcount d = 1) \<and>
    (\<exists>t. tryObjectEncodingEx sv o' b = Some t \<and> str_of t = str_of o') \<and>
    str_of (trimStringObjectIfNeeded sv o' b) = str_of o' \<and>
    stringObjectLen o' = Some (length (str_of o')) \<and>
    (case decrRefCount o' of None \<Rightarrow> False | Some None \<Rightarrow> r_refcount o' = 1 | Some (Some t) \<Rightarrow> r_refcount o' \<noteq> 1 \<and> str_of t = str_of o') \<and>
    (case incrRefCount o' of None \<Rightarrow> r_refcount o' = OBJ_STATIC_REFCOUNT
     | Some t \<Rightarrow> r_refcount o' \<noteq> OBJ_STATIC_REFCOUNT \<and> str_of t = str_of o') \<and>
    (case getDecodedObject sv o' of None \<Rightarrow> sdsEncodedObject o' \<and> r_refcount o' = OBJ_STATIC_REFCOUNT
     | Some d \<Rightarrow> \<not> (sdsEncodedObject o' \<and> r_refcount o' = OBJ_STATIC_REFCOUNT) \<and> sdsEncodedObject d \<and> str_of d = str_of o') \<and>
    (case makeObjectShared o' of None \<Rightarrow> r_refcount o' \<noteq> 1 | Some t \<Rightarrow> r_refcount o' = 1 \<and> str_of t = str_of o')"
proof -
  have wf: "wf_robj o'" by (rule made_wf [OF assms])
  have i: "case incrRefCount o' of None \<Rightarrow> r_refcount o' = OBJ_STATIC_REFCOUNT
     | Some t \<Rightarrow> r_refcount o' \<noteq> OBJ_STATIC_REFCOUNT \<and> str_of t = str_of o'"
    using incrRefCount_str [OF wf] by (auto split: option.split)
  have d: "case getDecodedObject sv o' of None \<Rightarrow> sdsEncodedObject o' \<and> r_refcount o' = OBJ_STATIC_REFCOUNT
     | Some d \<Rightarrow> \<not> (sdsEncodedObject o' \<and> r_refcount o' = OBJ_STATIC_REFCOUNT) \<and> sdsEncodedObject d \<and> str_of d = str_of o'"
    using getDecodedObject_static [OF wf] by (auto split: option.split)
  have f: "case decrRefCount o' of None \<Rightarrow> False | Some None \<Rightarrow> r_refcount o' = 1 | Some (Some t) \<Rightarrow> r_refcount o' \<noteq> 1 \<and> str_of t = str_of o'"
    using wf by (auto simp: decrRefCount_def wf_robj_def str_of_def obj_consts)
  have m: "case makeObjectShared o' of None \<Rightarrow> r_refcount o' \<noteq> 1 | Some t \<Rightarrow> r_refcount o' = 1 \<and> str_of t = str_of o'"
    by (simp add: makeObjectShared_def str_of_def)
  have u: "\<exists>d. dupStringObject sv o' = Some d \<and> str_of d = str_of o' \<and> r_encoding d = r_encoding o' \<and> r_refcount d = 1"
    using dupStringObject_str [OF wf, of sv] by blast
  have t: "\<exists>t. tryObjectEncodingEx sv o' b = Some t \<and> str_of t = str_of o'" using tryObjectEncodingEx_any [OF wf, of sv b] by blast
  show ?thesis
    using wf u t trim_str(2) [OF wf] stringObjectLen_str [OF wf] i d f m by simp
qed

theorem string_objects_typed_witness:
  "made demo_sv (shared_integer 12) \<and> stringObjectLen (shared_integer 12) = Some 2 \<and>
   (\<exists>d. dupStringObject demo_sv (shared_integer 12) = Some d \<and> str_of d = [ch (CHR ''1''), ch (CHR ''2'')] \<and> r_refcount d = 1) \<and>
   getDecodedObject demo_sv (initStaticStringObject (shared_integer 0) (Sds [ch (CHR ''a'')] 0)) = None"
proof -
  let ?p = "initStaticStringObject (shared_integer 0) (Sds [ch (CHR ''a'')] 0)"
  have m: "made demo_sv (shared_integer 12)" by (rule made.shared_int) (simp_all add: obj_consts)
  have p: "made demo_sv ?p" by (rule made.static)
  have s: "str_of (shared_integer 12) = [ch (CHR ''1''), ch (CHR ''2'')]" by (simp add: int_dec_def nat_dec.simps)
  have st: "sdsEncodedObject ?p" "r_refcount ?p = OBJ_STATIC_REFCOUNT" by (simp_all add: initStaticStringObject_def sdsEncodedObject_def)
  have "getDecodedObject demo_sv ?p = None"
    using string_objects_typed [OF p, of True] st by (auto split: option.splits)
  then show ?thesis using string_objects_typed [OF m, of True] m unfolding s by simp blast
qed

text \<open>C34: reading a bounded integer from a string object succeeds exactly when the string is the decimal
  notation of a 64 bit integer within the bounds, whatever the encoding; otherwise an error is replied.\<close>

theorem getRangeLong_correct:
  assumes "wf_robj o'"
  shows "\<exists>r. getRangeLongFromObjectOrReply (Some o') mn mx msg = Some r \<and>
    (\<forall>v. r = Inr v \<longleftrightarrow> in_i64 v \<and> mn \<le> v \<and> v \<le> mx \<and> str_of o' = int_dec v)"
  by (rule getRangeLong_str [OF assms])

theorem getRangeLong_correct_witness:
  "getIntFromObjectOrReply (Some (shared_integer 12)) None = Some (Inr 12)"
proof -
  have w: "wf_robj (shared_integer 12)" "in_i64 12" by (simp_all add: in_i64_def)
  show ?thesis using getRangeLong_correct [OF w(1), of "- (2 ^ 31)" "2 ^ 31 - 1" None] w(2)
    by (auto simp: getIntFromObjectOrReply_def)
qed

end
