(* ===== verification/Lzf.thy ===== *)
theory Lzf
  imports Redis_Prelude "HOL-Library.Monad_Syntax"
begin

text \<open>
  The LZF compressor and decompressor (\<^verbatim>\<open>lzf_c.c\<close>, \<^verbatim>\<open>lzf_d.c\<close>) as configured in \<^verbatim>\<open>lzfP.h\<close> for a 64 bit
  host: \<^verbatim>\<open>HLOG\<close> 16, \<^verbatim>\<open>VERY_FAST\<close>, input checks on, slots of the hash table holding pointers, and the hash
  table left uninitialised. A pointer is an offset into the input, \<^term>\<open>None\<close> is \<^verbatim>\<open>NULL\<close>, and the initial
  table is an arbitrary function, so the results hold for whatever the stack contains. The output
  written so far is a list whose length is \<^verbatim>\<open>op - out_data\<close>; a reserved control byte is in it. A write
  at or past \<^verbatim>\<open>out_end\<close> is the outer \<^term>\<open>None\<close>, the return value 0 of the compressor the inner one.
\<close>

section \<open>Decompression\<close>

datatype lzf_errno = E2BIG | EINVAL

text \<open>\<^verbatim>\<open>*op++ = *ref++\<close>, \<open>n\<close> times: the source may be bytes written by the same loop.\<close>

fun copy_octets :: "nat \<Rightarrow> nat \<Rightarrow> bytes \<Rightarrow> bytes" where
  "copy_octets 0 ref out = out"
| "copy_octets (Suc n) ref out = copy_octets n (ref + 1) (out @ [out ! ref])"

text \<open>The \<^verbatim>\<open>switch (len)\<close>: short copies are unrolled, long ones use \<^verbatim>\<open>memcpy\<close> when the areas are disjoint.\<close>

definition lzf_copy_ref :: "nat \<Rightarrow> nat \<Rightarrow> bytes \<Rightarrow> bytes" where
  "lzf_copy_ref len ref out =
     (if len > 9 then
        if length out \<ge> ref + (len + 2) then out @ take (len + 2) (drop ref out)
        else copy_octets (len + 2) ref out
      else copy_octets (len + 2) ref out)"

text \<open>The part of a back reference after the length is known: the offset byte and the checks.\<close>

definition lzf_back_ref ::
  "nat \<Rightarrow> nat \<Rightarrow> int \<Rightarrow> byte \<Rightarrow> bytes \<Rightarrow> lzf_errno + bytes" where
  "lzf_back_ref out_len len ref b out =
     (let ref = ref - uint b in
      if length out + len + 2 > out_len then Inl E2BIG
      else if ref < 0 then Inl EINVAL
      else Inr (lzf_copy_ref len (nat ref) out))"

function lzf_decompress_loop :: "nat \<Rightarrow> bytes \<Rightarrow> bytes \<Rightarrow> lzf_errno + bytes" where
  "lzf_decompress_loop out_len [] out = Inr out"
| "lzf_decompress_loop out_len (c # ip) out =
     (let ctrl = unat c in
      if ctrl < 2 ^ 5 then
        let ctrl = ctrl + 1 in
        if length out + ctrl > out_len then Inl E2BIG
        else if ctrl > length ip then Inl EINVAL
        else lzf_decompress_loop out_len (drop ctrl ip) (out @ take ctrl ip)
      else
        let len = ctrl div 2 ^ 5;
            ref = int (length out) - int (ctrl mod 2 ^ 5) * 2 ^ 8 - 1
        in case ip of
             [] \<Rightarrow> Inl EINVAL
           | b # ip \<Rightarrow>
               if len = 7 then
                 (case ip of
                    [] \<Rightarrow> Inl EINVAL
                  | b' # ip \<Rightarrow>
                      (case lzf_back_ref out_len (len + unat b) ref b' out of
                         Inl e \<Rightarrow> Inl e
                       | Inr out \<Rightarrow> lzf_decompress_loop out_len ip out))
               else
                 (case lzf_back_ref out_len len ref b out of
                    Inl e \<Rightarrow> Inl e
                  | Inr out \<Rightarrow> lzf_decompress_loop out_len ip out))"
  by pat_completeness auto
termination by (relation "measure (\<lambda>(_, ip, _). length ip)") auto

definition lzf_decompress :: "bytes \<Rightarrow> nat \<Rightarrow> lzf_errno + bytes" where
  "lzf_decompress inp out_len = lzf_decompress_loop out_len inp []"

section \<open>Compression\<close>

definition MAX_LIT :: nat where "MAX_LIT = 2 ^ 5"
definition MAX_OFF :: nat where "MAX_OFF = 2 ^ 13"
definition MAX_REF :: nat where "MAX_REF = 2 ^ 8 + 2 ^ 3"
definition HSIZE :: nat where "HSIZE = 2 ^ 16"

record lzf_state =
  lz_ip :: nat
  lz_out :: bytes
  lz_lit :: nat
  lz_hval :: "32 word"
  lz_htab :: "nat \<Rightarrow> int option"

text \<open>A read of the input; the first hash may look one byte past a one byte input.\<close>

definition rd :: "bytes \<Rightarrow> nat \<Rightarrow> byte" where
  "rd inp i = (if i < length inp then inp ! i else uninit)"

definition FRST :: "bytes \<Rightarrow> nat \<Rightarrow> 32 word" where
  "FRST inp p = push_bit 8 (ucast (rd inp p)) OR ucast (rd inp (p + 1))"

definition NEXT :: "32 word \<Rightarrow> bytes \<Rightarrow> nat \<Rightarrow> 32 word" where
  "NEXT v inp p = push_bit 8 v OR ucast (rd inp (p + 2))"

definition IDX :: "32 word \<Rightarrow> nat" where
  "IDX h = unat ((drop_bit (3 * 8 - 16) h - h * 5) AND (word_of_nat HSIZE - 1))"

text \<open>Writing a byte at an index, and appending one, with the check against \<^verbatim>\<open>out_end\<close>.\<close>

definition out_set :: "nat \<Rightarrow> nat \<Rightarrow> byte \<Rightarrow> bytes \<Rightarrow> bytes option" where
  "out_set out_len i b out = (if i < out_len \<and> i < length out then Some (out[i := b]) else None)"

definition out_put :: "nat \<Rightarrow> byte \<Rightarrow> bytes \<Rightarrow> bytes option" where
  "out_put out_len b out = (if length out < out_len then Some (out @ [b]) else None)"

text \<open>\<^verbatim>\<open>op [- lit - 1] = lit - 1\<close>: the reserved control byte of the run gets its value.\<close>

definition stop_run :: "nat \<Rightarrow> nat \<Rightarrow> bytes \<Rightarrow> bytes option" where
  "stop_run out_len lit out = out_set out_len (length out - lit - 1) (word_of_int (int lit - 1)) out"

definition undo_run :: "nat \<Rightarrow> bytes \<Rightarrow> bytes" where
  "undo_run lit out = (if lit = 0 then butlast out else out)"

definition start_run :: "bytes \<Rightarrow> bytes" where
  "start_run out = out @ [uninit]"

text \<open>
  The length of a match: up to sixteen unrolled comparisons when there is room for them, then the
  \<^verbatim>\<open>do ... while\<close> loop. The flag of the first says that a comparison failed.
\<close>

fun match_unrolled :: "nat \<Rightarrow> bytes \<Rightarrow> nat \<Rightarrow> nat \<Rightarrow> nat \<Rightarrow> nat \<times> bool" where
  "match_unrolled 0 inp ref ip len = (len, False)"
| "match_unrolled (Suc n) inp ref ip len =
     (let len = len + 1 in
      if rd inp (ref + len) \<noteq> rd inp (ip + len) then (len, True)
      else match_unrolled n inp ref ip len)"

function match_loop :: "bytes \<Rightarrow> nat \<Rightarrow> nat \<Rightarrow> nat \<Rightarrow> nat \<Rightarrow> nat" where
  "match_loop inp ref ip maxlen len =
     (let len = len + 1 in
      if len < maxlen \<and> rd inp (ref + len) = rd inp (ip + len) then match_loop inp ref ip maxlen len
      else len)"
  by pat_completeness auto
termination by (relation "measure (\<lambda>(_, _, _, maxlen, len). maxlen - len)") auto

declare match_loop.simps [simp del]

definition match_len :: "bytes \<Rightarrow> nat \<Rightarrow> nat \<Rightarrow> nat" where
  "match_len inp ref ip =
     (let len = 2;
          maxlen = length inp - ip - len;
          maxlen = (if maxlen > MAX_REF then MAX_REF else maxlen)
      in if maxlen > 16 then
           (case match_unrolled 16 inp ref ip len of
              (len, True) \<Rightarrow> len
            | (len, False) \<Rightarrow> match_loop inp ref ip maxlen len)
         else match_loop inp ref ip maxlen len)"

text \<open>The candidate \<open>ref\<close> is usable: in the window, not the first byte, and three bytes agree.\<close>

definition is_match :: "bytes \<Rightarrow> nat \<Rightarrow> int option \<Rightarrow> bool" where
  "is_match inp ip slot =
     (case slot of None \<Rightarrow> False
      | Some ref \<Rightarrow>
          0 \<le> int ip - ref - 1 \<and> int ip - ref - 1 < int MAX_OFF \<and> ref > 0 \<and>
          rd inp (nat ref + 2) = rd inp (ip + 2) \<and>
          rd inp (nat ref) = rd inp ip \<and> rd inp (nat ref + 1) = rd inp (ip + 1))"

text \<open>
  One round of the main loop. The inner \<^term>\<open>None\<close> is \<^verbatim>\<open>return 0\<close>, the flag is the \<^verbatim>\<open>break\<close> after a match
  that reaches the last two bytes.
\<close>

definition lzf_put_ref ::
  "nat \<Rightarrow> nat \<Rightarrow> nat \<Rightarrow> bytes \<Rightarrow> bytes option" where
  "lzf_put_ref out_len off len out =
     do {
       out \<leftarrow> (if len < 7 then out_put out_len (word_of_nat (off div 2 ^ 8 + len * 2 ^ 5)) out
              else do {
                out \<leftarrow> out_put out_len (word_of_nat (off div 2 ^ 8 + 7 * 2 ^ 5)) out;
                out_put out_len (word_of_nat (len - 7)) out
              });
       out_put out_len (word_of_nat off) out
     }"

definition lzf_put_lit :: "bytes \<Rightarrow> nat \<Rightarrow> nat \<Rightarrow> bytes \<Rightarrow> nat \<Rightarrow> (bytes \<times> nat) option" where
  "lzf_put_lit inp out_len ip out lit =
     do {
       out \<leftarrow> out_put out_len (rd inp ip) out;
       let lit = lit + 1;
       (if lit = MAX_LIT then do { out \<leftarrow> stop_run out_len lit out; Some (start_run out, 0) }
        else Some (out, lit))
     }"

definition lzf_step ::
  "bytes \<Rightarrow> nat \<Rightarrow> lzf_state \<Rightarrow> (lzf_state \<times> bool) option option" where
  "lzf_step inp out_len s =
     (let ip = lz_ip s; out = lz_out s; lit = lz_lit s;
          hval = NEXT (lz_hval s) inp ip;
          slot = lz_htab s (IDX hval);
          htab = (lz_htab s)(IDX hval := Some (int ip))
      in if is_match inp ip slot then
           let ref = nat (the slot);
               off = ip - ref - 1;
               len = match_len inp ref ip - 2
           in if length out + 3 + 1 \<ge> out_len \<and> length out - (if lit = 0 then 1 else 0) + 3 + 1 \<ge> out_len
              then Some None
              else do {
                out \<leftarrow> stop_run out_len lit out;
                out \<leftarrow> lzf_put_ref out_len off len (undo_run lit out);
                let out = start_run out;
                let ip = ip + 1 + (len + 1);
                if ip + 2 \<ge> length inp
                then Some (Some (s\<lparr>lz_ip := ip, lz_out := out, lz_lit := 0, lz_hval := hval, lz_htab := htab\<rparr>, True))
                else
                  let hval = NEXT (FRST inp (ip - 2)) inp (ip - 2);
                      htab = htab(IDX hval := Some (int (ip - 2)));
                      hval = NEXT hval inp (ip - 1);
                      htab = htab(IDX hval := Some (int (ip - 1)))
                  in Some (Some (s\<lparr>lz_ip := ip, lz_out := out, lz_lit := 0, lz_hval := hval, lz_htab := htab\<rparr>, False))
              }
         else if length out \<ge> out_len then Some None
         else do {
           (out, lit) \<leftarrow> lzf_put_lit inp out_len ip out lit;
           Some (Some (s\<lparr>lz_ip := ip + 1, lz_out := out, lz_lit := lit, lz_hval := hval, lz_htab := htab\<rparr>, False))
         })"

lemma lzf_step_progress: "lzf_step inp out_len s = Some (Some (s', b)) \<Longrightarrow> lz_ip s < lz_ip s'"
  by (auto simp: lzf_step_def Let_def split: if_splits bind_splits)

function lzf_loop :: "bytes \<Rightarrow> nat \<Rightarrow> lzf_state \<Rightarrow> lzf_state option option" where
  "lzf_loop inp out_len s =
     (if lz_ip s + 2 < length inp then
        (case lzf_step inp out_len s of
           None \<Rightarrow> None
         | Some None \<Rightarrow> Some None
         | Some (Some (s', True)) \<Rightarrow> Some (Some s')
         | Some (Some (s', False)) \<Rightarrow> lzf_loop inp out_len s')
      else Some (Some s))"
  by pat_completeness auto
termination
  by (relation "measure (\<lambda>(inp, _, s). length inp - lz_ip s)") (auto dest!: lzf_step_progress)

declare lzf_loop.simps [simp del]

text \<open>The rest of the input, at most two bytes, as literals.\<close>

function lzf_tail :: "bytes \<Rightarrow> nat \<Rightarrow> nat \<Rightarrow> bytes \<Rightarrow> nat \<Rightarrow> (bytes \<times> nat) option" where
  "lzf_tail inp out_len ip out lit =
     (if ip < length inp then do {
        (out, lit) \<leftarrow> lzf_put_lit inp out_len ip out lit;
        lzf_tail inp out_len (ip + 1) out lit
      }
      else Some (out, lit))"
  by pat_completeness auto
termination by (relation "measure (\<lambda>(inp, _, ip, _). length inp - ip)") auto

declare lzf_tail.simps [simp del]

definition lzf_compress ::
  "(nat \<Rightarrow> int option) \<Rightarrow> bytes \<Rightarrow> nat \<Rightarrow> bytes option option" where
  "lzf_compress htab inp out_len =
     (if length inp = 0 \<or> out_len = 0 then Some None
      else
        let s = \<lparr>lz_ip = 0, lz_out = start_run [], lz_lit = 0, lz_hval = FRST inp 0, lz_htab = htab\<rparr>
        in (case lzf_loop inp out_len s of
              None \<Rightarrow> None
            | Some None \<Rightarrow> Some None
            | Some (Some s) \<Rightarrow>
                if length (lz_out s) + 3 > out_len then Some None
                else do {
                  (out, lit) \<leftarrow> lzf_tail inp out_len (lz_ip s) (lz_out s) (lz_lit s);
                  out \<leftarrow> stop_run out_len lit out;
                  Some (Some (undo_run lit out))
                }))"

section \<open>Copies\<close>

lemma copy_octets_prefix: "\<exists>c. copy_octets n ref out = out @ c \<and> length c = n"
proof (induction n arbitrary: ref out)
  case (Suc n)
  obtain c where "copy_octets n (ref + 1) (out @ [out ! ref]) = (out @ [out ! ref]) @ c" "length c = n"
    using Suc.IH by blast
  then show ?case by simp
qed simp

lemma length_copy_octets [simp]: "length (copy_octets n ref out) = length out + n"
  using copy_octets_prefix [of n ref out] by auto

text \<open>
  An octet by octet copy appends what the input has from \<open>ip\<close> on, when the output is the input so far
  and the bytes from \<open>ref\<close> on repeat at \<open>ip\<close>.
\<close>

lemma copy_octets_match:
  assumes "ref < ip" "ip + n \<le> length inp" "\<And>i. i < n \<Longrightarrow> inp ! (ref + i) = inp ! (ip + i)"
  shows "copy_octets n ref (take ip inp) = take (ip + n) inp"
  using assms
proof (induction n arbitrary: ref ip)
  case (Suc n)
  have "take ip inp @ [take ip inp ! ref] = take (ip + 1) inp"
    using Suc.prems(1,2) Suc.prems(3) [of 0] by (simp add: take_Suc_conv_app_nth)
  moreover have "copy_octets n (ref + 1) (take (ip + 1) inp) = take (ip + 1 + n) inp"
    using Suc.prems(3) [of "Suc i" for i] Suc.prems(1,2) by (intro Suc.IH) auto
  ultimately show ?case by simp
qed simp

text \<open>The disjoint copy is the same copy.\<close>

lemma copy_octets_disjoint:
  "ref + n \<le> length out \<Longrightarrow> copy_octets n ref out = out @ take n (drop ref out)"
proof (induction n arbitrary: ref out)
  case (Suc n)
  have "copy_octets n (ref + 1) (out @ [out ! ref]) = (out @ [out ! ref]) @ take n (drop (ref + 1) (out @ [out ! ref]))"
    using Suc by (intro Suc.IH) simp
  moreover have "take (Suc n) (drop ref out) = out ! ref # take n (drop (ref + 1) out)"
    using Suc.prems by (subst Cons_nth_drop_Suc [symmetric]) simp_all
  ultimately show ?case using Suc.prems by simp
qed simp

lemma lzf_copy_ref_octets: "lzf_copy_ref len ref out = copy_octets (len + 2) ref out"
  using copy_octets_disjoint [of ref "len + 2" out] by (simp add: lzf_copy_ref_def)

section \<open>Running the decompressor over a prefix\<close>

lemma lzf_decompress_append:
  "lzf_decompress_loop n c out = Inr out' \<Longrightarrow>
   lzf_decompress_loop n (c @ rest) out = lzf_decompress_loop n rest out'"
proof (induction n c out rule: lzf_decompress_loop.induct)
  case (2 n c ip out)
  show ?case
  proof (cases "unat c < 2 ^ 5")
    case True
    then show ?thesis using 2 by (simp add: Let_def split: if_splits)
  next
    case False
    then obtain b ip1 where ip: "ip = b # ip1" using 2(4) by (cases ip) (auto simp: Let_def)
    show ?thesis
    proof (cases "unat c div 2 ^ 5 = 7")
      case True
      then obtain b' ip2 where ip1: "ip1 = b' # ip2" using 2(4) False ip by (cases ip1) (auto simp: Let_def)
      show ?thesis
        using 2(2) [OF refl _ refl refl ip True ip1] 2(4) False True
        by (simp add: Let_def ip ip1 split: sum.splits)
    next
      case F2: False
      show ?thesis
        using 2(3) [OF refl _ refl refl ip F2] 2(4) False F2
        by (simp add: Let_def ip split: sum.splits)
    qed
  qed
qed simp

text \<open>One literal run and one back reference.\<close>

lemma lzf_decompress_literals:
  assumes "0 < length l" "length l \<le> 32" "length out + length l \<le> n"
  shows "lzf_decompress_loop n (word_of_int (int (length l) - 1) # l) out = Inr (out @ l)"
proof -
  obtain k where k: "length l = Suc k" using assms(1) by (cases "length l") auto
  have c: "word_of_int (int (length l) - 1) = (word_of_nat k :: byte)" by (simp add: k)
  have u: "unat (word_of_nat k :: byte) = k" "k < 32" using assms(2) by (simp_all add: k unat_of_nat)
  show ?thesis unfolding c using assms(3) u(2) by (simp add: k u(1))
qed

lemma lzf_back_ref_match:
  assumes "ref < ip" "2 < m" "ip + m \<le> length inp"
    and "\<And>i. i < m \<Longrightarrow> inp ! (ref + i) = inp ! (ip + i)" "off = ip - ref - 1"
  shows "lzf_back_ref (length inp) (m - 2) (int ip - int (off div 2 ^ 8) * 2 ^ 8 - 1)
    (word_of_nat off) (take ip inp) = Inr (take (ip + m) inp)"
proof -
  have "int (off div 2 ^ 8) * 2 ^ 8 + int (off mod 2 ^ 8) = int off"
    by (simp only: zdiv_int zmod_int of_nat_power of_nat_numeral div_mult_mod_eq)
  moreover have "uint (word_of_nat off :: byte) = int (off mod 2 ^ 8)"
    by (simp add: unsigned_of_nat take_bit_eq_mod zmod_int)
  moreover have "int off = int ip - int ref - 1" using assms(1,5) by simp
  ultimately have "int ip - int (off div 2 ^ 8) * 2 ^ 8 - 1 - uint (word_of_nat off :: byte) = int ref" by linarith
  moreover have "copy_octets m ref (take ip inp) = take (ip + m) inp"
    using assms(1,3,4) by (rule copy_octets_match)
  moreover have "m - 2 + 2 = m" using assms(2) by simp
  ultimately show ?thesis
    unfolding lzf_back_ref_def Let_def using assms(2,3) by (simp add: lzf_copy_ref_octets)
qed

lemma unat_byte: "x < 256 \<Longrightarrow> unat (word_of_nat x :: byte) = x"
  by (simp add: unat_of_nat)

lemma lzf_decompress_short_ref:
  assumes "unat c = hi + len * 32" "hi < 32" "0 < len" "len < 7"
    "lzf_back_ref n len (int (length out) - int hi * 2 ^ 8 - 1) b out = Inr out'"
  shows "lzf_decompress_loop n [c, b] out = Inr out'"
proof -
  have "unat c div 2 ^ 5 = len" "unat c mod 2 ^ 5 = hi" "\<not> unat c < 2 ^ 5"
    using assms(1-4) by simp_all
  then show ?thesis using assms(4,5) by (simp add: Let_def)
qed

lemma lzf_decompress_long_ref:
  assumes "unat c = hi + 7 * 32" "hi < 32"
    "lzf_back_ref n (7 + unat l) (int (length out) - int hi * 2 ^ 8 - 1) b out = Inr out'"
  shows "lzf_decompress_loop n [c, l, b] out = Inr out'"
proof -
  have "unat c div 2 ^ 5 = 7" "\<not> unat c < 2 ^ 5" using assms(1,2) by simp_all
  moreover have "unat c mod 2 ^ 5 = hi" using mod_mult_self1 [of hi 7 32] assms(1,2) by simp
  ultimately show ?thesis using assms(3) by (simp add: Let_def)
qed

lemma lzf_decompress_ref:
  assumes "ref < ip" "ip - ref - 1 < MAX_OFF" "2 < m" "m \<le> MAX_REF" "ip + m \<le> length inp"
    and "\<And>i. i < m \<Longrightarrow> inp ! (ref + i) = inp ! (ip + i)"
    and put: "lzf_put_ref L (ip - ref - 1) (m - 2) out = Some out'"
  shows "\<exists>c. out' = out @ c \<and> lzf_decompress_loop (length inp) c (take ip inp) = Inr (take (ip + m) inp)"
proof -
  define off where "off = ip - ref - 1"
  define hi where "hi = off div 2 ^ 8"
  have hi: "hi < 32" using assms(2) by (simp add: off_def hi_def MAX_OFF_def less_mult_imp_div_less)
  have "length (take ip inp) = ip" using assms(5) by simp
  then have br: "lzf_back_ref (length inp) (m - 2) (int (length (take ip inp)) - int hi * 2 ^ 8 - 1)
      (word_of_nat off) (take ip inp) = Inr (take (ip + m) inp)"
    using lzf_back_ref_match [OF assms(1,3,5,6) off_def] by (simp add: hi_def)
  show ?thesis
  proof (cases "m - 2 < 7")
    case True
    define x where "x = hi + (m - 2) * 2 ^ 5"
    have "unat (word_of_nat x :: byte) = hi + (m - 2) * 32" unfolding x_def using hi True by (subst unat_byte) simp_all
    then have "lzf_decompress_loop (length inp) [word_of_nat x, word_of_nat off] (take ip inp) = Inr (take (ip + m) inp)"
      by (rule lzf_decompress_short_ref [OF _ hi _ True br]) (use assms(3) in simp)
    moreover have "out' = out @ [word_of_nat x, word_of_nat off]"
      using put True unfolding lzf_put_ref_def off_def [symmetric] hi_def [symmetric] x_def [symmetric]
      by (auto simp: out_put_def split: if_splits)
    ultimately show ?thesis by blast
  next
    case False
    define x where "x = hi + 7 * 2 ^ 5"
    define y where "y = m - 2 - 7"
    have ux: "unat (word_of_nat x :: byte) = hi + 7 * 32" unfolding x_def using hi by (subst unat_byte) simp_all
    have "unat (word_of_nat y :: byte) = y" using assms(4) by (intro unat_byte) (simp add: y_def MAX_REF_def)
    then have y: "7 + unat (word_of_nat y :: byte) = m - 2" using False by (simp add: y_def)
    have "lzf_decompress_loop (length inp) [word_of_nat x, word_of_nat y, word_of_nat off] (take ip inp) = Inr (take (ip + m) inp)"
      by (rule lzf_decompress_long_ref [OF ux hi]) (unfold y, rule br)
    moreover have "out' = out @ [word_of_nat x, word_of_nat y, word_of_nat off]"
      using put False unfolding lzf_put_ref_def off_def [symmetric] hi_def [symmetric] x_def [symmetric] y_def [symmetric]
      by (auto simp: out_put_def split: if_splits bind_splits)
    ultimately show ?thesis by blast
  qed
qed

section \<open>Matches\<close>

definition agree :: "bytes \<Rightarrow> nat \<Rightarrow> nat \<Rightarrow> nat \<Rightarrow> bool" where
  "agree inp ref ip k \<longleftrightarrow> (\<forall>i<k. rd inp (ref + i) = rd inp (ip + i))"

lemma agree_Suc [simp]: "agree inp ref ip (Suc k) \<longleftrightarrow> agree inp ref ip k \<and> rd inp (ref + k) = rd inp (ip + k)"
  by (auto simp: agree_def less_Suc_eq)

lemma match_unrolled_agree:
  "match_unrolled n inp ref ip len = (len', f) \<Longrightarrow> agree inp ref ip (Suc len) \<Longrightarrow>
     len \<le> len' \<and> len' \<le> len + n \<and> (0 < n \<longrightarrow> len < len') \<and> agree inp ref ip len' \<and>
     (\<not> f \<longrightarrow> len' = len + n \<and> agree inp ref ip (Suc len'))"
proof (induction n arbitrary: len)
  case (Suc n)
  show ?case
  proof (cases "rd inp (ref + Suc len) = rd inp (ip + Suc len)")
    case True
    then have "match_unrolled n inp ref ip (Suc len) = (len', f)" using Suc.prems(1) by (simp add: Let_def)
    from Suc.IH [OF this] show ?thesis using Suc.prems(2) True by auto
  next
    case False
    then show ?thesis using Suc.prems by (auto simp: Let_def)
  qed
qed auto

lemma match_loop_agree:
  "agree inp ref ip (Suc len) \<Longrightarrow>
     len < match_loop inp ref ip maxlen len \<and> match_loop inp ref ip maxlen len \<le> max maxlen (Suc len) \<and>
     agree inp ref ip (match_loop inp ref ip maxlen len)"
proof (induction inp ref ip maxlen len rule: match_loop.induct)
  case (1 inp ref ip maxlen len)
  show ?case
  proof (cases "Suc len < maxlen \<and> rd inp (ref + Suc len) = rd inp (ip + Suc len)")
    case True
    then have "agree inp ref ip (Suc (Suc len))" using 1(2) by simp
    moreover have "match_loop inp ref ip maxlen len = match_loop inp ref ip maxlen (Suc len)"
      using True by (subst match_loop.simps) (simp add: Let_def)
    ultimately show ?thesis using 1(1) [OF refl] True by auto
  next
    case False
    then have "match_loop inp ref ip maxlen len = Suc len"
      by (subst match_loop.simps) (auto simp: Let_def)
    then show ?thesis using 1(2) by auto
  qed
qed

lemma match_len_agree:
  assumes "agree inp ref ip 3" "ip + 2 < length inp"
  shows "2 < match_len inp ref ip" "match_len inp ref ip \<le> MAX_REF"
    "ip + match_len inp ref ip \<le> length inp" "agree inp ref ip (match_len inp ref ip)"
proof -
  define mx where "mx = (if length inp - ip - 2 > MAX_REF then MAX_REF else length inp - ip - 2)"
  have mx: "mx \<le> MAX_REF" "ip + mx + 2 \<le> length inp" using assms(2) by (auto simp: mx_def)
  have a: "agree inp ref ip (Suc 2)" using assms(1) by (simp add: numeral_3_eq_3 numeral_2_eq_2)
  obtain l f where u: "match_unrolled 16 inp ref ip 2 = (l, f)" by force
  note ua = match_unrolled_agree [OF u a]
  have ml: "match_len inp ref ip =
      (if mx > 16 then if f then l else match_loop inp ref ip mx l else match_loop inp ref ip mx 2)"
    by (simp add: match_len_def Let_def u mx_def)
  have "2 < match_len inp ref ip \<and> match_len inp ref ip \<le> max (if mx > 16 then 19 else 3) mx \<and>
      agree inp ref ip (match_len inp ref ip)"
  proof (cases "mx > 16 \<and> \<not> f")
    case True
    then have l: "l = 2 + 16" "agree inp ref ip (Suc l)" using ua by (blast, blast)
    have "match_len inp ref ip = match_loop inp ref ip mx l" using True by (simp add: ml)
    then show ?thesis using match_loop_agree [OF l(2), of mx] True l(1) by auto
  next
    case False
    then show ?thesis using ua match_loop_agree [OF a, of mx] by (auto simp: ml)
  qed
  then show "2 < match_len inp ref ip" "match_len inp ref ip \<le> MAX_REF"
    "ip + match_len inp ref ip \<le> length inp" "agree inp ref ip (match_len inp ref ip)"
    using mx assms(2) by (auto simp: MAX_REF_def max_def split: if_splits)
qed

section \<open>The invariant of the compressor\<close>

text \<open>
  The output is a closed part, which decompresses to what was read before the current run, the
  reserved control byte, and the literals of the run.
\<close>

definition lz_inv :: "bytes \<Rightarrow> nat \<Rightarrow> bytes \<Rightarrow> nat \<Rightarrow> bool" where
  "lz_inv inp ip out lit \<longleftrightarrow> ip \<le> length inp \<and> lit \<le> MAX_LIT \<and>
     (\<exists>c b l d. out = c @ b # l \<and> length l = lit \<and> take ip inp = d @ l \<and>
        lzf_decompress_loop (length inp) c [] = Inr d)"

lemma lz_inv_start:
  "ip \<le> length inp \<Longrightarrow> lzf_decompress_loop (length inp) c [] = Inr (take ip inp) \<Longrightarrow>
     lz_inv inp ip (start_run c) 0"
  by (auto simp: lz_inv_def start_run_def)

lemma lz_inv_length: "lz_inv inp ip out lit \<Longrightarrow> lit < length out"
  by (auto simp: lz_inv_def)

lemma stop_run_closes:
  assumes "lz_inv inp ip out lit" "length out - lit - 1 < out_len"
  obtains out' where "stop_run out_len lit out = Some out'" "length out' = length out"
    "lzf_decompress_loop (length inp) (undo_run lit out') [] = Inr (take ip inp)"
proof -
  obtain c b l d where o: "out = c @ b # l" "length l = lit" "take ip inp = d @ l"
    "lzf_decompress_loop (length inp) c [] = Inr d" "ip \<le> length inp" "lit \<le> MAX_LIT"
    using assms(1) unfolding lz_inv_def by blast
  let ?out = "c @ word_of_int (int lit - 1) # l"
  have "stop_run out_len lit out = Some ?out" using assms(2) o(1,2) by (auto simp: stop_run_def out_set_def)
  moreover have "lzf_decompress_loop (length inp) (undo_run lit ?out) [] = Inr (take ip inp)"
  proof (cases "lit = 0")
    case True
    then show ?thesis using o by (simp add: undo_run_def)
  next
    case False
    have "length d + length l = ip" using arg_cong [OF o(3), of length] o(5) by simp
    then have "lzf_decompress_loop (length inp) (word_of_int (int (length l) - 1) # l) d = Inr (d @ l)"
      using False o(2,5,6) by (intro lzf_decompress_literals) (auto simp: MAX_LIT_def)
    then show ?thesis using False o(2,3) by (simp add: undo_run_def lzf_decompress_append [OF o(4)])
  qed
  ultimately show ?thesis using o(1) by (intro that) simp_all
qed

lemma lzf_put_lit_inv:
  assumes "lz_inv inp ip out lit" "lit < MAX_LIT" "ip < length inp" "length out < out_len"
  obtains out' lit' where "lzf_put_lit inp out_len ip out lit = Some (out', lit')"
    "lz_inv inp (ip + 1) out' lit'" "lit' < MAX_LIT" "length out' = length out + (if lit' = 0 then 2 else 1)"
    "lit' = (if lit + 1 = MAX_LIT then 0 else lit + 1)"
proof -
  let ?out = "out @ [inp ! ip]"
  obtain c b l d where o: "out = c @ b # l" "length l = lit" "take ip inp = d @ l"
    "lzf_decompress_loop (length inp) c [] = Inr d" using assms(1) unfolding lz_inv_def by blast
  have "take (ip + 1) inp = d @ (l @ [inp ! ip])" using assms(3) o(3) by (simp add: take_Suc_conv_app_nth)
  moreover have "?out = c @ b # (l @ [inp ! ip])" "length (l @ [inp ! ip]) = lit + 1" using o(1,2) by simp_all
  ultimately have inv: "lz_inv inp (ip + 1) ?out (lit + 1)"
    using assms(2,3) o(4) unfolding lz_inv_def by (intro conjI exI) (assumption | simp)+
  show ?thesis
  proof (cases "lit + 1 = MAX_LIT")
    case True
    obtain out' where s: "stop_run out_len (lit + 1) ?out = Some out'" "length out' = length ?out"
      "lzf_decompress_loop (length inp) (undo_run (lit + 1) out') [] = Inr (take (ip + 1) inp)"
      by (rule stop_run_closes [OF inv, of out_len]) (use assms(4) in auto)
    then have "lz_inv inp (ip + 1) (start_run out') 0"
      using assms(3) by (intro lz_inv_start) (simp_all add: undo_run_def)
    then show ?thesis using s(1,2) True assms(3,4)
      by (intro that [of "start_run out'" 0]) (simp_all add: lzf_put_lit_def out_put_def rd_def start_run_def MAX_LIT_def)
  next
    case False
    then show ?thesis using inv assms
      by (intro that [of ?out "lit + 1"]) (simp_all add: lzf_put_lit_def out_put_def rd_def)
  qed
qed

lemma lzf_put_ref_some:
  assumes "length out + 3 \<le> out_len"
  obtains out' where "lzf_put_ref out_len off len out = Some out'" "length out' \<le> length out + 3"
  using assms by (cases "len < 7") (auto simp: lzf_put_ref_def out_put_def)

definition step_inv :: "bytes \<Rightarrow> lzf_state \<Rightarrow> bool" where
  "step_inv inp s \<longleftrightarrow> lz_inv inp (lz_ip s) (lz_out s) (lz_lit s) \<and> lz_lit s < MAX_LIT"

lemma is_match_agree:
  assumes "is_match inp ip slot"
  obtains ref where "slot = Some (int ref)" "ref < ip" "ip - ref - 1 < MAX_OFF" "agree inp ref ip 3"
proof -
  obtain r where r: "slot = Some r" "0 \<le> int ip - r - 1" "int ip - r - 1 < int MAX_OFF" "r > 0"
    "rd inp (nat r + 2) = rd inp (ip + 2)" "rd inp (nat r) = rd inp ip" "rd inp (nat r + 1) = rd inp (ip + 1)"
    using assms by (auto simp: is_match_def split: option.splits)
  then show ?thesis
    by (intro that [of "nat r"]) (auto simp: numeral_3_eq_3 agree_def less_Suc_eq)
qed

lemma agree_nth: "agree inp ref ip m \<Longrightarrow> ref < ip \<Longrightarrow> ip + m \<le> length inp \<Longrightarrow> i < m \<Longrightarrow>
    inp ! (ref + i) = inp ! (ip + i)"
  unfolding agree_def rd_def by (auto dest!: spec [of _ i])

text \<open>A round that finds a match: the run is closed and the reference is appended.\<close>

lemma lzf_match_inv:
  assumes inv: "lz_inv inp ip out lit" and "ip + 2 < length inp" "is_match inp ip slot"
    and room: "length out - (if lit = 0 then 1 else 0) + 4 < out_len"
    and ref: "ref = nat (the slot)" and m: "m = match_len inp ref ip"
  obtains out1 out2 where "stop_run out_len lit out = Some out1"
    "lzf_put_ref out_len (ip - ref - 1) (m - 2) (undo_run lit out1) = Some out2"
    "lz_inv inp (ip + m) (start_run out2) 0" "2 < m"
proof -
  obtain r where r: "slot = Some (int r)" "r < ip" "ip - r - 1 < MAX_OFF" "agree inp r ip 3"
    using is_match_agree [OF assms(3)] .
  have rr: "r = ref" using r(1) ref by simp
  note ml = match_len_agree [OF r(4) assms(2), unfolded rr, folded m]
  obtain out1 where s: "stop_run out_len lit out = Some out1" "length out1 = length out"
      "lzf_decompress_loop (length inp) (undo_run lit out1) [] = Inr (take ip inp)"
    by (rule stop_run_closes [OF inv, of out_len]) (use room in \<open>auto split: if_splits\<close>)
  have "length (undo_run lit out1) + 3 \<le> out_len" using room s(2) by (auto simp: undo_run_def split: if_splits)
  then obtain out2 where p: "lzf_put_ref out_len (ip - ref - 1) (m - 2) (undo_run lit out1) = Some out2"
    using lzf_put_ref_some by blast
  obtain c where c: "out2 = undo_run lit out1 @ c"
      "lzf_decompress_loop (length inp) c (take ip inp) = Inr (take (ip + m) inp)"
    using lzf_decompress_ref [OF r(2,3) [unfolded rr] ml(1-3) agree_nth [OF ml(4) r(2) [unfolded rr] ml(3)] p] by blast
  have "lz_inv inp (ip + m) (start_run out2) 0"
    using ml(3) c by (intro lz_inv_start) (simp_all add: lzf_decompress_append [OF s(3)])
  then show ?thesis using that s(1) p ml(1) by blast
qed

lemma lzf_step_inv:
  assumes "step_inv inp s" "lz_ip s + 2 < length inp"
  shows "lzf_step inp out_len s \<noteq> None \<and>
    (\<forall>s' b. lzf_step inp out_len s = Some (Some (s', b)) \<longrightarrow> step_inv inp s' \<and> (b \<longrightarrow> lz_ip s' + 2 \<ge> length inp))"
proof -
  let ?ip = "lz_ip s" let ?out = "lz_out s" let ?lit = "lz_lit s"
  let ?slot = "lz_htab s (IDX (NEXT (lz_hval s) inp ?ip))"
  have inv: "lz_inv inp ?ip ?out ?lit" "?lit < MAX_LIT" using assms(1) by (auto simp: step_inv_def)
  have z: "0 < MAX_LIT" by (simp add: MAX_LIT_def)
  consider (full) "is_match inp ?ip ?slot" "length ?out - (if ?lit = 0 then 1 else 0) + 4 \<ge> out_len"
    | (ref) "is_match inp ?ip ?slot" "length ?out - (if ?lit = 0 then 1 else 0) + 4 < out_len"
    | (lit) "\<not> is_match inp ?ip ?slot" "length ?out < out_len"
    | (stop) "\<not> is_match inp ?ip ?slot" "length ?out \<ge> out_len"
    using lz_inv_length [OF inv(1)] by fastforce
  then show ?thesis
  proof cases
    case full
    then show ?thesis by (auto simp: lzf_step_def Let_def)
  next
    case ref
    obtain out1 out2 where r: "stop_run out_len ?lit ?out = Some out1"
      "lzf_put_ref out_len (?ip - nat (the ?slot) - 1) (match_len inp (nat (the ?slot)) ?ip - 2) (undo_run ?lit out1) = Some out2"
      "lz_inv inp (?ip + match_len inp (nat (the ?slot)) ?ip) (start_run out2) 0" "2 < match_len inp (nat (the ?slot)) ?ip"
      using lzf_match_inv [OF inv(1) assms(2) ref refl refl] .
    have "?ip + 1 + (match_len inp (nat (the ?slot)) ?ip - 2 + 1) = ?ip + match_len inp (nat (the ?slot)) ?ip"
      using r(4) by simp
    then show ?thesis using ref r z by (auto simp: lzf_step_def Let_def step_inv_def)
  next
    case lit
    have "?ip < length inp" using assms(2) by simp
    then obtain out' lit' where "lzf_put_lit inp out_len ?ip ?out ?lit = Some (out', lit')"
      "lz_inv inp (?ip + 1) out' lit'" "lit' < MAX_LIT"
      using lzf_put_lit_inv [OF inv _ lit(2)] by metis
    then show ?thesis using lit by (auto simp: lzf_step_def Let_def step_inv_def)
  next
    case stop
    then show ?thesis by (auto simp: lzf_step_def Let_def)
  qed
qed

lemma lzf_loop_inv:
  "step_inv inp s \<Longrightarrow> lzf_loop inp out_len s \<noteq> None \<and>
     (\<forall>s'. lzf_loop inp out_len s = Some (Some s') \<longrightarrow> step_inv inp s' \<and> lz_ip s' + 2 \<ge> length inp)"
proof (induction inp out_len s rule: lzf_loop.induct)
  case (1 inp out_len s)
  show ?case
  proof (cases "lz_ip s + 2 < length inp")
    case True
    note st = lzf_step_inv [OF 1(2) True, of out_len]
    show ?thesis
    proof (cases "lzf_step inp out_len s")
      case None
      then show ?thesis using st by simp
    next
      case (Some r)
      show ?thesis
      proof (cases r)
        case None
        then show ?thesis using True Some by (subst (1 2) lzf_loop.simps) simp
      next
        case r: (Some p)
        obtain s' b where p: "p = (s', b)" by force
        have inv: "step_inv inp s'" "b \<Longrightarrow> lz_ip s' + 2 \<ge> length inp" using st Some r p by auto
        show ?thesis
        proof (cases b)
          case True
          then show ?thesis using \<open>lz_ip s + 2 < length inp\<close> Some r p inv by (subst (1 2) lzf_loop.simps) simp
        next
          case False
          then have "lzf_loop inp out_len s = lzf_loop inp out_len s'"
            using \<open>lz_ip s + 2 < length inp\<close> Some r p by (subst lzf_loop.simps) simp
          then show ?thesis using 1(1) [OF True Some r p [symmetric] _ inv(1)] False by simp
        qed
      qed
    qed
  next
    case False
    then show ?thesis using 1(2) by (subst (1 2) lzf_loop.simps) simp
  qed
qed

lemma lzf_tail_inv:
  "lz_inv inp ip out lit \<Longrightarrow> lit < MAX_LIT \<Longrightarrow> length inp \<le> ip + 2 \<Longrightarrow>
   length out + (length inp - ip) + (if MAX_LIT \<le> lit + (length inp - ip) then 1 else 0) \<le> out_len \<Longrightarrow>
     \<exists>out' lit'. lzf_tail inp out_len ip out lit = Some (out', lit') \<and> lz_inv inp (length inp) out' lit' \<and>
       length out' \<le> out_len"
proof (induction inp out_len ip out lit rule: lzf_tail.induct)
  case (1 inp out_len ip out lit)
  show ?case
  proof (cases "ip < length inp")
    case True
    have "length out < out_len" using 1(5) True by (simp split: if_splits)
    then obtain out' lit' where p: "lzf_put_lit inp out_len ip out lit = Some (out', lit')"
      "lz_inv inp (ip + 1) out' lit'" "lit' < MAX_LIT" "length out' = length out + (if lit' = 0 then 2 else 1)"
      "lit' = (if lit + 1 = MAX_LIT then 0 else lit + 1)"
      by (rule lzf_put_lit_inv [OF 1(2,3) True])
    have "length out' + (length inp - (ip + 1)) + (if MAX_LIT \<le> lit' + (length inp - (ip + 1)) then 1 else 0) \<le> out_len"
      using 1(4,5) p(4,5) True by (simp add: MAX_LIT_def split: if_splits)
    from 1(1) [OF True p(1) refl p(2,3) _ this] show ?thesis
      using True p(1) 1(4) by (subst lzf_tail.simps) simp
  next
    case False
    then show ?thesis using 1(2,5) by (subst lzf_tail.simps) (auto simp: lz_inv_def)
  qed
qed

text \<open>Compression never writes outside the output buffer, and its result decompresses to the input.\<close>

lemma lzf_compress_ok:
  "lzf_compress htab inp out_len \<noteq> None \<and>
   (\<forall>out. lzf_compress htab inp out_len = Some (Some out) \<longrightarrow>
      length out \<le> out_len \<and> out \<noteq> [] \<and> lzf_decompress out (length inp) = Inr inp)"
proof (cases "length inp = 0 \<or> out_len = 0")
  case False
  let ?s = "\<lparr>lz_ip = 0, lz_out = start_run [], lz_lit = 0, lz_hval = FRST inp 0, lz_htab = htab\<rparr>"
  have "step_inv inp ?s" by (auto simp: step_inv_def MAX_LIT_def intro!: lz_inv_start)
  note l = lzf_loop_inv [OF this, of out_len]
  show ?thesis
  proof (cases "\<exists>s. lzf_loop inp out_len ?s = Some (Some s) \<and> length (lz_out s) + 3 \<le> out_len")
    case True
    then obtain s where s: "lzf_loop inp out_len ?s = Some (Some s)" "length (lz_out s) + 3 \<le> out_len" by blast
    have i: "lz_inv inp (lz_ip s) (lz_out s) (lz_lit s)" "lz_lit s < MAX_LIT" "length inp \<le> lz_ip s + 2"
      using l s(1) by (auto simp: step_inv_def)
    have "length (lz_out s) + (length inp - lz_ip s) +
        (if MAX_LIT \<le> lz_lit s + (length inp - lz_ip s) then 1 else 0) \<le> out_len" using s(2) i(3) by auto
    then obtain out lit where t: "lzf_tail inp out_len (lz_ip s) (lz_out s) (lz_lit s) = Some (out, lit)"
      "lz_inv inp (length inp) out lit" "length out \<le> out_len" using lzf_tail_inv [OF i] by blast
    obtain out' where o: "stop_run out_len lit out = Some out'" "length out' = length out"
      "lzf_decompress_loop (length inp) (undo_run lit out') [] = Inr (take (length inp) inp)"
      by (rule stop_run_closes [OF t(2), of out_len]) (use t(3) lz_inv_length [OF t(2)] in auto)
    have "undo_run lit out' \<noteq> []" using o(3) False by auto
    moreover have "length (undo_run lit out') \<le> out_len" using o(2) t(3) by (auto simp: undo_run_def)
    ultimately show ?thesis using False s t(1) o(1,3) by (simp add: lzf_compress_def lzf_decompress_def)
  next
    case none: False
    then show ?thesis using False l by (cases "lzf_loop inp out_len ?s") (auto simp: lzf_compress_def split: option.splits)
  qed
qed (auto simp: lzf_compress_def)

text \<open>The decompressor stays within its buffer on any input, corrupt input included.\<close>

lemma lzf_back_ref_bound:
  "lzf_back_ref n len ref b out = Inr out' \<Longrightarrow> length out' \<le> n"
  by (auto simp: lzf_back_ref_def Let_def lzf_copy_ref_octets split: if_splits)

lemma lzf_decompress_loop_bound:
  "lzf_decompress_loop n ip out = Inr out' \<Longrightarrow> length out \<le> n \<Longrightarrow> length out' \<le> n"
proof (induction "length ip" arbitrary: ip out rule: less_induct)
  case less
  show ?case
  proof (cases ip)
    case Nil
    then show ?thesis using less.prems by simp
  next
    case (Cons c r)
    note IH = less.hyps [unfolded Cons, simplified]
    show ?thesis
    proof (cases "unat c < 2 ^ 5")
      case True
      then show ?thesis using less.prems Cons IH [of "drop (Suc (unat c)) r"] by (simp add: Let_def split: if_splits)
    next
      case False
      then obtain q o' where "lzf_decompress_loop n q o' = Inr out'" "length q < Suc (length r)" "length o' \<le> n"
        using less.prems(1) Cons by (auto simp: Let_def split: if_splits list.splits sum.splits dest!: lzf_back_ref_bound)
      then show ?thesis using IH by blast
    qed
  qed
qed

lemma lzf_decompress_bound: "lzf_decompress inp n = Inr out \<Longrightarrow> length out \<le> n"
  using lzf_decompress_loop_bound [of n inp "[]" out] by (simp add: lzf_decompress_def)

section \<open>Properties\<close>

text \<open>C4: what the compressor returns fits the output buffer and decompresses, into a buffer of the
  original length, to the original bytes, whatever the uninitialised hash table holds.\<close>

theorem lzf_roundtrip:
  assumes "lzf_compress htab inp out_len = Some (Some out)"
  shows "length out \<le> out_len \<and> lzf_decompress out (length inp) = Inr inp"
  using lzf_compress_ok [of htab inp out_len] assms by blast

lemmas lzf_eval = lzf_put_lit_def lzf_put_ref_def out_put_def out_set_def stop_run_def undo_run_def start_run_def
  is_match_def match_len_def match_loop.simps rd_def MAX_OFF_def MAX_REF_def MAX_LIT_def Let_def

lemma lzf_example_IDX:
  "NEXT (FRST [97, 97, 97, 97, 97, 97, 97, 97] 0) [97, 97, 97, 97, 97, 97, 97, 97] 0 = 0x616161"
  "NEXT 0x616161 [97, 97, 97, 97, 97, 97, 97, 97] (Suc 0) = 0x61616161"
  "NEXT 0x61616161 [97, 97, 97, 97, 97, 97, 97, 97] 2 = 0x61616161"
  "IDX 0x616161 = IDX 0x61616161"
  by (simp_all add: NEXT_def FRST_def rd_def IDX_def HSIZE_def)

lemma lzf_example_steps:
  "lzf_step [97, 97, 97, 97, 97, 97, 97, 97] 12 \<lparr>lz_ip = 0, lz_out = start_run [], lz_lit = 0, lz_hval = FRST [97, 97, 97, 97, 97, 97, 97, 97] 0, lz_htab = \<lambda>_. None\<rparr> =
     Some (Some (\<lparr>lz_ip = 1, lz_out = [uninit, 97], lz_lit = 1, lz_hval = 0x616161,
       lz_htab = (\<lambda>_. None)(IDX 0x61616161 := Some 0)\<rparr>, False))"
  "lzf_step [97, 97, 97, 97, 97, 97, 97, 97] 12 \<lparr>lz_ip = Suc 0, lz_out = [uninit, 97], lz_lit = Suc 0, lz_hval = 0x616161,
       lz_htab = (\<lambda>_. None)(IDX 0x61616161 := Some 0)\<rparr> =
     Some (Some (\<lparr>lz_ip = 2, lz_out = [uninit, 97, 97], lz_lit = 2, lz_hval = 0x61616161,
       lz_htab = (\<lambda>_. None)(IDX 0x61616161 := Some 1)\<rparr>, False))"
  "lzf_step [97, 97, 97, 97, 97, 97, 97, 97] 12 \<lparr>lz_ip = 2, lz_out = [uninit, 97, 97], lz_lit = 2, lz_hval = 0x61616161,
       lz_htab = (\<lambda>_. None)(IDX 0x61616161 := Some 1)\<rparr> =
     Some (Some (\<lparr>lz_ip = 6, lz_out = [1, 97, 97, 64, 0, uninit], lz_lit = 0, lz_hval = 0x61616161,
       lz_htab = (\<lambda>_. None)(IDX 0x61616161 := Some 2)\<rparr>, True))"
  by (simp_all add: lzf_step_def lzf_example_IDX lzf_eval)

lemma lzf_compress_example:
  "lzf_compress (\<lambda>_. None) [97, 97, 97, 97, 97, 97, 97, 97] 12 = Some (Some [1, 97, 97, 64, 0, 1, 97, 97])"
proof -
  let ?s = "\<lparr>lz_ip = 0, lz_out = start_run [], lz_lit = 0, lz_hval = FRST [97, 97, 97, 97, 97, 97, 97, 97] 0, lz_htab = \<lambda>_. None\<rparr>"
  have "lzf_loop [97, 97, 97, 97, 97, 97, 97, 97] 12 ?s = Some (Some (\<lparr>lz_ip = 6, lz_out = [1, 97, 97, 64, 0, uninit], lz_lit = 0, lz_hval = 0x61616161,
      lz_htab = (\<lambda>_. None)(IDX 0x61616161 := Some 2)\<rparr>))"
    by (subst lzf_loop.simps, simp add: lzf_example_steps)+
  moreover have "lzf_tail [97, 97, 97, 97, 97, 97, 97, 97] 12 6 [1, 97, 97, 64, 0, uninit] 0 = Some ([1, 97, 97, 64, 0, uninit, 97, 97], 2)"
    by (subst lzf_tail.simps, simp add: lzf_eval)+
  ultimately show ?thesis by (simp add: lzf_compress_def stop_run_def undo_run_def out_set_def)
qed

theorem lzf_roundtrip_witness:
  "lzf_decompress [1, 97, 97, 64, 0, 1, 97, 97] 8 = Inr [97, 97, 97, 97, 97, 97, 97, 97]"
  using lzf_roundtrip [OF lzf_compress_example] by (simp add: eval_nat_numeral)

text \<open>C36: neither direction leaves its buffers: compression writes no byte at or past the end of the
  output, and decompression of any bytes, corrupt ones included, yields at most the announced length.\<close>

theorem lzf_in_bounds:
  "lzf_compress htab inp out_len \<noteq> None \<and>
   (case lzf_decompress inp out_len of Inr out \<Rightarrow> length out \<le> out_len | Inl _ \<Rightarrow> True)"
  using lzf_compress_ok [of htab inp out_len] by (simp add: lzf_decompress_bound split: sum.split)

end
