(* ===== verification/Rdb.thy ===== *)
theory Rdb
  imports Rio Object Lzf Listpack_Enc "HOL-Library.Sublist"
begin

text \<open>
  The strings and lengths of the dump format (\<^verbatim>\<open>rdb.c\<close>, \<^verbatim>\<open>rdb.h\<close>): lengths in one to nine bytes, integers in
  special encodings, LZF compressed strings, verbatim strings, opcodes and times. The writers take a
  stream or \<^verbatim>\<open>NULL\<close>, with which they only count, and return the stream and the number of bytes, \<open>-1\<close> on
  error. The readers return the stream and a value, or an error: a short read, a corrupt encoding (which
  ends the process unless a \<^verbatim>\<open>RESTORE\<close> is running), the reserved length \<^verbatim>\<open>RDB_LENERR\<close>, or a failed
  allocation. The host is little-endian.
\<close>

section \<open>Constants\<close>

definition RDB_6BITLEN :: byte where "RDB_6BITLEN = 0"
definition RDB_14BITLEN :: byte where "RDB_14BITLEN = 1"
definition RDB_32BITLEN :: byte where "RDB_32BITLEN = 0x80"
definition RDB_64BITLEN :: byte where "RDB_64BITLEN = 0x81"
definition RDB_ENCVAL :: byte where "RDB_ENCVAL = 3"
definition RDB_LENERR :: nat where "RDB_LENERR = 2 ^ 64 - 1"
definition RDB_ENC_INT8 :: nat where "RDB_ENC_INT8 = 0"
definition RDB_ENC_INT16 :: nat where "RDB_ENC_INT16 = 1"
definition RDB_ENC_INT32 :: nat where "RDB_ENC_INT32 = 2"
definition RDB_ENC_LZF :: nat where "RDB_ENC_LZF = 3"

lemmas rdb_consts = RDB_6BITLEN_def RDB_14BITLEN_def RDB_32BITLEN_def RDB_64BITLEN_def RDB_ENCVAL_def
  RDB_ENC_INT8_def RDB_ENC_INT16_def RDB_ENC_INT32_def RDB_ENC_LZF_def

datatype rdb_error = E_READ | E_CORRUPT | E_LENERR | E_ALLOC

section \<open>Writing\<close>

definition rdbWriteRaw :: "rio option \<Rightarrow> bytes \<Rightarrow> rio option \<times> int" where
  "rdbWriteRaw rdb p =
     (case rdb of
        None \<Rightarrow> (None, int (length p))
      | Some r \<Rightarrow> (case rioWrite r p of (r, ok) \<Rightarrow> (Some r, if ok then int (length p) else -1)))"

text \<open>\<^verbatim>\<open>if ((n = f(rdb)) == -1) return -1; nwritten += n;\<close> and the next call.\<close>

definition then_write ::
  "rio option \<times> int \<Rightarrow> (rio option \<Rightarrow> rio option \<times> int) \<Rightarrow> rio option \<times> int" where
  "then_write w k =
     (case w of (rdb, n) \<Rightarrow>
        if n = -1 then (rdb, -1)
        else case k rdb of (rdb, m) \<Rightarrow> if m = -1 then (rdb, -1) else (rdb, n + m))"

definition rdbSaveType :: "rio option \<Rightarrow> byte \<Rightarrow> rio option \<times> int" where
  "rdbSaveType rdb type = rdbWriteRaw rdb [type]"

definition rdbSaveMillisecondTime :: "rio option \<Rightarrow> int \<Rightarrow> rio option \<times> int" where
  "rdbSaveMillisecondTime rdb t = rdbWriteRaw rdb (le_bytes 8 t)"

definition rdbSaveLen :: "rio option \<Rightarrow> nat \<Rightarrow> rio option \<times> int" where
  "rdbSaveLen rdb len =
     (if len < 2 ^ 6 then
        rdbWriteRaw rdb [of_nat len OR push_bit 6 RDB_6BITLEN]
      else if len < 2 ^ 14 then
        rdbWriteRaw rdb [of_nat (len div 2 ^ 8) OR push_bit 6 RDB_14BITLEN, of_nat len]
      else if len \<le> 2 ^ 32 - 1 then
        then_write (rdbWriteRaw rdb [RDB_32BITLEN]) (\<lambda>rdb. rdbWriteRaw rdb (rev (le_bytes 4 (int len))))
      else
        then_write (rdbWriteRaw rdb [RDB_64BITLEN]) (\<lambda>rdb. rdbWriteRaw rdb (rev (le_bytes 8 (int len)))))"

text \<open>The empty list is the result 0 of \<^verbatim>\<open>rdbEncodeInteger\<close>.\<close>

definition rdbEncodeInteger :: "int \<Rightarrow> bytes" where
  "rdbEncodeInteger v =
     (if v \<ge> - (2 ^ 7) \<and> v \<le> 2 ^ 7 - 1 then
        [push_bit 6 RDB_ENCVAL OR of_nat RDB_ENC_INT8, word_of_int v]
      else if v \<ge> - (2 ^ 15) \<and> v \<le> 2 ^ 15 - 1 then
        [push_bit 6 RDB_ENCVAL OR of_nat RDB_ENC_INT16, word_of_int v, word_of_int (v div 2 ^ 8)]
      else if v \<ge> - (2 ^ 31) \<and> v \<le> 2 ^ 31 - 1 then
        [push_bit 6 RDB_ENCVAL OR of_nat RDB_ENC_INT32, word_of_int v, word_of_int (v div 2 ^ 8),
         word_of_int (v div 2 ^ 16), word_of_int (v div 2 ^ 24)]
      else [])"

definition rdbTryIntegerEncoding :: "bytes \<Rightarrow> bytes" where
  "rdbTryIntegerEncoding s = (case string2ll s of Some v \<Rightarrow> rdbEncodeInteger v | None \<Rightarrow> [])"

definition rdbSaveLzfBlob :: "rio option \<Rightarrow> bytes \<Rightarrow> nat \<Rightarrow> rio option \<times> int" where
  "rdbSaveLzfBlob rdb dat original_len =
     then_write (rdbWriteRaw rdb [push_bit 6 RDB_ENCVAL OR of_nat RDB_ENC_LZF]) (\<lambda>rdb.
     then_write (rdbSaveLen rdb (length dat)) (\<lambda>rdb.
     then_write (rdbSaveLen rdb original_len) (\<lambda>rdb. rdbWriteRaw rdb dat)))"

text \<open>\<open>htab\<close> is what the stack holds where \<^verbatim>\<open>lzf_compress\<close> has its hash table.\<close>

definition rdbSaveLzfStringObject ::
  "(nat \<Rightarrow> int option) \<Rightarrow> rio option \<Rightarrow> bytes \<Rightarrow> (rio option \<times> int) option" where
  "rdbSaveLzfStringObject htab rdb s =
     (if length s \<le> 4 then Some (rdb, 0)
      else do {
        r \<leftarrow> lzf_compress htab s (length s - 4);
        Some (case r of None \<Rightarrow> (rdb, 0) | Some out \<Rightarrow> rdbSaveLzfBlob rdb out (length s))
      })"

text \<open>The last part of \<^verbatim>\<open>rdbSaveRawString\<close>.\<close>

definition rdbSaveVerbatim :: "rio option \<Rightarrow> bytes \<Rightarrow> rio option \<times> int" where
  "rdbSaveVerbatim rdb s =
     then_write (rdbSaveLen rdb (length s)) (\<lambda>rdb. if length s > 0 then rdbWriteRaw rdb s else (rdb, 0))"

definition rdbSaveRawString ::
  "bool \<Rightarrow> (nat \<Rightarrow> int option) \<Rightarrow> rio option \<Rightarrow> bytes \<Rightarrow> (rio option \<times> int) option" where
  "rdbSaveRawString rdb_compression htab rdb s =
     (let enc = (if length s \<le> 11 then rdbTryIntegerEncoding s else []) in
      if length enc > 0 then Some (rdbWriteRaw rdb enc)
      else if rdb_compression \<and> length s > 20 then
        do {
          (rdb, n) \<leftarrow> rdbSaveLzfStringObject htab rdb s;
          Some (if n = -1 then (rdb, -1) else if n > 0 then (rdb, n) else rdbSaveVerbatim rdb s)
        }
      else Some (rdbSaveVerbatim rdb s))"

definition rdbSaveLongLongAsStringObject :: "rio option \<Rightarrow> int \<Rightarrow> (rio option \<times> int) option" where
  "rdbSaveLongLongAsStringObject rdb v =
     (let enc = rdbEncodeInteger v in
      if length enc > 0 then Some (rdbWriteRaw rdb enc)
      else case ll2string (replicate 32 uninit) v of (buf, enclen) \<Rightarrow>
        if enclen < 32
        then Some (then_write (rdbSaveLen rdb enclen) (\<lambda>rdb. rdbWriteRaw rdb (take enclen buf)))
        else None)"

definition rdbSaveStringObject ::
  "bool \<Rightarrow> (nat \<Rightarrow> int option) \<Rightarrow> rio option \<Rightarrow> robj \<Rightarrow> (rio option \<times> int) option" where
  "rdbSaveStringObject rdb_compression htab rdb obj =
     (if r_encoding obj = OBJ_ENCODING_INT then
        do { v \<leftarrow> ptr_long obj; rdbSaveLongLongAsStringObject rdb v }
      else if sdsEncodedObject obj then
        do { s \<leftarrow> ptr_sds obj; rdbSaveRawString rdb_compression htab rdb s }
      else None)"

section \<open>Reading\<close>

definition then_load ::
  "rio \<times> ('e + 'a) \<Rightarrow> (rio \<Rightarrow> 'a \<Rightarrow> rio \<times> ('e + 'b)) \<Rightarrow> rio \<times> ('e + 'b)" where
  "then_load l k = (case l of (r, Inl e) \<Rightarrow> (r, Inl e) | (r, Inr x) \<Rightarrow> k r x)"

definition rdbRead :: "rio \<Rightarrow> nat \<Rightarrow> rio \<times> (rdb_error + bytes)" where
  "rdbRead r n = (case rioRead r n of (r, None) \<Rightarrow> (r, Inl E_READ) | (r, Some b) \<Rightarrow> (r, Inr b))"

definition rdbLoadType :: "rio \<Rightarrow> rio \<times> (rdb_error + byte)" where
  "rdbLoadType r = then_load (rdbRead r 1) (\<lambda>r buf. (r, Inr (hd buf)))"

definition rdbLoadTime :: "rio \<Rightarrow> rio \<times> (rdb_error + int)" where
  "rdbLoadTime r = then_load (rdbRead r 4) (\<lambda>r buf. (r, Inr (le_sint buf)))"

text \<open>On a little-endian host the version of the file makes no difference.\<close>

definition rdbLoadMillisecondTime :: "rio \<Rightarrow> rio \<times> (rdb_error + int)" where
  "rdbLoadMillisecondTime r = then_load (rdbRead r 8) (\<lambda>r buf. (r, Inr (le_sint buf)))"

text \<open>The two top bits of the first byte; the flag of the result is \<^verbatim>\<open>*isencoded\<close>.\<close>

definition len_type :: "byte \<Rightarrow> byte" where
  "len_type b = drop_bit 6 (b AND 0xC0)"

definition rdbLoadLenByRef :: "rio \<Rightarrow> rio \<times> (rdb_error + bool \<times> nat)" where
  "rdbLoadLenByRef r =
     then_load (rdbRead r 1) (\<lambda>r buf.
       let b = hd buf; type = len_type b in
       if type = RDB_ENCVAL then (r, Inr (True, unat (b AND 0x3F)))
       else if type = RDB_6BITLEN then (r, Inr (False, unat (b AND 0x3F)))
       else if type = RDB_14BITLEN then
         then_load (rdbRead r 1) (\<lambda>r buf. (r, Inr (False, unat (b AND 0x3F) * 2 ^ 8 + unat (hd buf))))
       else if b = RDB_32BITLEN then
         then_load (rdbRead r 4) (\<lambda>r buf. (r, Inr (False, nat (le_uint (rev buf)))))
       else if b = RDB_64BITLEN then
         then_load (rdbRead r 8) (\<lambda>r buf. (r, Inr (False, nat (le_uint (rev buf)))))
       else (r, Inl E_CORRUPT))"

text \<open>The callers of \<^verbatim>\<open>rdbLoadLen\<close> take the stored length \<^verbatim>\<open>UINT64_MAX\<close> for an error.\<close>

definition rdbLoadLen :: "rio \<Rightarrow> rio \<times> (rdb_error + bool \<times> nat)" where
  "rdbLoadLen r =
     then_load (rdbLoadLenByRef r) (\<lambda>r (isencoded, len).
       if len = RDB_LENERR then (r, Inl E_LENERR) else (r, Inr (isencoded, len)))"

record rdb_flags =
  RDB_LOAD_ENC :: bool
  RDB_LOAD_PLAIN :: bool
  RDB_LOAD_SDS :: bool

datatype loaded = LPlain bytes | LSds bytes | LObj robj

text \<open>The three shapes of the result for a string held in fresh memory.\<close>

definition rdbReturn :: "rdb_flags \<Rightarrow> bytes \<Rightarrow> robj \<Rightarrow> loaded" where
  "rdbReturn flags s obj =
     (if RDB_LOAD_PLAIN flags then LPlain s else if RDB_LOAD_SDS flags then LSds s else LObj obj)"

definition rdbLoadIntegerObject :: "obj_server \<Rightarrow> rio \<Rightarrow> nat \<Rightarrow> rdb_flags \<Rightarrow> rio \<times> (rdb_error + loaded)" where
  "rdbLoadIntegerObject sv r enctype flags =
     then_load
       (if enctype = RDB_ENC_INT8 then rdbRead r 1
        else if enctype = RDB_ENC_INT16 then rdbRead r 2
        else if enctype = RDB_ENC_INT32 then rdbRead r 4
        else (r, Inl E_CORRUPT))
       (\<lambda>r enc.
          let val = le_sint enc in
          (r, Inr (rdbReturn flags
             (case ll2string (replicate LONG_STR_SIZE uninit) val of (buf, len) \<Rightarrow> take len buf)
             (if RDB_LOAD_ENC flags then createStringObjectFromLongLongForValue sv val
              else createStringObjectFromLongLongWithSds sv val))))"

definition rdbLoadLzfStringObject :: "obj_server \<Rightarrow> rio \<Rightarrow> rdb_flags \<Rightarrow> rio \<times> (rdb_error + loaded)" where
  "rdbLoadLzfStringObject sv r flags =
     then_load (rdbLoadLen r) (\<lambda>r (_, clen).
     then_load (rdbLoadLen r) (\<lambda>r (_, len).
       if \<not> sv_can_alloc sv clen then (r, Inl E_ALLOC)
       else if \<not> sv_can_alloc sv len then (r, Inl E_ALLOC)
       else then_load (rdbRead r clen) (\<lambda>r c.
         let val = (case lzf_decompress c len of Inl _ \<Rightarrow> [] | Inr out \<Rightarrow> out) in
         if length val \<noteq> len then (r, Inl E_CORRUPT)
         else (r, Inr (rdbReturn flags val (createObject OBJ_STRING (sdsnewlen sv val)))))))"

definition rdbGenericLoadStringObject :: "obj_server \<Rightarrow> rio \<Rightarrow> rdb_flags \<Rightarrow> rio \<times> (rdb_error + loaded)" where
  "rdbGenericLoadStringObject sv r flags =
     then_load (rdbLoadLen r) (\<lambda>r (isencoded, len).
       if isencoded then
         if len = RDB_ENC_INT8 \<or> len = RDB_ENC_INT16 \<or> len = RDB_ENC_INT32
         then rdbLoadIntegerObject sv r len flags
         else if len = RDB_ENC_LZF then rdbLoadLzfStringObject sv r flags
         else (r, Inl E_CORRUPT)
       else if (RDB_LOAD_PLAIN flags \<or> RDB_LOAD_SDS flags \<or> len > OBJ_ENCODING_EMBSTR_SIZE_LIMIT) \<and> \<not> sv_can_alloc sv len
       then (r, Inl E_ALLOC)
       else then_load (if len \<noteq> 0 then rdbRead r len else (r, Inr []))
         (\<lambda>r s. (r, Inr (rdbReturn flags s (createStringObject sv s)))))"

definition rdbLoadStringObject :: "obj_server \<Rightarrow> rio \<Rightarrow> rio \<times> (rdb_error + loaded)" where
  "rdbLoadStringObject sv r =
     rdbGenericLoadStringObject sv r \<lparr>RDB_LOAD_ENC = False, RDB_LOAD_PLAIN = False, RDB_LOAD_SDS = False\<rparr>"

definition rdbLoadEncodedStringObject :: "obj_server \<Rightarrow> rio \<Rightarrow> rio \<times> (rdb_error + loaded)" where
  "rdbLoadEncodedStringObject sv r =
     rdbGenericLoadStringObject sv r \<lparr>RDB_LOAD_ENC = True, RDB_LOAD_PLAIN = False, RDB_LOAD_SDS = False\<rparr>"

section \<open>The contract of a writer and of a reader\<close>

text \<open>
  A writer appends \<open>bs\<close> and returns its length; with a null stream it only returns the length; on a
  stream with a write error it fails and leaves the stream alone.
\<close>

definition saves :: "(rio option \<Rightarrow> rio option \<times> int) \<Rightarrow> bytes \<Rightarrow> bool" where
  "saves f bs \<longleftrightarrow>
     (\<forall>r. \<not> rio_write_error r \<longrightarrow> (\<exists>r'. f (Some r) = (Some r', int (length bs)) \<and> wrote r bs r')) \<and>
     (\<forall>r. rio_write_error r \<longrightarrow> f (Some r) = (Some r, -1)) \<and>
     f None = (None, int (length bs))"

text \<open>
  A reader turns exactly \<open>bs\<close> into \<open>x\<close>, whatever follows, and fails on every proper prefix of it.
\<close>

definition loads :: "(rio \<Rightarrow> rio \<times> ('e + 'a)) \<Rightarrow> bytes \<Rightarrow> 'a \<Rightarrow> bool" where
  "loads f bs x \<longleftrightarrow>
     (\<forall>r rest. \<not> rio_read_error r \<longrightarrow> pending r = bs @ rest \<longrightarrow>
        (\<exists>r'. f r = (r', Inr x) \<and> consumed r bs r' \<and> pending r' = rest)) \<and>
     (\<forall>r. \<not> rio_read_error r \<longrightarrow> strict_prefix (pending r) bs \<longrightarrow> (\<exists>r' e. f r = (r', Inl e)))"

lemma rdbWriteRaw_saves: "saves (\<lambda>rdb. rdbWriteRaw rdb p) p"
proof -
  have "\<exists>r'. rdbWriteRaw (Some r) p = (Some r', int (length p)) \<and> wrote r p r'" if ok: "\<not> rio_write_error r" for r
  proof -
    obtain r' where "rioWrite r p = (r', True)" "wrote r p r'" using rioWrite_wrote [OF ok] .
    then show ?thesis by (simp add: rdbWriteRaw_def)
  qed
  moreover have "rdbWriteRaw (Some r) p = (Some r, -1)" if "rio_write_error r" for r
    using that by (simp add: rdbWriteRaw_def rioWrite_def)
  moreover have "rdbWriteRaw None p = (None, int (length p))" by (simp add: rdbWriteRaw_def)
  ultimately show ?thesis unfolding saves_def by blast
qed

lemma then_write_saves:
  assumes "saves f a" "saves g b"
  shows "saves (\<lambda>rdb. then_write (f rdb) g) (a @ b)"
proof -
  have "\<exists>r'. then_write (f (Some r)) g = (Some r', int (length (a @ b))) \<and> wrote r (a @ b) r'"
    if ok: "\<not> rio_write_error r" for r
  proof -
    obtain r1 where 1: "f (Some r) = (Some r1, int (length a))" "wrote r a r1" using assms(1) ok unfolding saves_def by blast
    obtain r2 where 2: "g (Some r1) = (Some r2, int (length b))" "wrote r1 b r2"
      using assms(2) wrote_ok [OF 1(2)] unfolding saves_def by blast
    show ?thesis using 1 2 wrote_trans [OF 1(2) 2(2)] by (simp add: then_write_def)
  qed
  moreover have "then_write (f (Some r)) g = (Some r, -1)" if "rio_write_error r" for r
    using assms(1) that unfolding saves_def by (simp add: then_write_def)
  moreover have "then_write (f None) g = (None, int (length (a @ b)))"
    using assms by (simp add: saves_def then_write_def)
  ultimately show ?thesis unfolding saves_def by blast
qed

lemma loads_return: "loads (\<lambda>r. (r, Inr x)) [] x"
  by (auto simp: loads_def consumed_def)

lemma rdbRead_loads:
  assumes "length bs = n"
  shows "loads (\<lambda>r. rdbRead r n) bs bs"
proof -
  have "\<exists>r'. rdbRead r n = (r', Inr bs) \<and> consumed r bs r' \<and> pending r' = rest"
    if p: "\<not> rio_read_error r" "pending r = bs @ rest" for r rest
  proof -
    obtain r' where "rioRead r n = (r', Some bs)" "consumed r bs r'" "pending r' = rest"
      using rioRead_consumed [OF p assms] .
    then show ?thesis by (simp add: rdbRead_def)
  qed
  moreover have "\<exists>r' e. rdbRead r n = (r', Inl e)" if p: "strict_prefix (pending r) bs" for r
  proof -
    have "length (pending r) < n" using prefix_length_less [OF p] assms by simp
    then obtain r' where "rioRead r n = (r', None)" by (rule rioRead_short)
    then show ?thesis by (simp add: rdbRead_def)
  qed
  ultimately show ?thesis unfolding loads_def by blast
qed

lemma then_load_loads:
  assumes f: "loads f a x" and g: "loads (\<lambda>r. g r x) b y"
  shows "loads (\<lambda>r. then_load (f r) g) (a @ b) y"
proof -
  have ok: "\<exists>r'. f r = (r', Inr x) \<and> consumed r a r' \<and> pending r' = rest"
    if "\<not> rio_read_error r" "pending r = a @ rest" for r rest using f that unfolding loads_def by blast
  have "\<exists>r'. then_load (f r) g = (r', Inr y) \<and> consumed r (a @ b) r' \<and> pending r' = rest"
    if p: "\<not> rio_read_error r" "pending r = (a @ b) @ rest" for r rest
  proof -
    obtain r1 where 1: "f r = (r1, Inr x)" "consumed r a r1" "pending r1 = b @ rest"
      using ok [OF p(1), of "b @ rest"] p(2) by auto
    obtain r2 where "g r1 x = (r2, Inr y)" "consumed r1 b r2" "pending r2 = rest"
      using g consumed_ok [OF 1(2)] 1(3) unfolding loads_def by blast
    then show ?thesis using 1(1) consumed_trans [OF 1(2)] by (simp add: then_load_def)
  qed
  moreover have "\<exists>r' e. then_load (f r) g = (r', Inl e)"
    if p: "\<not> rio_read_error r" "strict_prefix (pending r) (a @ b)" for r
  proof (cases "prefix a (pending r)")
    case True
    then obtain c where c: "pending r = a @ c" by (rule prefixE)
    then have "strict_prefix c b" using p(2) by (auto simp: strict_prefix_def)
    moreover obtain r1 where "f r = (r1, Inr x)" "consumed r a r1" "pending r1 = c" using ok [OF p(1) c] by blast
    moreover from this have "\<not> rio_read_error r1" by (intro consumed_ok)
    ultimately obtain r' e where "g r1 x = (r', Inl e)" using g unfolding loads_def by blast
    then show ?thesis using \<open>f r = (r1, Inr x)\<close> by (simp add: then_load_def)
  next
    case False
    have "prefix (pending r) (a @ b)" using p(2) by (simp add: strict_prefix_def)
    then have "strict_prefix (pending r) a" using False by (auto simp: prefix_append strict_prefix_def)
    then obtain r' e where "f r = (r', Inl e)" using f p(1) unfolding loads_def by blast
    then show ?thesis by (simp add: then_load_def)
  qed
  ultimately show ?thesis unfolding loads_def by blast
qed

lemma loads_bytes:
  "length bs = n \<Longrightarrow> loads (\<lambda>r. k r bs) rest y \<Longrightarrow> loads (\<lambda>r. then_load (rdbRead r n) k) (bs @ rest) y"
  by (rule then_load_loads [OF rdbRead_loads])

lemma loads_byte:
  "loads (\<lambda>r. k r [b]) rest y \<Longrightarrow> loads (\<lambda>r. then_load (rdbRead r 1) k) (b # rest) y"
  using loads_bytes [of "[b]" 1 k rest y] by simp

lemma loads_last:
  "length bs = n \<Longrightarrow> loads (\<lambda>r. then_load (rdbRead r n) (\<lambda>r bs. (r, Inr (h bs)))) bs (h bs)"
  using loads_bytes [of bs n "\<lambda>r bs. (r, Inr (h bs))" "[]" "h bs"] by (simp add: loads_return)

section \<open>Lengths\<close>

definition rdb_len_bytes :: "nat \<Rightarrow> bytes" where
  "rdb_len_bytes len =
     (if len < 2 ^ 6 then [of_nat len]
      else if len < 2 ^ 14 then [of_nat (len div 2 ^ 8) OR 0x40, of_nat len]
      else if len < 2 ^ 32 then 0x80 # rev (le_bytes 4 (int len))
      else 0x81 # rev (le_bytes 8 (int len)))"

lemma rdbSaveLen_saves: "saves (\<lambda>rdb. rdbSaveLen rdb len) (rdb_len_bytes len)"
proof -
  consider "len < 2 ^ 6" | "\<not> len < 2 ^ 6" "len < 2 ^ 14" | "\<not> len < 2 ^ 14" "len < 2 ^ 32" | "\<not> len < 2 ^ 32" by blast
  then show ?thesis
  proof cases
    case 1
    then show ?thesis using rdbWriteRaw_saves [of "[of_nat len]"]
      by (simp add: rdbSaveLen_def rdb_len_bytes_def rdb_consts)
  next
    case 2
    then show ?thesis using rdbWriteRaw_saves [of "[of_nat (len div 2 ^ 8) OR 0x40, of_nat len]"]
      by (simp add: rdbSaveLen_def rdb_len_bytes_def rdb_consts push_bit_eq_mult)
  next
    case 3
    then show ?thesis
      using then_write_saves [OF rdbWriteRaw_saves [of "[0x80]"] rdbWriteRaw_saves [of "rev (le_bytes 4 (int len))"]]
      by (simp add: rdbSaveLen_def rdb_len_bytes_def rdb_consts)
  next
    case 4
    then show ?thesis
      using then_write_saves [OF rdbWriteRaw_saves [of "[0x81]"] rdbWriteRaw_saves [of "rev (le_bytes 8 (int len))"]]
      by (simp add: rdbSaveLen_def rdb_len_bytes_def rdb_consts)
  qed
qed

lemma len_type_eq: "len_type b = c \<longleftrightarrow> unat b div 64 = unat c"
proof -
  have m: "(0xC0 :: byte) = NOT (mask 6)" by (simp add: mask_eq_exp_minus_1 not_eq_complement)
  have "unat (drop_bit 6 (b AND 0xC0)) = unat (b AND 0xC0) div 2 ^ 6"
    by (simp only: unat_drop_bit_eq) (rule drop_bit_eq_div)
  then have "unat (drop_bit 6 (b AND 0xC0)) = unat b div 64" by (simp add: byte_and_high [OF m])
  then show ?thesis unfolding len_type_def by (auto simp: word_unat_eq_iff)
qed

lemma rdbLoadLenByRef_loads:
  assumes "len < 2 ^ 64"
  shows "loads rdbLoadLenByRef (rdb_len_bytes len) (False, len)"
proof -
  consider "len < 2 ^ 6" | "\<not> len < 2 ^ 6" "len < 2 ^ 14" | "\<not> len < 2 ^ 14" "len < 2 ^ 32" | "\<not> len < 2 ^ 32" by blast
  then show ?thesis
  proof cases
    case 1
    then have u: "unat (of_nat len :: byte) = len" by (simp add: unat_of_nat)
    show ?thesis unfolding rdbLoadLenByRef_def rdb_len_bytes_def if_P [OF 1]
      by (rule loads_byte) (use 1 u loads_return in \<open>simp add: Let_def len_type_eq rdb_consts lp_low_bits\<close>)
  next
    case 2
    define b :: byte where "b = of_nat (len div 2 ^ 8) OR 0x40"
    have "len div 2 ^ 8 < 64" using 2(2) by (simp add: less_mult_imp_div_less)
    then have u: "unat b = 64 + len div 2 ^ 8"
      unfolding b_def using byte_or_high [of "len div 2 ^ 8" 6 "0x40" 1] by (simp add: push_bit_eq_mult)
    have l: "unat (b AND 0x3F) * 2 ^ 8 + unat (of_nat len :: byte) = len"
      using \<open>len div 2 ^ 8 < 64\<close> by (simp add: lp_low_bits u unat_of_nat)
    have t: "len_type b = 1" using \<open>len div 2 ^ 8 < 64\<close> by (simp add: len_type_eq u div_add_self1)
    show ?thesis unfolding rdbLoadLenByRef_def rdb_len_bytes_def if_not_P [OF 2(1)] if_P [OF 2(2)] b_def [symmetric]
      using loads_last [of "[of_nat len :: byte]" 1 "\<lambda>buf. (False, unat (b AND 0x3F) * 2 ^ 8 + unat (hd buf))"] l
        t by (intro loads_byte) (simp add: Let_def rdb_consts)
  next
    case 3
    then have n: "\<not> len < 2 ^ 6" "len mod 2 ^ 32 = len" by simp_all
    have "nat (le_uint (rev (rev (le_bytes 4 (int len))))) = len" using 3(2) by simp
    then show ?thesis unfolding rdbLoadLenByRef_def rdb_len_bytes_def if_not_P [OF n(1)] if_not_P [OF 3(1)] if_P [OF 3(2)]
      using loads_last [of "rev (le_bytes 4 (int len))" 4 "\<lambda>buf. (False, nat (le_uint (rev buf)))"]
      by (intro loads_byte) (simp add: Let_def len_type_eq rdb_consts)
  next
    case 4
    then have n: "\<not> len < 2 ^ 6" "\<not> len < 2 ^ 14" by simp_all
    have "nat (le_uint (rev (rev (le_bytes 8 (int len))))) = len" using assms by simp
    then show ?thesis unfolding rdbLoadLenByRef_def rdb_len_bytes_def if_not_P [OF n(1)] if_not_P [OF n(2)] if_not_P [OF 4]
      using loads_last [of "rev (le_bytes 8 (int len))" 8 "\<lambda>buf. (False, nat (le_uint (rev buf)))"]
      by (intro loads_byte) (simp add: Let_def len_type_eq rdb_consts)
  qed
qed

lemma rdbLoadLen_loads:
  assumes "len < RDB_LENERR"
  shows "loads rdbLoadLen (rdb_len_bytes len) (False, len)"
proof -
  have "len < 2 ^ 64" using assms by (simp add: RDB_LENERR_def)
  from then_load_loads [OF rdbLoadLenByRef_loads [OF this], of "\<lambda>r (isencoded, len).
      if len = RDB_LENERR then (r, Inl E_LENERR) else (r, Inr (isencoded, len))" "[]" "(False, len)"]
  show ?thesis unfolding rdbLoadLen_def using assms by (simp add: loads_return)
qed

text \<open>A byte with both top bits set announces an encoding.\<close>

lemma rdbLoadLen_encoded:
  assumes "k < 64" "b = push_bit 6 RDB_ENCVAL OR of_nat k"
  shows "loads rdbLoadLen [b] (True, k)"
proof -
  have "unat b = 192 + k"
    using byte_or_high [of k 6 "0xC0" 3] assms by (simp add: or.commute push_bit_eq_mult rdb_consts)
  then have u: "unat b = k + 3 * 64" by simp
  have t: "len_type b = RDB_ENCVAL" "unat (b AND 0x3F) = k"
    using assms(1) mod_mult_self1 [of k 3 64] by (simp_all add: len_type_eq lp_low_bits rdb_consts u)
  then have "loads rdbLoadLenByRef [b] (True, k)"
    unfolding rdbLoadLenByRef_def by (intro loads_byte) (simp add: Let_def loads_return)
  from then_load_loads [OF this, of "\<lambda>r (isencoded, len).
      if len = RDB_LENERR then (r, Inl E_LENERR) else (r, Inr (isencoded, len))" "[]" "(True, k)"]
  show ?thesis unfolding rdbLoadLen_def using assms(1) by (simp add: loads_return RDB_LENERR_def)
qed

section \<open>Integers\<close>

abbreviation enc_byte :: "nat \<Rightarrow> byte" where
  "enc_byte k \<equiv> push_bit 6 RDB_ENCVAL OR of_nat k"

lemma rdbEncodeInteger_cases:
  assumes "- (2 ^ 31) \<le> v" "v < 2 ^ 31"
  obtains e n where "rdbEncodeInteger v = enc_byte e # le_bytes n v" "(e, n) \<in> {(0, 1), (1, 2), (2, 4)}"
    "- (2 ^ (8 * n - 1)) \<le> v" "v < 2 ^ (8 * n - 1)"
proof -
  have d: "v div 2 ^ 16 = v div 256 div 256" "v div 2 ^ 24 = v div 256 div 256 div 256"
    by (simp_all add: zdiv_zmult2_eq [symmetric])
  have l4: "le_bytes 4 v = [word_of_int v, word_of_int (v div 2 ^ 8), word_of_int (v div 256 div 256), word_of_int (v div 256 div 256 div 256)]"
    by (simp add: numeral_nat)
  consider "v \<ge> - (2 ^ 7)" "v \<le> 2 ^ 7 - 1" | "\<not> (v \<ge> - (2 ^ 7) \<and> v \<le> 2 ^ 7 - 1)" "v \<ge> - (2 ^ 15)" "v \<le> 2 ^ 15 - 1"
    | "\<not> (v \<ge> - (2 ^ 7) \<and> v \<le> 2 ^ 7 - 1)" "\<not> (v \<ge> - (2 ^ 15) \<and> v \<le> 2 ^ 15 - 1)" by blast
  then show ?thesis
  proof cases
    case 1
    then show ?thesis by (intro that [of 0 1]) (simp_all add: rdbEncodeInteger_def rdb_consts)
  next
    case 2
    then show ?thesis
      by (intro that [of 1 2]) (auto simp: rdbEncodeInteger_def rdb_consts numeral_2_eq_2)
  next
    case 3
    have "rdbEncodeInteger v = enc_byte 2 # le_bytes 4 v"
      unfolding rdbEncodeInteger_def if_not_P [OF 3(1)] if_not_P [OF 3(2)] l4 d using assms by (simp add: rdb_consts)
    then show ?thesis using assms by (intro that [of 2 4]) simp_all
  qed
qed

text \<open>The string a loaded value holds, and that an object among them is well-formed.\<close>

fun loaded_str :: "loaded \<Rightarrow> bytes" where
  "loaded_str (LPlain s) = s"
| "loaded_str (LSds s) = s"
| "loaded_str (LObj o') = str_of o'"

fun loaded_ok :: "rdb_flags \<Rightarrow> loaded \<Rightarrow> bool" where
  "loaded_ok flags (LPlain s) = RDB_LOAD_PLAIN flags"
| "loaded_ok flags (LSds s) = (\<not> RDB_LOAD_PLAIN flags \<and> RDB_LOAD_SDS flags)"
| "loaded_ok flags (LObj o') = (\<not> RDB_LOAD_PLAIN flags \<and> \<not> RDB_LOAD_SDS flags \<and> wf_robj o')"

definition loads_str :: "obj_server \<Rightarrow> rdb_flags \<Rightarrow> bytes \<Rightarrow> bytes \<Rightarrow> bool" where
  "loads_str sv flags bs s \<longleftrightarrow>
     (\<exists>l. loads (\<lambda>r. rdbGenericLoadStringObject sv r flags) bs l \<and> loaded_str l = s \<and> loaded_ok flags l)"

lemma rdbReturn_ok:
  "wf_robj o' \<Longrightarrow> str_of o' = s \<Longrightarrow> loaded_str (rdbReturn flags s o') = s \<and> loaded_ok flags (rdbReturn flags s o')"
  by (simp add: rdbReturn_def)

lemma rdbLoadIntegerObject_loads:
  assumes e: "(e, n) \<in> {(0, 1), (1, 2), (2, 4)}" and v: "- (2 ^ (8 * n - 1)) \<le> v" "v < 2 ^ (8 * n - 1)" "in_i64 v"
  obtains l where "loads (\<lambda>r. rdbLoadIntegerObject sv r e flags) (le_bytes n v) l"
    "loaded_str l = int_dec v" "loaded_ok flags l"
proof -
  let ?o = "\<lambda>val. if RDB_LOAD_ENC flags then createStringObjectFromLongLongForValue sv val
      else createStringObjectFromLongLongWithSds sv val"
  let ?h = "\<lambda>enc. rdbReturn flags (case ll2string (replicate LONG_STR_SIZE uninit) (le_sint enc) of (buf, len) \<Rightarrow> take len buf) (?o (le_sint enc))"
  have s: "le_sint (le_bytes n v) = v" by (rule le_sint_le_bytes [OF _ v(1,2)]) (use e in auto)
  have "loads (\<lambda>r. then_load (rdbRead r n) (\<lambda>r enc. (r, Inr (?h enc)))) (le_bytes n v) (?h (le_bytes n v))"
    by (rule loads_last) simp
  moreover have "(\<lambda>r. rdbLoadIntegerObject sv r e flags) = (\<lambda>r. then_load (rdbRead r n) (\<lambda>r enc. (r, Inr (?h enc))))"
    using e by (auto simp: rdbLoadIntegerObject_def rdb_consts Let_def)
  moreover have "?h (le_bytes n v) = rdbReturn flags (int_dec v) (?o v)"
    unfolding s using ll2string_take [OF v(3), of LONG_STR_SIZE] by (simp add: LONG_STR_SIZE_def)
  moreover have "wf_robj (?o v)" "str_of (?o v) = int_dec v"
    using v(3) by (simp_all add: createForValue_str createStringObjectFromLongLongWithSds_def createFromLongLong_str)
  ultimately show ?thesis using rdbReturn_ok [of "?o v" "int_dec v" flags] by (intro that [of "rdbReturn flags (int_dec v) (?o v)"]) simp_all
qed

lemma rdb_generic_encoded:
  assumes "k < 64" "loads (\<lambda>r. if k < 3 then rdbLoadIntegerObject sv r k flags
    else if k = 3 then rdbLoadLzfStringObject sv r flags else (r, Inl E_CORRUPT)) bs l"
  shows "loads (\<lambda>r. rdbGenericLoadStringObject sv r flags) (enc_byte k # bs) l"
proof -
  have k: "k = RDB_ENC_INT8 \<or> k = RDB_ENC_INT16 \<or> k = RDB_ENC_INT32 \<longleftrightarrow> k < 3"
    by (auto simp: rdb_consts)
  have "enc_byte k # bs = [enc_byte k] @ bs" by simp
  then show ?thesis unfolding rdbGenericLoadStringObject_def
    by (simp only:) (rule then_load_loads [OF rdbLoadLen_encoded [OF assms(1) refl]], use assms(2) k in \<open>simp add: RDB_ENC_LZF_def cong: if_cong\<close>)
qed

lemma rdbEncodeInteger_loads:
  assumes "rdbEncodeInteger v \<noteq> []" "in_i64 v"
  shows "loads_str sv flags (rdbEncodeInteger v) (int_dec v)"
proof -
  have "- (2 ^ 31) \<le> v" "v < 2 ^ 31" using assms(1) by (auto simp: rdbEncodeInteger_def split: if_splits)
  then obtain e n where e: "rdbEncodeInteger v = enc_byte e # le_bytes n v" "(e, n) \<in> {(0, 1), (1, 2), (2, 4)}"
    "- (2 ^ (8 * n - 1)) \<le> v" "v < 2 ^ (8 * n - 1)" by (rule rdbEncodeInteger_cases)
  obtain l where l: "loads (\<lambda>r. rdbLoadIntegerObject sv r e flags) (le_bytes n v) l"
    "loaded_str l = int_dec v" "loaded_ok flags l" by (rule rdbLoadIntegerObject_loads [OF e(2-4) assms(2)])
  have "e < 3" using e(2) by auto
  then have "loads (\<lambda>r. rdbGenericLoadStringObject sv r flags) (enc_byte e # le_bytes n v) l"
    using l(1) by (intro rdb_generic_encoded) simp_all
  then show ?thesis unfolding loads_str_def e(1) using l(2,3) by blast
qed

section \<open>Strings\<close>

definition can_load :: "obj_server \<Rightarrow> nat \<Rightarrow> bool" where
  "can_load sv n \<longleftrightarrow> n < RDB_LENERR \<and> (\<forall>k \<le> n. sv_can_alloc sv k)"

lemma rdbSaveVerbatim_saves: "saves (\<lambda>rdb. rdbSaveVerbatim rdb s) (rdb_len_bytes (length s) @ s)"
proof (cases "s = []")
  case True
  have "then_write w (\<lambda>rdb. (rdb, 0)) = w" for w by (simp add: then_write_def split: prod.splits)
  then show ?thesis using rdbSaveLen_saves [of 0] True by (simp add: rdbSaveVerbatim_def)
next
  case False
  then show ?thesis
    using then_write_saves [OF rdbSaveLen_saves [of "length s"] rdbWriteRaw_saves [of s]] by (simp add: rdbSaveVerbatim_def)
qed

lemma rdb_verbatim_loads:
  assumes "can_load sv (length s)"
  shows "loads_str sv flags (rdb_len_bytes (length s) @ s) s"
proof -
  let ?l = "rdbReturn flags s (createStringObject sv s)"
  let ?k = "\<lambda>r s. (r, Inr (rdbReturn flags s (createStringObject sv s)))"
  have a: "length s < RDB_LENERR" "sv_can_alloc sv (length s)" using assms by (auto simp: can_load_def)
  have "loads (\<lambda>r. then_load (if length s \<noteq> 0 then rdbRead r (length s) else (r, Inr [])) ?k) s ?l"
  proof (cases "s = []")
    case True
    then show ?thesis using then_load_loads [OF loads_return [of "[] :: bytes"], of ?k "[]" ?l] by (simp add: loads_return)
  next
    case False
    then show ?thesis using loads_last [of s "length s" "\<lambda>s. rdbReturn flags s (createStringObject sv s)"] by simp
  qed
  then have "loads (\<lambda>r. rdbGenericLoadStringObject sv r flags) (rdb_len_bytes (length s) @ s) ?l"
    unfolding rdbGenericLoadStringObject_def by (intro then_load_loads [OF rdbLoadLen_loads [OF a(1)]]) (simp add: a(2))
  then show ?thesis unfolding loads_str_def using rdbReturn_ok [of "createStringObject sv s" s flags] by auto
qed

definition rdb_lzf_bytes :: "bytes \<Rightarrow> nat \<Rightarrow> bytes" where
  "rdb_lzf_bytes c len = enc_byte 3 # rdb_len_bytes (length c) @ rdb_len_bytes len @ c"

lemma rdbSaveLzfBlob_saves: "saves (\<lambda>rdb. rdbSaveLzfBlob rdb c len) (rdb_lzf_bytes c len)"
proof -
  have "saves (\<lambda>rdb. rdbSaveLzfBlob rdb c len) ([enc_byte 3] @ rdb_len_bytes (length c) @ rdb_len_bytes len @ c)"
    unfolding rdbSaveLzfBlob_def RDB_ENC_LZF_def
    by (rule then_write_saves [OF rdbWriteRaw_saves then_write_saves [OF rdbSaveLen_saves
          then_write_saves [OF rdbSaveLen_saves rdbWriteRaw_saves]]])
  then show ?thesis by (simp add: rdb_lzf_bytes_def)
qed

lemma rdb_lzf_loads:
  assumes "can_load sv (length s)" "length c \<le> length s" "lzf_decompress c (length s) = Inr s"
  shows "loads_str sv flags (rdb_lzf_bytes c (length s)) s"
proof -
  let ?h = "\<lambda>val. rdbReturn flags val (createObject OBJ_STRING (sdsnewlen sv val))"
  have a: "length s < RDB_LENERR" "length c < RDB_LENERR" "sv_can_alloc sv (length s)" "sv_can_alloc sv (length c)"
    using assms(1,2) by (auto simp: can_load_def)
  let ?k = "\<lambda>r c'. let val = (case lzf_decompress c' (length s) of Inl _ \<Rightarrow> [] | Inr out \<Rightarrow> out) in
      if length val \<noteq> length s then (r, Inl E_CORRUPT) else (r, Inr (?h val))"
  have "loads (\<lambda>r. then_load (rdbRead r (length c)) ?k) (c @ []) (?h s)"
    by (rule loads_bytes) (simp_all add: assms(3) loads_return)
  then have "loads (\<lambda>r. rdbLoadLzfStringObject sv r flags) (rdb_len_bytes (length c) @ rdb_len_bytes (length s) @ c) (?h s)"
    unfolding rdbLoadLzfStringObject_def
    by (intro then_load_loads [OF rdbLoadLen_loads [OF a(2)]]) (simp, intro then_load_loads [OF rdbLoadLen_loads [OF a(1)]], simp add: a)
  then have "loads (\<lambda>r. rdbGenericLoadStringObject sv r flags) (rdb_lzf_bytes c (length s)) (?h s)"
    unfolding rdb_lzf_bytes_def by (intro rdb_generic_encoded) simp_all
  then show ?thesis unfolding loads_str_def
    using rdbReturn_ok [OF createRaw_str(1,2) [of sv s], of flags] unfolding createRawStringObject_def by blast
qed

text \<open>
  Every way of saving a string writes one byte sequence, reported by its length, from which the string
  is loaded back.
\<close>

definition saves_str ::
  "obj_server \<Rightarrow> rdb_flags \<Rightarrow> (rio option \<Rightarrow> (rio option \<times> int) option) \<Rightarrow> bytes \<Rightarrow> bool" where
  "saves_str sv flags f s \<longleftrightarrow>
     (\<exists>g bs. (\<forall>rdb. f rdb = Some (g rdb)) \<and> saves g bs \<and> loads_str sv flags bs s)"

lemma saves_strI:
  "(\<And>rdb. f rdb = Some (g rdb)) \<Longrightarrow> saves g bs \<Longrightarrow> loads_str sv flags bs s \<Longrightarrow> saves_str sv flags f s"
  unfolding saves_str_def by blast

lemma saves_retry:
  assumes "saves f bs" "bs \<noteq> []"
  shows "(case f rdb of (rdb', n) \<Rightarrow> if n = -1 then (rdb', -1) else if n > 0 then (rdb', n) else g rdb') = f rdb"
proof -
  have l: "int (length bs) > 0" using assms(2) by simp
  show ?thesis
  proof (cases rdb)
    case None
    then show ?thesis using assms(1) l by (simp add: saves_def)
  next
    case (Some r)
    show ?thesis
    proof (cases "rio_write_error r")
      case True
      then show ?thesis using assms(1) Some by (simp add: saves_def)
    next
      case False
      then obtain r' where "f (Some r) = (Some r', int (length bs))" using assms(1) unfolding saves_def by blast
      then show ?thesis using Some l by simp
    qed
  qed
qed

lemma rdbSaveRawString_saves:
  assumes "can_load sv (length s)"
  shows "saves_str sv flags (\<lambda>rdb. rdbSaveRawString cmpr htab rdb s) s"
proof -
  define enc where "enc = (if length s \<le> 11 then rdbTryIntegerEncoding s else [])"
  have R: "rdbSaveRawString cmpr htab rdb s =
      (if length enc > 0 then Some (rdbWriteRaw rdb enc)
       else if cmpr \<and> length s > 20 then
         do { (rdb, n) \<leftarrow> rdbSaveLzfStringObject htab rdb s;
              Some (if n = -1 then (rdb, -1) else if n > 0 then (rdb, n) else rdbSaveVerbatim rdb s) }
       else Some (rdbSaveVerbatim rdb s))" for rdb
    by (simp only: rdbSaveRawString_def enc_def Let_def)
  note ok = lzf_compress_ok [of htab s "length s - 4"]
  obtain res where res: "lzf_compress htab s (length s - 4) = Some res" using ok by blast
  consider (int) "enc \<noteq> []" | (lzf) out where "enc = []" "cmpr" "length s > 20" "res = Some out"
    | (none) "enc = []" "cmpr" "length s > 20" "res = None" | (plain) "enc = []" "\<not> (cmpr \<and> length s > 20)"
    by (cases res) blast+
  then show ?thesis
  proof cases
    case int
    then obtain v where v: "string2ll s = Some v" "enc = rdbEncodeInteger v"
      by (auto simp: enc_def rdbTryIntegerEncoding_def split: if_splits option.splits)
    then have i: "in_i64 v" "s = int_dec v" by (simp_all add: string2ll_iff)
    have "loads_str sv flags enc s" using int i rdbEncodeInteger_loads [of v sv flags] v(2) by simp
    then show ?thesis using int by (intro saves_strI [OF _ rdbWriteRaw_saves]) (simp_all add: R)
  next
    case lzf
    have o: "length out \<le> length s - 4" "lzf_decompress out (length s) = Inr s" using ok lzf(4) res by auto
    have l: "loads_str sv flags (rdb_lzf_bytes out (length s)) s" using o by (intro rdb_lzf_loads [OF assms]) simp_all
    show ?thesis
    proof (rule saves_strI [OF _ rdbSaveLzfBlob_saves l])
      fix rdb
      have "rdb_lzf_bytes out (length s) \<noteq> []" by (simp add: rdb_lzf_bytes_def)
      note r = saves_retry [OF rdbSaveLzfBlob_saves this, where rdb = rdb and g = "\<lambda>rdb. rdbSaveVerbatim rdb s"]
      show "rdbSaveRawString cmpr htab rdb s = Some (rdbSaveLzfBlob rdb out (length s))"
      proof -
        obtain r1 n where p: "rdbSaveLzfBlob rdb out (length s) = (r1, n)" by force
        have c: "(if n = -1 then (r1, -1) else if n > 0 then (r1, n) else rdbSaveVerbatim r1 s) = (r1, n)" using r p by simp
        have "rdbSaveLzfStringObject htab rdb s = Some (r1, n)" using lzf res p by (simp add: rdbSaveLzfStringObject_def)
        then show ?thesis unfolding R p using lzf(1-3) c by (cases "n = -1"; cases "n > 0") simp_all
      qed
    qed
  next
    case none
    have "rdbSaveRawString cmpr htab rdb s = Some (rdbSaveVerbatim rdb s)" for rdb
      unfolding R using none res by (simp add: rdbSaveLzfStringObject_def)
    then show ?thesis by (rule saves_strI [OF _ rdbSaveVerbatim_saves rdb_verbatim_loads [OF assms]])
  next
    case plain
    have "rdbSaveRawString cmpr htab rdb s = Some (rdbSaveVerbatim rdb s)" for rdb
      unfolding R if_not_P [OF plain(2)] using plain(1) by simp
    then show ?thesis by (rule saves_strI [OF _ rdbSaveVerbatim_saves rdb_verbatim_loads [OF assms]])
  qed
qed

lemma rdbSaveLongLong_saves:
  assumes "can_load sv 20" "in_i64 v"
  shows "saves_str sv flags (\<lambda>rdb. rdbSaveLongLongAsStringObject rdb v) (int_dec v)"
proof (cases "rdbEncodeInteger v = []")
  case True
  have l: "length (int_dec v) \<le> 20" by (rule int_dec_length [OF assms(2)])
  obtain buf n where b: "ll2string (replicate 32 uninit) v = (buf, n)" by force
  have n: "take n buf = int_dec v" "n = length (int_dec v)"
    using b l by (auto simp: ll2string_fits [OF assms(2)])
  have "can_load sv (length (int_dec v))" using assms(1) l by (auto simp: can_load_def)
  from rdb_verbatim_loads [OF this] show ?thesis
    using True l b n then_write_saves [OF rdbSaveLen_saves rdbWriteRaw_saves]
    by (intro saves_strI [of _ "\<lambda>rdb. then_write (rdbSaveLen rdb n) (\<lambda>rdb. rdbWriteRaw rdb (take n buf))"])
      (simp_all add: rdbSaveLongLongAsStringObject_def Let_def)
next
  case False
  then show ?thesis using rdbEncodeInteger_loads [OF False assms(2)]
    by (intro saves_strI [OF _ rdbWriteRaw_saves]) (simp_all add: rdbSaveLongLongAsStringObject_def Let_def)
qed

lemma rdbSaveStringObject_saves:
  assumes wf: "wf_robj o'" and "can_load sv (max 20 (length (str_of o')))"
  shows "saves_str sv flags (\<lambda>rdb. rdbSaveStringObject cmpr htab rdb o') (str_of o')"
proof -
  have c: "can_load sv 20" "can_load sv (length (str_of o'))" using assms(2) by (auto simp: can_load_def)
  show ?thesis
  proof (cases "sdsEncodedObject o'")
    case True
    then have "r_encoding o' \<noteq> OBJ_ENCODING_INT" by (auto simp: sdsEncodedObject_def)
    then show ?thesis using True rdbSaveRawString_saves [OF c(2)] ptr_str [OF wf True] by (simp add: rdbSaveStringObject_def)
  next
    case False
    obtain v where "ptr_long o' = Some v" "in_i64 v" "str_of o' = int_dec v" using ptr_int [OF wf False] .
    then show ?thesis using wf_robj_encoding [OF wf False] rdbSaveLongLong_saves [OF c(1)] by (simp add: rdbSaveStringObject_def)
  qed
qed

abbreviation demo_server :: obj_server where
  "demo_server \<equiv> \<lparr>sv_maxmemory = 0, sv_policy = 0, sv_script = False, sv_slack = \<lambda>_. 0, sv_can_alloc = \<lambda>_. True\<rparr>"

abbreviation demo_flags :: rdb_flags where
  "demo_flags \<equiv> \<lparr>RDB_LOAD_ENC = True, RDB_LOAD_PLAIN = False, RDB_LOAD_SDS = False\<rparr>"

lemma rdb_example:
  "wf_robj (shared_integer 12)" "can_load demo_server (max 20 (length (str_of (shared_integer 12))))"
  "rdbSaveStringObject True (\<lambda>_. None) (Some (rioInitWithBuffer [])) (shared_integer 12) =
     Some (Some ((rioInitWithBuffer [])\<lparr>rio_ptr := [0xC0, 12], rio_pos := 2, rio_processed_bytes := 2\<rparr>), 2)"
proof -
  show "wf_robj (shared_integer 12)" by (simp add: in_i64_def)
  show "can_load demo_server (max 20 (length (str_of (shared_integer 12))))"
    by (simp add: can_load_def RDB_LENERR_def int_dec_def nat_dec.simps)
  have e: "rdbEncodeInteger 12 = [0xC0, 12]" by (simp add: rdbEncodeInteger_def rdb_consts push_bit_eq_mult)
  have w: "rioWrite_loop (rioInitWithBuffer []) [0xC0, 12] =
      ((rioInitWithBuffer [])\<lparr>rio_ptr := [0xC0, 12], rio_pos := 2, rio_processed_bytes := 2\<rparr>, True)"
    by (subst rioWrite_loop.simps, subst rioWrite_loop.simps)
      (simp add: rioInitWithBuffer_def chunk_def update_cksum_def rioBufferWrite_def)
  show "rdbSaveStringObject True (\<lambda>_. None) (Some (rioInitWithBuffer [])) (shared_integer 12) =
     Some (Some ((rioInitWithBuffer [])\<lparr>rio_ptr := [0xC0, 12], rio_pos := 2, rio_processed_bytes := 2\<rparr>), 2)"
    using w by (simp add: rdbSaveStringObject_def shared_integer_def ptr_long_def rdbSaveLongLongAsStringObject_def e
        rdbWriteRaw_def rioWrite_def rioInitWithBuffer_def)
qed

section \<open>Properties\<close>

text \<open>C5: round trip. Saving any string object to a stream that has no write error succeeds, appends
  exactly the reported number of bytes, and loading from a stream that has those bytes next, followed by
  anything, yields the same string in the form the flags ask for and leaves exactly what followed. This
  holds for every combination of encodings, with and without compression, for any content of the
  compressor's uninitialised table and any chunk size of the two streams.\<close>

theorem rdb_string_roundtrip:
  assumes "wf_robj o'" "can_load sv (max 20 (length (str_of o')))" "\<not> rio_write_error w"
  shows "\<exists>w' bs. rdbSaveStringObject cmpr htab (Some w) o' = Some (Some w', int (length bs)) \<and> rio_ptr w' = rio_ptr w @ bs \<and>
    (\<forall>r rest. \<not> rio_read_error r \<longrightarrow> pending r = bs @ rest \<longrightarrow>
       (\<exists>r' l. rdbGenericLoadStringObject sv r flags = (r', Inr l) \<and> loaded_str l = str_of o' \<and> loaded_ok flags l \<and>
          pending r' = rest \<and> \<not> rio_read_error r'))"
proof -
  obtain g bs l where s: "\<And>rdb. rdbSaveStringObject cmpr htab rdb o' = Some (g rdb)" "saves g bs"
    "loads (\<lambda>r. rdbGenericLoadStringObject sv r flags) bs l" "loaded_str l = str_of o'" "loaded_ok flags l"
    using rdbSaveStringObject_saves [OF assms(1,2), of flags cmpr htab] unfolding saves_str_def loads_str_def by blast
  obtain w' where w: "g (Some w) = (Some w', int (length bs))" "wrote w bs w'" using s(2) assms(3) unfolding saves_def by blast
  have "\<exists>r' l. rdbGenericLoadStringObject sv r flags = (r', Inr l) \<and> loaded_str l = str_of o' \<and> loaded_ok flags l \<and>
          pending r' = rest \<and> \<not> rio_read_error r'" if "\<not> rio_read_error r" "pending r = bs @ rest" for r rest
    using s(3-5) that consumed_ok unfolding loads_def by blast
  moreover have "rio_ptr w' = rio_ptr w @ bs" using w(2) by (simp add: wrote_def)
  ultimately show ?thesis using s(1) w(1) by auto
qed

theorem rdb_string_roundtrip_witness:
  "\<exists>r' l. rdbGenericLoadStringObject demo_server (rioInitWithBuffer [0xC0, 12]) demo_flags = (r', Inr l) \<and>
     loaded_str l = [ch (CHR ''1''), ch (CHR ''2'')]"
proof -
  have w: "\<not> rio_write_error (rioInitWithBuffer [])" "rio_ptr (rioInitWithBuffer []) = []" by (simp_all add: rioInitWithBuffer_def)
  obtain w' bs where b: "rdbSaveStringObject True (\<lambda>_. None) (Some (rioInitWithBuffer [])) (shared_integer 12) = Some (Some w', int (length bs))"
    "rio_ptr w' = rio_ptr (rioInitWithBuffer []) @ bs"
    "\<forall>r rest. \<not> rio_read_error r \<longrightarrow> pending r = bs @ rest \<longrightarrow>
       (\<exists>r' l. rdbGenericLoadStringObject demo_server r demo_flags = (r', Inr l) \<and> loaded_str l = str_of (shared_integer 12) \<and>
          loaded_ok demo_flags l \<and> pending r' = rest \<and> \<not> rio_read_error r')"
    using rdb_string_roundtrip [OF rdb_example(1,2) w(1), of True "\<lambda>_. None" demo_flags] by blast
  have "bs = [0xC0, 12]" using b(1,2) w(2) unfolding rdb_example(3) by auto
  moreover have "\<not> rio_read_error (rioInitWithBuffer [0xC0, 12])" "pending (rioInitWithBuffer [0xC0, 12]) = [0xC0, 12] @ []"
    by (simp_all add: rioInitWithBuffer_def pending_def)
  moreover have "str_of (shared_integer 12) = [ch (CHR ''1''), ch (CHR ''2'')]" by (simp add: int_dec_def nat_dec.simps)
  ultimately show ?thesis using b(3) by metis
qed

text \<open>C32: errors. A dump cut short anywhere inside a saved string is reported as an error, never loaded
  as a shorter string; and saving to a stream with a write error fails and changes nothing.\<close>

theorem rdb_string_truncated:
  assumes "wf_robj o'" "can_load sv (max 20 (length (str_of o')))"
    and "rdbSaveStringObject cmpr htab (Some (rioInitWithBuffer [])) o' = Some (Some w, n)"
    and "strict_prefix p (rio_ptr w)" and "rio_write_error w0"
  shows "(\<exists>r e. rdbGenericLoadStringObject sv (rioInitWithBuffer p) flags = (r, Inl e)) \<and>
    rdbSaveStringObject cmpr htab (Some w0) o' = Some (Some w0, -1)"
proof -
  obtain g bs l where s: "\<And>rdb. rdbSaveStringObject cmpr htab rdb o' = Some (g rdb)" "saves g bs"
    "loads (\<lambda>r. rdbGenericLoadStringObject sv r flags) bs l"
    using rdbSaveStringObject_saves [OF assms(1,2), of flags cmpr htab] unfolding saves_str_def loads_str_def by blast
  have e: "\<not> rio_write_error (rioInitWithBuffer [])" "rio_ptr (rioInitWithBuffer []) = []" by (simp_all add: rioInitWithBuffer_def)
  obtain w' where "g (Some (rioInitWithBuffer [])) = (Some w', int (length bs))" "wrote (rioInitWithBuffer []) bs w'"
    using s(2) e(1) unfolding saves_def by blast
  then have "rio_ptr w = bs" using assms(3) s(1) e(2) by (simp add: wrote_def)
  moreover have "pending (rioInitWithBuffer p) = p" "\<not> rio_read_error (rioInitWithBuffer p)"
    by (simp_all add: pending_def rioInitWithBuffer_def)
  ultimately have "\<exists>r e. rdbGenericLoadStringObject sv (rioInitWithBuffer p) flags = (r, Inl e)"
    using s(3) assms(4) unfolding loads_def by (metis (no_types, lifting))
  moreover have "rdbSaveStringObject cmpr htab (Some w0) o' = Some (Some w0, -1)"
    using s(1,2) assms(5) unfolding saves_def by simp
  ultimately show ?thesis by blast
qed

theorem rdb_string_truncated_witness:
  "\<exists>r e. rdbGenericLoadStringObject demo_server (rioInitWithBuffer [0xC0]) demo_flags = (r, Inl e)"
proof -
  let ?w0 = "(rioInitWithBuffer [])\<lparr>rio_write_error := True\<rparr>"
  have "strict_prefix [0xC0] (rio_ptr ((rioInitWithBuffer [])\<lparr>rio_ptr := [0xC0, 12 :: byte], rio_pos := 2, rio_processed_bytes := 2\<rparr>))"
    "rio_write_error ?w0" by simp_all
  from rdb_string_truncated [OF rdb_example this] show ?thesis by blast
qed

end
