(* ===== verification/Multi.thy ===== *)
theory Multi
  imports Redis_Prelude "HOL-Library.AList" "HOL-Library.Monad_Syntax"
begin

text \<open>
  Transactions (\<^verbatim>\<open>multi.c\<close>): queueing, \<^verbatim>\<open>EXEC\<close> and \<^verbatim>\<open>DISCARD\<close>, and the optimistic locking of \<^verbatim>\<open>WATCH\<close>. A
  \<^verbatim>\<open>watchedKey\<close> is in two lists at once, the client's and the one of the key in its database, so the structs
  live in a store and both lists hold their addresses. The outer \<^term>\<open>None\<close> is a failed assertion or a
  use of freed memory. What a command does to the key space is a parameter: the writes it makes in a
  given state, each of which is signalled with \<^verbatim>\<open>signalModifiedKey\<close>; so is the ACL check.
\<close>

section \<open>State\<close>

type_synonym key = bytes

record watchedKey =
  wk_key :: key
  wk_db :: nat
  wk_client :: nat
  wk_expired :: bool

record 'cmd multiState =
  ms_commands :: "'cmd list"
  ms_cmd_flags :: "32 word"
  ms_cmd_inv_flags :: "32 word"
  ms_argv_len_sums :: nat
  ms_alloc_count :: nat

record 'cmd client =
  CLIENT_MULTI :: bool
  CLIENT_DIRTY_CAS :: bool
  CLIENT_DIRTY_EXEC :: bool
  CLIENT_DENY_BLOCKING :: bool
  cl_db :: nat
  cl_watched_keys :: "nat list"
  cl_mstate :: "'cmd multiState"

text \<open>\<open>s_watched db\<close> is the dictionary \<^verbatim>\<open>watched_keys\<close> of a database, \<open>s_wk\<close> the store of watched keys.\<close>

record ('v, 'cmd) server =
  s_clients :: "nat \<Rightarrow> 'cmd client option"
  s_wk :: "nat \<Rightarrow> watchedKey option"
  s_brk :: nat
  s_watched :: "nat \<Rightarrow> (key \<times> nat list) list"
  s_dict :: "nat \<Rightarrow> key \<Rightarrow> 'v option"
  s_expires :: "nat \<Rightarrow> key \<Rightarrow> int option"
  s_now :: int
  s_loading :: bool
  s_in_exec :: bool

datatype reply = ROk | RQueued | RNil | RError string | RArray nat

definition keyIsExpired :: "('v, 'cmd) server \<Rightarrow> nat \<Rightarrow> key \<Rightarrow> bool" where
  "keyIsExpired s db key =
     (if s_loading s then False
      else case s_expires s db key of None \<Rightarrow> False | Some w \<Rightarrow> if w < 0 then False else s_now s > w)"

definition upd_client :: "nat \<Rightarrow> ('cmd client \<Rightarrow> 'cmd client) \<Rightarrow> ('v, 'cmd) server \<Rightarrow> ('v, 'cmd) server" where
  "upd_client c f s = s\<lparr>s_clients := (s_clients s)(c := map_option f (s_clients s c))\<rparr>"

section \<open>Watched keys\<close>

text \<open>\<^verbatim>\<open>watchForKey\<close>: the new struct gets a fresh address.\<close>

definition watchForKey :: "('v, 'cmd) server \<Rightarrow> nat \<Rightarrow> key \<Rightarrow> ('v, 'cmd) server option" where
  "watchForKey s c key =
     do {
       cl \<leftarrow> s_clients s c;
       (if list_ex (\<lambda>a. case s_wk s a of None \<Rightarrow> False | Some wk \<Rightarrow> wk_db wk = cl_db cl \<and> wk_key wk = key) (cl_watched_keys cl)
        then Some s
        else
          let db = cl_db cl;
              watched = s_watched s db;
              clients = (case map_of watched key of Some l \<Rightarrow> l | None \<Rightarrow> []);
              a = s_brk s;
              wk = \<lparr>wk_key = key, wk_db = db, wk_client = c, wk_expired = keyIsExpired s db key\<rparr>;
              s = upd_client c (\<lambda>cl. cl\<lparr>cl_watched_keys := cl_watched_keys cl @ [a]\<rparr>) s
          in Some (s\<lparr>s_wk := (s_wk s)(a := Some wk), s_brk := a + 1,
                     s_watched := (s_watched s)(db := AList.update key (clients @ [a]) watched)\<rparr>))
     }"

text \<open>One round of the loop of \<^verbatim>\<open>unwatchAllKeys\<close>.\<close>

definition unwatch_one :: "('v, 'cmd) server \<Rightarrow> nat \<Rightarrow> nat \<Rightarrow> ('v, 'cmd) server option" where
  "unwatch_one s c a =
     do {
       wk \<leftarrow> s_wk s a;
       clients \<leftarrow> map_of (s_watched s (wk_db wk)) (wk_key wk);
       (if a \<notin> set clients then None
        else
          let clients = remove1 a clients;
              watched = (if clients = [] then AList.delete (wk_key wk) (s_watched s (wk_db wk))
                         else AList.update (wk_key wk) clients (s_watched s (wk_db wk)));
              s = upd_client c (\<lambda>cl. cl\<lparr>cl_watched_keys := remove1 a (cl_watched_keys cl)\<rparr>) s
          in Some (s\<lparr>s_wk := (s_wk s)(a := None), s_watched := (s_watched s)(wk_db wk := watched)\<rparr>))
     }"

fun unwatch_loop :: "('v, 'cmd) server \<Rightarrow> nat \<Rightarrow> nat list \<Rightarrow> ('v, 'cmd) server option" where
  "unwatch_loop s c [] = Some s"
| "unwatch_loop s c (a # as) = do { s \<leftarrow> unwatch_one s c a; unwatch_loop s c as }"

definition unwatchAllKeys :: "('v, 'cmd) server \<Rightarrow> nat \<Rightarrow> ('v, 'cmd) server option" where
  "unwatchAllKeys s c =
     do { cl \<leftarrow> s_clients s c;
          if length (cl_watched_keys cl) = 0 then Some s else unwatch_loop s c (cl_watched_keys cl) }"

fun isWatchedKeyExpired_loop :: "('v, 'cmd) server \<Rightarrow> nat list \<Rightarrow> bool option" where
  "isWatchedKeyExpired_loop s [] = Some False"
| "isWatchedKeyExpired_loop s (a # as) =
     do { wk \<leftarrow> s_wk s a;
          if wk_expired wk then isWatchedKeyExpired_loop s as
          else if keyIsExpired s (wk_db wk) (wk_key wk) then Some True
          else isWatchedKeyExpired_loop s as }"

definition isWatchedKeyExpired :: "('v, 'cmd) server \<Rightarrow> nat \<Rightarrow> bool option" where
  "isWatchedKeyExpired s c = do { cl \<leftarrow> s_clients s c; isWatchedKeyExpired_loop s (cl_watched_keys cl) }"

text \<open>
  The loop of \<^verbatim>\<open>touchWatchedKey\<close> over the clients watching the key. The iterator has already moved on
  when \<^verbatim>\<open>unwatchAllKeys\<close> frees the current node. The \<^verbatim>\<open>break\<close> after the test for deletion leaves the loop.
\<close>

fun touch_loop :: "('v, 'cmd) server \<Rightarrow> nat \<Rightarrow> key \<Rightarrow> nat list \<Rightarrow> ('v, 'cmd) server option" where
  "touch_loop s db key [] = Some s"
| "touch_loop s db key (a # as) =
     do {
       wk \<leftarrow> s_wk s a;
       (if wk_expired wk then
          if db = wk_db wk \<and> key = wk_key wk \<and> s_dict s db key = None
          then touch_loop (s\<lparr>s_wk := (s_wk s)(a := Some (wk\<lparr>wk_expired := False\<rparr>))\<rparr>) db key as
          else Some s
        else do {
          s \<leftarrow> unwatchAllKeys (upd_client (wk_client wk) (\<lambda>cl. cl\<lparr>CLIENT_DIRTY_CAS := True\<rparr>) s) (wk_client wk);
          touch_loop s db key as
        })
     }"

definition touchWatchedKey :: "('v, 'cmd) server \<Rightarrow> nat \<Rightarrow> key \<Rightarrow> ('v, 'cmd) server option" where
  "touchWatchedKey s db key =
     (if length (s_watched s db) = 0 then Some s
      else case map_of (s_watched s db) key of None \<Rightarrow> Some s | Some clients \<Rightarrow> touch_loop s db key clients)"

text \<open>The inner loop of \<^verbatim>\<open>touchAllWatchedKeysInDb\<close>; \<open>rep\<close> is \<^verbatim>\<open>replaced_with\<close>.\<close>

fun touchAll_clients ::
  "('v, 'cmd) server \<Rightarrow> bool \<Rightarrow> nat option \<Rightarrow> key \<Rightarrow> nat list \<Rightarrow> ('v, 'cmd) server option" where
  "touchAll_clients s exists_in_emptied rep key [] = Some s"
| "touchAll_clients s exists_in_emptied rep key (a # as) =
     do {
       wk \<leftarrow> s_wk s a;
       let in_rep = (case rep of None \<Rightarrow> False | Some r \<Rightarrow> s_dict s r key \<noteq> None);
       let exp_rep = (case rep of None \<Rightarrow> False | Some r \<Rightarrow> keyIsExpired s r key);
       let s = (if wk_expired wk \<and> \<not> in_rep then s\<lparr>s_wk := (s_wk s)(a := Some (wk\<lparr>wk_expired := False\<rparr>))\<rparr>
                else if wk_expired wk \<and> exp_rep then s
                else if \<not> wk_expired wk \<and> \<not> exists_in_emptied \<and> exp_rep
                then s\<lparr>s_wk := (s_wk s)(a := Some (wk\<lparr>wk_expired := True\<rparr>))\<rparr>
                else upd_client (wk_client wk) (\<lambda>cl. cl\<lparr>CLIENT_DIRTY_CAS := True\<rparr>) s);
       touchAll_clients s exists_in_emptied rep key as
     }"

fun touchAll_loop :: "('v, 'cmd) server \<Rightarrow> nat \<Rightarrow> nat option \<Rightarrow> (key \<times> nat list) list \<Rightarrow> ('v, 'cmd) server option" where
  "touchAll_loop s emptied rep [] = Some s"
| "touchAll_loop s emptied rep ((key, clients) # es) =
     do {
       let exists_in_emptied = (s_dict s emptied key \<noteq> None);
       s \<leftarrow> (if exists_in_emptied \<or> (case rep of None \<Rightarrow> False | Some r \<Rightarrow> s_dict s r key \<noteq> None)
            then touchAll_clients s exists_in_emptied rep key clients else Some s);
       touchAll_loop s emptied rep es
     }"

definition touchAllWatchedKeysInDb :: "('v, 'cmd) server \<Rightarrow> nat \<Rightarrow> nat option \<Rightarrow> ('v, 'cmd) server option" where
  "touchAllWatchedKeysInDb s emptied rep =
     (if length (s_watched s emptied) = 0 then Some s else touchAll_loop s emptied rep (s_watched s emptied))"

section \<open>Queueing and discarding\<close>

definition initClientMultiState :: "'cmd multiState" where
  "initClientMultiState =
     \<lparr>ms_commands = [], ms_cmd_flags = 0, ms_cmd_inv_flags = 0, ms_argv_len_sums = 0, ms_alloc_count = 0\<rparr>"

text \<open>\<^verbatim>\<open>argv_len_sum\<close> and \<^verbatim>\<open>argc\<close> are those of the current command; a pointer has 8 bytes. The flags
  have 64 bits and are accumulated in an \<^verbatim>\<open>int\<close>.\<close>

definition queueMultiCommand :: "'cmd client \<Rightarrow> 'cmd \<Rightarrow> 64 word \<Rightarrow> nat \<Rightarrow> nat \<Rightarrow> 'cmd client" where
  "queueMultiCommand cl cmd cmd_flags argv_len_sum argc =
     (if CLIENT_DIRTY_CAS cl \<or> CLIENT_DIRTY_EXEC cl then cl
      else
        let m = cl_mstate cl;
            m = (if length (ms_commands m) = 0 then m\<lparr>ms_alloc_count := 2\<rparr> else m);
            m = (if length (ms_commands m) = ms_alloc_count m
                 then m\<lparr>ms_alloc_count := (if ms_alloc_count m < (2 ^ 31 - 1) div 2 then ms_alloc_count m * 2 else 2 ^ 31 - 1)\<rparr>
                 else m)
        in cl\<lparr>cl_mstate := m\<lparr>ms_commands := ms_commands m @ [cmd],
              ms_cmd_flags := ms_cmd_flags m OR ucast cmd_flags,
              ms_cmd_inv_flags := ms_cmd_inv_flags m OR ucast (NOT cmd_flags),
              ms_argv_len_sums := ms_argv_len_sums m + (argv_len_sum + 8 * argc)\<rparr>\<rparr>)"

definition discardTransaction :: "('v, 'cmd) server \<Rightarrow> nat \<Rightarrow> ('v, 'cmd) server option" where
  "discardTransaction s c =
     unwatchAllKeys (upd_client c (\<lambda>cl. cl\<lparr>cl_mstate := initClientMultiState, CLIENT_MULTI := False,
       CLIENT_DIRTY_CAS := False, CLIENT_DIRTY_EXEC := False\<rparr>) s) c"

definition flagTransaction :: "'cmd client \<Rightarrow> 'cmd client" where
  "flagTransaction cl = (if CLIENT_MULTI cl then cl\<lparr>CLIENT_DIRTY_EXEC := True\<rparr> else cl)"

definition multiCommand :: "('v, 'cmd) server \<Rightarrow> nat \<Rightarrow> (('v, 'cmd) server \<times> reply) option" where
  "multiCommand s c =
     do { cl \<leftarrow> s_clients s c;
          Some (if CLIENT_MULTI cl then (s, RError ''MULTI calls can not be nested'')
                else (upd_client c (\<lambda>cl. cl\<lparr>CLIENT_MULTI := True\<rparr>) s, ROk)) }"

definition discardCommand :: "('v, 'cmd) server \<Rightarrow> nat \<Rightarrow> (('v, 'cmd) server \<times> reply) option" where
  "discardCommand s c =
     do { cl \<leftarrow> s_clients s c;
          if \<not> CLIENT_MULTI cl then Some (s, RError ''DISCARD without MULTI'')
          else do { s \<leftarrow> discardTransaction s c; Some (s, ROk) } }"

definition execCommandAbort :: "('v, 'cmd) server \<Rightarrow> nat \<Rightarrow> string \<Rightarrow> (('v, 'cmd) server \<times> reply) option" where
  "execCommandAbort s c error =
     do { s \<leftarrow> discardTransaction s c;
          let error = (case error of e # es \<Rightarrow> if e = CHR ''-'' then es else error | [] \<Rightarrow> error);
          Some (s, RError (''-EXECABORT Transaction discarded because of: '' @ error)) }"

fun watch_loop :: "('v, 'cmd) server \<Rightarrow> nat \<Rightarrow> key list \<Rightarrow> ('v, 'cmd) server option" where
  "watch_loop s c [] = Some s"
| "watch_loop s c (k # ks) = do { s \<leftarrow> watchForKey s c k; watch_loop s c ks }"

definition watchCommand :: "('v, 'cmd) server \<Rightarrow> nat \<Rightarrow> key list \<Rightarrow> (('v, 'cmd) server \<times> reply) option" where
  "watchCommand s c keys =
     do { cl \<leftarrow> s_clients s c;
          if CLIENT_MULTI cl then Some (s, RError ''WATCH inside MULTI is not allowed'')
          else if CLIENT_DIRTY_CAS cl then Some (s, ROk)
          else do { s \<leftarrow> watch_loop s c keys; Some (s, ROk) } }"

definition unwatchCommand :: "('v, 'cmd) server \<Rightarrow> nat \<Rightarrow> (('v, 'cmd) server \<times> reply) option" where
  "unwatchCommand s c =
     do { s \<leftarrow> unwatchAllKeys s c; Some (upd_client c (\<lambda>cl. cl\<lparr>CLIENT_DIRTY_CAS := False\<rparr>) s, ROk) }"

section \<open>Execution\<close>

text \<open>A write of a command: database, key, new value and expire time, then \<^verbatim>\<open>signalModifiedKey\<close>.\<close>

type_synonym 'v db_write = "nat \<times> key \<times> 'v option \<times> int option"

definition db_set :: "('v, 'cmd) server \<Rightarrow> 'v db_write \<Rightarrow> ('v, 'cmd) server" where
  "db_set s w = (case w of (db, key, v, e) \<Rightarrow>
     s\<lparr>s_dict := (s_dict s)(db := (s_dict s db)(key := v)), s_expires := (s_expires s)(db := (s_expires s db)(key := e))\<rparr>)"

definition signalModifiedKey :: "('v, 'cmd) server \<Rightarrow> nat \<Rightarrow> key \<Rightarrow> ('v, 'cmd) server option" where
  "signalModifiedKey s db key = touchWatchedKey s db key"

fun do_writes :: "('v, 'cmd) server \<Rightarrow> 'v db_write list \<Rightarrow> ('v, 'cmd) server option" where
  "do_writes s [] = Some s"
| "do_writes s (w # ws) =
     do { s \<leftarrow> signalModifiedKey (db_set s w) (fst w) (fst (snd w)); do_writes s ws }"

definition call :: "('cmd \<Rightarrow> ('v, 'cmd) server \<Rightarrow> 'v db_write list) \<Rightarrow> ('v, 'cmd) server \<Rightarrow> 'cmd \<Rightarrow> ('v, 'cmd) server option" where
  "call effects s cmd = do_writes s (effects cmd s)"

text \<open>The loop of \<^verbatim>\<open>execCommand\<close>: a command that the ACL no longer allows is replied an error and skipped.\<close>

fun exec_loop ::
  "('cmd \<Rightarrow> ('v, 'cmd) server \<Rightarrow> 'v db_write list) \<Rightarrow> (nat \<Rightarrow> 'cmd \<Rightarrow> bool) \<Rightarrow>
   ('v, 'cmd) server \<Rightarrow> nat \<Rightarrow> 'cmd list \<Rightarrow> ('v, 'cmd) server option" where
  "exec_loop effects acl_ok s c [] = Some s"
| "exec_loop effects acl_ok s c (cmd # cmds) =
     do { s \<leftarrow> (if \<not> acl_ok c cmd then Some s else call effects s cmd); exec_loop effects acl_ok s c cmds }"

text \<open>Queued commands run with blocking denied; the assertion that none has blocked the client is left out.\<close>

definition execCommand ::
  "('cmd \<Rightarrow> ('v, 'cmd) server \<Rightarrow> 'v db_write list) \<Rightarrow> (nat \<Rightarrow> 'cmd \<Rightarrow> bool) \<Rightarrow>
   ('v, 'cmd) server \<Rightarrow> nat \<Rightarrow> (('v, 'cmd) server \<times> reply) option" where
  "execCommand effects acl_ok s c =
     do {
       cl \<leftarrow> s_clients s c;
       (if \<not> CLIENT_MULTI cl then Some (s, RError ''EXEC without MULTI'')
        else do {
          e \<leftarrow> isWatchedKeyExpired s c;
          let s = (if e then upd_client c (\<lambda>cl. cl\<lparr>CLIENT_DIRTY_CAS := True\<rparr>) s else s);
          cl \<leftarrow> s_clients s c;
          (if CLIENT_DIRTY_CAS cl \<or> CLIENT_DIRTY_EXEC cl then
             do { s \<leftarrow> discardTransaction s c;
                  Some (s, if CLIENT_DIRTY_EXEC cl then RError ''EXECABORT'' else RNil) }
           else do {
             let old = CLIENT_DENY_BLOCKING cl;
             s \<leftarrow> unwatchAllKeys (upd_client c (\<lambda>cl. cl\<lparr>CLIENT_DENY_BLOCKING := True\<rparr>) s) c;
             s \<leftarrow> exec_loop effects acl_ok (s\<lparr>s_in_exec := True\<rparr>) c (ms_commands (cl_mstate cl));
             let s = (if \<not> old then upd_client c (\<lambda>cl. cl\<lparr>CLIENT_DENY_BLOCKING := False\<rparr>) s else s);
             s \<leftarrow> discardTransaction s c;
             Some (s\<lparr>s_in_exec := False\<rparr>, RArray (length (ms_commands (cl_mstate cl))))
           })
        })
     }"

text \<open>The last part of \<^verbatim>\<open>processCommand\<close> for a command other than those of this file.\<close>

definition processCommand ::
  "('cmd \<Rightarrow> ('v, 'cmd) server \<Rightarrow> 'v db_write list) \<Rightarrow> ('v, 'cmd) server \<Rightarrow> nat \<Rightarrow> 'cmd \<Rightarrow> 64 word \<Rightarrow> nat \<Rightarrow> nat \<Rightarrow>
   (('v, 'cmd) server \<times> reply) option" where
  "processCommand effects s c cmd cmd_flags argv_len_sum argc =
     do { cl \<leftarrow> s_clients s c;
          if CLIENT_MULTI cl
          then Some (upd_client c (\<lambda>cl. queueMultiCommand cl cmd cmd_flags argv_len_sum argc) s, RQueued)
          else do { s \<leftarrow> call effects s cmd; Some (s, ROk) } }"

text \<open>
  \<^verbatim>\<open>FLUSHDB\<close>: the watched keys are touched while the keys are still there (\<^verbatim>\<open>signalFlushedDb\<close>), then the dictionary
  is emptied, as the caller does with \<^verbatim>\<open>emptyData\<close>.
\<close>

definition flush_db :: "('v, 'cmd) server \<Rightarrow> nat \<Rightarrow> ('v, 'cmd) server option" where
  "flush_db s db =
     do { s \<leftarrow> touchAllWatchedKeysInDb s db None;
          Some (s\<lparr>s_dict := (s_dict s)(db := Map.empty), s_expires := (s_expires s)(db := Map.empty)\<rparr>) }"

end
