(* ===== verification/Multi_Spec.thy ===== *)
theory Multi_Spec
  imports Multi
begin

text \<open>
  The invariant of the watched keys, that every operation of \<^verbatim>\<open>multi.c\<close> keeps it without a failed assertion
  or a dangling pointer, and the guarantee of the optimistic locking: a transaction is executed only if
  the keys it watches are as they were when it watched them.
\<close>

section \<open>The two lists agree\<close>

text \<open>
  \<open>C\<close> maps clients to the addresses they hold, \<open>D\<close> databases and keys to theirs, \<open>K\<close> addresses to the client,
  database and key of the struct, and \<open>n\<close> bounds the addresses in use.
\<close>

definition links ::
  "(nat \<Rightarrow> nat list option) \<Rightarrow> (nat \<Rightarrow> key \<Rightarrow> nat list option) \<Rightarrow> (nat \<Rightarrow> (nat \<times> nat \<times> key) option) \<Rightarrow> nat \<Rightarrow> bool" where
  "links C D K n \<longleftrightarrow>
     (\<forall>a c db k. K a = Some (c, db, k) \<longrightarrow> a < n \<and> (\<exists>l. C c = Some l \<and> a \<in> set l) \<and> (\<exists>m. D db k = Some m \<and> a \<in> set m)) \<and>
     (\<forall>c l. C c = Some l \<longrightarrow> distinct l \<and> (\<forall>a \<in> set l. \<exists>db k. K a = Some (c, db, k))) \<and>
     (\<forall>db k m. D db k = Some m \<longrightarrow> m \<noteq> [] \<and> distinct m \<and> (\<forall>a \<in> set m. \<exists>c. K a = Some (c, db, k))) \<and>
     (\<forall>a b x. K a = Some x \<longrightarrow> K b = Some x \<longrightarrow> a = b)"

lemma linksD:
  assumes "links C D K n"
  shows "K a = Some (c, db, k) \<Longrightarrow> a < n" "K a = Some (c, db, k) \<Longrightarrow> \<exists>l. C c = Some l \<and> a \<in> set l"
    "K a = Some (c, db, k) \<Longrightarrow> \<exists>m. D db k = Some m \<and> a \<in> set m"
    "C c = Some l \<Longrightarrow> distinct l" "C c = Some l \<Longrightarrow> a \<in> set l \<Longrightarrow> \<exists>db k. K a = Some (c, db, k)"
    "D db k = Some m \<Longrightarrow> m \<noteq> []" "D db k = Some m \<Longrightarrow> distinct m"
    "D db k = Some m \<Longrightarrow> a \<in> set m \<Longrightarrow> \<exists>c. K a = Some (c, db, k)"
    "K a = Some x \<Longrightarrow> K b = Some x \<Longrightarrow> a = b"
  using assms unfolding links_def by blast+

lemma linksI:
  assumes "\<And>a c db k. K a = Some (c, db, k) \<Longrightarrow> a < n" "\<And>a c db k. K a = Some (c, db, k) \<Longrightarrow> \<exists>l. C c = Some l \<and> a \<in> set l"
    "\<And>a c db k. K a = Some (c, db, k) \<Longrightarrow> \<exists>m. D db k = Some m \<and> a \<in> set m"
    "\<And>c l. C c = Some l \<Longrightarrow> distinct l" "\<And>c l a. C c = Some l \<Longrightarrow> a \<in> set l \<Longrightarrow> \<exists>db k. K a = Some (c, db, k)"
    "\<And>db k m. D db k = Some m \<Longrightarrow> m \<noteq> []" "\<And>db k m. D db k = Some m \<Longrightarrow> distinct m"
    "\<And>db k m a. D db k = Some m \<Longrightarrow> a \<in> set m \<Longrightarrow> \<exists>c. K a = Some (c, db, k)"
    "\<And>a b x. K a = Some x \<Longrightarrow> K b = Some x \<Longrightarrow> a = b"
  shows "links C D K n"
  unfolding links_def by (intro conjI allI impI ballI; (rule assms; assumption))

lemma links_unwatch:
  assumes L: "links C D K n" and K: "K a = Some (c, db, k)" and C: "C c = Some l" and D: "D db k = Some m"
  shows "links (C(c \<mapsto> remove1 a l)) (D(db := (D db)(k := if remove1 a m = [] then None else Some (remove1 a m)))) (K(a := None)) n"
    (is "links ?C ?D ?K n")
proof (rule linksI)
  have dl: "distinct l" "distinct m" using linksD(4) [OF L C] linksD(7) [OF L D] .
  fix b c' db' k' assume b: "?K b = Some (c', db', k')"
  then have "b \<noteq> a" and kb: "K b = Some (c', db', k')" by (auto split: if_splits)
  show "b < n" by (rule linksD(1) [OF L kb])
  show "\<exists>l. ?C c' = Some l \<and> b \<in> set l" using linksD(2) [OF L kb] C \<open>b \<noteq> a\<close> by auto
  show "\<exists>m. ?D db' k' = Some m \<and> b \<in> set m"
  proof (cases "db' = db \<and> k' = k")
    case True
    then have "b \<in> set (remove1 a m)" using linksD(3) [OF L kb] D \<open>b \<noteq> a\<close> by auto
    then have "remove1 a m \<noteq> []" by auto
    then show ?thesis using True \<open>b \<in> set (remove1 a m)\<close> by simp
  next
    case False
    then show ?thesis using linksD(3) [OF L kb] by auto
  qed
next
  have dl: "distinct l" "distinct m" using linksD(4) [OF L C] linksD(7) [OF L D] .
  fix c' l' assume c': "?C c' = Some l'"
  show "distinct l'" using c' linksD(4) [OF L] dl by (auto split: if_splits)
  fix b assume "b \<in> set l'"
  then have "b \<noteq> a \<and> (\<exists>l0. C c' = Some l0 \<and> b \<in> set l0)"
  proof (cases "c' = c")
    case True
    then show ?thesis using c' C \<open>b \<in> set l'\<close> dl(1) by auto
  next
    case False
    then have h: "C c' = Some l'" using c' by simp
    moreover have "b \<noteq> a" using linksD(5) [OF L h \<open>b \<in> set l'\<close>] K False by auto
    ultimately show ?thesis using \<open>b \<in> set l'\<close> by blast
  qed
  then show "\<exists>db k. ?K b = Some (c', db, k)" using linksD(5) [OF L] by auto
next
  have dm: "distinct m" using linksD(7) [OF L D] .
  fix db' k' m' assume d: "?D db' k' = Some m'"
  have cases: "db' = db \<and> k' = k \<and> m' = remove1 a m \<and> remove1 a m \<noteq> [] \<or> (db', k') \<noteq> (db, k) \<and> D db' k' = Some m'"
    using d by (auto split: if_splits)
  show "m' \<noteq> []" using cases linksD(6) [OF L] by auto
  show "distinct m'" using cases dm linksD(7) [OF L] by auto
  fix b assume b: "b \<in> set m'"
  have "b \<noteq> a \<and> (\<exists>m0. D db' k' = Some m0 \<and> b \<in> set m0)"
  proof (cases "(db', k') = (db, k)")
    case True
    then show ?thesis using cases b D dm by auto
  next
    case False
    then have h: "D db' k' = Some m'" using cases by auto
    moreover have "b \<noteq> a" using linksD(8) [OF L h b] K False by auto
    ultimately show ?thesis using b by blast
  qed
  then show "\<exists>c. ?K b = Some (c, db', k')" using linksD(8) [OF L] by auto
next
  fix b b' x assume "?K b = Some x" "?K b' = Some x"
  then show "b = b'" using linksD(9) [OF L] by (auto split: if_splits)
qed

lemma links_fresh:
  assumes L: "links C D K n"
  shows "C c = Some l \<Longrightarrow> n \<notin> set l" "D db k = Some m \<Longrightarrow> n \<notin> set m"
proof -
  show "n \<notin> set l" if c: "C c = Some l"
  proof
    assume "n \<in> set l"
    then obtain db k where "K n = Some (c, db, k)" using linksD(5) [OF L c] by blast
    then show False using linksD(1) [OF L] by blast
  qed
  show "n \<notin> set m" if d: "D db k = Some m"
  proof
    assume "n \<in> set m"
    then obtain c where "K n = Some (c, db, k)" using linksD(8) [OF L d] by blast
    then show False using linksD(1) [OF L] by blast
  qed
qed

lemma links_watch:
  assumes L: "links C D K n" and C: "C c = Some l" and new: "\<And>a. K a \<noteq> Some (c, db, k)"
    and m: "m = (case D db k of None \<Rightarrow> [] | Some m \<Rightarrow> m)"
  shows "links (C(c \<mapsto> l @ [n])) (D(db := (D db)(k \<mapsto> m @ [n]))) (K(n \<mapsto> (c, db, k))) (n + 1)"
    (is "links ?C ?D ?K (n + 1)")
proof (rule linksI)
  fix b c' db' k' assume b: "?K b = Some (c', db', k')"
  then consider "b = n" "c' = c" "db' = db" "k' = k" | "b \<noteq> n" "K b = Some (c', db', k')" by (auto split: if_splits)
  note cases = this
  show "b < n + 1" using cases by cases (use linksD(1) [OF L, of b c' db' k'] in auto)
  show "\<exists>l. ?C c' = Some l \<and> b \<in> set l" using cases by cases (use linksD(2) [OF L, of b c' db' k'] C in auto)
  show "\<exists>m. ?D db' k' = Some m \<and> b \<in> set m" using cases by cases (use linksD(3) [OF L, of b c' db' k'] m in auto)
next
  fix c' l' assume c': "?C c' = Some l'"
  then consider "c' = c" "l' = l @ [n]" | "c' \<noteq> c" "C c' = Some l'" by (auto split: if_splits)
  note cases = this
  show "distinct l'" using cases by cases (use linksD(4) [OF L] C links_fresh(1) [OF L C] in auto)
  fix b assume b: "b \<in> set l'"
  show "\<exists>db k. ?K b = Some (c', db, k)"
    using cases by cases (use b C linksD(5) [OF L C, of b] linksD(5) [OF L, of c' l' b] links_fresh(1) [OF L, of c' l'] in auto)
next
  fix db' k' m' assume d: "?D db' k' = Some m'"
  then consider "db' = db" "k' = k" "m' = m @ [n]" | "(db', k') \<noteq> (db, k)" "D db' k' = Some m'" by (auto split: if_splits)
  note cases = this
  show "m' \<noteq> []" using cases by cases (use linksD(6) [OF L, of db' k' m'] in auto)
  show "distinct m'"
    using cases by cases (use linksD(7) [OF L] links_fresh(2) [OF L] m in \<open>auto split: option.splits\<close>)
  fix b assume b: "b \<in> set m'"
  show "\<exists>c. ?K b = Some (c, db', k')"
  proof (cases "b = n")
    case True
    then show ?thesis using cases by cases (use b links_fresh(2) [OF L, of db' k' m'] in auto)
  next
    case False
    obtain m0 where "D db' k' = Some m0" "b \<in> set m0"
      using cases by cases (use b False m in \<open>auto split: option.splits\<close>)
    then show ?thesis using linksD(8) [OF L, of db' k' m0 b] False by auto
  qed
next
  fix b b' x assume "?K b = Some x" "?K b' = Some x"
  then show "b = b'" using linksD(9) [OF L] new by (auto split: if_splits)
qed

section \<open>The invariant of the server\<close>

definition lists :: "('v, 'cmd) server \<Rightarrow> nat \<Rightarrow> nat list option" where
  "lists s c = map_option cl_watched_keys (s_clients s c)"

definition watchers :: "('v, 'cmd) server \<Rightarrow> nat \<Rightarrow> key \<Rightarrow> nat list option" where
  "watchers s db = map_of (s_watched s db)"

definition ident :: "('v, 'cmd) server \<Rightarrow> nat \<Rightarrow> (nat \<times> nat \<times> key) option" where
  "ident s a = map_option (\<lambda>wk. (wk_client wk, wk_db wk, wk_key wk)) (s_wk s a)"

definition linked :: "('v, 'cmd) server \<Rightarrow> bool" where
  "linked s \<longleftrightarrow> links (lists s) (watchers s) (ident s) (s_brk s) \<and> (\<forall>db. distinct (map fst (s_watched s db)))"

text \<open>What the operations on watched keys leave alone.\<close>

definition same_db :: "('v, 'cmd) server \<Rightarrow> ('v, 'cmd) server \<Rightarrow> bool" where
  "same_db s s' \<longleftrightarrow> s_dict s' = s_dict s \<and> s_expires s' = s_expires s \<and> s_now s' = s_now s \<and>
     s_loading s' = s_loading s \<and> s_in_exec s' = s_in_exec s"

lemma same_db_refl [simp]: "same_db s s"
  by (simp add: same_db_def)

lemma same_db_trans: "same_db s s' \<Longrightarrow> same_db s' s'' \<Longrightarrow> same_db s s''"
  by (simp add: same_db_def)

lemma upd_client_simps [simp]:
  "s_wk (upd_client c f s) = s_wk s" "s_watched (upd_client c f s) = s_watched s" "s_brk (upd_client c f s) = s_brk s"
  "s_dict (upd_client c f s) = s_dict s" "s_expires (upd_client c f s) = s_expires s"
  "s_now (upd_client c f s) = s_now s" "s_loading (upd_client c f s) = s_loading s"
  "s_in_exec (upd_client c f s) = s_in_exec s" "same_db s (upd_client c f s)"
  "s_clients (upd_client c f s) = (s_clients s)(c := map_option f (s_clients s c))"
  by (simp_all add: upd_client_def same_db_def)

lemma linked_cong:
  assumes "linked s" "lists s' = lists s" "ident s' = ident s" "s_watched s' = s_watched s" "s_brk s' = s_brk s"
  shows "linked s'"
  using assms by (simp add: linked_def watchers_def [abs_def])

lemma linked_upd_client:
  assumes "linked s" "\<And>cl. cl_watched_keys (f cl) = cl_watched_keys cl"
  shows "linked (upd_client c f s)"
  using assms(1) by (rule linked_cong) (auto simp: lists_def ident_def assms(2) option.map_comp comp_def)

lemma linked_expired:
  "linked s \<Longrightarrow> s_wk s a = Some wk \<Longrightarrow> linked (s\<lparr>s_wk := (s_wk s)(a := Some (wk\<lparr>wk_expired := b\<rparr>))\<rparr>)"
  by (erule linked_cong) (auto simp: lists_def ident_def)

lemma linked_wk:
  assumes "linked s" "s_wk s a = Some wk"
  obtains cl m where "s_clients s (wk_client wk) = Some cl" "a \<in> set (cl_watched_keys cl)"
    "map_of (s_watched s (wk_db wk)) (wk_key wk) = Some m" "a \<in> set m"
proof -
  have k: "ident s a = Some (wk_client wk, wk_db wk, wk_key wk)" using assms(2) by (simp add: ident_def)
  have L: "links (lists s) (watchers s) (ident s) (s_brk s)" using assms(1) by (simp add: linked_def)
  show ?thesis using linksD(2,3) [OF L k] that by (auto simp: lists_def watchers_def)
qed

lemma linked_watched:
  "linked s \<Longrightarrow> s_wk s a = Some wk \<Longrightarrow> \<exists>m. map_of (s_watched s (wk_db wk)) (wk_key wk) = Some m \<and> a \<in> set m"
  by (erule (1) linked_wk) blast

lemma linked_client:
  assumes "linked s" "s_clients s c = Some cl"
  shows "distinct (cl_watched_keys cl)"
    "a \<in> set (cl_watched_keys cl) \<Longrightarrow> \<exists>wk. s_wk s a = Some wk \<and> wk_client wk = c"
proof -
  have l: "lists s c = Some (cl_watched_keys cl)" using assms(2) by (simp add: lists_def)
  have L: "links (lists s) (watchers s) (ident s) (s_brk s)" using assms(1) by (simp add: linked_def)
  show "distinct (cl_watched_keys cl)" by (rule linksD(4) [OF L l])
  show "a \<in> set (cl_watched_keys cl) \<Longrightarrow> \<exists>wk. s_wk s a = Some wk \<and> wk_client wk = c"
    using linksD(5) [OF L l, of a] by (auto simp: ident_def)
qed

lemma linked_watchers:
  assumes "linked s" "map_of (s_watched s db) k = Some m"
  shows "distinct m" "a \<in> set m \<Longrightarrow> \<exists>wk. s_wk s a = Some wk \<and> wk_db wk = db \<and> wk_key wk = k"
proof -
  have l: "watchers s db k = Some m" using assms(2) by (simp add: watchers_def)
  have L: "links (lists s) (watchers s) (ident s) (s_brk s)" using assms(1) by (simp add: linked_def)
  show "distinct m" by (rule linksD(7) [OF L l])
  show "a \<in> set m \<Longrightarrow> \<exists>wk. s_wk s a = Some wk \<and> wk_db wk = db \<and> wk_key wk = k"
    using linksD(8) [OF L l, of a] by (auto simp: ident_def)
qed

lemma linked_once:
  assumes "linked s" "s_wk s a = Some wk" "s_wk s b = Some wk'" "wk_client wk = wk_client wk'" "wk_db wk = wk_db wk'"
    "wk_key wk = wk_key wk'"
  shows "a = b"
  using assms linksD(9) [of "lists s" "watchers s" "ident s" "s_brk s" a _ b] by (auto simp: linked_def ident_def)

lemma unwatch_one_ok:
  assumes L: "linked s" and cl: "s_clients s c = Some cl" and a: "a \<in> set (cl_watched_keys cl)"
  obtains s' where "unwatch_one s c a = Some s'" "linked s'" "same_db s s'" "s_wk s' = (s_wk s)(a := None)"
    "s_clients s' = (s_clients s)(c \<mapsto> cl\<lparr>cl_watched_keys := remove1 a (cl_watched_keys cl)\<rparr>)" "s_brk s' = s_brk s"
proof -
  obtain wk where wk: "s_wk s a = Some wk" "wk_client wk = c" using linked_client(2) [OF L cl a] by blast
  obtain m where m: "map_of (s_watched s (wk_db wk)) (wk_key wk) = Some m" "a \<in> set m" using linked_wk [OF L wk(1)] by blast
  let ?m = "remove1 a m"
  let ?w = "if ?m = [] then AList.delete (wk_key wk) (s_watched s (wk_db wk)) else AList.update (wk_key wk) ?m (s_watched s (wk_db wk))"
  let ?s0 = "upd_client c (\<lambda>cl. cl\<lparr>cl_watched_keys := remove1 a (cl_watched_keys cl)\<rparr>) s"
  let ?s = "?s0\<lparr>s_wk := (s_wk ?s0)(a := None), s_watched := (s_watched ?s0)(wk_db wk := ?w)\<rparr>"
  have e: "unwatch_one s c a = Some ?s" using wk m by (simp add: unwatch_one_def Let_def)
  have mw: "map_of ?w = (map_of (s_watched s (wk_db wk)))(wk_key wk := if ?m = [] then None else Some ?m)"
    by (simp add: AList.delete_conv' AList.update_conv')
  have "lists ?s = (lists s)(c \<mapsto> remove1 a (cl_watched_keys cl))" using cl by (auto simp: lists_def)
  moreover have "watchers ?s = (watchers s)(wk_db wk := (watchers s (wk_db wk))(wk_key wk := if ?m = [] then None else Some ?m))"
    using mw by (auto simp: watchers_def [abs_def] fun_eq_iff)
  moreover have "ident ?s = (ident s)(a := None)" by (auto simp: ident_def)
  moreover have "links ((lists s)(c \<mapsto> remove1 a (cl_watched_keys cl)))
      ((watchers s)(wk_db wk := (watchers s (wk_db wk))(wk_key wk := if ?m = [] then None else Some ?m))) ((ident s)(a := None)) (s_brk s)"
    by (rule links_unwatch) (use L cl wk m in \<open>auto simp: linked_def lists_def ident_def watchers_def\<close>)
  moreover have "distinct (map fst (s_watched ?s db))" for db
    using L by (auto simp: linked_def AList.distinct_delete AList.distinct_update)
  ultimately have "linked ?s" by (simp add: linked_def)
  then show ?thesis using e cl by (intro that [of ?s]) (simp_all add: same_db_def)
qed

lemma unwatch_loop_ok:
  "linked s \<Longrightarrow> s_clients s c = Some cl \<Longrightarrow> cl_watched_keys cl = as \<Longrightarrow>
   \<exists>s'. unwatch_loop s c as = Some s' \<and> linked s' \<and> same_db s s' \<and> s_wk s' = (\<lambda>a. if a \<in> set as then None else s_wk s a) \<and>
     s_clients s' = (s_clients s)(c \<mapsto> cl\<lparr>cl_watched_keys := []\<rparr>) \<and> s_brk s' = s_brk s"
proof (induction as arbitrary: s cl)
  case Nil
  then have "cl\<lparr>cl_watched_keys := []\<rparr> = cl" by simp
  then show ?case using Nil by (simp add: fun_upd_idem)
next
  case (Cons a as)
  obtain s1 where 1: "unwatch_one s c a = Some s1" "linked s1" "same_db s s1" "s_wk s1 = (s_wk s)(a := None)"
    "s_clients s1 = (s_clients s)(c \<mapsto> cl\<lparr>cl_watched_keys := remove1 a (cl_watched_keys cl)\<rparr>)" "s_brk s1 = s_brk s"
    by (rule unwatch_one_ok [OF Cons.prems(1,2)]) (use Cons.prems(3) in auto)
  let ?cl = "cl\<lparr>cl_watched_keys := as\<rparr>"
  have "s_clients s1 c = Some ?cl" "cl_watched_keys ?cl = as" using 1(5) Cons.prems(3) by simp_all
  from Cons.IH [OF 1(2) this] obtain s' where s': "unwatch_loop s1 c as = Some s'" "linked s'" "same_db s1 s'"
    "s_wk s' = (\<lambda>a. if a \<in> set as then None else s_wk s1 a)" "s_clients s' = (s_clients s1)(c \<mapsto> ?cl\<lparr>cl_watched_keys := []\<rparr>)"
    "s_brk s' = s_brk s1" by blast
  have "s_wk s' = (\<lambda>b. if b \<in> set (a # as) then None else s_wk s b)" using s'(4) 1(4) by auto
  then show ?case using s' 1 same_db_trans [OF 1(3) s'(3)] by (intro exI [of _ s'] conjI) simp_all
qed

lemma unwatchAllKeys_ok:
  assumes "linked s" "s_clients s c = Some cl"
  obtains s' where "unwatchAllKeys s c = Some s'" "linked s'" "same_db s s'"
    "s_wk s' = (\<lambda>a. if a \<in> set (cl_watched_keys cl) then None else s_wk s a)"
    "s_clients s' = (s_clients s)(c \<mapsto> cl\<lparr>cl_watched_keys := []\<rparr>)" "s_brk s' = s_brk s"
proof (cases "cl_watched_keys cl = []")
  case True
  then have "cl\<lparr>cl_watched_keys := []\<rparr> = cl" by simp
  then show ?thesis using assms True by (intro that [of s]) (simp_all add: unwatchAllKeys_def fun_upd_idem)
next
  case False
  then show ?thesis using unwatch_loop_ok [OF assms refl] assms that by (auto simp: unwatchAllKeys_def)
qed

text \<open>The addresses a client holds are those of the structs that name it.\<close>

lemma linked_held:
  assumes "linked s" "s_clients s c = Some cl" "s_wk s a = Some wk"
  shows "a \<in> set (cl_watched_keys cl) \<longleftrightarrow> wk_client wk = c"
proof
  assume "a \<in> set (cl_watched_keys cl)"
  then show "wk_client wk = c" using linked_client(2) [OF assms(1,2)] assms(3) by fastforce
next
  assume c: "wk_client wk = c"
  obtain cl' where "s_clients s (wk_client wk) = Some cl'" "a \<in> set (cl_watched_keys cl')"
    using linked_wk [OF assms(1,3)] .
  then show "a \<in> set (cl_watched_keys cl)" using c assms(2) by simp
qed

section \<open>Touching a key\<close>

definition dirtied :: "'cmd client \<Rightarrow> 'cmd client" where
  "dirtied cl = cl\<lparr>CLIENT_DIRTY_CAS := True, cl_watched_keys := []\<rparr>"

text \<open>
  \<open>touched s s' P\<close>: the clients in \<open>P\<close> are marked and no longer watch anything, the others are as before,
  and so are their watched keys, except that the mark of an expired key may be gone.
\<close>

fun wk_after :: "nat set \<Rightarrow> watchedKey option \<Rightarrow> watchedKey option \<Rightarrow> bool" where
  "wk_after P None w' = (w' = None)"
| "wk_after P (Some wk) w' =
     (if wk_client wk \<in> P then w' = None else w' = Some wk \<or> w' = Some (wk\<lparr>wk_expired := False\<rparr>))"

definition touched :: "('v, 'cmd) server \<Rightarrow> ('v, 'cmd) server \<Rightarrow> nat set \<Rightarrow> bool" where
  "touched s s' P \<longleftrightarrow> same_db s s' \<and> s_brk s' = s_brk s \<and>
     s_clients s' = (\<lambda>c. if c \<in> P then map_option dirtied (s_clients s c) else s_clients s c) \<and>
     (\<forall>b. wk_after P (s_wk s b) (s_wk s' b))"

lemma wk_after_refl: "wk_after {} w w"
  by (cases w) auto

lemma wk_after_trans: "wk_after P w w' \<Longrightarrow> wk_after Q w' w'' \<Longrightarrow> wk_after (P \<union> Q) w w''"
  by (cases w; cases w') (auto split: if_splits)

lemma touched_refl: "touched s s {}"
  by (auto simp: touched_def wk_after_refl)

lemma dirtied_dirtied [simp]: "dirtied (dirtied cl) = dirtied cl"
  by (simp add: dirtied_def)

lemma dirtied_twice [simp]: "map_option dirtied (map_option dirtied x) = map_option dirtied x"
  by (cases x) auto

lemma touched_trans:
  assumes "touched s s' P" "touched s' s'' Q"
  shows "touched s s'' (P \<union> Q)"
proof -
  have "s_clients s'' = (\<lambda>c. if c \<in> P \<union> Q then map_option dirtied (s_clients s c) else s_clients s c)"
    using assms unfolding touched_def by (simp add: fun_eq_iff)
  moreover have "wk_after (P \<union> Q) (s_wk s b) (s_wk s'' b)" for b
    using assms wk_after_trans unfolding touched_def by blast
  ultimately show ?thesis using assms same_db_trans [of s s' s''] unfolding touched_def by simp
qed

lemma touch_one:
  assumes L: "linked s" and wk: "s_wk s a = Some wk"
  obtains s' where "unwatchAllKeys (upd_client (wk_client wk) (\<lambda>cl. cl\<lparr>CLIENT_DIRTY_CAS := True\<rparr>) s) (wk_client wk) = Some s'"
    "linked s'" "touched s s' {wk_client wk}"
proof -
  let ?c = "wk_client wk"
  let ?s = "upd_client ?c (\<lambda>cl. cl\<lparr>CLIENT_DIRTY_CAS := True\<rparr>) s"
  obtain cl where cl: "s_clients s ?c = Some cl" using linked_wk [OF L wk] by blast
  have L': "linked ?s" by (rule linked_upd_client [OF L]) simp
  have c: "s_clients ?s ?c = Some (cl\<lparr>CLIENT_DIRTY_CAS := True\<rparr>)" using cl by simp
  obtain s' where s': "unwatchAllKeys ?s ?c = Some s'" "linked s'" "same_db ?s s'"
    "s_wk s' = (\<lambda>a. if a \<in> set (cl_watched_keys (cl\<lparr>CLIENT_DIRTY_CAS := True\<rparr>)) then None else s_wk ?s a)"
    "s_clients s' = (s_clients ?s)(?c \<mapsto> cl\<lparr>CLIENT_DIRTY_CAS := True\<rparr>\<lparr>cl_watched_keys := []\<rparr>)" "s_brk s' = s_brk ?s"
    by (rule unwatchAllKeys_ok [OF L' c])
  have "s_clients s' = (\<lambda>c. if c \<in> {?c} then map_option dirtied (s_clients s c) else s_clients s c)"
    using s'(5) cl by (auto simp: dirtied_def)
  moreover have "same_db s s'" using s'(3) same_db_trans [OF upd_client_simps(9)] by blast
  moreover have "wk_after {?c} (s_wk s b) (s_wk s' b)" for b
    using s'(4) linked_held [OF L cl, of b] by (cases "s_wk s b") auto
  ultimately show ?thesis using s' by (intro that [of s']) (simp_all add: touched_def)
qed

lemma touched_expired:
  assumes "s_wk s a = Some wk"
  shows "touched s (s\<lparr>s_wk := (s_wk s)(a := Some (wk\<lparr>wk_expired := False\<rparr>))\<rparr>) {}"
proof -
  have "wk_after {} (s_wk s b) (((s_wk s)(a := Some (wk\<lparr>wk_expired := False\<rparr>))) b)" for b
    using assms wk_after_refl by (cases "b = a") auto
  then show ?thesis by (simp add: touched_def same_db_def)
qed

text \<open>
  Touching never fails. When none of the watchers of the key had found it expired, all of them are
  marked.
\<close>

lemma touch_loop_ok:
  assumes "linked s" "distinct as" "\<And>a. a \<in> set as \<Longrightarrow> \<exists>wk. s_wk s a = Some wk \<and> wk_db wk = db \<and> wk_key wk = key"
  shows "\<exists>s' P. touch_loop s db key as = Some s' \<and> linked s' \<and> touched s s' P \<and>
    ((\<forall>a wk. a \<in> set as \<longrightarrow> s_wk s a = Some wk \<longrightarrow> \<not> wk_expired wk) \<longrightarrow> (\<forall>a wk. a \<in> set as \<longrightarrow> s_wk s a = Some wk \<longrightarrow> wk_client wk \<in> P))"
  using assms
proof (induction as arbitrary: s)
  case Nil
  then show ?case using touched_refl by auto
next
  case (Cons a as)
  obtain wk where wk: "s_wk s a = Some wk" "wk_db wk = db" "wk_key wk = key" using Cons.prems(3) [of a] by auto
  show ?case
  proof (cases "wk_expired wk")
    case True
    show ?thesis
    proof (cases "s_dict s db key = None")
      case gone: True
      let ?s = "s\<lparr>s_wk := (s_wk s)(a := Some (wk\<lparr>wk_expired := False\<rparr>))\<rparr>"
      have p: "\<exists>wk. s_wk ?s b = Some wk \<and> wk_db wk = db \<and> wk_key wk = key" if "b \<in> set as" for b
        using Cons.prems(3) [of b] that wk by auto
      obtain s' P where "touch_loop ?s db key as = Some s'" "linked s'" "touched ?s s' P"
        using Cons.IH [OF linked_expired [OF Cons.prems(1) wk(1)] _ p] Cons.prems(2) by auto
      then show ?thesis using True gone wk touched_trans [OF touched_expired [OF wk(1)], of s' P]
        by (intro exI [of _ s'] exI [of _ P]) auto
    next
      case False
      then show ?thesis using True wk Cons.prems(1) touched_refl by (intro exI [of _ s] exI [of _ "{}"]) auto
    qed
  next
    case False
    obtain s1 where s1: "unwatchAllKeys (upd_client (wk_client wk) (\<lambda>cl. cl\<lparr>CLIENT_DIRTY_CAS := True\<rparr>) s) (wk_client wk) = Some s1"
      "linked s1" "touched s s1 {wk_client wk}" by (rule touch_one [OF Cons.prems(1) wk(1)])
    have keep: "\<exists>wk'. s_wk s b = Some wk' \<and> wk_client wk' \<noteq> wk_client wk \<and> wk_db wk' = db \<and> wk_key wk' = key" if b: "b \<in> set as" for b
    proof -
      obtain wk' where w: "s_wk s b = Some wk'" "wk_db wk' = db" "wk_key wk' = key" using Cons.prems(3) [of b] b by auto
      moreover have "wk_client wk' \<noteq> wk_client wk"
        using linked_once [OF Cons.prems(1) w(1) wk(1)] w wk b Cons.prems(2) by auto
      ultimately show ?thesis by blast
    qed
    have p: "\<exists>wk'. s_wk s1 b = Some wk' \<and> wk_db wk' = db \<and> wk_key wk' = key" if b: "b \<in> set as" for b
    proof -
      obtain wk' where w: "s_wk s b = Some wk'" "wk_client wk' \<noteq> wk_client wk" "wk_db wk' = db" "wk_key wk' = key" using keep [OF b] by blast
      have "wk_after {wk_client wk} (s_wk s b) (s_wk s1 b)" using s1(3) by (simp add: touched_def)
      then show ?thesis using w by auto
    qed
    obtain s' P where s': "touch_loop s1 db key as = Some s'" "linked s'" "touched s1 s' P"
      "(\<forall>a wk. a \<in> set as \<longrightarrow> s_wk s1 a = Some wk \<longrightarrow> \<not> wk_expired wk) \<longrightarrow> (\<forall>a wk. a \<in> set as \<longrightarrow> s_wk s1 a = Some wk \<longrightarrow> wk_client wk \<in> P)"
      using Cons.IH [OF s1(2) _ p] Cons.prems(2) by auto
    have all: "wk_client v \<in> insert (wk_client wk) P"
      if exp: "\<forall>a wk. a \<in> set as \<longrightarrow> s_wk s a = Some wk \<longrightarrow> \<not> wk_expired wk" and b: "b \<in> set (a # as)" "s_wk s b = Some v" for b v
    proof (cases "b = a")
      case True
      then show ?thesis using b(2) wk by simp
    next
      case False
      then have b': "b \<in> set as" using b(1) by simp
      have k1: "s_wk s1 x = Some w \<Longrightarrow> x \<in> set as \<Longrightarrow> \<not> wk_expired w" for x w
      proof -
        assume "s_wk s1 x = Some w" "x \<in> set as"
        moreover obtain w0 where "s_wk s x = Some w0" using keep [OF \<open>x \<in> set as\<close>] by blast
        moreover have "wk_after {wk_client wk} (s_wk s x) (s_wk s1 x)" using s1(3) by (simp add: touched_def)
        ultimately show "\<not> wk_expired w" using exp by (auto split: if_splits)
      qed
      have "wk_after {wk_client wk} (s_wk s b) (s_wk s1 b)" using s1(3) by (simp add: touched_def)
      then obtain v' where "s_wk s1 b = Some v'" "wk_client v' = wk_client v" using keep [OF b'] b(2) by auto
      then show ?thesis using s'(4) k1 b' by auto
    qed
    have "touched s s' (insert (wk_client wk) P)" using touched_trans [OF s1(3) s'(3)] by simp
    then show ?thesis using False wk s1(1) s'(1,2) all by (intro exI [of _ s'] exI [of _ "insert (wk_client wk) P"]) auto
  qed
qed

definition no_expired :: "('v, 'cmd) server \<Rightarrow> bool" where
  "no_expired s \<longleftrightarrow> (\<forall>a wk. s_wk s a = Some wk \<longrightarrow> \<not> wk_expired wk)"

lemma touchWatchedKey_ok:
  assumes L: "linked s"
  obtains s' P where "touchWatchedKey s db key = Some s'" "linked s'" "touched s s' P"
    "no_expired s \<longrightarrow> (\<forall>b wk. s_wk s b = Some wk \<longrightarrow> wk_db wk = db \<longrightarrow> wk_key wk = key \<longrightarrow> wk_client wk \<in> P)"
proof (cases "map_of (s_watched s db) key")
  case None
  have "\<not> (s_wk s b = Some wk \<and> wk_db wk = db \<and> wk_key wk = key)" for b wk using linked_watched [OF L, of b wk] None by auto
  then show ?thesis using None L touched_refl by (intro that [of s "{}"]) (auto simp: touchWatchedKey_def)
next
  case (Some m)
  note m = linked_watchers [OF L Some]
  have t: "touchWatchedKey s db key = touch_loop s db key m" using Some by (auto simp: touchWatchedKey_def)
  obtain s' P where s': "touch_loop s db key m = Some s'" "linked s'" "touched s s' P"
    "(\<forall>a wk. a \<in> set m \<longrightarrow> s_wk s a = Some wk \<longrightarrow> \<not> wk_expired wk) \<longrightarrow> (\<forall>a wk. a \<in> set m \<longrightarrow> s_wk s a = Some wk \<longrightarrow> wk_client wk \<in> P)"
    using touch_loop_ok [OF L m] by blast
  have "b \<in> set m" if "s_wk s b = Some wk" "wk_db wk = db" "wk_key wk = key" for b wk
    using linked_watched [OF L that(1)] that(2,3) Some by auto
  then have "no_expired s \<longrightarrow> (\<forall>b wk. s_wk s b = Some wk \<longrightarrow> wk_db wk = db \<longrightarrow> wk_key wk = key \<longrightarrow> wk_client wk \<in> P)"
    using s'(4) unfolding no_expired_def by blast
  then show ?thesis using t s' by (intro that [of s' P]) simp_all
qed

section \<open>What a step may do to a client\<close>

text \<open>\<open>evolves\<close> is what every operation guarantees; \<open>guards c\<close> that the client is marked or nothing it watches changed.\<close>

definition evolves :: "('v, 'cmd) server \<Rightarrow> ('v, 'cmd) server \<Rightarrow> bool" where
  "evolves s s' \<longleftrightarrow> linked s' \<and> (\<forall>c. s_clients s' c = None \<longleftrightarrow> s_clients s c = None) \<and> (no_expired s \<longrightarrow> no_expired s')"

definition guards :: "nat \<Rightarrow> ('v, 'cmd) server \<Rightarrow> ('v, 'cmd) server \<Rightarrow> bool" where
  "guards c s s' \<longleftrightarrow> (\<forall>cl. s_clients s c = Some cl \<longrightarrow>
     (\<exists>cl'. s_clients s' c = Some cl' \<and> (CLIENT_DIRTY_CAS cl \<longrightarrow> CLIENT_DIRTY_CAS cl') \<and>
       (CLIENT_DIRTY_CAS cl' \<or> cl_watched_keys cl' = cl_watched_keys cl \<and>
         (\<forall>a \<in> set (cl_watched_keys cl). s_wk s' a = s_wk s a \<and>
            (\<forall>wk. s_wk s a = Some wk \<longrightarrow> s_dict s' (wk_db wk) (wk_key wk) = s_dict s (wk_db wk) (wk_key wk))))))"

lemma evolves_refl: "linked s \<Longrightarrow> evolves s s"
  by (simp add: evolves_def)

lemma evolves_trans: "evolves s s' \<Longrightarrow> evolves s' s'' \<Longrightarrow> evolves s s''"
  by (auto simp: evolves_def)

lemma evolves_linked: "evolves s s' \<Longrightarrow> linked s'"
  by (simp add: evolves_def)

lemma guards_refl: "guards c s s"
  by (auto simp: guards_def)

lemma guards_trans:
  assumes "guards c s s'" "guards c s' s''"
  shows "guards c s s''"
  unfolding guards_def
proof (intro allI impI)
  fix cl assume "s_clients s c = Some cl"
  then obtain cl1 where 1: "s_clients s' c = Some cl1" "CLIENT_DIRTY_CAS cl \<longrightarrow> CLIENT_DIRTY_CAS cl1"
    "CLIENT_DIRTY_CAS cl1 \<or> cl_watched_keys cl1 = cl_watched_keys cl \<and> (\<forall>a \<in> set (cl_watched_keys cl). s_wk s' a = s_wk s a \<and>
       (\<forall>wk. s_wk s a = Some wk \<longrightarrow> s_dict s' (wk_db wk) (wk_key wk) = s_dict s (wk_db wk) (wk_key wk)))"
    using assms(1) unfolding guards_def by blast
  then obtain cl2 where 2: "s_clients s'' c = Some cl2" "CLIENT_DIRTY_CAS cl1 \<longrightarrow> CLIENT_DIRTY_CAS cl2"
    "CLIENT_DIRTY_CAS cl2 \<or> cl_watched_keys cl2 = cl_watched_keys cl1 \<and> (\<forall>a \<in> set (cl_watched_keys cl1). s_wk s'' a = s_wk s' a \<and>
       (\<forall>wk. s_wk s' a = Some wk \<longrightarrow> s_dict s'' (wk_db wk) (wk_key wk) = s_dict s' (wk_db wk) (wk_key wk)))"
    using assms(2) unfolding guards_def by blast
  show "\<exists>cl'. s_clients s'' c = Some cl' \<and> (CLIENT_DIRTY_CAS cl \<longrightarrow> CLIENT_DIRTY_CAS cl') \<and>
       (CLIENT_DIRTY_CAS cl' \<or> cl_watched_keys cl' = cl_watched_keys cl \<and>
         (\<forall>a \<in> set (cl_watched_keys cl). s_wk s'' a = s_wk s a \<and>
            (\<forall>wk. s_wk s a = Some wk \<longrightarrow> s_dict s'' (wk_db wk) (wk_key wk) = s_dict s (wk_db wk) (wk_key wk))))"
  proof (cases "CLIENT_DIRTY_CAS cl2")
    case True
    then show ?thesis using 2(1) by blast
  next
    case False
    then show ?thesis using 1 2 by (intro exI [of _ cl2]) auto
  qed
qed

lemma touched_evolves:
  assumes "touched s s' P" "linked s'"
  shows "evolves s s'"
proof -
  have "no_expired s'" if n: "no_expired s"
    unfolding no_expired_def
  proof (intro allI impI)
    fix a wk' assume w: "s_wk s' a = Some wk'"
    have "wk_after P (s_wk s a) (s_wk s' a)" using assms(1) by (simp add: touched_def)
    then show "\<not> wk_expired wk'" using w n by (cases "s_wk s a") (auto simp: no_expired_def split: if_splits)
  qed
  then show ?thesis using assms by (auto simp: evolves_def touched_def)
qed

text \<open>A client that is not marked by a touch keeps its watched keys.\<close>

lemma touched_client:
  assumes t: "touched s s' P" and n: "no_expired s" and L: "linked s" and c: "s_clients s c = Some cl" "c \<notin> P"
    and a: "a \<in> set (cl_watched_keys cl)"
  shows "s_wk s' a = s_wk s a"
proof -
  obtain wk where wk: "s_wk s a = Some wk" "wk_client wk = c" using linked_client(2) [OF L c(1) a] by blast
  have "wk_after P (s_wk s a) (s_wk s' a)" using t by (simp add: touched_def)
  moreover have "\<not> wk_expired wk" using n wk(1) unfolding no_expired_def by blast
  then have "wk\<lparr>wk_expired := False\<rparr> = wk" by (cases wk) simp
  ultimately show ?thesis using wk c(2) by auto
qed

lemma db_set_simps [simp]:
  "s_clients (db_set s w) = s_clients s" "s_wk (db_set s w) = s_wk s" "s_watched (db_set s w) = s_watched s"
  "s_brk (db_set s w) = s_brk s" "no_expired (db_set s w) = no_expired s"
  by (simp_all add: db_set_def no_expired_def split: prod.splits)

lemma linked_db_set [simp]: "linked (db_set s w) = linked s"
  by (simp add: linked_def lists_def [abs_def] watchers_def [abs_def] ident_def [abs_def])

lemma write_ok:
  assumes L: "linked s"
  obtains s' where "signalModifiedKey (db_set s w) (fst w) (fst (snd w)) = Some s'" "evolves s s'"
    "no_expired s \<longrightarrow> guards c s s'"
proof -
  let ?s = "db_set s w"
  obtain s' P where s': "touchWatchedKey ?s (fst w) (fst (snd w)) = Some s'" "linked s'" "touched ?s s' P"
    "no_expired ?s \<longrightarrow> (\<forall>b wk. s_wk ?s b = Some wk \<longrightarrow> wk_db wk = fst w \<longrightarrow> wk_key wk = fst (snd w) \<longrightarrow> wk_client wk \<in> P)"
    by (rule touchWatchedKey_ok [of ?s]) (use L in simp)
  have "guards c s s'" if n: "no_expired s"
    unfolding guards_def
  proof (intro allI impI)
    fix cl assume cl: "s_clients s c = Some cl"
    show "\<exists>cl'. s_clients s' c = Some cl' \<and> (CLIENT_DIRTY_CAS cl \<longrightarrow> CLIENT_DIRTY_CAS cl') \<and>
       (CLIENT_DIRTY_CAS cl' \<or> cl_watched_keys cl' = cl_watched_keys cl \<and>
         (\<forall>a \<in> set (cl_watched_keys cl). s_wk s' a = s_wk s a \<and>
            (\<forall>wk. s_wk s a = Some wk \<longrightarrow> s_dict s' (wk_db wk) (wk_key wk) = s_dict s (wk_db wk) (wk_key wk))))"
    proof (cases "c \<in> P")
      case True
      then show ?thesis using s'(3) cl by (auto simp: touched_def dirtied_def)
    next
      case False
      have "s_wk s' a = s_wk s a" if "a \<in> set (cl_watched_keys cl)" for a
        using touched_client [OF s'(3), of c cl a] n L cl False that by simp
      moreover have "s_dict s' (wk_db wk) (wk_key wk) = s_dict s (wk_db wk) (wk_key wk)"
        if "a \<in> set (cl_watched_keys cl)" "s_wk s a = Some wk" for a wk
      proof -
        have "wk_client wk = c" using linked_client(2) [OF L cl that(1)] that(2) by auto
        then have "\<not> (wk_db wk = fst w \<and> wk_key wk = fst (snd w))" using s'(4) n that(2) False by auto
        then show ?thesis using s'(3) by (auto simp: touched_def same_db_def db_set_def split: prod.splits)
      qed
      ultimately show ?thesis using s'(3) cl False by (auto simp: touched_def)
    qed
  qed
  moreover have "evolves s s'" using touched_evolves [OF s'(3,2)] by (simp add: evolves_def)
  ultimately show ?thesis using s'(1) by (intro that [of s']) (simp_all add: signalModifiedKey_def)
qed

lemma do_writes_ok:
  "linked s \<Longrightarrow> \<exists>s'. do_writes s ws = Some s' \<and> evolves s s' \<and> (no_expired s \<longrightarrow> guards c s s')"
proof (induction ws arbitrary: s)
  case Nil
  then show ?case by (simp add: evolves_refl guards_refl)
next
  case (Cons w ws)
  obtain s1 where 1: "signalModifiedKey (db_set s w) (fst w) (fst (snd w)) = Some s1" "evolves s s1" "no_expired s \<longrightarrow> guards c s s1"
    by (rule write_ok [OF Cons.prems, where c = c and w = w])
  obtain s' where "do_writes s1 ws = Some s'" "evolves s1 s'" "no_expired s1 \<longrightarrow> guards c s1 s'"
    using Cons.IH [OF evolves_linked [OF 1(2)]] by blast
  moreover have "no_expired s \<Longrightarrow> no_expired s1" using 1(2) by (simp add: evolves_def)
  ultimately show ?case using 1 evolves_trans guards_trans by (intro exI [of _ s']) auto
qed

lemma unwatchAllKeys_evolves:
  assumes L: "linked s" and c: "s_clients s c0 = Some cl0"
  obtains s' where "unwatchAllKeys s c0 = Some s'" "evolves s s'" "same_db s s'" "c \<noteq> c0 \<longrightarrow> guards c s s'"
    "s_clients s' c0 = Some (cl0\<lparr>cl_watched_keys := []\<rparr>)"
proof -
  obtain s' where s': "unwatchAllKeys s c0 = Some s'" "linked s'" "same_db s s'"
    "s_wk s' = (\<lambda>a. if a \<in> set (cl_watched_keys cl0) then None else s_wk s a)"
    "s_clients s' = (s_clients s)(c0 \<mapsto> cl0\<lparr>cl_watched_keys := []\<rparr>)" "s_brk s' = s_brk s"
    by (rule unwatchAllKeys_ok [OF L c])
  have "evolves s s'" using s' c unfolding evolves_def no_expired_def by auto
  moreover have "guards c s s'" if "c \<noteq> c0"
    unfolding guards_def
  proof (intro allI impI)
    fix cl assume cl: "s_clients s c = Some cl"
    have "a \<notin> set (cl_watched_keys cl0)" if a: "a \<in> set (cl_watched_keys cl)" for a
      using linked_client(2) [OF L cl a] linked_client(2) [OF L c, of a] \<open>c \<noteq> c0\<close> by auto
    then show "\<exists>cl'. s_clients s' c = Some cl' \<and> (CLIENT_DIRTY_CAS cl \<longrightarrow> CLIENT_DIRTY_CAS cl') \<and>
       (CLIENT_DIRTY_CAS cl' \<or> cl_watched_keys cl' = cl_watched_keys cl \<and>
         (\<forall>a \<in> set (cl_watched_keys cl). s_wk s' a = s_wk s a \<and>
            (\<forall>wk. s_wk s a = Some wk \<longrightarrow> s_dict s' (wk_db wk) (wk_key wk) = s_dict s (wk_db wk) (wk_key wk))))"
      using s' cl that by (auto simp: same_db_def)
  qed
  ultimately show ?thesis using s' by (intro that [of s']) simp_all
qed

lemma upd_client_evolves:
  assumes "linked s" "\<And>cl. cl_watched_keys (f cl) = cl_watched_keys cl"
  shows "evolves s (upd_client c f s)"
  using linked_upd_client [OF assms] by (auto simp: evolves_def no_expired_def)

lemma upd_client_guards:
  "c \<noteq> c0 \<or> (\<forall>cl. cl_watched_keys (f cl) = cl_watched_keys cl \<and> (CLIENT_DIRTY_CAS cl \<longrightarrow> CLIENT_DIRTY_CAS (f cl))) \<Longrightarrow>
     guards c s (upd_client c0 f s)"
  by (auto simp: guards_def)

lemma watchForKey_ok:
  assumes L: "linked s" and c: "s_clients s c0 = Some cl0"
  obtains s' where "watchForKey s c0 k = Some s'" "linked s'" "c \<noteq> c0 \<longrightarrow> guards c s s'" "same_db s s'"
    "\<And>c. s_clients s' c = None \<longleftrightarrow> s_clients s c = None"
proof -
  let ?held = "list_ex (\<lambda>a. case s_wk s a of None \<Rightarrow> False | Some wk \<Rightarrow> wk_db wk = cl_db cl0 \<and> wk_key wk = k) (cl_watched_keys cl0)"
  show ?thesis
  proof (cases ?held)
    case True
    then show ?thesis using c L by (intro that [of s]) (auto simp: watchForKey_def guards_refl)
  next
    case False
    let ?db = "cl_db cl0" and ?a = "s_brk s"
    let ?m = "case map_of (s_watched s ?db) k of Some l \<Rightarrow> l | None \<Rightarrow> []"
    let ?wk = "\<lparr>wk_key = k, wk_db = ?db, wk_client = c0, wk_expired = keyIsExpired s ?db k\<rparr>"
    let ?s0 = "upd_client c0 (\<lambda>cl. cl\<lparr>cl_watched_keys := cl_watched_keys cl @ [?a]\<rparr>) s"
    let ?s = "?s0\<lparr>s_wk := (s_wk ?s0)(?a := Some ?wk), s_brk := ?a + 1,
                  s_watched := (s_watched ?s0)(?db := AList.update k (?m @ [?a]) (s_watched s ?db))\<rparr>"
    have e: "watchForKey s c0 k = Some ?s" using c False by (simp add: watchForKey_def Let_def)
    have new: "ident s a \<noteq> Some (c0, ?db, k)" for a
    proof
      assume "ident s a = Some (c0, ?db, k)"
      then obtain wk where wk: "s_wk s a = Some wk" "wk_client wk = c0" "wk_db wk = ?db" "wk_key wk = k" by (auto simp: ident_def)
      then have "a \<in> set (cl_watched_keys cl0)" using linked_held [OF L c wk(1)] by simp
      then show False using False wk by (auto simp: list_ex_iff)
    qed
    have "lists ?s = (lists s)(c0 \<mapsto> cl_watched_keys cl0 @ [?a])" using c by (auto simp: lists_def)
    moreover have "watchers ?s = (watchers s)(?db := (watchers s ?db)(k \<mapsto> ?m @ [?a]))"
      by (auto simp: watchers_def [abs_def] fun_eq_iff AList.update_conv')
    moreover have "ident ?s = (ident s)(?a \<mapsto> (c0, ?db, k))" by (auto simp: ident_def)
    moreover have "links ((lists s)(c0 \<mapsto> cl_watched_keys cl0 @ [?a])) ((watchers s)(?db := (watchers s ?db)(k \<mapsto> ?m @ [?a])))
        ((ident s)(?a \<mapsto> (c0, ?db, k))) (?a + 1)"
      by (rule links_watch [OF _ _ new]) (use L c in \<open>auto simp: linked_def lists_def watchers_def split: option.splits\<close>)
    moreover have "distinct (map fst (s_watched ?s db))" for db using L by (auto simp: linked_def AList.distinct_update)
    ultimately have "linked ?s" by (simp add: linked_def)
    moreover have "guards c s ?s" if "c \<noteq> c0"
      unfolding guards_def
    proof (intro allI impI)
      fix cl assume cl: "s_clients s c = Some cl"
      have "lists s c = Some (cl_watched_keys cl)" using cl by (simp add: lists_def)
      then have "?a \<notin> set (cl_watched_keys cl)" using L links_fresh(1) unfolding linked_def by blast
      then show "\<exists>cl'. s_clients ?s c = Some cl' \<and> (CLIENT_DIRTY_CAS cl \<longrightarrow> CLIENT_DIRTY_CAS cl') \<and>
         (CLIENT_DIRTY_CAS cl' \<or> cl_watched_keys cl' = cl_watched_keys cl \<and>
           (\<forall>a \<in> set (cl_watched_keys cl). s_wk ?s a = s_wk s a \<and>
              (\<forall>wk. s_wk s a = Some wk \<longrightarrow> s_dict ?s (wk_db wk) (wk_key wk) = s_dict s (wk_db wk) (wk_key wk))))"
        using cl that by auto
    qed
    ultimately show ?thesis using e by (intro that [of ?s]) (simp_all add: same_db_def)
  qed
qed

lemma watch_loop_ok:
  assumes "linked s" "s_clients s c0 \<noteq> None"
  shows "\<exists>s'. watch_loop s c0 ks = Some s' \<and> linked s' \<and> (c \<noteq> c0 \<longrightarrow> guards c s s') \<and> same_db s s'"
  using assms
proof (induction ks arbitrary: s)
  case Nil
  then show ?case by (simp add: guards_refl)
next
  case (Cons k ks)
  obtain cl0 where "s_clients s c0 = Some cl0" using Cons.prems(2) by auto
  then obtain s1 where 1: "watchForKey s c0 k = Some s1" "linked s1" "c \<noteq> c0 \<longrightarrow> guards c s s1" "same_db s s1"
    "\<And>c. s_clients s1 c = None \<longleftrightarrow> s_clients s c = None"
    using watchForKey_ok [OF Cons.prems(1), where c = c and k = k] by metis
  obtain s' where "watch_loop s1 c0 ks = Some s'" "linked s'" "c \<noteq> c0 \<longrightarrow> guards c s1 s'" "same_db s1 s'"
    using Cons.IH [OF 1(2)] 1(5) [of c0] Cons.prems(2) by auto
  then show ?case using 1 guards_trans [of c s s1 s'] same_db_trans [of s s1 s'] by (intro exI [of _ s']) auto
qed

section \<open>Flushing a database\<close>

definition dirty :: "('v, 'cmd) server \<Rightarrow> nat \<Rightarrow> bool" where
  "dirty s c = (case s_clients s c of None \<Rightarrow> False | Some cl \<Rightarrow> CLIENT_DIRTY_CAS cl)"

text \<open>Clients may get the mark, but keep their lists.\<close>

fun marked :: "'cmd client option \<Rightarrow> 'cmd client option \<Rightarrow> bool" where
  "marked None c' = (c' = None)"
| "marked (Some cl) c' = (c' = Some cl \<or> c' = Some (cl\<lparr>CLIENT_DIRTY_CAS := True\<rparr>))"

definition marks :: "('v, 'cmd) server \<Rightarrow> ('v, 'cmd) server \<Rightarrow> bool" where
  "marks s s' \<longleftrightarrow> same_db s s' \<and> s_watched s' = s_watched s \<and> s_brk s' = s_brk s \<and>
     (\<forall>c. marked (s_clients s c) (s_clients s' c)) \<and> (\<forall>b. wk_after {} (s_wk s b) (s_wk s' b))"

lemma marked_refl: "marked x x"
  by (cases x) auto

lemma marked_map: "marked x (map_option (\<lambda>cl. cl\<lparr>CLIENT_DIRTY_CAS := True\<rparr>) x)"
  by (cases x) auto

lemma marked_trans: "marked x y \<Longrightarrow> marked y z \<Longrightarrow> marked x z"
  by (cases x; cases y) auto

lemma marks_refl: "marks s s"
  by (auto simp: marks_def wk_after_refl marked_refl)

lemma marksD:
  assumes "marks s s'"
  shows "same_db s s'" "s_watched s' = s_watched s" "s_brk s' = s_brk s" "marked (s_clients s c) (s_clients s' c)"
    "wk_after {} (s_wk s b) (s_wk s' b)"
  using assms by (simp_all add: marks_def)

lemma marks_trans:
  assumes "marks s s'" "marks s' s''"
  shows "marks s s''"
proof -
  have "marked (s_clients s c) (s_clients s'' c)" for c by (rule marked_trans [OF marksD(4) [OF assms(1)] marksD(4) [OF assms(2)]])
  moreover have "wk_after {} (s_wk s b) (s_wk s'' b)" for b
    using wk_after_trans [OF marksD(5) [OF assms(1)] marksD(5) [OF assms(2)], of b] by simp
  ultimately show ?thesis using marksD(1-3) [OF assms(1)] marksD(1-3) [OF assms(2)] same_db_trans unfolding marks_def by metis
qed

lemma marks_dirty: "marks s s' \<Longrightarrow> dirty s c \<Longrightarrow> dirty s' c"
  using marksD(4) [of s s' c] by (cases "s_clients s c") (auto simp: dirty_def)

lemma marks_linked:
  assumes "marks s s'" "linked s"
  shows "linked s'"
proof -
  have "lists s' c = lists s c" for c
    using marksD(4) [OF assms(1), of c] by (cases "s_clients s c") (auto simp: lists_def)
  moreover have "ident s' a = ident s a" for a
    using marksD(5) [OF assms(1), of a] by (cases "s_wk s a") (auto simp: ident_def)
  ultimately show ?thesis using marksD(2,3) [OF assms(1)] by (intro linked_cong [OF assms(2)]) auto
qed

lemma marks_no_expired:
  assumes "marks s s'" "no_expired s"
  shows "s_wk s' = s_wk s"
proof
  fix a
  have w: "wk_after {} (s_wk s a) (s_wk s' a)" using assms(1) by (simp add: marks_def)
  show "s_wk s' a = s_wk s a"
  proof (cases "s_wk s a")
    case None
    then show ?thesis using w by simp
  next
    case (Some wk)
    then have "\<not> wk_expired wk" using assms(2) unfolding no_expired_def by blast
    then have "wk\<lparr>wk_expired := False\<rparr> = wk" by (cases wk) simp
    then show ?thesis using w Some by auto
  qed
qed

lemma touchAll_clients_ok:
  assumes "linked s" "\<forall>a \<in> set as. s_wk s a \<noteq> None"
  shows "\<exists>s'. touchAll_clients s ex None key as = Some s' \<and> marks s s' \<and>
    (no_expired s \<longrightarrow> (\<forall>a wk. a \<in> set as \<longrightarrow> s_wk s a = Some wk \<longrightarrow> dirty s' (wk_client wk)))"
  using assms
proof (induction as arbitrary: s)
  case Nil
  then show ?case by (simp add: marks_refl)
next
  case (Cons a as)
  obtain wk where wk: "s_wk s a = Some wk" using Cons.prems(2) by auto
  define s1 where "s1 = (if wk_expired wk then s\<lparr>s_wk := (s_wk s)(a := Some (wk\<lparr>wk_expired := False\<rparr>))\<rparr>
      else upd_client (wk_client wk) (\<lambda>cl. cl\<lparr>CLIENT_DIRTY_CAS := True\<rparr>) s)"
  have m: "marks s s1"
    using wk wk_after_refl marked_refl marked_map by (auto simp: s1_def marks_def same_db_def)
  have d: "\<not> wk_expired wk \<Longrightarrow> dirty s1 (wk_client wk)"
    using linked_wk [OF Cons.prems(1) wk] by (auto simp: s1_def dirty_def split: option.splits)
  have e: "touchAll_clients s ex None key (a # as) = touchAll_clients s1 ex None key as"
    using wk by (simp add: s1_def Let_def)
  have "s_wk s1 b \<noteq> None" if "b \<in> set as" for b
    using Cons.prems(2) that by (auto simp: s1_def)
  then obtain s' where s': "touchAll_clients s1 ex None key as = Some s'" "marks s1 s'"
    "no_expired s1 \<longrightarrow> (\<forall>a wk. a \<in> set as \<longrightarrow> s_wk s1 a = Some wk \<longrightarrow> dirty s' (wk_client wk))"
    using Cons.IH [OF marks_linked [OF m Cons.prems(1)]] by blast
  have "dirty s' (wk_client v)" if n: "no_expired s" and b: "b \<in> set (a # as)" "s_wk s b = Some v" for b v
  proof -
    have "s_wk s1 = s_wk s" by (rule marks_no_expired [OF m n])
    then have "no_expired s1" using n by (simp add: no_expired_def)
    moreover have "\<not> wk_expired wk" using n wk unfolding no_expired_def by blast
    ultimately show ?thesis using b wk s'(3) \<open>s_wk s1 = s_wk s\<close> marks_dirty [OF s'(2) d] by auto
  qed
  then show ?case using e s' marks_trans [OF m s'(2)] by auto
qed

lemma touchAll_loop_ok:
  assumes "linked s" "\<forall>k m a. (k, m) \<in> set es \<longrightarrow> a \<in> set m \<longrightarrow> s_wk s a \<noteq> None"
  shows "\<exists>s'. touchAll_loop s db None es = Some s' \<and> marks s s' \<and>
    (no_expired s \<longrightarrow> (\<forall>k m a wk. (k, m) \<in> set es \<longrightarrow> a \<in> set m \<longrightarrow> s_dict s db k \<noteq> None \<longrightarrow> s_wk s a = Some wk \<longrightarrow> dirty s' (wk_client wk)))"
  using assms
proof (induction es arbitrary: s)
  case Nil
  then show ?case by (simp add: marks_refl)
next
  case (Cons e es)
  obtain k m where e: "e = (k, m)" by force
  obtain s1 where s1: "(if s_dict s db k \<noteq> None then touchAll_clients s True None k m else Some s) = Some s1" "marks s s1"
    "no_expired s \<longrightarrow> s_dict s db k \<noteq> None \<longrightarrow> (\<forall>a wk. a \<in> set m \<longrightarrow> s_wk s a = Some wk \<longrightarrow> dirty s1 (wk_client wk))"
    using touchAll_clients_ok [OF Cons.prems(1), of m True k] Cons.prems(2) e marks_refl
    by (cases "s_dict s db k = None") auto
  have k1: "s_wk s1 a \<noteq> None" if "s_wk s a \<noteq> None" for a
  proof -
    have "wk_after {} (s_wk s a) (s_wk s1 a)" using s1(2) by (simp add: marks_def)
    then show ?thesis using that by (cases "s_wk s a") auto
  qed
  have p: "\<forall>k m a. (k, m) \<in> set es \<longrightarrow> a \<in> set m \<longrightarrow> s_wk s1 a \<noteq> None" using Cons.prems(2) k1 by simp
  obtain s' where s': "touchAll_loop s1 db None es = Some s'" "marks s1 s'"
    "no_expired s1 \<longrightarrow> (\<forall>k m a wk. (k, m) \<in> set es \<longrightarrow> a \<in> set m \<longrightarrow> s_dict s1 db k \<noteq> None \<longrightarrow> s_wk s1 a = Some wk \<longrightarrow> dirty s' (wk_client wk))"
    using Cons.IH [OF marks_linked [OF s1(2) Cons.prems(1)] p] by blast
  have "touchAll_loop s db None (e # es) = Some s'" using e s1(1) s'(1) by (auto simp: Let_def split: if_splits)
  moreover have "dirty s' (wk_client v)"
    if n: "no_expired s" and b: "(k', m') \<in> set (e # es)" "a \<in> set m'" "s_dict s db k' \<noteq> None" "s_wk s a = Some v" for k' m' a v
  proof -
    have "s_wk s1 = s_wk s" by (rule marks_no_expired [OF s1(2) n])
    moreover from this have "no_expired s1" using n by (simp add: no_expired_def)
    moreover have "s_dict s1 = s_dict s" using s1(2) by (simp add: marks_def same_db_def)
    ultimately show ?thesis using b e s1(3) s'(3) n marks_dirty [OF s'(2)] by auto
  qed
  ultimately show ?case using marks_trans [OF s1(2) s'(2)] by blast
qed

lemma flush_db_ok:
  assumes L: "linked s"
  shows "\<exists>s'. flush_db s db = Some s' \<and> linked s' \<and> (no_expired s \<longrightarrow> guards c s s')"
proof -
  have "s_wk s a \<noteq> None" if "(k, m) \<in> set (s_watched s db)" "a \<in> set m" for k m a
  proof -
    have "map_of (s_watched s db) k = Some m" using L that(1) by (simp add: linked_def)
    then show ?thesis using linked_watchers(2) [OF L _ that(2)] by auto
  qed
  then have in_wk: "\<forall>k m a. (k, m) \<in> set (s_watched s db) \<longrightarrow> a \<in> set m \<longrightarrow> s_wk s a \<noteq> None" by blast
  have eq: "touchAllWatchedKeysInDb s db None = touchAll_loop s db None (s_watched s db)"
    by (simp add: touchAllWatchedKeysInDb_def)
  obtain s1 where s1: "touchAllWatchedKeysInDb s db None = Some s1" "marks s s1"
    "no_expired s \<longrightarrow> (\<forall>k m a wk. (k, m) \<in> set (s_watched s db) \<longrightarrow> a \<in> set m \<longrightarrow> s_dict s db k \<noteq> None \<longrightarrow> s_wk s a = Some wk \<longrightarrow> dirty s1 (wk_client wk))"
    using touchAll_loop_ok [OF L in_wk, of db] unfolding eq by blast
  let ?s = "s1\<lparr>s_dict := (s_dict s1)(db := Map.empty), s_expires := (s_expires s1)(db := Map.empty)\<rparr>"
  have "linked ?s" by (rule linked_cong [OF marks_linked [OF s1(2) L]]) (simp_all add: lists_def [abs_def] ident_def [abs_def])
  moreover have "guards c s ?s" if n: "no_expired s"
    unfolding guards_def
  proof (intro allI impI)
    fix cl assume cl: "s_clients s c = Some cl"
    have w: "s_wk s1 = s_wk s" by (rule marks_no_expired [OF s1(2) n])
    obtain cl' where cl': "s_clients s1 c = Some cl'" "cl_watched_keys cl' = cl_watched_keys cl" "CLIENT_DIRTY_CAS cl \<longrightarrow> CLIENT_DIRTY_CAS cl'"
      using marksD(4) [OF s1(2), of c] cl by auto
    have d: "s_dict ?s (wk_db wk) (wk_key wk) = s_dict s (wk_db wk) (wk_key wk)"
      if h: "\<not> CLIENT_DIRTY_CAS cl'" "a \<in> set (cl_watched_keys cl)" "s_wk s a = Some wk" for a wk
    proof (cases "wk_db wk = db \<and> s_dict s db (wk_key wk) \<noteq> None")
      case True
      have "wk_client wk = c" using linked_client(2) [OF L cl h(2)] h(3) by auto
      moreover obtain m where "map_of (s_watched s db) (wk_key wk) = Some m" "a \<in> set m"
        using linked_watched [OF L h(3)] True by auto
      ultimately have "dirty s1 c" using s1(3) n True h(3) map_of_SomeD by metis
      then show ?thesis using h(1) cl' by (simp add: dirty_def)
    next
      case False
      then show ?thesis using marksD(1) [OF s1(2)] by (auto simp: same_db_def)
    qed
    have "CLIENT_DIRTY_CAS cl' \<or> cl_watched_keys cl' = cl_watched_keys cl \<and>
         (\<forall>a \<in> set (cl_watched_keys cl). s_wk ?s a = s_wk s a \<and>
            (\<forall>wk. s_wk s a = Some wk \<longrightarrow> s_dict ?s (wk_db wk) (wk_key wk) = s_dict s (wk_db wk) (wk_key wk)))"
    proof (cases "CLIENT_DIRTY_CAS cl'")
      case False
      then show ?thesis using d cl'(2) w by (intro disjI2 conjI ballI allI impI) (simp, simp, blast)
    qed simp
    then show "\<exists>cl'. s_clients ?s c = Some cl' \<and> (CLIENT_DIRTY_CAS cl \<longrightarrow> CLIENT_DIRTY_CAS cl') \<and>
       (CLIENT_DIRTY_CAS cl' \<or> cl_watched_keys cl' = cl_watched_keys cl \<and>
         (\<forall>a \<in> set (cl_watched_keys cl). s_wk ?s a = s_wk s a \<and>
            (\<forall>wk. s_wk s a = Some wk \<longrightarrow> s_dict ?s (wk_db wk) (wk_key wk) = s_dict s (wk_db wk) (wk_key wk))))"
      using cl'(1,3) by (intro exI [of _ cl'] conjI) simp_all
  qed
  ultimately show ?thesis using s1(1) by (simp add: flush_db_def)
qed

section \<open>Executing and discarding\<close>

lemma discardTransaction_ok:
  assumes L: "linked s" and c: "s_clients s c0 \<noteq> None"
  obtains s' where "discardTransaction s c0 = Some s'" "evolves s s'" "same_db s s'" "c \<noteq> c0 \<longrightarrow> guards c s s'"
proof -
  let ?f = "\<lambda>cl. cl\<lparr>cl_mstate := initClientMultiState, CLIENT_MULTI := False, CLIENT_DIRTY_CAS := False, CLIENT_DIRTY_EXEC := False\<rparr>"
  let ?s = "upd_client c0 ?f s"
  have e: "evolves s ?s" by (rule upd_client_evolves [OF L]) simp
  obtain cl where cl: "s_clients ?s c0 = Some cl" using c by auto
  obtain s' where s': "unwatchAllKeys ?s c0 = Some s'" "evolves ?s s'" "same_db ?s s'" "c \<noteq> c0 \<longrightarrow> guards c ?s s'"
    using unwatchAllKeys_evolves [OF evolves_linked [OF e] cl, of c] by blast
  have "c \<noteq> c0 \<longrightarrow> guards c s s'" using s'(4) guards_trans [of c s ?s s'] upd_client_guards [of c c0 ?f s] by blast
  then show ?thesis using s' evolves_trans [OF e s'(2)] same_db_trans [OF _ s'(3), of s]
    by (intro that [of s']) (simp_all add: discardTransaction_def)
qed

lemma isWatchedKeyExpired_loop_ok:
  "(\<And>a. a \<in> set as \<Longrightarrow> s_wk s a \<noteq> None) \<Longrightarrow> \<exists>b. isWatchedKeyExpired_loop s as = Some b \<and>
     (\<not> b \<longrightarrow> (\<forall>a wk. a \<in> set as \<longrightarrow> s_wk s a = Some wk \<longrightarrow> \<not> wk_expired wk \<longrightarrow> \<not> keyIsExpired s (wk_db wk) (wk_key wk)))"
proof (induction as)
  case (Cons a as)
  obtain wk where wk: "s_wk s a = Some wk" using Cons.prems [of a] by auto
  obtain b where b: "isWatchedKeyExpired_loop s as = Some b"
    "\<not> b \<longrightarrow> (\<forall>a wk. a \<in> set as \<longrightarrow> s_wk s a = Some wk \<longrightarrow> \<not> wk_expired wk \<longrightarrow> \<not> keyIsExpired s (wk_db wk) (wk_key wk))"
    using Cons.IH Cons.prems by auto
  then show ?case using wk by (cases "wk_expired wk"; cases "keyIsExpired s (wk_db wk) (wk_key wk)") auto
qed (simp add: ex_bool_eq)

lemma isWatchedKeyExpired_ok:
  assumes "linked s" "s_clients s c = Some cl"
  obtains b where "isWatchedKeyExpired s c = Some b"
    "\<not> b \<longrightarrow> (\<forall>a wk. a \<in> set (cl_watched_keys cl) \<longrightarrow> s_wk s a = Some wk \<longrightarrow> \<not> wk_expired wk \<longrightarrow> \<not> keyIsExpired s (wk_db wk) (wk_key wk))"
proof -
  have "s_wk s a \<noteq> None" if "a \<in> set (cl_watched_keys cl)" for a using linked_client(2) [OF assms that] by auto
  from isWatchedKeyExpired_loop_ok [OF this] show ?thesis using that assms(2) by (auto simp: isWatchedKeyExpired_def)
qed

lemma exec_loop_ok:
  "linked s \<Longrightarrow> \<exists>s'. exec_loop effects acl_ok s c0 cmds = Some s' \<and> evolves s s' \<and> (no_expired s \<longrightarrow> guards c s s')"
proof (induction cmds arbitrary: s)
  case Nil
  then show ?case by (simp add: evolves_refl guards_refl)
next
  case (Cons cmd cmds)
  obtain s1 where 1: "(if \<not> acl_ok c0 cmd then Some s else call effects s cmd) = Some s1" "evolves s s1" "no_expired s \<longrightarrow> guards c s s1"
    using do_writes_ok [OF Cons.prems, of "effects cmd s" c] evolves_refl [OF Cons.prems] guards_refl
    by (cases "acl_ok c0 cmd") (auto simp: call_def)
  obtain s' where 2: "exec_loop effects acl_ok s1 c0 cmds = Some s'" "evolves s1 s'" "no_expired s1 \<longrightarrow> guards c s1 s'"
    using Cons.IH [OF evolves_linked [OF 1(2)]] by blast
  have "no_expired s \<longrightarrow> no_expired s1" using 1(2) by (simp add: evolves_def)
  then have "no_expired s \<longrightarrow> guards c s s'" using 1(3) 2(3) guards_trans by blast
  then show ?case using 1(1) 2(1) evolves_trans [OF 1(2) 2(2)] by (intro exI [of _ s']) simp
qed

lemma evolves_flags: "linked s \<Longrightarrow> evolves s (s\<lparr>s_in_exec := b\<rparr>)"
  using linked_cong [of s "s\<lparr>s_in_exec := b\<rparr>"] by (simp add: evolves_def no_expired_def lists_def [abs_def] ident_def [abs_def])

lemma guards_flags: "guards c s (s\<lparr>s_in_exec := b\<rparr>)"
  by (auto simp: guards_def)

text \<open>The execution proper, after the checks.\<close>

lemma exec_body_ok:
  assumes L: "linked s" and c: "s_clients s c0 = Some cl"
  obtains s1 s2 s3 where
    "unwatchAllKeys (upd_client c0 (\<lambda>cl. cl\<lparr>CLIENT_DENY_BLOCKING := True\<rparr>) s) c0 = Some s1"
    "exec_loop effects acl_ok (s1\<lparr>s_in_exec := True\<rparr>) c0 cmds = Some s2"
    "discardTransaction (if b then upd_client c0 (\<lambda>cl. cl\<lparr>CLIENT_DENY_BLOCKING := False\<rparr>) s2 else s2) c0 = Some s3"
    "evolves s (s3\<lparr>s_in_exec := False\<rparr>)" "no_expired s \<longrightarrow> c \<noteq> c0 \<longrightarrow> guards c s (s3\<lparr>s_in_exec := False\<rparr>)"
proof -
  let ?f = "\<lambda>cl. cl\<lparr>CLIENT_DENY_BLOCKING := True\<rparr>" and ?g = "\<lambda>cl. cl\<lparr>CLIENT_DENY_BLOCKING := False\<rparr>"
  let ?s0 = "upd_client c0 ?f s"
  have e0: "evolves s ?s0" by (rule upd_client_evolves [OF L]) simp
  have "s_clients ?s0 c0 = Some (?f cl)" using c by simp
  then obtain s1 where 1: "unwatchAllKeys ?s0 c0 = Some s1" "evolves ?s0 s1" "c \<noteq> c0 \<longrightarrow> guards c ?s0 s1"
    using unwatchAllKeys_evolves [OF evolves_linked [OF e0], of c0 _ c] by blast
  let ?s1 = "s1\<lparr>s_in_exec := True\<rparr>"
  have e1: "evolves s ?s1" using evolves_trans [OF evolves_trans [OF e0 1(2)] evolves_flags [OF evolves_linked [OF 1(2)]]] .
  have g1: "c \<noteq> c0 \<longrightarrow> guards c s ?s1"
    using 1(3) guards_trans [of c s ?s0 s1] guards_trans [OF _ guards_flags, of c s s1 True] upd_client_guards [of c c0 ?f s] by blast
  obtain s2 where 2: "exec_loop effects acl_ok ?s1 c0 cmds = Some s2" "evolves ?s1 s2" "no_expired ?s1 \<longrightarrow> guards c ?s1 s2"
    using exec_loop_ok [OF evolves_linked [OF e1]] by blast
  let ?s2 = "if b then upd_client c0 ?g s2 else s2"
  have e2: "evolves s2 ?s2" using upd_client_evolves [OF evolves_linked [OF 2(2)], of ?g c0] evolves_refl [OF evolves_linked [OF 2(2)]] by simp
  have g2: "c \<noteq> c0 \<longrightarrow> guards c s2 ?s2" using upd_client_guards [of c c0 ?g s2] by (simp add: guards_refl)
  have es2: "evolves s ?s2" using evolves_trans [OF evolves_trans [OF e1 2(2)] e2] .
  then have "s_clients ?s2 c0 \<noteq> None" using c by (simp add: evolves_def)
  then obtain s3 where 3: "discardTransaction ?s2 c0 = Some s3" "evolves ?s2 s3" "c \<noteq> c0 \<longrightarrow> guards c ?s2 s3"
    using discardTransaction_ok [OF evolves_linked [OF es2], of c0 c] by blast
  have e3: "evolves s (s3\<lparr>s_in_exec := False\<rparr>)"
    using evolves_trans [OF evolves_trans [OF es2 3(2)] evolves_flags [OF evolves_linked [OF 3(2)]]] .
  have "no_expired s \<longrightarrow> no_expired ?s1" using e1 by (simp add: evolves_def)
  then have "no_expired s \<longrightarrow> c \<noteq> c0 \<longrightarrow> guards c s (s3\<lparr>s_in_exec := False\<rparr>)"
    using g1 2(3) g2 3(3) guards_trans [of c s ?s1 s2] guards_trans [of c s s2 ?s2] guards_trans [of c s ?s2 s3]
      guards_trans [OF _ guards_flags, of c s s3 False] by blast
  then show ?thesis using 1(1) 2(1) 3(1) e3 by (intro that [of s1 s2 s3])
qed

lemma execCommand_ok:
  assumes L: "linked s" and c: "s_clients s c0 = Some cl"
  obtains s' r where "execCommand effects acl_ok s c0 = Some (s', r)" "linked s'"
    "no_expired s \<longrightarrow> c \<noteq> c0 \<longrightarrow> guards c s s'"
    "(\<exists>n. r = RArray n) \<longrightarrow> \<not> CLIENT_DIRTY_CAS cl \<and>
       (\<forall>a wk. a \<in> set (cl_watched_keys cl) \<longrightarrow> s_wk s a = Some wk \<longrightarrow> \<not> wk_expired wk \<longrightarrow> \<not> keyIsExpired s (wk_db wk) (wk_key wk))"
    "(\<nexists>n. r = RArray n) \<longrightarrow> s_dict s' = s_dict s"
proof -
  obtain e where e: "isWatchedKeyExpired s c0 = Some e"
    "\<not> e \<longrightarrow> (\<forall>a wk. a \<in> set (cl_watched_keys cl) \<longrightarrow> s_wk s a = Some wk \<longrightarrow> \<not> wk_expired wk \<longrightarrow> \<not> keyIsExpired s (wk_db wk) (wk_key wk))"
    by (rule isWatchedKeyExpired_ok [OF L c])
  let ?d = "\<lambda>cl. cl\<lparr>CLIENT_DIRTY_CAS := True\<rparr>"
  let ?s = "if e then upd_client c0 ?d s else s" and ?cl = "if e then ?d cl else cl"
  have es: "evolves s ?s" using upd_client_evolves [OF L, of ?d c0] evolves_refl [OF L] by simp
  have gs: "guards c s ?s" using upd_client_guards [of c c0 ?d s] by (simp add: guards_refl)
  have cs: "s_clients ?s c0 = Some ?cl" "same_db s ?s" using c by simp_all
  consider (none) "\<not> CLIENT_MULTI cl" | (abort) "CLIENT_MULTI cl" "CLIENT_DIRTY_CAS ?cl \<or> CLIENT_DIRTY_EXEC ?cl"
    | (exec) "CLIENT_MULTI cl" "\<not> (CLIENT_DIRTY_CAS ?cl \<or> CLIENT_DIRTY_EXEC ?cl)" by blast
  then show ?thesis
  proof cases
    case none
    then show ?thesis using c L by (intro that [of s]) (auto simp: execCommand_def guards_refl)
  next
    case abort
    obtain s' where s': "discardTransaction ?s c0 = Some s'" "evolves ?s s'" "same_db ?s s'" "c \<noteq> c0 \<longrightarrow> guards c ?s s'"
      using discardTransaction_ok [OF evolves_linked [OF es], of c0 c] cs(1) by auto
    have "execCommand effects acl_ok s c0 = Some (s', if CLIENT_DIRTY_EXEC ?cl then RError ''EXECABORT'' else RNil)"
      using abort c e(1) cs(1) s'(1) by (simp add: execCommand_def Let_def)
    moreover have "c \<noteq> c0 \<longrightarrow> guards c s s'" using s'(4) guards_trans [OF gs] by blast
    moreover have "s_dict s' = s_dict s" using s'(3) cs(2) by (simp add: same_db_def)
    moreover have "\<nexists>n. (if CLIENT_DIRTY_EXEC ?cl then RError ''EXECABORT'' else RNil) = RArray n" by simp
    ultimately show ?thesis using evolves_linked [OF s'(2)] by (intro that) blast+
  next
    case exec
    then have ne: "\<not> e" "?s = s" "?cl = cl" by auto
    obtain s1 s2 s3 where x: "unwatchAllKeys (upd_client c0 (\<lambda>cl. cl\<lparr>CLIENT_DENY_BLOCKING := True\<rparr>) s) c0 = Some s1"
      "exec_loop effects acl_ok (s1\<lparr>s_in_exec := True\<rparr>) c0 (ms_commands (cl_mstate cl)) = Some s2"
      "discardTransaction (if \<not> CLIENT_DENY_BLOCKING cl then upd_client c0 (\<lambda>cl. cl\<lparr>CLIENT_DENY_BLOCKING := False\<rparr>) s2 else s2) c0 = Some s3"
      "evolves s (s3\<lparr>s_in_exec := False\<rparr>)" "no_expired s \<longrightarrow> c \<noteq> c0 \<longrightarrow> guards c s (s3\<lparr>s_in_exec := False\<rparr>)"
      by (rule exec_body_ok [OF L c])
    have "execCommand effects acl_ok s c0 = Some (s3\<lparr>s_in_exec := False\<rparr>, RArray (length (ms_commands (cl_mstate cl))))"
      using exec c e(1) ne x(1-3) by (simp add: execCommand_def Let_def split del: if_split)
    then show ?thesis using evolves_linked [OF x(4)] x(5) e(2) ne exec by (intro that) auto
  qed
qed

end
