(* ===== verification/Multi_Run.thy ===== *)
theory Multi_Run
  imports Multi_Spec
begin

text \<open>
  Runs of the server: clients that watch keys, queue commands and execute them, interleaved with the writes
  of others. Every reachable state is well linked and no action gets stuck, the optimistic locking is sound,
  and a run in which it is not because of a watched key that had already expired.
\<close>

section \<open>Runs of the server\<close>

datatype ('v, 'cmd) action =
  AWatch nat "key list" | AUnwatch nat | AMulti nat | ADiscard nat | AExec nat
| ACmd nat 'cmd "64 word" nat nat | AError nat | AWrite "'v db_write list" | AFlush nat | ATick int
| ASelect nat nat | AConnect nat nat | ADisconnect nat

definition new_client :: "nat \<Rightarrow> 'cmd client" where
  "new_client db = \<lparr>CLIENT_MULTI = False, CLIENT_DIRTY_CAS = False, CLIENT_DIRTY_EXEC = False, CLIENT_DENY_BLOCKING = False,
     cl_db = db, cl_watched_keys = [], cl_mstate = initClientMultiState\<rparr>"

text \<open>
  What happens to the server: commands of clients, writes that come from elsewhere (the master, expired
  keys that are deleted), the clock, and clients that come and go. \<^verbatim>\<open>UNWATCH\<close> and \<^verbatim>\<open>SELECT\<close> act at once also after
  \<^verbatim>\<open>MULTI\<close>, where the server queues them, so there are more runs than those of the server.
\<close>

fun perform ::
  "('cmd \<Rightarrow> ('v, 'cmd) server \<Rightarrow> 'v db_write list) \<Rightarrow> (nat \<Rightarrow> 'cmd \<Rightarrow> bool) \<Rightarrow> ('v, 'cmd) server \<Rightarrow> ('v, 'cmd) action \<Rightarrow>
   (('v, 'cmd) server \<times> reply) option" where
  "perform effects acl_ok s (AWatch c ks) = watchCommand s c ks"
| "perform effects acl_ok s (AUnwatch c) = unwatchCommand s c"
| "perform effects acl_ok s (AMulti c) = multiCommand s c"
| "perform effects acl_ok s (ADiscard c) = discardCommand s c"
| "perform effects acl_ok s (AExec c) = execCommand effects acl_ok s c"
| "perform effects acl_ok s (ACmd c cmd fl al ac) = processCommand effects s c cmd fl al ac"
| "perform effects acl_ok s (AError c) =
     do { _ \<leftarrow> s_clients s c; Some (upd_client c flagTransaction s, RError ''ERR'') }"
| "perform effects acl_ok s (AWrite ws) = do { s \<leftarrow> do_writes s ws; Some (s, ROk) }"
| "perform effects acl_ok s (AFlush db) = do { s \<leftarrow> flush_db s db; Some (s, ROk) }"
| "perform effects acl_ok s (ATick t) = Some (s\<lparr>s_now := t\<rparr>, ROk)"
| "perform effects acl_ok s (ASelect c db) = do { _ \<leftarrow> s_clients s c; Some (upd_client c (\<lambda>cl. cl\<lparr>cl_db := db\<rparr>) s, ROk) }"
| "perform effects acl_ok s (AConnect c db) =
     (if s_clients s c = None then Some (s\<lparr>s_clients := (s_clients s)(c \<mapsto> new_client db)\<rparr>, ROk) else None)"
| "perform effects acl_ok s (ADisconnect c) =
     do { s \<leftarrow> unwatchAllKeys s c; Some (s\<lparr>s_clients := (s_clients s)(c := None)\<rparr>, ROk) }"

text \<open>The client that acts exists, or is new.\<close>

fun enabled :: "('v, 'cmd) server \<Rightarrow> ('v, 'cmd) action \<Rightarrow> bool" where
  "enabled s (AWatch c ks) = (s_clients s c \<noteq> None)"
| "enabled s (AUnwatch c) = (s_clients s c \<noteq> None)"
| "enabled s (AMulti c) = (s_clients s c \<noteq> None)"
| "enabled s (ADiscard c) = (s_clients s c \<noteq> None)"
| "enabled s (AExec c) = (s_clients s c \<noteq> None)"
| "enabled s (ACmd c cmd fl al ac) = (s_clients s c \<noteq> None)"
| "enabled s (AError c) = (s_clients s c \<noteq> None)"
| "enabled s (ASelect c db) = (s_clients s c \<noteq> None)"
| "enabled s (AConnect c db) = (s_clients s c = None)"
| "enabled s (ADisconnect c) = (s_clients s c \<noteq> None)"
| "enabled s _ = True"

text \<open>The actions by which a client itself ends what it watches or begins to watch more.\<close>

fun ends_watch :: "nat \<Rightarrow> ('v, 'cmd) action \<Rightarrow> bool" where
  "ends_watch c (AWatch c' ks) = (c' = c)"
| "ends_watch c (AUnwatch c') = (c' = c)"
| "ends_watch c (ADiscard c') = (c' = c)"
| "ends_watch c (AExec c') = (c' = c)"
| "ends_watch c (AConnect c' db) = (c' = c)"
| "ends_watch c (ADisconnect c') = (c' = c)"
| "ends_watch c _ = False"

definition idle_server ::
  "(nat \<Rightarrow> key \<Rightarrow> 'v option) \<Rightarrow> (nat \<Rightarrow> key \<Rightarrow> int option) \<Rightarrow> int \<Rightarrow> bool \<Rightarrow> ('v, 'cmd) server" where
  "idle_server d e t l = \<lparr>s_clients = Map.empty, s_wk = Map.empty, s_brk = 0, s_watched = (\<lambda>_. []), s_dict = d,
     s_expires = e, s_now = t, s_loading = l, s_in_exec = False\<rparr>"

inductive mreach ::
  "('cmd \<Rightarrow> ('v, 'cmd) server \<Rightarrow> 'v db_write list) \<Rightarrow> (nat \<Rightarrow> 'cmd \<Rightarrow> bool) \<Rightarrow> ('v, 'cmd) server \<Rightarrow> bool"
  for effects acl_ok where
  start: "mreach effects acl_ok (idle_server d e t l)"
| step: "mreach effects acl_ok s \<Longrightarrow> enabled s act \<Longrightarrow> perform effects acl_ok s act = Some (s', r) \<Longrightarrow> mreach effects acl_ok s'"

fun perform_all ::
  "('cmd \<Rightarrow> ('v, 'cmd) server \<Rightarrow> 'v db_write list) \<Rightarrow> (nat \<Rightarrow> 'cmd \<Rightarrow> bool) \<Rightarrow> ('v, 'cmd) server \<Rightarrow> ('v, 'cmd) action list \<Rightarrow>
   ('v, 'cmd) server option" where
  "perform_all effects acl_ok s [] = Some s"
| "perform_all effects acl_ok s (act # acts) =
     (if enabled s act then do { (s, _) \<leftarrow> perform effects acl_ok s act; perform_all effects acl_ok s acts } else None)"

text \<open>The databases and keys a client watches.\<close>

definition watches :: "('v, 'cmd) server \<Rightarrow> nat \<Rightarrow> (nat \<times> key) list" where
  "watches s c = (case s_clients s c of None \<Rightarrow> []
     | Some cl \<Rightarrow> List.map_filter (\<lambda>a. map_option (\<lambda>wk. (wk_db wk, wk_key wk)) (s_wk s a)) (cl_watched_keys cl))"


section \<open>Every action keeps the invariant\<close>

lemma linked_idle: "linked (idle_server d e t l)"
  by (simp add: linked_def links_def idle_server_def lists_def watchers_def ident_def)

lemma links_client:
  assumes L: "links C D K n" and c: "C c = None \<and> x = Some [] \<or> C c = Some [] \<and> x = None"
  shows "links (C(c := x)) D K n"
proof (rule linksI)
  show "a < n" "\<exists>m. D db k = Some m \<and> a \<in> set m" if "K a = Some (c', db, k)" for a c' db k
    using linksD(1,3) [OF L that] by blast+
  show "\<exists>l. (C(c := x)) c' = Some l \<and> a \<in> set l" if "K a = Some (c', db, k)" for a c' db k
    using linksD(2) [OF L that] c by auto
  show "distinct l" if "(C(c := x)) c' = Some l" for c' l using linksD(4) [OF L, of c' l] c that by (auto split: if_splits)
  show "\<exists>db k. K a = Some (c', db, k)" if "(C(c := x)) c' = Some l" "a \<in> set l" for c' l a
    using linksD(5) [OF L, of c' l a] c that by (auto split: if_splits)
  show "m \<noteq> []" "distinct m" if "D db k = Some m" for db k m using linksD(6,7) [OF L that] .
  show "\<exists>c. K a = Some (c, db, k)" if "D db k = Some m" "a \<in> set m" for db k m a using linksD(8) [OF L that] .
  show "a = b" if "K a = Some y" "K b = Some y" for a b y using linksD(9) [OF L that] .
qed

lemma linked_client_change:
  assumes L: "linked s" and c: "s_clients s c = None \<and> cl_watched_keys cl = [] \<and> x = Some cl \<or>
    s_clients s c = Some cl \<and> cl_watched_keys cl = [] \<and> x = None"
  shows "linked (s\<lparr>s_clients := (s_clients s)(c := x)\<rparr>)"
proof -
  let ?s = "s\<lparr>s_clients := (s_clients s)(c := x)\<rparr>"
  have "links ((lists s)(c := map_option cl_watched_keys x)) (watchers s) (ident s) (s_brk s)"
    using L c by (intro links_client) (auto simp: linked_def lists_def)
  moreover have "lists ?s = (lists s)(c := map_option cl_watched_keys x)" by (auto simp: lists_def)
  moreover have "watchers ?s = watchers s" "ident ?s = ident s" by (auto simp: watchers_def [abs_def] ident_def)
  ultimately show ?thesis using L by (simp add: linked_def)
qed

text \<open>An action succeeds, keeps the lists linked and guards a client that is not itself ending its watch.\<close>

definition fine ::
  "nat \<Rightarrow> bool \<Rightarrow> ('v, 'cmd) server \<Rightarrow> (('v, 'cmd) server \<times> reply) option \<Rightarrow> bool" where
  "fine c own s res \<longleftrightarrow> (\<exists>s' r. res = Some (s', r) \<and> linked s' \<and> (no_expired s \<longrightarrow> \<not> own \<longrightarrow> guards c s s'))"

lemma fineI:
  "res = Some (s', r) \<Longrightarrow> linked s' \<Longrightarrow> no_expired s \<longrightarrow> \<not> own \<longrightarrow> guards c s s' \<Longrightarrow> fine c own s res"
  by (auto simp: fine_def)

lemma fine_upd:
  assumes "linked s" "res = Some (upd_client c0 f s, r)"
    "\<And>cl. cl_watched_keys (f cl) = cl_watched_keys cl \<and> (CLIENT_DIRTY_CAS cl \<longrightarrow> CLIENT_DIRTY_CAS (f cl))"
  shows "fine c own s res"
  using assms by (intro fineI [OF assms(2)] linked_upd_client impI upd_client_guards) auto

lemma fine_same: "linked s \<Longrightarrow> res = Some (s, r) \<Longrightarrow> fine c own s res"
  by (erule fineI [rotated]) (auto simp: guards_refl)

lemma fine_watch:
  assumes L: "linked s" and c: "s_clients s c0 = Some cl"
  shows "fine c (c0 = c) s (watchCommand s c0 ks)"
proof -
  obtain s' where s': "watch_loop s c0 ks = Some s'" "linked s'" "c \<noteq> c0 \<longrightarrow> guards c s s'"
    using watch_loop_ok [OF L, of c0 ks c] c by auto
  show ?thesis
  proof (cases "CLIENT_MULTI cl \<or> CLIENT_DIRTY_CAS cl")
    case True
    then have "\<exists>r. watchCommand s c0 ks = Some (s, r)" using c by (auto simp: watchCommand_def)
    then show ?thesis using fine_same [OF L] by blast
  next
    case False
    then have "watchCommand s c0 ks = Some (s', ROk)" using c s'(1) by (simp add: watchCommand_def)
    then show ?thesis by (rule fineI) (use s' in auto)
  qed
qed

lemma fine_unwatch:
  assumes L: "linked s" and c: "s_clients s c0 = Some cl"
  shows "fine c (c0 = c) s (unwatchCommand s c0)"
proof -
  let ?f = "\<lambda>cl. cl\<lparr>CLIENT_DIRTY_CAS := False\<rparr>"
  obtain s' where s': "unwatchAllKeys s c0 = Some s'" "evolves s s'" "c \<noteq> c0 \<longrightarrow> guards c s s'"
    using unwatchAllKeys_evolves [OF L c, of c] by blast
  have "unwatchCommand s c0 = Some (upd_client c0 ?f s', ROk)" using s'(1) by (simp add: unwatchCommand_def)
  moreover have "linked (upd_client c0 ?f s')" using evolves_linked [OF s'(2)] by (rule linked_upd_client) simp
  moreover have "c \<noteq> c0 \<longrightarrow> guards c s (upd_client c0 ?f s')"
    using s'(3) guards_trans [OF _ upd_client_guards, of c s s' c0 ?f] by blast
  ultimately show ?thesis by (intro fineI) auto
qed

lemma fine_discard:
  assumes L: "linked s" and c: "s_clients s c0 = Some cl"
  shows "fine c (c0 = c) s (discardCommand s c0)"
proof (cases "CLIENT_MULTI cl")
  case True
  obtain s' where s': "discardTransaction s c0 = Some s'" "evolves s s'" "c \<noteq> c0 \<longrightarrow> guards c s s'"
    using discardTransaction_ok [OF L, of c0 c] c by auto
  have "discardCommand s c0 = Some (s', ROk)" using c True s'(1) by (simp add: discardCommand_def)
  then show ?thesis using evolves_linked [OF s'(2)] s'(3) by (intro fineI) auto
next
  case False
  then show ?thesis using c by (intro fine_same [OF L]) (simp add: discardCommand_def)
qed

lemma fine_exec:
  assumes L: "linked s" and c: "s_clients s c0 = Some cl"
  shows "fine c (c0 = c) s (execCommand effects acl_ok s c0)"
proof -
  obtain s' r where "execCommand effects acl_ok s c0 = Some (s', r)" "linked s'" "no_expired s \<longrightarrow> c \<noteq> c0 \<longrightarrow> guards c s s'"
    by (rule execCommand_ok [OF L c])
  then show ?thesis by (intro fineI) auto
qed

lemma fine_writes:
  assumes "linked s"
  shows "fine c own s (do { s \<leftarrow> do_writes s ws; Some (s, ROk) })"
proof -
  obtain s' where s': "do_writes s ws = Some s'" "evolves s s'" "no_expired s \<longrightarrow> guards c s s'"
    using do_writes_ok [OF assms, of ws c] by blast
  show ?thesis using evolves_linked [OF s'(2)] s'(1,3) by (intro fineI) auto
qed

lemma queueMultiCommand_keeps [simp]:
  "cl_watched_keys (queueMultiCommand cl cmd fl al ac) = cl_watched_keys cl"
  "CLIENT_DIRTY_CAS (queueMultiCommand cl cmd fl al ac) = CLIENT_DIRTY_CAS cl"
  by (simp_all add: queueMultiCommand_def Let_def)

lemma fine_cmd:
  assumes L: "linked s" and c: "s_clients s c0 = Some cl"
  shows "fine c own s (processCommand effects s c0 cmd fl al ac)"
proof (cases "CLIENT_MULTI cl")
  case True
  show ?thesis
    by (rule fine_upd [OF L, of _ c0 "\<lambda>cl. queueMultiCommand cl cmd fl al ac" RQueued])
      (use c True in \<open>simp_all add: processCommand_def queueMultiCommand_keeps\<close>)
next
  case False
  then show ?thesis using fine_writes [OF L, of c own "effects cmd s"] c by (simp add: processCommand_def call_def)
qed

lemma fine_disconnect:
  assumes L: "linked s" and c: "s_clients s c0 = Some cl"
  shows "fine c (c0 = c) s (do { s \<leftarrow> unwatchAllKeys s c0; Some (s\<lparr>s_clients := (s_clients s)(c0 := None)\<rparr>, ROk) })"
proof -
  obtain s' where s': "unwatchAllKeys s c0 = Some s'" "evolves s s'" "c \<noteq> c0 \<longrightarrow> guards c s s'"
    "s_clients s' c0 = Some (cl\<lparr>cl_watched_keys := []\<rparr>)"
    using unwatchAllKeys_evolves [OF L c, of c] by blast
  let ?s = "s'\<lparr>s_clients := (s_clients s')(c0 := None)\<rparr>"
  have "linked ?s" by (rule linked_client_change [OF evolves_linked [OF s'(2)], of c0 "cl\<lparr>cl_watched_keys := []\<rparr>"]) (use s'(4) in simp)
  moreover have "guards c s' ?s" if "c \<noteq> c0" using that by (auto simp: guards_def)
  ultimately show ?thesis using s' guards_trans [of c s s' ?s] by (intro fineI) auto
qed

lemma perform_ok:
  assumes L: "linked s" and e: "enabled s act"
  shows "fine c (ends_watch c act) s (perform effects acl_ok s act)"
proof (cases act)
  case (AWatch c0 ks)
  then show ?thesis using fine_watch [OF L] e by auto
next
  case (AUnwatch c0)
  then show ?thesis using fine_unwatch [OF L] e by auto
next
  case (AMulti c0)
  then obtain cl where cl: "s_clients s c0 = Some cl" using e by auto
  show ?thesis
  proof (cases "CLIENT_MULTI cl")
    case True
    show ?thesis by (rule fine_same [OF L]) (use AMulti cl True in \<open>simp add: multiCommand_def\<close>)
  next
    case False
    show ?thesis by (rule fine_upd [OF L, of _ c0 "\<lambda>cl. cl\<lparr>CLIENT_MULTI := True\<rparr>" ROk]) (use AMulti cl False in \<open>simp_all add: multiCommand_def\<close>)
  qed
next
  case (ADiscard c0)
  then show ?thesis using fine_discard [OF L] e by auto
next
  case (AExec c0)
  then show ?thesis using fine_exec [OF L] e by auto
next
  case (ACmd c0 cmd fl al ac)
  then show ?thesis using fine_cmd [OF L] e by auto
next
  case (AError c0)
  show ?thesis by (rule fine_upd [OF L, of _ c0 flagTransaction]) (use AError e in \<open>auto simp: flagTransaction_def\<close>)
next
  case (AWrite ws)
  then show ?thesis using fine_writes [OF L] by simp
next
  case (AFlush db)
  obtain s' where "flush_db s db = Some s'" "linked s'" "no_expired s \<longrightarrow> guards c s s'"
    using flush_db_ok [OF L, of db c] by blast
  then show ?thesis using AFlush by (intro fineI) auto
next
  case (ATick t)
  have "linked (s\<lparr>s_now := t\<rparr>)" by (rule linked_cong [OF L]) (simp_all add: lists_def [abs_def] ident_def [abs_def])
  then show ?thesis using ATick by (intro fineI) (auto simp: guards_def)
next
  case (ASelect c0 db)
  show ?thesis by (rule fine_upd [OF L, of _ c0 "\<lambda>cl. cl\<lparr>cl_db := db\<rparr>"]) (use ASelect e in auto)
next
  case (AConnect c0 db)
  then have "linked (s\<lparr>s_clients := (s_clients s)(c0 \<mapsto> new_client db)\<rparr>)"
    using e by (intro linked_client_change [OF L]) (auto simp: new_client_def)
  then show ?thesis using AConnect e by (intro fineI) (auto simp: guards_def)
next
  case (ADisconnect c0)
  then show ?thesis using fine_disconnect [OF L] e by auto
qed

lemma mreach_linked: "mreach effects acl_ok s \<Longrightarrow> linked s"
proof (induction rule: mreach.induct)
  case (step s act s' r)
  then show ?case using perform_ok [of s act _ effects acl_ok] by (auto simp: fine_def)
qed (rule linked_idle)


lemma perform_all_mreach:
  "mreach effects acl_ok s \<Longrightarrow> perform_all effects acl_ok s acts = Some s' \<Longrightarrow> mreach effects acl_ok s'"
proof (induction acts arbitrary: s)
  case (Cons act acts)
  then obtain s1 r where "enabled s act" "perform effects acl_ok s act = Some (s1, r)" "perform_all effects acl_ok s1 acts = Some s'"
    by (auto split: if_splits bind_splits)
  then show ?case using Cons.IH mreach.step [OF Cons.prems(1)] by blast
qed simp

section \<open>The guarantees\<close>

text \<open>C7: in every reachable state the watched keys of the clients and the watchers of the keys are linked both
  ways, and every command, write, flush, connection or disconnection that can happen is carried out without
  following a dangling pointer or failing an assertion, and keeps them linked.\<close>

theorem multi_never_stuck:
  assumes "mreach effects acl_ok s" "enabled s act"
  shows "linked s \<and> (\<exists>s' r. perform effects acl_ok s act = Some (s', r) \<and> linked s')"
  using mreach_linked [OF assms(1)] perform_ok [OF mreach_linked [OF assms(1)] assms(2), of 0 effects acl_ok]
  by (auto simp: fine_def)


section \<open>A run\<close>

text \<open>Commands set the key \<^verbatim>\<open>k\<close> to the number they carry. The key expires at time 5.\<close>

definition demo_k :: key where
  "demo_k = [ch (CHR ''k'')]"

definition demo_effects :: "nat \<Rightarrow> (nat, nat) server \<Rightarrow> nat db_write list" where
  "demo_effects n s = [(0, demo_k, Some n, None)]"

definition demo_acl :: "nat \<Rightarrow> nat \<Rightarrow> bool" where
  "demo_acl c n = True"

definition demo_idle :: "int \<Rightarrow> (nat, nat) server" where
  "demo_idle t = idle_server (\<lambda>db. [demo_k \<mapsto> 1]) (\<lambda>db. [demo_k \<mapsto> 5]) t False"

definition demo_run :: "int \<Rightarrow> (nat, nat) action list \<Rightarrow> (nat, nat) server option" where
  "demo_run t acts = perform_all demo_effects demo_acl (demo_idle t) acts"

lemmas demo_simps = demo_run_def demo_idle_def demo_effects_def demo_acl_def idle_server_def new_client_def
  watchCommand_def watchForKey_def multiCommand_def processCommand_def queueMultiCommand_def upd_client_def
  initClientMultiState_def keyIsExpired_def call_def signalModifiedKey_def touchWatchedKey_def db_set_def
  unwatchAllKeys_def unwatch_one_def execCommand_def isWatchedKeyExpired_def discardTransaction_def watches_def
  no_expired_def Let_def

lemma demo_reach: "demo_run t acts = Some s \<Longrightarrow> mreach demo_effects demo_acl s"
  unfolding demo_run_def demo_idle_def by (rule perform_all_mreach [OF mreach.start])

definition demo_state :: "(nat, nat) server" where
  "demo_state = the (demo_run 0 [AConnect 1 0, AConnect 2 0, AWatch 1 [demo_k], AMulti 1, ACmd 1 7 0 3 1])"

definition demo_state' :: "(nat, nat) server" where
  "demo_state' = the (demo_run 0 [AConnect 1 0, AConnect 2 0, AWatch 1 [demo_k], AMulti 1, ACmd 1 7 0 3 1, AWatch 2 [demo_k]])"

lemma demo_state_run:
  "demo_run 0 [AConnect 1 0, AConnect 2 0, AWatch 1 [demo_k], AMulti 1, ACmd 1 7 0 3 1] = Some demo_state"
  "perform demo_effects demo_acl demo_state (AWatch 2 [demo_k]) = Some (demo_state', ROk)"
  "watches demo_state 1 = [(0, demo_k)]" "no_expired demo_state" "no_expired demo_state'"
  "s_clients demo_state 1 \<noteq> None" "s_clients demo_state 2 \<noteq> None"
  "\<exists>s'. execCommand demo_effects demo_acl demo_state' 1 = Some (s', RArray 1) \<and> s_dict s' 0 demo_k \<noteq> s_dict demo_state' 0 demo_k"
  by (simp_all add: demo_state_def demo_state'_def demo_simps)


theorem multi_never_stuck_witness:
  "linked demo_state \<and> (\<exists>s' r. perform demo_effects demo_acl demo_state (ADisconnect 1) = Some (s', r) \<and> linked s')"
  by (rule multi_never_stuck [OF demo_reach [OF demo_state_run(1)]]) (use demo_state_run(6) in simp)


section \<open>Watching a key that has expired\<close>

definition demo_stale :: "(nat, nat) server" where
  "demo_stale = the (demo_run 10 [AConnect 1 0, AConnect 2 0, AWatch 1 [demo_k], AWrite [(0, demo_k, Some 2, None)], AWatch 2 [demo_k]])"

text \<open>C25: the \<^verbatim>\<open>break\<close> in touchWatchedKey loses updates. Client 1 watches a key that has expired but is still
  stored, the key is written anew, as by the stream of a master, and client 2 watches the new value, which
  has not expired. The key is then written again: the loop of touchWatchedKey stops at the entry of client 1,
  client 2 is not marked, and its EXEC executes although the key it watches has changed.\<close>

theorem touchWatchedKey_break_loses_update:
  "mreach demo_effects demo_acl demo_stale \<and> watches demo_stale 2 = [(0, demo_k)] \<and>
   \<not> keyIsExpired demo_stale 0 demo_k \<and> s_dict demo_stale 0 demo_k = Some 2 \<and>
   (\<exists>s s'. perform_all demo_effects demo_acl demo_stale [AMulti 2, ACmd 2 7 0 3 1, AWrite [(0, demo_k, Some 3, None)]] = Some s \<and>
     s_dict s 0 demo_k = Some 3 \<and> execCommand demo_effects demo_acl s 2 = Some (s', RArray 1) \<and> s_dict s' 0 demo_k = Some 7)"
proof (intro conjI)
  have "demo_run 10 [AConnect 1 0, AConnect 2 0, AWatch 1 [demo_k], AWrite [(0, demo_k, Some 2, None)], AWatch 2 [demo_k]] = Some demo_stale"
    by (simp add: demo_stale_def demo_simps)
  then show "mreach demo_effects demo_acl demo_stale" by (rule demo_reach)
qed (simp_all add: demo_stale_def demo_simps)

end
