(* ===== verification/Hashslot.thy ===== *)
theory Hashslot
  imports Redis_Prelude
begin

text \<open>
  The hash slot of a key: the table driven checksum of \<^verbatim>\<open>crc16.c\<close>, which is the CRC of the generator
  polynomial 0x1021 computed bit by bit, and \<^verbatim>\<open>keyHashSlot\<close> of \<^verbatim>\<open>cluster.c\<close> with its hash tags.
\<close>

unbundle bit_operations_syntax

section \<open>The checksum\<close>

definition crc16tab :: "16 word list" where
  "crc16tab =
    [
     0x0000, 0x1021, 0x2042, 0x3063, 0x4084, 0x50a5, 0x60c6, 0x70e7,
     0x8108, 0x9129, 0xa14a, 0xb16b, 0xc18c, 0xd1ad, 0xe1ce, 0xf1ef,
     0x1231, 0x0210, 0x3273, 0x2252, 0x52b5, 0x4294, 0x72f7, 0x62d6,
     0x9339, 0x8318, 0xb37b, 0xa35a, 0xd3bd, 0xc39c, 0xf3ff, 0xe3de,
     0x2462, 0x3443, 0x0420, 0x1401, 0x64e6, 0x74c7, 0x44a4, 0x5485,
     0xa56a, 0xb54b, 0x8528, 0x9509, 0xe5ee, 0xf5cf, 0xc5ac, 0xd58d,
     0x3653, 0x2672, 0x1611, 0x0630, 0x76d7, 0x66f6, 0x5695, 0x46b4,
     0xb75b, 0xa77a, 0x9719, 0x8738, 0xf7df, 0xe7fe, 0xd79d, 0xc7bc,
     0x48c4, 0x58e5, 0x6886, 0x78a7, 0x0840, 0x1861, 0x2802, 0x3823,
     0xc9cc, 0xd9ed, 0xe98e, 0xf9af, 0x8948, 0x9969, 0xa90a, 0xb92b,
     0x5af5, 0x4ad4, 0x7ab7, 0x6a96, 0x1a71, 0x0a50, 0x3a33, 0x2a12,
     0xdbfd, 0xcbdc, 0xfbbf, 0xeb9e, 0x9b79, 0x8b58, 0xbb3b, 0xab1a,
     0x6ca6, 0x7c87, 0x4ce4, 0x5cc5, 0x2c22, 0x3c03, 0x0c60, 0x1c41,
     0xedae, 0xfd8f, 0xcdec, 0xddcd, 0xad2a, 0xbd0b, 0x8d68, 0x9d49,
     0x7e97, 0x6eb6, 0x5ed5, 0x4ef4, 0x3e13, 0x2e32, 0x1e51, 0x0e70,
     0xff9f, 0xefbe, 0xdfdd, 0xcffc, 0xbf1b, 0xaf3a, 0x9f59, 0x8f78,
     0x9188, 0x81a9, 0xb1ca, 0xa1eb, 0xd10c, 0xc12d, 0xf14e, 0xe16f,
     0x1080, 0x00a1, 0x30c2, 0x20e3, 0x5004, 0x4025, 0x7046, 0x6067,
     0x83b9, 0x9398, 0xa3fb, 0xb3da, 0xc33d, 0xd31c, 0xe37f, 0xf35e,
     0x02b1, 0x1290, 0x22f3, 0x32d2, 0x4235, 0x5214, 0x6277, 0x7256,
     0xb5ea, 0xa5cb, 0x95a8, 0x8589, 0xf56e, 0xe54f, 0xd52c, 0xc50d,
     0x34e2, 0x24c3, 0x14a0, 0x0481, 0x7466, 0x6447, 0x5424, 0x4405,
     0xa7db, 0xb7fa, 0x8799, 0x97b8, 0xe75f, 0xf77e, 0xc71d, 0xd73c,
     0x26d3, 0x36f2, 0x0691, 0x16b0, 0x6657, 0x7676, 0x4615, 0x5634,
     0xd94c, 0xc96d, 0xf90e, 0xe92f, 0x99c8, 0x89e9, 0xb98a, 0xa9ab,
     0x5844, 0x4865, 0x7806, 0x6827, 0x18c0, 0x08e1, 0x3882, 0x28a3,
     0xcb7d, 0xdb5c, 0xeb3f, 0xfb1e, 0x8bf9, 0x9bd8, 0xabbb, 0xbb9a,
     0x4a75, 0x5a54, 0x6a37, 0x7a16, 0x0af1, 0x1ad0, 0x2ab3, 0x3a92,
     0xfd2e, 0xed0f, 0xdd6c, 0xcd4d, 0xbdaa, 0xad8b, 0x9de8, 0x8dc9,
     0x7c26, 0x6c07, 0x5c64, 0x4c45, 0x3ca2, 0x2c83, 0x1ce0, 0x0cc1,
     0xef1f, 0xff3e, 0xcf5d, 0xdf7c, 0xaf9b, 0xbfba, 0x8fd9, 0x9ff8,
     0x6e17, 0x7e36, 0x4e55, 0x5e74, 0x2e93, 0x3eb2, 0x0ed1, 0x1ef0]"

text \<open>The signed \<^verbatim>\<open>char\<close> is masked after the exclusive or, so its sign extension has no effect.\<close>

definition crc16_step :: "16 word \<Rightarrow> byte \<Rightarrow> 16 word" where
  "crc16_step crc c = push_bit 8 crc XOR crc16tab ! unat ((drop_bit 8 crc XOR scast c) AND 0x00FF)"

definition crc16 :: "bytes \<Rightarrow> 16 word" where
  "crc16 buf = foldl crc16_step 0 buf"

section \<open>Key slots\<close>

definition CLUSTER_SLOTS :: nat where
  "CLUSTER_SLOTS = 16384"

text \<open>A loop that stops at the first index from \<open>i\<close> with the byte, or at the end.\<close>

function seek_byte :: "byte \<Rightarrow> bytes \<Rightarrow> nat \<Rightarrow> nat" where
  "seek_byte b key i = (if i < length key then if key ! i = b then i else seek_byte b key (Suc i) else i)"
  by pat_completeness auto
termination by (relation "measure (\<lambda>(b, key, i). length key - i)") auto

declare seek_byte.simps [simp del]

definition keyHashSlot :: "bytes \<Rightarrow> nat" where
  "keyHashSlot key =
     (let keylen = length key; s = seek_byte (ch (CHR ''{'')) key 0 in
      if s = keylen then unat (crc16 key AND 0x3FFF)
      else
        let e = seek_byte (ch (CHR ''}'')) key (s + 1) in
        if e = keylen \<or> e = s + 1 then unat (crc16 key AND 0x3FFF)
        else unat (crc16 (take (e - s - 1) (drop (s + 1) key)) AND 0x3FFF))"

section \<open>The table against the polynomial\<close>

text \<open>One bit of the division by x^16 + x^12 + x^5 + 1, and a whole byte.\<close>

definition crc_bit :: "16 word \<Rightarrow> 16 word" where
  "crc_bit w = (if bit w 15 then push_bit 1 w XOR 0x1021 else push_bit 1 w)"

definition crc_byte :: "16 word \<Rightarrow> byte \<Rightarrow> 16 word" where
  "crc_byte crc c = (crc_bit ^^ 8) (crc XOR push_bit 8 (ucast c))"

lemma crc_bit_xor: "crc_bit (x XOR y) = crc_bit x XOR crc_bit y"
  by (auto simp: crc_bit_def bit_xor_iff push_bit_xor ac_simps)

lemma crc_bits_xor: "(crc_bit ^^ n) (x XOR y) = (crc_bit ^^ n) x XOR (crc_bit ^^ n) y"
  by (induction n) (auto simp: crc_bit_xor)

lemma top_bit: "bit (w :: 16 word) 15 \<longleftrightarrow> 0x8000 \<le> w"
proof -
  have l: "unat w < 65536" using unsigned_less [of w, where 'a = nat] by simp
  have "bit w 15 \<longleftrightarrow> bit (unat w) 15" by (simp add: bit_unsigned_iff)
  also have "\<dots> \<longleftrightarrow> odd (unat w div 32768)" by (simp add: bit_iff_odd)
  also have "\<dots> \<longleftrightarrow> 32768 \<le> unat w"
  proof (cases "unat w < 32768")
    case False
    then have "unat w div 32768 = 1" using l by (simp add: div_nat_eqI)
    then show ?thesis using False by simp
  qed simp
  finally show ?thesis by (simp add: word_le_nat_alt)
qed

lemma crc_bit_eval: "crc_bit w = (if 0x8000 \<le> w then 2 * w XOR 0x1021 else 2 * w)"
  by (simp add: crc_bit_def top_bit mult.commute)

definition crc_entry :: "nat \<Rightarrow> 16 word" where
  "crc_entry i = (crc_bit ^^ 8) (of_nat (256 * i))"

text \<open>The table doubles: the second half is the first with the entry of a power of two added.\<close>

primrec crc_table :: "nat \<Rightarrow> 16 word list" where
  "crc_table 0 = [0]"
| "crc_table (Suc k) = crc_table k @ map (\<lambda>w. w XOR crc_entry (2 ^ k)) (crc_table k)"

lemma crc_entry_add:
  assumes "i < 2 ^ k"
  shows "crc_entry (2 ^ k + i) = crc_entry i XOR crc_entry (2 ^ k)"
proof -
  have "\<not> bit i k" using assms by (simp add: bit_iff_odd)
  then have "\<not> bit (of_nat i :: 16 word) k" by (simp add: bit_of_nat_iff)
  then have "push_bit 8 (2 ^ k) AND push_bit 8 (of_nat i :: 16 word) = 0"
    by (intro bit_word_eqI) (auto simp: bit_simps)
  then have "push_bit 8 (2 ^ k) + push_bit 8 (of_nat i :: 16 word) = push_bit 8 (2 ^ k) XOR push_bit 8 (of_nat i)"
    by (rule disjunctive_add_eq_xor)
  then have "(of_nat (256 * (2 ^ k + i)) :: 16 word) = of_nat (256 * i) XOR of_nat (256 * 2 ^ k)"
    by (simp add: push_bit_eq_mult algebra_simps xor.commute)
  then show ?thesis by (simp only: crc_entry_def crc_bits_xor)
qed

lemma crc_table_entries: "crc_table k = map crc_entry [0..<2 ^ k]"
proof (induction k)
  case 0
  show ?case by (simp add: crc_entry_def crc_bit_def numeral_eq_Suc)
next
  case (Suc k)
  have "[0..<2 ^ Suc k] = [0..<2 ^ k] @ [2 ^ k..<2 ^ k + 2 ^ k]" by (simp only: power_Suc mult_2 upt_add_eq_append [of 0] zero_le)
  also have "[2 ^ k..<2 ^ k + 2 ^ k] = map (\<lambda>i. 2 ^ k + i) [0..<2 ^ k]" by (simp add: map_add_upt add.commute)
  finally show ?case using Suc by (simp add: crc_entry_add)
qed

lemma crc_entry_eval: "crc_entry i = crc_bit (crc_bit (crc_bit (crc_bit (crc_bit (crc_bit (crc_bit (crc_bit (of_nat (256 * i)))))))))"
  by (simp add: crc_entry_def numeral_eq_Suc)

lemma crc_powers:
  "crc_entry (2 ^ 0) = 0x1021" "crc_entry (2 ^ 1) = 0x2042" "crc_entry (2 ^ 2) = 0x4084" "crc_entry (2 ^ 3) = 0x8108"
  "crc_entry (2 ^ 4) = 0x1231" "crc_entry (2 ^ 5) = 0x2462" "crc_entry (2 ^ 6) = 0x48c4" "crc_entry (2 ^ 7) = 0x9188"
  by (simp_all add: crc_entry_eval crc_bit_eval)

lemma crc16tab_eq: "crc16tab = map crc_entry [0..<256]"
proof -
  have s: "8 = Suc 7" "7 = Suc 6" "6 = Suc 5" "5 = Suc 4" "4 = Suc 3" "3 = Suc 2" "2 = Suc 1" "1 = Suc (0 :: nat)" by simp_all
  have "crc_table 8 = crc16tab" unfolding crc16tab_def
    by (subst s(1), subst s(2), subst s(3), subst s(4), subst s(5), subst s(6), subst s(7), subst s(8),
        simp only: crc_table.simps, simp only: s [symmetric], simp only: crc_powers, simp)
  then show ?thesis by (simp add: crc_table_entries)
qed

lemma crc_bits_low:
  assumes "\<And>k. 8 \<le> k \<Longrightarrow> \<not> bit w k" "n \<le> 8"
  shows "(crc_bit ^^ n) w = push_bit n w"
  using assms(2)
proof (induction n)
  case (Suc n)
  then have "\<not> bit (push_bit n w) 15" using assms(1) [of "15 - n"] by (simp add: bit_push_bit_iff)
  then show ?case using Suc by (simp add: crc_bit_def)
qed simp

lemma crc16_index:
  fixes crc :: "16 word" and c :: byte
  defines "i \<equiv> unat ((drop_bit 8 crc XOR scast c) AND (0x00FF :: 16 word))"
  shows "i < 256" "of_nat (256 * i) XOR (crc AND 0xFF) = crc XOR push_bit 8 (ucast c)"
proof -
  have "(drop_bit 8 crc XOR scast c) AND (0xFF :: 16 word) = take_bit 8 (drop_bit 8 crc XOR scast c)"
    by (simp add: take_bit_eq_mask mask_eq_exp_minus_1)
  then have i: "i = unat (take_bit 8 (drop_bit 8 crc XOR scast c))" by (simp add: i_def)
  show "i < 256" unfolding i unsigned_take_bit_eq by (rule order.strict_trans2 [OF take_bit_nat_less_exp]) simp
  have "of_nat (256 * i) = push_bit 8 (of_nat i :: 16 word)" by (simp add: push_bit_eq_mult mult.commute)
  also have "\<dots> = push_bit 8 (take_bit 8 (drop_bit 8 crc XOR scast c))" unfolding i by simp
  finally have e: "of_nat (256 * i) = push_bit 8 (take_bit 8 (drop_bit 8 crc XOR scast c))" .
  have m: "crc AND 0xFF = take_bit 8 crc" by (simp add: take_bit_eq_mask mask_eq_exp_minus_1)
  show "of_nat (256 * i) XOR (crc AND 0xFF) = crc XOR push_bit 8 (ucast c)"
    unfolding e m by (rule bit_word_eqI) (auto simp: bit_simps)
qed

lemma crc16_step_eq: "crc16_step crc c = crc_byte crc c"
proof -
  define i where "i = unat ((drop_bit 8 crc XOR scast c) AND (0x00FF :: 16 word))"
  have i: "i < 256" "of_nat (256 * i) XOR (crc AND 0xFF) = crc XOR push_bit 8 (ucast c)"
    unfolding i_def by (rule crc16_index)+
  have "crc16tab ! i = (crc_bit ^^ 8) (of_nat (256 * i))" using i(1) by (simp add: crc16tab_eq crc_entry_def)
  moreover have "push_bit 8 crc = (crc_bit ^^ 8) (crc AND 0xFF)"
  proof -
    have m: "crc AND 0xFF = take_bit 8 crc" by (simp add: take_bit_eq_mask mask_eq_exp_minus_1)
    have "(crc_bit ^^ 8) (take_bit 8 crc) = push_bit 8 (take_bit 8 crc)" by (rule crc_bits_low) (auto simp: bit_simps)
    also have "\<dots> = push_bit 8 crc" by (rule bit_word_eqI) (auto simp: bit_simps)
    finally show ?thesis unfolding m by simp
  qed
  ultimately have "crc16_step crc c = (crc_bit ^^ 8) (of_nat (256 * i) XOR (crc AND 0xFF))"
    unfolding crc16_step_def i_def [symmetric] crc_bits_xor by (simp only: xor.commute)
  then show ?thesis unfolding i(2) by (simp add: crc_byte_def)
qed

section \<open>Hash tags\<close>

lemma seek_byte_skip:
  assumes "i \<le> length a" "b \<notin> set (drop i a)"
  shows "seek_byte b (a @ r) i = seek_byte b (a @ r) (length a)"
  using assms
proof (induction "length a - i" arbitrary: i)
  case (Suc n)
  then have "i < length a" by simp
  then have d: "drop i a = a ! i # drop (Suc i) a" by (simp add: Cons_nth_drop_Suc)
  then have "seek_byte b (a @ r) i = seek_byte b (a @ r) (Suc i)"
    using Suc.prems \<open>i < length a\<close> by (auto simp: seek_byte.simps [of b "a @ r" i] nth_append)
  then show ?case using Suc.hyps(1) [of "Suc i"] Suc.hyps(2) Suc.prems d \<open>i < length a\<close> by simp
qed simp

lemma seek_byte_end: "seek_byte b a (length a) = length a"
  by (simp add: seek_byte.simps)

lemma seek_byte_absent: "i \<le> length a \<Longrightarrow> b \<notin> set (drop i a) \<Longrightarrow> seek_byte b a i = length a"
  using seek_byte_skip [of i a b "[]"] seek_byte_end by simp

lemma seek_byte_found:
  "i \<le> length a \<Longrightarrow> b \<notin> set (drop i a) \<Longrightarrow> seek_byte b (a @ b # r) i = length a"
  using seek_byte_skip [of i a b "b # r"] by (simp add: seek_byte.simps [of b "a @ b # r" "length a"])

lemma crc16_ref: "crc16 buf = foldl crc_byte 0 buf"
proof -
  have "crc16_step = crc_byte" by (intro ext crc16_step_eq)
  then show ?thesis by (simp add: crc16_def)
qed

lemma slot_mask: "unat (w AND (0x3FFF :: 16 word)) = unat w mod CLUSTER_SLOTS"
proof -
  have "w AND 0x3FFF = take_bit 14 w" by (simp add: take_bit_eq_mask mask_eq_exp_minus_1)
  then have "unat (w AND 0x3FFF) = take_bit 14 (unat w)" by (simp only: unsigned_take_bit_eq)
  then show ?thesis by (simp add: take_bit_eq_mod CLUSTER_SLOTS_def)
qed

lemma dropWhile_at: "b \<notin> set a \<Longrightarrow> dropWhile (\<lambda>c. c \<noteq> b) (a @ b # r) = b # r"
  by (induction a) auto

lemma takeWhile_at: "b \<notin> set a \<Longrightarrow> takeWhile (\<lambda>c. c \<noteq> b) (a @ b # r) = a"
  by (induction a) auto

text \<open>C11: the slot of a key is the CRC of the polynomial 0x1021, computed bit by bit and reduced modulo 16384, of its
  hash tag: what stands between the first opening brace and the first closing brace after it, if there is
  something there, and of the whole key in every other case.\<close>

theorem keyHashSlot_correct:
  "keyHashSlot key =
     unat (foldl crc_byte 0
       (case dropWhile (\<lambda>c. c \<noteq> ch (CHR ''{'')) key of
          [] \<Rightarrow> key
        | _ # r \<Rightarrow>
            let t = takeWhile (\<lambda>c. c \<noteq> ch (CHR ''}'')) r
            in if t = [] \<or> t = r then key else t)) mod CLUSTER_SLOTS"
proof (cases "ch (CHR ''{'') \<in> set key")
  case False
  have d: "dropWhile (\<lambda>c. c \<noteq> ch (CHR ''{'')) key = []" using False by (auto simp: dropWhile_eq_Nil_conv)
  show ?thesis unfolding d
    using seek_byte_absent [of 0 key "ch (CHR ''{'')"] False by (simp add: keyHashSlot_def slot_mask crc16_ref)
next
  case True
  then obtain a r where k: "key = a @ ch (CHR ''{'') # r" "ch (CHR ''{'') \<notin> set a" by (auto dest: split_list_first)
  have s: "seek_byte (ch (CHR ''{'')) key 0 = length a" unfolding k(1) by (rule seek_byte_found) (use k(2) in auto)
  have d: "dropWhile (\<lambda>c. c \<noteq> ch (CHR ''{'')) key = ch (CHR ''{'') # r" 
    unfolding k(1) by (rule dropWhile_at) (rule k(2))
  let ?b = "a @ [ch (CHR ''{'')]"
  show ?thesis
  proof (cases "ch (CHR ''}'') \<in> set r")
    case False
    have "takeWhile (\<lambda>c. c \<noteq> ch (CHR ''}'')) r = r" using False by (auto simp: takeWhile_eq_all_conv)
    moreover have "seek_byte (ch (CHR ''}'')) key (length a + 1) = length key"
      by (rule seek_byte_absent) (use k False in auto)
    ultimately show ?thesis using s d by (simp add: keyHashSlot_def slot_mask crc16_ref Let_def)
  next
    case True
    then obtain t u where t: "r = t @ ch (CHR ''}'') # u" "ch (CHR ''}'') \<notin> set t" by (auto dest: split_list_first)
    have "seek_byte (ch (CHR ''}'')) ((?b @ t) @ ch (CHR ''}'') # u) (length a + 1) = length (?b @ t)"
      by (rule seek_byte_found) (use t in auto)
    then have e: "seek_byte (ch (CHR ''}'')) key (length a + 1) = length a + 1 + length t" using k t by simp
    have "takeWhile (\<lambda>c. c \<noteq> ch (CHR ''}'')) r = t" unfolding t(1) by (rule takeWhile_at) (rule t(2))
    then show ?thesis using s d e k(1) t(1) by (simp add: keyHashSlot_def slot_mask crc16_ref Let_def)
  qed
qed

text \<open>Two keys with the same tag are in the same slot, which multi-key commands rely on.\<close>

lemma keyHashSlot_tag:
  assumes "ch (CHR ''{'') \<notin> set a" "ch (CHR ''}'') \<notin> set t" "t \<noteq> []"
  shows "keyHashSlot (a @ ch (CHR ''{'') # t @ ch (CHR ''}'') # u) = unat (crc16 t) mod CLUSTER_SLOTS"
proof -
  let ?k = "a @ ch (CHR ''{'') # t @ ch (CHR ''}'') # u"
  have "seek_byte (ch (CHR ''{'')) ?k 0 = length a" by (rule seek_byte_found) (use assms in auto)
  moreover have "seek_byte (ch (CHR ''}'')) ((a @ [ch (CHR ''{'')] @ t) @ ch (CHR ''}'') # u) (length a + 1) = length a + 1 + length t"
    using seek_byte_found [of "length a + 1" "a @ [ch (CHR ''{'')] @ t" "ch (CHR ''}'')" u] assms by simp
  ultimately show ?thesis using assms(3) by (simp add: keyHashSlot_def slot_mask Let_def)
qed

end
