(* ===== verification/Cluster.thy ===== *)
theory Cluster
  imports Hashslot "HOL-Library.Monad_Syntax"
begin

text \<open>
  The cluster state of a node (\<^verbatim>\<open>cluster.c\<close>, \<^verbatim>\<open>cluster.h\<close>): the table of nodes, the assignment of slots, roles, and
  the rebinding of slots when another node publishes its configuration. Nodes are referred to by their name;
  a name of 40 bytes is the number it spells, so that \<^verbatim>\<open>memcmp\<close> is the order of numbers. The outer \<^term>\<open>None\<close> is
  a failed assertion or a pointer to no node. Times are milliseconds.
\<close>

section \<open>State\<close>

text \<open>\<^verbatim>\<open>clusterNode\<close>, with the flags of the node as separate fields; \<open>n_link\<close> tells whether there is a link.\<close>

record clusterNode =
  n_master :: bool
  n_slave :: bool
  n_pfail :: bool
  n_fail :: bool
  n_handshake :: bool
  n_migrate_to :: bool
  n_nofailover :: bool
  n_configEpoch :: "64 word"
  n_slots :: bytes
  n_numslots :: int
  n_slaves :: "nat list"
  n_slaveof :: "nat option"
  n_fail_time :: int
  n_voted_time :: int
  n_repl_offset :: int
  n_link :: bool
  n_fail_reports :: "(nat \<times> int) list"

datatype cant_failover = CANT_FAILOVER_NONE | CANT_FAILOVER_DATA_AGE | CANT_FAILOVER_WAITING_DELAY
  | CANT_FAILOVER_EXPIRED | CANT_FAILOVER_WAITING_VOTES

datatype todo = TODO_HANDLE_FAILOVER | TODO_UPDATE_STATE | TODO_SAVE_CONFIG | TODO_FSYNC_CONFIG | TODO_HANDLE_MANUALFAILOVER

text \<open>\<^verbatim>\<open>clusterState\<close>, with the static variables of \<^verbatim>\<open>clusterUpdateState\<close> at the end.\<close>

record clusterState =
  myself :: nat
  currentEpoch :: "64 word"
  state_ok :: bool
  cluster_size :: int
  nodes :: "(nat \<times> clusterNode) list"
  migrating_slots_to :: "nat \<Rightarrow> nat option"
  importing_slots_from :: "nat \<Rightarrow> nat option"
  slots :: "nat \<Rightarrow> nat option"
  failover_auth_time :: int
  failover_auth_count :: int
  failover_auth_sent :: bool
  failover_auth_rank :: int
  failover_auth_epoch :: "64 word"
  cant_failover_reason :: cant_failover
  mf_end :: int
  mf_slave :: "nat option"
  mf_master_offset :: int
  mf_can_start :: bool
  lastVoteEpoch :: "64 word"
  todo_before_sleep :: "todo set"
  owner_not_claiming_slot :: bytes
  among_minority_time :: int
  first_call_time :: int

text \<open>What the code reads of the clock, the configuration, the replication and the key space.\<close>

record cluster_env =
  mstime :: int
  random_value :: nat
  cluster_node_timeout :: int
  cluster_slave_validity_factor :: int
  repl_ping_slave_period :: int
  cluster_slave_no_failover :: bool
  cluster_require_full_coverage :: bool
  cluster_allow_replica_migration :: bool
  cluster_no_redirection :: bool
  repl_connected :: bool
  unixtime :: int
  master_lastinteraction :: int
  repl_down_since :: int
  replicationGetSlaveOffset :: int
  master_repl_offset :: int
  countKeysInSlot :: "nat \<Rightarrow> nat"

definition node :: "clusterState \<Rightarrow> nat \<Rightarrow> clusterNode option" where
  "node cs n = map_of (nodes cs) n"

definition upd_node :: "nat \<Rightarrow> (clusterNode \<Rightarrow> clusterNode) \<Rightarrow> clusterState \<Rightarrow> clusterState" where
  "upd_node n f cs = cs\<lparr>nodes := map (\<lambda>(m, nd). (m, if m = n then f nd else nd)) (nodes cs)\<rparr>"

definition clusterDoBeforeSleep :: "todo set \<Rightarrow> clusterState \<Rightarrow> clusterState" where
  "clusterDoBeforeSleep fl cs = cs\<lparr>todo_before_sleep := todo_before_sleep cs \<union> fl\<rparr>"

section \<open>Bitmaps\<close>

definition bitmapTestBit :: "bytes \<Rightarrow> nat \<Rightarrow> bool" where
  "bitmapTestBit bitmap pos = ((bitmap ! (pos div 8)) AND push_bit (pos mod 8) 1 \<noteq> 0)"

definition bitmapSetBit :: "bytes \<Rightarrow> nat \<Rightarrow> bytes" where
  "bitmapSetBit bitmap pos = bitmap[pos div 8 := (bitmap ! (pos div 8)) OR push_bit (pos mod 8) 1]"

definition bitmapClearBit :: "bytes \<Rightarrow> nat \<Rightarrow> bytes" where
  "bitmapClearBit bitmap pos = bitmap[pos div 8 := (bitmap ! (pos div 8)) AND NOT (push_bit (pos mod 8) 1)]"

section \<open>Slots of nodes\<close>

definition clusterMastersHaveSlaves :: "clusterState \<Rightarrow> bool" where
  "clusterMastersHaveSlaves cs =
     (sum_list (map (\<lambda>(_, nd). if n_slave nd then 0 else length (n_slaves nd)) (nodes cs)) \<noteq> 0)"

definition clusterNodeSetSlotBit :: "clusterState \<Rightarrow> nat \<Rightarrow> nat \<Rightarrow> (clusterState \<times> bool) option" where
  "clusterNodeSetSlotBit cs n slot =
     do {
       nd \<leftarrow> node cs n;
       let old = bitmapTestBit (n_slots nd) slot;
       Some (if \<not> old then
               let cs = upd_node n (\<lambda>nd. nd\<lparr>n_slots := bitmapSetBit (n_slots nd) slot, n_numslots := n_numslots nd + 1\<rparr>) cs
               in if n_numslots nd + 1 = 1 \<and> clusterMastersHaveSlaves cs
                  then upd_node n (\<lambda>nd. nd\<lparr>n_migrate_to := True\<rparr>) cs else cs
             else cs, old)
     }"

definition clusterNodeClearSlotBit :: "clusterState \<Rightarrow> nat \<Rightarrow> nat \<Rightarrow> (clusterState \<times> bool) option" where
  "clusterNodeClearSlotBit cs n slot =
     do {
       nd \<leftarrow> node cs n;
       let old = bitmapTestBit (n_slots nd) slot;
       Some (if old then upd_node n (\<lambda>nd. nd\<lparr>n_slots := bitmapClearBit (n_slots nd) slot, n_numslots := n_numslots nd - 1\<rparr>) cs
             else cs, old)
     }"

definition clusterNodeGetSlotBit :: "clusterNode \<Rightarrow> nat \<Rightarrow> bool" where
  "clusterNodeGetSlotBit nd slot = bitmapTestBit (n_slots nd) slot"

text \<open>The second component is \<^verbatim>\<open>C_OK\<close>. The channels of the slot, which \<^verbatim>\<open>clusterDelSlot\<close> removes, are not part of the state.\<close>

definition clusterAddSlot :: "clusterState \<Rightarrow> nat \<Rightarrow> nat \<Rightarrow> (clusterState \<times> bool) option" where
  "clusterAddSlot cs n slot =
     (if slots cs slot \<noteq> None then Some (cs, False)
      else do {
        (cs, _) \<leftarrow> clusterNodeSetSlotBit cs n slot;
        Some (cs\<lparr>slots := (slots cs)(slot \<mapsto> n)\<rparr>, True)
      })"

definition clusterDelSlot :: "clusterState \<Rightarrow> nat \<Rightarrow> (clusterState \<times> bool) option" where
  "clusterDelSlot cs slot =
     (case slots cs slot of
        None \<Rightarrow> Some (cs, False)
      | Some n \<Rightarrow> do {
          (cs, old) \<leftarrow> clusterNodeClearSlotBit cs n slot;
          if \<not> old then None else Some (cs\<lparr>slots := (slots cs)(slot := None)\<rparr>, True)
        })"

text \<open>The loop of \<^verbatim>\<open>clusterDelNodeSlots\<close> over the slots of the list.\<close>

fun clusterDelNodeSlots_loop :: "clusterState \<Rightarrow> nat \<Rightarrow> nat list \<Rightarrow> nat \<Rightarrow> (clusterState \<times> nat) option" where
  "clusterDelNodeSlots_loop cs n [] deleted = Some (cs, deleted)"
| "clusterDelNodeSlots_loop cs n (j # js) deleted =
     do {
       nd \<leftarrow> node cs n;
       if clusterNodeGetSlotBit nd j
       then do { (cs, _) \<leftarrow> clusterDelSlot cs j; clusterDelNodeSlots_loop cs n js (deleted + 1) }
       else clusterDelNodeSlots_loop cs n js deleted
     }"

definition clusterDelNodeSlots :: "clusterState \<Rightarrow> nat \<Rightarrow> (clusterState \<times> nat) option" where
  "clusterDelNodeSlots cs n = clusterDelNodeSlots_loop cs n [0..<CLUSTER_SLOTS] 0"

definition clusterCloseAllSlots :: "clusterState \<Rightarrow> clusterState" where
  "clusterCloseAllSlots cs = cs\<lparr>migrating_slots_to := Map.empty, importing_slots_from := Map.empty\<rparr>"

section \<open>Roles\<close>

text \<open>The array of slaves is a list; \<^verbatim>\<open>numslaves\<close> is its length.\<close>

definition clusterNodeRemoveSlave :: "clusterState \<Rightarrow> nat \<Rightarrow> nat \<Rightarrow> (clusterState \<times> bool) option" where
  "clusterNodeRemoveSlave cs master slave =
     do {
       m \<leftarrow> node cs master;
       Some (if slave \<in> set (n_slaves m) then
               let ss = remove1 slave (n_slaves m)
               in (upd_node master (\<lambda>m. m\<lparr>n_slaves := ss, n_migrate_to := (if length ss = 0 then False else n_migrate_to m)\<rparr>) cs, True)
             else (cs, False))
     }"

definition clusterNodeAddSlave :: "clusterState \<Rightarrow> nat \<Rightarrow> nat \<Rightarrow> (clusterState \<times> bool) option" where
  "clusterNodeAddSlave cs master slave =
     do {
       m \<leftarrow> node cs master;
       Some (if slave \<in> set (n_slaves m) then (cs, False)
             else (upd_node master (\<lambda>m. m\<lparr>n_slaves := n_slaves m @ [slave], n_migrate_to := True\<rparr>) cs, True))
     }"

definition clusterSetNodeAsMaster :: "clusterState \<Rightarrow> nat \<Rightarrow> clusterState option" where
  "clusterSetNodeAsMaster cs n =
     do {
       nd \<leftarrow> node cs n;
       if n_master nd then Some cs
       else do {
         cs \<leftarrow> (case n_slaveof nd of
                  None \<Rightarrow> Some cs
                | Some m \<Rightarrow> do {
                    (cs, _) \<leftarrow> clusterNodeRemoveSlave cs m n;
                    Some (if n \<noteq> myself cs then upd_node n (\<lambda>nd. nd\<lparr>n_migrate_to := True\<rparr>) cs else cs)
                  });
         let cs = upd_node n (\<lambda>nd. nd\<lparr>n_slave := False, n_master := True, n_slaveof := None\<rparr>) cs;
         Some (clusterDoBeforeSleep {TODO_SAVE_CONFIG, TODO_UPDATE_STATE} cs)
       }
     }"

text \<open>The pause of clients and actions, which \<^verbatim>\<open>resetManualFailover\<close> ends on a master, is not part of the state.\<close>

definition resetManualFailover :: "clusterState \<Rightarrow> clusterState" where
  "resetManualFailover cs = cs\<lparr>mf_end := 0, mf_can_start := False, mf_slave := None, mf_master_offset := - 1\<rparr>"

text \<open>The shard of a node and the replication link, which \<^verbatim>\<open>clusterSetMaster\<close> sets up, are not part of the state.\<close>

definition clusterSetMaster :: "clusterState \<Rightarrow> nat \<Rightarrow> clusterState option" where
  "clusterSetMaster cs n =
     do {
       me \<leftarrow> node cs (myself cs);
       if n = myself cs \<or> n_numslots me \<noteq> 0 then None
       else do {
         cs \<leftarrow> (if n_master me then
                  Some (clusterCloseAllSlots (upd_node (myself cs) (\<lambda>nd. nd\<lparr>n_master := False, n_migrate_to := False, n_slave := True\<rparr>) cs))
                else case n_slaveof me of
                  None \<Rightarrow> Some cs
                | Some m \<Rightarrow> do { (cs, _) \<leftarrow> clusterNodeRemoveSlave cs m (myself cs); Some cs });
         let cs = upd_node (myself cs) (\<lambda>nd. nd\<lparr>n_slaveof := Some n\<rparr>) cs;
         (cs, _) \<leftarrow> clusterNodeAddSlave cs n (myself cs);
         Some (resetManualFailover cs)
       }
     }"

section \<open>Configuration updates\<close>

definition isSlotUnclaimed :: "clusterState \<Rightarrow> nat \<Rightarrow> bool" where
  "isSlotUnclaimed cs slot = (slots cs slot = None \<or> bitmapTestBit (owner_not_claiming_slot cs) slot)"

text \<open>The configuration epoch of the node a slot is assigned to.\<close>

definition slot_epoch :: "clusterState \<Rightarrow> nat \<Rightarrow> (64 word) option" where
  "slot_epoch cs slot = do { n \<leftarrow> slots cs slot; nd \<leftarrow> node cs n; Some (n_configEpoch nd) }"

text \<open>The local variables of \<^verbatim>\<open>clusterUpdateSlotsConfigWith\<close> that its loop assigns.\<close>

record update_vars =
  newmaster :: "nat option"
  dirty_slots :: "nat list"
  sender_slots :: nat
  migrated_our_slots :: nat

definition rebinds :: "clusterState \<Rightarrow> 64 word \<Rightarrow> nat \<Rightarrow> bool option" where
  "rebinds cs senderConfigEpoch j =
     (if isSlotUnclaimed cs j then Some True
      else do { e \<leftarrow> slot_epoch cs j; Some (e < senderConfigEpoch) })"

text \<open>One round of the loop.\<close>

definition update_slot ::
  "cluster_env \<Rightarrow> nat \<Rightarrow> 64 word \<Rightarrow> bytes \<Rightarrow> nat option \<Rightarrow> clusterState \<times> update_vars \<Rightarrow> nat \<Rightarrow> (clusterState \<times> update_vars) option" where
  "update_slot env sender senderConfigEpoch claimed curmaster = (\<lambda>(cs, v) j.
     if bitmapTestBit claimed j then
       let v = v\<lparr>sender_slots := sender_slots v + 1\<rparr> in
       if slots cs j = Some sender then Some (cs\<lparr>owner_not_claiming_slot := bitmapClearBit (owner_not_claiming_slot cs) j\<rparr>, v)
       else if importing_slots_from cs j \<noteq> None then Some (cs, v)
       else do {
         r \<leftarrow> rebinds cs senderConfigEpoch j;
         if r then do {
           let v = (if slots cs j = Some (myself cs) \<and> countKeysInSlot env j \<noteq> 0 \<and> sender \<noteq> myself cs
                    then v\<lparr>dirty_slots := dirty_slots v @ [j]\<rparr> else v);
           let v = (if slots cs j = curmaster then v\<lparr>newmaster := Some sender, migrated_our_slots := migrated_our_slots v + 1\<rparr> else v);
           (cs, _) \<leftarrow> clusterDelSlot cs j;
           (cs, _) \<leftarrow> clusterAddSlot cs sender j;
           let cs = cs\<lparr>owner_not_claiming_slot := bitmapClearBit (owner_not_claiming_slot cs) j\<rparr>;
           Some (clusterDoBeforeSleep {TODO_SAVE_CONFIG, TODO_UPDATE_STATE, TODO_FSYNC_CONFIG} cs, v)
         }
         else Some (cs, v)
       }
     else if slots cs j = Some sender
     then Some (cs\<lparr>owner_not_claiming_slot := bitmapSetBit (owner_not_claiming_slot cs) j\<rparr>, v)
     else Some (cs, v))"

fun update_slots_loop ::
  "cluster_env \<Rightarrow> nat \<Rightarrow> 64 word \<Rightarrow> bytes \<Rightarrow> nat option \<Rightarrow> clusterState \<times> update_vars \<Rightarrow> nat list \<Rightarrow> (clusterState \<times> update_vars) option" where
  "update_slots_loop env sender e claimed curmaster st [] = Some st"
| "update_slots_loop env sender e claimed curmaster st (j # js) =
     do { st \<leftarrow> update_slot env sender e claimed curmaster st j; update_slots_loop env sender e claimed curmaster st js }"

text \<open>
  What follows the loop: a master left without slots, or the slave of one, becomes a replica of the sender.
  In the C code \<^verbatim>\<open>curmaster\<close> is a null pointer when this node is a slave without a known master, and then equals
  the null entry of an unassigned slot; the dereference that follows is the outer \<^term>\<open>None\<close>.
\<close>

definition update_role ::
  "cluster_env \<Rightarrow> clusterState \<Rightarrow> nat \<Rightarrow> nat option \<Rightarrow> update_vars \<Rightarrow> (clusterState \<times> nat list) option" where
  "update_role env cs sender curmaster v =
     do {
       left_without \<leftarrow> (if newmaster v = None then Some False
                         else do { cm \<leftarrow> curmaster; nd \<leftarrow> node cs cm; Some (n_numslots nd = 0) });
       if left_without \<and> (cluster_allow_replica_migration env \<or> sender_slots v = migrated_our_slots v)
       then do {
         cs \<leftarrow> clusterSetMaster cs sender;
         Some (clusterDoBeforeSleep {TODO_SAVE_CONFIG, TODO_UPDATE_STATE, TODO_FSYNC_CONFIG} cs, [])
       }
       else do {
         me \<leftarrow> node cs (myself cs);
         grandmaster \<leftarrow> (case n_slaveof me of None \<Rightarrow> Some None | Some m \<Rightarrow> do { nd \<leftarrow> node cs m; Some (n_slaveof nd) });
         if grandmaster \<noteq> None \<and> grandmaster \<noteq> Some (myself cs)
         then do {
           cs \<leftarrow> clusterSetMaster cs (the grandmaster);
           Some (clusterDoBeforeSleep {TODO_SAVE_CONFIG, TODO_UPDATE_STATE, TODO_FSYNC_CONFIG} cs, [])
         }
         else Some (cs, dirty_slots v)
       }
     }"

text \<open>\<^verbatim>\<open>clusterUpdateSlotsConfigWith\<close>. The second component lists the slots whose keys are deleted.\<close>

definition clusterUpdateSlotsConfigWith ::
  "cluster_env \<Rightarrow> clusterState \<Rightarrow> nat \<Rightarrow> 64 word \<Rightarrow> bytes \<Rightarrow> (clusterState \<times> nat list) option" where
  "clusterUpdateSlotsConfigWith env cs sender senderConfigEpoch claimed =
     do {
       me \<leftarrow> node cs (myself cs);
       let curmaster = (if n_master me then Some (myself cs) else n_slaveof me);
       if sender = myself cs then Some (cs, [])
       else do {
         (cs, v) \<leftarrow> update_slots_loop env sender senderConfigEpoch claimed curmaster
           (cs, \<lparr>newmaster = None, dirty_slots = [], sender_slots = 0, migrated_our_slots = 0\<rparr>) [0..<CLUSTER_SLOTS];
         if cluster_no_redirection env then Some (cs, []) else update_role env cs sender curmaster v
       }
     }"

end
