(* ===== verification/Cluster_Slots.thy ===== *)
theory Cluster_Slots
  imports Cluster
begin

text \<open>
  The two descriptions of who serves a slot, the array \<^verbatim>\<open>slots\<close> and the bitmaps and counters of the nodes, agree;
  every operation keeps them so and trips no assertion. A configuration update rebinds exactly the slots that
  the sender claims with a greater epoch.
\<close>

section \<open>Bitmaps\<close>

lemma bitmapTestBit_iff: "bitmapTestBit bm j \<longleftrightarrow> bit (bm ! (j div 8)) (j mod 8)"
proof -
  have "(bm ! (j div 8)) AND push_bit (j mod 8) 1 \<noteq> 0 \<longleftrightarrow> bit (bm ! (j div 8)) (j mod 8)"
    by (simp add: bit_iff_and_push_bit_not_eq_0)
  then show ?thesis by (simp add: bitmapTestBit_def)
qed

lemma slot_pos: "i div 8 = j div 8 \<Longrightarrow> i mod 8 = j mod 8 \<Longrightarrow> i = (j :: nat)"
  by (metis div_mult_mod_eq)

lemma bit_byte: "bit (2 ^ k :: byte) i \<longleftrightarrow> i = k \<and> k < 8"
  by (auto simp: bit_simps)

lemma bitmapTestBit_set:
  assumes "j div 8 < length bm"
  shows "bitmapTestBit (bitmapSetBit bm j) i \<longleftrightarrow> i = j \<or> bitmapTestBit bm i"
proof (cases "i div 8 = j div 8")
  case True
  have "bitmapSetBit bm j ! (i div 8) = (bm ! (i div 8)) OR push_bit (j mod 8) 1"
    using assms True by (simp add: bitmapSetBit_def)
  then have "bitmapTestBit (bitmapSetBit bm j) i \<longleftrightarrow> i mod 8 = j mod 8 \<or> bitmapTestBit bm i"
    by (auto simp: bitmapTestBit_iff bit_or_iff bit_byte)
  then show ?thesis using slot_pos [OF True] by blast
next
  case False
  then have "bitmapSetBit bm j ! (i div 8) = bm ! (i div 8)" by (simp add: bitmapSetBit_def)
  then show ?thesis using False by (auto simp: bitmapTestBit_iff)
qed

lemma bitmapTestBit_clear:
  assumes "j div 8 < length bm"
  shows "bitmapTestBit (bitmapClearBit bm j) i \<longleftrightarrow> i \<noteq> j \<and> bitmapTestBit bm i"
proof (cases "i div 8 = j div 8")
  case True
  have "bitmapClearBit bm j ! (i div 8) = (bm ! (i div 8)) AND NOT (push_bit (j mod 8) 1)"
    using assms True by (simp add: bitmapClearBit_def)
  then have "bitmapTestBit (bitmapClearBit bm j) i \<longleftrightarrow> i mod 8 \<noteq> j mod 8 \<and> bitmapTestBit bm i"
    by (auto simp: bitmapTestBit_iff bit_and_iff bit_not_iff bit_byte)
  then show ?thesis using slot_pos [OF True] by blast
next
  case False
  then have "bitmapClearBit bm j ! (i div 8) = bm ! (i div 8)" by (simp add: bitmapClearBit_def)
  then show ?thesis using False by (auto simp: bitmapTestBit_iff)
qed

lemma bitmap_length [simp]: "length (bitmapSetBit bm j) = length bm" "length (bitmapClearBit bm j) = length bm"
  by (simp_all add: bitmapSetBit_def bitmapClearBit_def)

section \<open>Updates of nodes\<close>

lemma map_of_upd_node:
  "map_of (map (\<lambda>(m, nd). (m, if m = n then f nd else nd)) xs) m = (if m = n then map_option f (map_of xs n) else map_of xs m)"
  by (induction xs) auto

lemma node_upd_node [simp]:
  "node (upd_node n f cs) m = (if m = n then map_option f (node cs n) else node cs m)"
  by (simp add: node_def upd_node_def map_of_upd_node)

lemma upd_node_simps [simp]:
  "myself (upd_node n f cs) = myself cs" "currentEpoch (upd_node n f cs) = currentEpoch cs"
  "cluster_size (upd_node n f cs) = cluster_size cs" "slots (upd_node n f cs) = slots cs"
  "importing_slots_from (upd_node n f cs) = importing_slots_from cs"
  "migrating_slots_to (upd_node n f cs) = migrating_slots_to cs"
  "failover_auth_time (upd_node n f cs) = failover_auth_time cs"
  "failover_auth_count (upd_node n f cs) = failover_auth_count cs" "failover_auth_sent (upd_node n f cs) = failover_auth_sent cs"
  "failover_auth_rank (upd_node n f cs) = failover_auth_rank cs" "failover_auth_epoch (upd_node n f cs) = failover_auth_epoch cs"
  "mf_end (upd_node n f cs) = mf_end cs" "mf_can_start (upd_node n f cs) = mf_can_start cs"
  "mf_master_offset (upd_node n f cs) = mf_master_offset cs"
  "lastVoteEpoch (upd_node n f cs) = lastVoteEpoch cs" "owner_not_claiming_slot (upd_node n f cs) = owner_not_claiming_slot cs"
  "map fst (nodes (upd_node n f cs)) = map fst (nodes cs)"
  by (simp_all add: upd_node_def comp_def case_prod_beta)

lemma node_other [simp]:
  "node (cs\<lparr>slots := x1\<rparr>) = node cs" "node (cs\<lparr>owner_not_claiming_slot := x2\<rparr>) = node cs"
  "node (cs\<lparr>todo_before_sleep := x3\<rparr>) = node cs" "node (cs\<lparr>currentEpoch := x4\<rparr>) = node cs"
  "node (cs\<lparr>lastVoteEpoch := x5\<rparr>) = node cs" "node (cs\<lparr>failover_auth_count := x6\<rparr>) = node cs"
  "node (cs\<lparr>cant_failover_reason := x7\<rparr>) = node cs" "node (cs\<lparr>failover_auth_epoch := x8\<rparr>) = node cs"
  "node (cs\<lparr>failover_auth_sent := x9\<rparr>) = node cs" "node (cs\<lparr>failover_auth_time := x10\<rparr>) = node cs"
  "node (cs\<lparr>failover_auth_rank := x11\<rparr>) = node cs" "node (cs\<lparr>mf_master_offset := x12\<rparr>) = node cs"
  "node (cs\<lparr>migrating_slots_to := x13\<rparr>) = node cs" "node (cs\<lparr>importing_slots_from := x14\<rparr>) = node cs"
  "node (cs\<lparr>mf_end := x15\<rparr>) = node cs" "node (cs\<lparr>mf_can_start := x16\<rparr>) = node cs" "node (cs\<lparr>mf_slave := x17\<rparr>) = node cs"
  "node (cs\<lparr>cluster_size := x18\<rparr>) = node cs" "node (cs\<lparr>state_ok := x19\<rparr>) = node cs"
  "node (cs\<lparr>among_minority_time := x20\<rparr>) = node cs" "node (cs\<lparr>first_call_time := x21\<rparr>) = node cs"
  by (simp_all add: node_def [abs_def])

lemma sleep_simps [simp]:
  "node (clusterDoBeforeSleep fl cs) = node cs" "myself (clusterDoBeforeSleep fl cs) = myself cs"
  "currentEpoch (clusterDoBeforeSleep fl cs) = currentEpoch cs" "cluster_size (clusterDoBeforeSleep fl cs) = cluster_size cs"
  "slots (clusterDoBeforeSleep fl cs) = slots cs" "importing_slots_from (clusterDoBeforeSleep fl cs) = importing_slots_from cs"
  "failover_auth_count (clusterDoBeforeSleep fl cs) = failover_auth_count cs"
  "failover_auth_sent (clusterDoBeforeSleep fl cs) = failover_auth_sent cs"
  "failover_auth_epoch (clusterDoBeforeSleep fl cs) = failover_auth_epoch cs"
  "failover_auth_time (clusterDoBeforeSleep fl cs) = failover_auth_time cs"
  "lastVoteEpoch (clusterDoBeforeSleep fl cs) = lastVoteEpoch cs" "mf_end (clusterDoBeforeSleep fl cs) = mf_end cs"
  "mf_can_start (clusterDoBeforeSleep fl cs) = mf_can_start cs" "mf_master_offset (clusterDoBeforeSleep fl cs) = mf_master_offset cs"
  "owner_not_claiming_slot (clusterDoBeforeSleep fl cs) = owner_not_claiming_slot cs" "nodes (clusterDoBeforeSleep fl cs) = nodes cs"
  by (simp_all add: clusterDoBeforeSleep_def node_def [abs_def])

section \<open>The invariant\<close>

definition owned :: "clusterNode \<Rightarrow> nat set" where
  "owned nd = {j. j < CLUSTER_SLOTS \<and> bitmapTestBit (n_slots nd) j}"

text \<open>What a node's entry says of its slots agrees with the array.\<close>

definition node_wf :: "clusterState \<Rightarrow> nat \<Rightarrow> clusterNode \<Rightarrow> bool" where
  "node_wf cs n nd \<longleftrightarrow> length (n_slots nd) = CLUSTER_SLOTS div 8 \<and> n_numslots nd = int (card (owned nd)) \<and>
     owned nd = {j. slots cs j = Some n}"

definition slots_wf :: "clusterState \<Rightarrow> bool" where
  "slots_wf cs \<longleftrightarrow> length (owner_not_claiming_slot cs) = CLUSTER_SLOTS div 8 \<and>
     (\<forall>n nd. node cs n = Some nd \<longrightarrow> node_wf cs n nd) \<and>
     (\<forall>j n. slots cs j = Some n \<longrightarrow> j < CLUSTER_SLOTS \<and> node cs n \<noteq> None)"

lemma owned_finite [simp]: "finite (owned nd)"
  by (simp add: owned_def)

lemma slot_in_bitmap: "j < CLUSTER_SLOTS \<Longrightarrow> length bm = CLUSTER_SLOTS div 8 \<Longrightarrow> j div 8 < length bm"
  by (simp add: CLUSTER_SLOTS_def less_mult_imp_div_less)

lemma slots_wfD:
  assumes "slots_wf cs" "node cs n = Some nd"
  shows "length (n_slots nd) = CLUSTER_SLOTS div 8" "n_numslots nd = int (card (owned nd))" "owned nd = {j. slots cs j = Some n}"
  using assms unfolding slots_wf_def node_wf_def by blast+

lemma slots_wf_slot: "slots_wf cs \<Longrightarrow> slots cs j = Some n \<Longrightarrow> j < CLUSTER_SLOTS \<and> (\<exists>nd. node cs n = Some nd)"
  unfolding slots_wf_def by blast

lemma slots_wf_bit: "slots_wf cs \<Longrightarrow> node cs n = Some nd \<Longrightarrow> j < CLUSTER_SLOTS \<Longrightarrow> bitmapTestBit (n_slots nd) j \<longleftrightarrow> slots cs j = Some n"
  using slots_wfD(3) unfolding owned_def by blast

text \<open>What changes of slots leave alone.\<close>

definition same_node :: "clusterNode \<Rightarrow> clusterNode \<Rightarrow> bool" where
  "same_node nd nd' \<longleftrightarrow> nd' = nd\<lparr>n_slots := n_slots nd', n_numslots := n_numslots nd', n_migrate_to := n_migrate_to nd'\<rparr>"

definition reslotted :: "clusterState \<Rightarrow> clusterState \<Rightarrow> bool" where
  "reslotted cs cs' \<longleftrightarrow> map fst (nodes cs') = map fst (nodes cs) \<and> (\<forall>n. rel_option same_node (node cs n) (node cs' n)) \<and>
     cs' = cs\<lparr>nodes := nodes cs', slots := slots cs', owner_not_claiming_slot := owner_not_claiming_slot cs',
             todo_before_sleep := todo_before_sleep cs'\<rparr>"

lemma same_node_refl [simp]: "same_node nd nd"
  by (simp add: same_node_def)

lemma same_node_fields:
  assumes "same_node nd nd'"
  shows "n_master nd' = n_master nd" "n_slave nd' = n_slave nd" "n_fail nd' = n_fail nd" "n_handshake nd' = n_handshake nd"
    "n_configEpoch nd' = n_configEpoch nd" "n_slaveof nd' = n_slaveof nd" "n_slaves nd' = n_slaves nd" "n_link nd' = n_link nd"
  by (subst assms [unfolded same_node_def], simp)+

lemma same_node_trans: "same_node a b \<Longrightarrow> same_node b c \<Longrightarrow> same_node a c"
  by (cases a; cases b; cases c) (simp add: same_node_def)

lemma reslotted_refl: "reslotted cs cs"
  by (simp add: reslotted_def option.rel_refl)

lemma rel_same_trans: "rel_option same_node x y \<Longrightarrow> rel_option same_node y z \<Longrightarrow> rel_option same_node x z"
  by (cases x; cases y; cases z) (auto intro: same_node_trans)

lemma reslotted_trans:
  assumes "reslotted a b" "reslotted b c"
  shows "reslotted a c"
proof -
  have "rel_option same_node (node a n) (node c n)" for n
    using assms rel_same_trans unfolding reslotted_def by blast
  moreover have "c = a\<lparr>nodes := nodes c, slots := slots c, owner_not_claiming_slot := owner_not_claiming_slot c, todo_before_sleep := todo_before_sleep c\<rparr>"
    using assms unfolding reslotted_def by (cases a; cases b; cases c) simp
  moreover have "map fst (nodes c) = map fst (nodes a)" using assms unfolding reslotted_def by metis
  ultimately show ?thesis unfolding reslotted_def by blast
qed

lemma reslotted_fields:
  assumes "reslotted cs cs'"
  shows "myself cs' = myself cs" "currentEpoch cs' = currentEpoch cs" "cluster_size cs' = cluster_size cs"
    "importing_slots_from cs' = importing_slots_from cs" "migrating_slots_to cs' = migrating_slots_to cs"
    "failover_auth_count cs' = failover_auth_count cs" "failover_auth_sent cs' = failover_auth_sent cs"
    "failover_auth_epoch cs' = failover_auth_epoch cs" "failover_auth_time cs' = failover_auth_time cs"
    "lastVoteEpoch cs' = lastVoteEpoch cs" "mf_end cs' = mf_end cs" "mf_can_start cs' = mf_can_start cs"
  by (subst conjunct2 [OF conjunct2 [OF assms [unfolded reslotted_def]]], simp)+

lemma reslotted_node:
  assumes "reslotted cs cs'"
  shows "node cs n = Some nd \<Longrightarrow> \<exists>nd'. node cs' n = Some nd' \<and> same_node nd nd'"
    "node cs' n = Some nd' \<Longrightarrow> \<exists>nd. node cs n = Some nd \<and> same_node nd nd'"
    "node cs' n = None \<longleftrightarrow> node cs n = None"
proof -
  have r: "rel_option same_node (node cs n) (node cs' n)" using assms by (simp add: reslotted_def)
  show "node cs n = Some nd \<Longrightarrow> \<exists>nd'. node cs' n = Some nd' \<and> same_node nd nd'" using r by (cases "node cs' n") auto
  show "node cs' n = Some nd' \<Longrightarrow> \<exists>nd. node cs n = Some nd \<and> same_node nd nd'" using r by (cases "node cs n") auto
  show "node cs' n = None \<longleftrightarrow> node cs n = None" using r by (cases "node cs n"; cases "node cs' n") auto
qed

lemma reslotted_sleep: "reslotted cs (clusterDoBeforeSleep fl cs)"
  by (simp add: reslotted_def clusterDoBeforeSleep_def option.rel_refl node_def)

lemma reslotted_not_claiming: "reslotted cs (cs\<lparr>owner_not_claiming_slot := bm\<rparr>)"
  by (simp add: reslotted_def option.rel_refl node_def)

section \<open>Adding and deleting a slot\<close>

lemma clusterDelSlot_ok:
  assumes wf: "slots_wf cs"
  obtains cs' b where "clusterDelSlot cs j = Some (cs', b)" "slots_wf cs'" "slots cs' = (slots cs)(j := None)" "reslotted cs cs'"
    "owner_not_claiming_slot cs' = owner_not_claiming_slot cs"
proof (cases "slots cs j")
  case None
  then have "slots cs = (slots cs)(j := None)" by auto
  then show ?thesis using None wf by (intro that [of cs False]) (simp_all add: clusterDelSlot_def reslotted_refl)
next
  case (Some n)
  obtain nd where nd: "node cs n = Some nd" and j: "j < CLUSTER_SLOTS" using slots_wf_slot [OF wf Some] by blast
  note w = slots_wfD [OF wf nd]
  have jb: "j div 8 < length (n_slots nd)" by (rule slot_in_bitmap [OF j w(1)])
  have bit: "bitmapTestBit (n_slots nd) j" using slots_wf_bit [OF wf nd j] Some by simp
  let ?f = "\<lambda>nd. nd\<lparr>n_slots := bitmapClearBit (n_slots nd) j, n_numslots := n_numslots nd - 1\<rparr>"
  let ?cs = "(upd_node n ?f cs)\<lparr>slots := (slots cs)(j := None)\<rparr>"
  have o: "owned (?f nd) = owned nd - {j}" using bitmapTestBit_clear [OF jb] by (auto simp: owned_def)
  have "j \<in> owned nd" using w(3) Some by simp
  then have c: "int (card (owned (?f nd))) = int (card (owned nd)) - 1"
    using card_gt_0_iff [of "owned nd"] by (auto simp: o of_nat_diff card_Diff_singleton)
  have n: "node_wf ?cs n (?f nd)" unfolding node_wf_def o using w c Some by (auto simp: o)
  have "node_wf ?cs m md" if "node cs m = Some md" "m \<noteq> n" for m md
    using slots_wfD [OF wf that(1)] that(2) Some by (auto simp: node_wf_def)
  then have "slots_wf ?cs" using wf n nd unfolding slots_wf_def by auto
  moreover have "reslotted cs ?cs"
    using nd by (auto simp: reslotted_def upd_node_def node_def map_of_upd_node same_node_def case_prod_beta comp_def option.rel_refl)
  ultimately show ?thesis using nd Some bit by (intro that [of ?cs True]) (simp_all add: clusterDelSlot_def clusterNodeClearSlotBit_def)
qed

lemma reslotted_upd:
  assumes "node cs n = Some nd" "same_node nd (f nd)"
  shows "reslotted cs ((upd_node n f cs)\<lparr>slots := x\<rparr>)"
  using assms by (auto simp: reslotted_def upd_node_def node_def map_of_upd_node case_prod_beta comp_def option.rel_refl)

lemma upd_node_twice: "upd_node n g (upd_node n f cs) = upd_node n (\<lambda>nd. g (f nd)) cs"
  by (simp add: upd_node_def comp_def case_prod_beta cong: if_cong)

lemma clusterAddSlot_ok:
  assumes wf: "slots_wf cs" and j: "slots cs j = None" "j < CLUSTER_SLOTS" and nd: "node cs n = Some nd"
  obtains cs' where "clusterAddSlot cs n j = Some (cs', True)" "slots_wf cs'" "slots cs' = (slots cs)(j \<mapsto> n)" "reslotted cs cs'"
    "owner_not_claiming_slot cs' = owner_not_claiming_slot cs"
proof -
  note w = slots_wfD [OF wf nd]
  have jb: "j div 8 < length (n_slots nd)" by (rule slot_in_bitmap [OF j(2) w(1)])
  have bit: "\<not> bitmapTestBit (n_slots nd) j" using slots_wf_bit [OF wf nd j(2)] j(1) by simp
  let ?f = "\<lambda>nd :: clusterNode. nd\<lparr>n_slots := bitmapSetBit (n_slots nd) j, n_numslots := n_numslots nd + 1\<rparr>"
  define g where "g = (if n_numslots nd + 1 = 1 \<and> clusterMastersHaveSlaves (upd_node n ?f cs)
    then (\<lambda>nd :: clusterNode. (?f nd)\<lparr>n_migrate_to := True\<rparr>) else ?f)"
  let ?cs = "(upd_node n g cs)\<lparr>slots := (slots cs)(j \<mapsto> n)\<rparr>"
  have e: "clusterAddSlot cs n j = Some (?cs, True)"
    using nd j bit by (simp add: clusterAddSlot_def clusterNodeSetSlotBit_def Let_def upd_node_twice g_def)
  have g: "n_slots (g nd) = bitmapSetBit (n_slots nd) j" "n_numslots (g nd) = n_numslots nd + 1" "same_node nd (g nd)"
    by (simp_all add: g_def same_node_def)
  have o: "owned (g nd) = insert j (owned nd)" using bitmapTestBit_set [OF jb] j(2) by (auto simp: owned_def g)
  have "j \<notin> owned nd" using w(3) j(1) by simp
  then have c: "int (card (owned (g nd))) = int (card (owned nd)) + 1" unfolding o by simp
  have n: "node_wf ?cs n (g nd)" unfolding node_wf_def c unfolding o g using w by auto
  have "node_wf ?cs m md" if "node cs m = Some md" "m \<noteq> n" for m md
    using slots_wfD [OF wf that(1)] that(2) j(1) by (auto simp: node_wf_def)
  then have "slots_wf ?cs" using wf n nd j(2) unfolding slots_wf_def by auto
  moreover have "reslotted cs ?cs" by (rule reslotted_upd [of cs n nd g, OF nd g(3)])
  ultimately show ?thesis using e by (intro that [of ?cs]) simp_all
qed

text \<open>A slot moves from whoever has it to another node.\<close>

lemma move_slot_ok:
  assumes wf: "slots_wf cs" and j: "j < CLUSTER_SLOTS" and nd: "node cs n \<noteq> None"
  obtains cs1 b cs' where "clusterDelSlot cs j = Some (cs1, b)" "clusterAddSlot cs1 n j = Some (cs', True)" "slots_wf cs'"
    "slots cs' = (slots cs)(j \<mapsto> n)" "reslotted cs cs'" "owner_not_claiming_slot cs' = owner_not_claiming_slot cs" "myself cs1 = myself cs"
proof -
  obtain cs1 b where 1: "clusterDelSlot cs j = Some (cs1, b)" "slots_wf cs1" "slots cs1 = (slots cs)(j := None)" "reslotted cs cs1"
    "owner_not_claiming_slot cs1 = owner_not_claiming_slot cs" by (rule clusterDelSlot_ok [OF wf])
  obtain nd where "node cs n = Some nd" using nd by blast
  then obtain nd1 where nd1: "node cs1 n = Some nd1" using reslotted_node(1) [OF 1(4)] by blast
  have "slots cs1 j = None" using 1(3) by simp
  then obtain cs' where 2: "clusterAddSlot cs1 n j = Some (cs', True)" "slots_wf cs'" "slots cs' = (slots cs1)(j \<mapsto> n)" "reslotted cs1 cs'"
    "owner_not_claiming_slot cs' = owner_not_claiming_slot cs1" using clusterAddSlot_ok [OF 1(2) _ j nd1] by blast
  show ?thesis using 1 2 reslotted_trans [OF 1(4) 2(4)] reslotted_fields(1) [OF 1(4)] by (intro that [of cs1 b cs']) simp_all
qed

section \<open>A configuration update\<close>

text \<open>Whether the update rebinds a slot, and the owner afterwards.\<close>

definition takes_over :: "clusterState \<Rightarrow> nat \<Rightarrow> 64 word \<Rightarrow> bytes \<Rightarrow> nat \<Rightarrow> bool" where
  "takes_over cs sender e claimed j \<longleftrightarrow> bitmapTestBit claimed j \<and> slots cs j \<noteq> Some sender \<and> importing_slots_from cs j = None \<and>
     (isSlotUnclaimed cs j \<or> (\<exists>o' nd. slots cs j = Some o' \<and> node cs o' = Some nd \<and> n_configEpoch nd < e))"

lemma rebinds_eq:
  assumes "slots_wf cs"
  shows "rebinds cs e j = Some (isSlotUnclaimed cs j \<or> (\<exists>o' nd. slots cs j = Some o' \<and> node cs o' = Some nd \<and> n_configEpoch nd < e))"
proof (cases "isSlotUnclaimed cs j")
  case False
  then obtain o' where "slots cs j = Some o'" by (auto simp: isSlotUnclaimed_def)
  then obtain nd where "node cs o' = Some nd" using slots_wf_slot [OF assms] by blast
  then show ?thesis using False \<open>slots cs j = Some o'\<close> by (simp add: rebinds_def slot_epoch_def)
qed (simp add: rebinds_def)

lemma slots_wf_not_claiming:
  "slots_wf cs \<Longrightarrow> length bm = CLUSTER_SLOTS div 8 \<Longrightarrow> slots_wf (cs\<lparr>owner_not_claiming_slot := bm\<rparr>)"
  by (simp add: slots_wf_def node_wf_def)

lemma slots_wf_sleep: "slots_wf (clusterDoBeforeSleep fl cs) = slots_wf cs"
  by (simp add: slots_wf_def node_wf_def)

lemma update_slot_ok:
  assumes wf: "slots_wf cs" and j: "j < CLUSTER_SLOTS" and nd: "node cs sender \<noteq> None"
  obtains cs' v' where "update_slot env sender e claimed cm (cs, v) j = Some (cs', v')" "slots_wf cs'" "reslotted cs cs'"
    "slots cs' = (if takes_over cs sender e claimed j then (slots cs)(j \<mapsto> sender) else slots cs)"
    "\<forall>i. i \<noteq> j \<longrightarrow> bitmapTestBit (owner_not_claiming_slot cs') i = bitmapTestBit (owner_not_claiming_slot cs) i"
    "(newmaster v' = None) = (newmaster v = None \<and> \<not> (takes_over cs sender e claimed j \<and> slots cs j = cm))"
proof -
  have len: "length (owner_not_claiming_slot cs) = CLUSTER_SLOTS div 8" using wf by (simp add: slots_wf_def)
  note jb = slot_in_bitmap [OF j len]
  let ?v = "v\<lparr>sender_slots := sender_slots v + 1\<rparr>"
  consider (mine) "bitmapTestBit claimed j" "slots cs j = Some sender" | (imp) "bitmapTestBit claimed j" "slots cs j \<noteq> Some sender" "importing_slots_from cs j \<noteq> None"
    | (keep) "bitmapTestBit claimed j" "slots cs j \<noteq> Some sender" "importing_slots_from cs j = None" "\<not> takes_over cs sender e claimed j"
    | (take) "takes_over cs sender e claimed j" | (off) "\<not> bitmapTestBit claimed j" unfolding takes_over_def by blast
  then show ?thesis
  proof cases
    case mine
    let ?cs = "cs\<lparr>owner_not_claiming_slot := bitmapClearBit (owner_not_claiming_slot cs) j\<rparr>"
    have e: "update_slot env sender e claimed cm (cs, v) j = Some (?cs, ?v)" using mine by (simp add: update_slot_def Let_def)
    have "\<not> takes_over cs sender e claimed j" using mine by (simp add: takes_over_def)
    then show ?thesis using bitmapTestBit_clear [OF jb] slots_wf_not_claiming [OF wf] len
      by (intro that [OF e]) (simp_all add: reslotted_not_claiming)
  next
    case imp
    then have e: "update_slot env sender e claimed cm (cs, v) j = Some (cs, ?v)" by (simp add: update_slot_def Let_def)
    have "\<not> takes_over cs sender e claimed j" using imp by (simp add: takes_over_def)
    then show ?thesis using wf by (intro that [OF e]) (simp_all add: reslotted_refl)
  next
    case keep
    then have "rebinds cs e j = Some False" unfolding rebinds_eq [OF wf] takes_over_def by blast
    then have e: "update_slot env sender e claimed cm (cs, v) j = Some (cs, ?v)" using keep by (simp add: update_slot_def Let_def)
    show ?thesis using wf keep by (intro that [OF e]) (simp_all add: reslotted_refl)
  next
    case take
    then have r: "rebinds cs e j = Some True" "bitmapTestBit claimed j" "slots cs j \<noteq> Some sender" "importing_slots_from cs j = None"
      unfolding rebinds_eq [OF wf] takes_over_def by blast+
    obtain cs1 b cs2 where m: "clusterDelSlot cs j = Some (cs1, b)" "clusterAddSlot cs1 sender j = Some (cs2, True)" "slots_wf cs2"
      "slots cs2 = (slots cs)(j \<mapsto> sender)" "reslotted cs cs2" "owner_not_claiming_slot cs2 = owner_not_claiming_slot cs"
      by (rule move_slot_ok [OF wf j nd])
    let ?cs = "clusterDoBeforeSleep {TODO_SAVE_CONFIG, TODO_UPDATE_STATE, TODO_FSYNC_CONFIG}
        (cs2\<lparr>owner_not_claiming_slot := bitmapClearBit (owner_not_claiming_slot cs2) j\<rparr>)"
    let ?v1 = "if slots cs j = Some (myself cs) \<and> countKeysInSlot env j \<noteq> 0 \<and> sender \<noteq> myself cs
                    then ?v\<lparr>dirty_slots := dirty_slots ?v @ [j]\<rparr> else ?v"
    let ?v2 = "if slots cs j = cm then ?v1\<lparr>newmaster := Some sender, migrated_our_slots := migrated_our_slots ?v1 + 1\<rparr> else ?v1"
    have e: "update_slot env sender e claimed cm (cs, v) j = Some (?cs, ?v2)"
      using r m(1,2) by (simp add: update_slot_def Let_def)
    have nm: "(newmaster ?v2 = None) = (newmaster v = None \<and> slots cs j \<noteq> cm)" by simp
    have "reslotted cs ?cs" by (rule reslotted_trans [OF m(5) reslotted_trans [OF reslotted_not_claiming reslotted_sleep]])
    moreover have "slots_wf ?cs" using m(3,6) len by (simp add: slots_wf_sleep slots_wf_not_claiming)
    moreover have "slots ?cs = (slots cs)(j \<mapsto> sender)" using m(4) by simp
    ultimately show ?thesis using take nm bitmapTestBit_clear [OF jb] m(6) by (intro that [OF e]) (simp_all only: if_True simp_thms sleep_simps, simp_all)
  next
    case off
    then have nt: "\<not> takes_over cs sender e claimed j" by (simp add: takes_over_def)
    show ?thesis
    proof (cases "slots cs j = Some sender")
      case True
      let ?cs = "cs\<lparr>owner_not_claiming_slot := bitmapSetBit (owner_not_claiming_slot cs) j\<rparr>"
      have e: "update_slot env sender e claimed cm (cs, v) j = Some (?cs, v)" using off True by (simp add: update_slot_def)
      show ?thesis using nt bitmapTestBit_set [OF jb] slots_wf_not_claiming [OF wf] len
        by (intro that [OF e]) (simp_all add: reslotted_not_claiming)
    next
      case False
      have e: "update_slot env sender e claimed cm (cs, v) j = Some (cs, v)" using off False by (simp add: update_slot_def)
      show ?thesis using nt wf by (intro that [OF e]) (simp_all add: reslotted_refl)
    qed
  qed
qed

lemma takes_over_cong:
  assumes "reslotted cs cs'" "slots cs' j = slots cs j"
    "bitmapTestBit (owner_not_claiming_slot cs') j = bitmapTestBit (owner_not_claiming_slot cs) j"
  shows "takes_over cs' sender e claimed j = takes_over cs sender e claimed j"
proof -
  have "(\<exists>nd. node cs' o' = Some nd \<and> n_configEpoch nd < e) \<longleftrightarrow> (\<exists>nd. node cs o' = Some nd \<and> n_configEpoch nd < e)" for o'
  proof (cases "node cs o'")
    case None
    then show ?thesis using reslotted_node(3) [OF assms(1), of o'] by simp
  next
    case (Some nd)
    then obtain nd' where "node cs' o' = Some nd'" "same_node nd nd'" using reslotted_node(1) [OF assms(1)] by blast
    then show ?thesis using Some same_node_fields(5) [of nd nd'] by simp
  qed
  then show ?thesis using assms(2,3) reslotted_fields(4) [OF assms(1)]
    by (auto simp: takes_over_def isSlotUnclaimed_def)
qed

lemma update_slots_loop_ok:
  assumes "slots_wf cs" "distinct js" "set js \<subseteq> {..<CLUSTER_SLOTS}" "node cs sender \<noteq> None"
  shows "\<exists>cs' v'. update_slots_loop env sender e claimed cm (cs, v) js = Some (cs', v') \<and> slots_wf cs' \<and> reslotted cs cs' \<and>
    slots cs' = (\<lambda>i. if i \<in> set js \<and> takes_over cs sender e claimed i then Some sender else slots cs i) \<and>
    (newmaster v' = None) = (newmaster v = None \<and> (\<forall>i \<in> set js. takes_over cs sender e claimed i \<longrightarrow> slots cs i \<noteq> cm))"
  using assms
proof (induction js arbitrary: cs v)
  case Nil
  then show ?case by (simp add: reslotted_refl)
next
  case (Cons j js)
  then have j: "j < CLUSTER_SLOTS" "j \<notin> set js" by auto
  obtain cs1 v1 where 1: "update_slot env sender e claimed cm (cs, v) j = Some (cs1, v1)" "slots_wf cs1" "reslotted cs cs1"
    "slots cs1 = (if takes_over cs sender e claimed j then (slots cs)(j \<mapsto> sender) else slots cs)"
    "\<forall>i. i \<noteq> j \<longrightarrow> bitmapTestBit (owner_not_claiming_slot cs1) i = bitmapTestBit (owner_not_claiming_slot cs) i"
    "(newmaster v1 = None) = (newmaster v = None \<and> \<not> (takes_over cs sender e claimed j \<and> slots cs j = cm))"
    by (rule update_slot_ok [OF Cons.prems(1) j(1) Cons.prems(4)])
  have s: "slots cs1 i = slots cs i" if "i \<noteq> j" for i using 1(4) that by simp
  have t: "takes_over cs1 sender e claimed i = takes_over cs sender e claimed i" if "i \<in> set js" for i
  proof -
    have "i \<noteq> j" using that j(2) by blast
    then show ?thesis using takes_over_cong [OF 1(3) s [OF \<open>i \<noteq> j\<close>]] 1(5) by simp
  qed
  obtain cs' v' where 2: "update_slots_loop env sender e claimed cm (cs1, v1) js = Some (cs', v')" "slots_wf cs'" "reslotted cs1 cs'"
    "slots cs' = (\<lambda>i. if i \<in> set js \<and> takes_over cs1 sender e claimed i then Some sender else slots cs1 i)"
    "(newmaster v' = None) = (newmaster v1 = None \<and> (\<forall>i \<in> set js. takes_over cs1 sender e claimed i \<longrightarrow> slots cs1 i \<noteq> cm))"
  proof -
    have pre: "distinct js" "set js \<subseteq> {..<CLUSTER_SLOTS}" "node cs1 sender \<noteq> None"
      using Cons.prems(2,3,4) reslotted_node(3) [OF 1(3), of sender] by simp_all
    show ?thesis using Cons.IH [OF 1(2) pre, of v1] by (elim exE conjE) (rule that)
  qed
  have "slots cs' i = (if i \<in> set (j # js) \<and> takes_over cs sender e claimed i then Some sender else slots cs i)" for i
    using 2(4) 1(4) t j(2) by (cases "i = j") auto
  moreover have "(newmaster v' = None) = (newmaster v = None \<and> (\<forall>i \<in> set (j # js). takes_over cs sender e claimed i \<longrightarrow> slots cs i \<noteq> cm))"
  proof -
    have "(\<forall>i \<in> set js. takes_over cs1 sender e claimed i \<longrightarrow> slots cs1 i \<noteq> cm) = (\<forall>i \<in> set js. takes_over cs sender e claimed i \<longrightarrow> slots cs i \<noteq> cm)"
    proof (rule ball_cong [OF refl])
      fix i assume i: "i \<in> set js"
      then have "i \<noteq> j" using j(2) by blast
      then show "(takes_over cs1 sender e claimed i \<longrightarrow> slots cs1 i \<noteq> cm) = (takes_over cs sender e claimed i \<longrightarrow> slots cs i \<noteq> cm)"
        using t [OF i] s by simp
    qed
    then show ?thesis unfolding 2(5) 1(6) by simp
  qed
  ultimately show ?case using 1(1) 2(1,2) reslotted_trans [OF 1(3) 2(3)] by (intro exI [of _ cs'] exI [of _ v']) (simp add: fun_eq_iff)
qed

section \<open>Becoming a replica\<close>

lemma node_wf_cong: "n_slots nd' = n_slots nd \<Longrightarrow> n_numslots nd' = n_numslots nd \<Longrightarrow> slots cs' = slots cs \<Longrightarrow> node_wf cs' n nd' = node_wf cs n nd"
  by (simp add: node_wf_def owned_def)

lemma slots_wf_upd:
  assumes wf: "slots_wf cs" and f: "\<And>nd. n_slots (f nd) = n_slots nd \<and> n_numslots (f nd) = n_numslots nd"
  shows "slots_wf (upd_node n f cs)"
proof -
  have "node_wf (upd_node n f cs) m nd'" if nd': "node (upd_node n f cs) m = Some nd'" for m nd'
  proof -
    obtain nd where "node cs m = Some nd" "n_slots nd' = n_slots nd" "n_numslots nd' = n_numslots nd"
      using nd' f by (auto split: if_splits)
    then show ?thesis using wf node_wf_cong [of nd' nd "upd_node n f cs" cs m] by (simp add: slots_wf_def)
  qed
  then show ?thesis using wf unfolding slots_wf_def by auto
qed

lemma slots_wf_other:
  "slots_wf (cs\<lparr>mf_end := a, mf_can_start := b, mf_slave := c, mf_master_offset := d\<rparr>) = slots_wf cs"
  "slots_wf (cs\<lparr>migrating_slots_to := x, importing_slots_from := y\<rparr>) = slots_wf cs"
  by (simp_all add: slots_wf_def node_wf_def)

lemma clusterNodeRemoveSlave_ok:
  assumes "slots_wf cs" "node cs m \<noteq> None"
  obtains cs' b where "clusterNodeRemoveSlave cs m n = Some (cs', b)" "slots_wf cs'" "slots cs' = slots cs" "myself cs' = myself cs"
    "\<forall>k. node cs' k = None \<longleftrightarrow> node cs k = None"
  using assms by (cases "n \<in> set (n_slaves (the (node cs m)))")
    (auto intro!: that slots_wf_upd simp: clusterNodeRemoveSlave_def Let_def split: if_splits)

lemma clusterNodeAddSlave_ok:
  assumes "slots_wf cs" "node cs m \<noteq> None"
  obtains cs' b where "clusterNodeAddSlave cs m n = Some (cs', b)" "slots_wf cs'" "slots cs' = slots cs" "myself cs' = myself cs"
  using assms by (cases "n \<in> set (n_slaves (the (node cs m)))")
    (auto intro!: that slots_wf_upd simp: clusterNodeAddSlave_def Let_def split: if_splits)

lemma clusterSetMaster_ok:
  assumes wf: "slots_wf cs" and me: "node cs (myself cs) = Some me" "n_numslots me = 0" and n: "n \<noteq> myself cs" "node cs n \<noteq> None"
    and m: "\<And>m. n_slaveof me = Some m \<Longrightarrow> node cs m \<noteq> None"
  obtains cs' where "clusterSetMaster cs n = Some cs'" "slots_wf cs'" "slots cs' = slots cs"
proof -
  let ?first = "if n_master me then
      Some (clusterCloseAllSlots (upd_node (myself cs) (\<lambda>nd. nd\<lparr>n_master := False, n_migrate_to := False, n_slave := True\<rparr>) cs))
    else case n_slaveof me of None \<Rightarrow> Some cs
      | Some m \<Rightarrow> do { (cs, _) \<leftarrow> clusterNodeRemoveSlave cs m (myself cs); Some cs }"
  have "\<exists>cs1. ?first = Some cs1 \<and> slots_wf cs1 \<and> slots cs1 = slots cs \<and> myself cs1 = myself cs \<and> (\<forall>k. node cs1 k = None \<longleftrightarrow> node cs k = None)"
  proof (cases "n_master me")
    case True
    then show ?thesis using slots_wf_upd [OF wf, of "\<lambda>nd. nd\<lparr>n_master := False, n_migrate_to := False, n_slave := True\<rparr>" "myself cs"]
      by (simp add: clusterCloseAllSlots_def slots_wf_other)
  next
    case False
    show ?thesis
    proof (cases "n_slaveof me")
      case None
      then show ?thesis using False wf by simp
    next
      case (Some m')
      obtain cs1 b where "clusterNodeRemoveSlave cs m' (myself cs) = Some (cs1, b)" "slots_wf cs1" "slots cs1 = slots cs"
        "myself cs1 = myself cs" "\<forall>k. node cs1 k = None \<longleftrightarrow> node cs k = None"
        by (rule clusterNodeRemoveSlave_ok [OF wf m [OF Some], of "myself cs"])
      then show ?thesis using False Some by simp
    qed
  qed
  then obtain cs1 where 1: "?first = Some cs1" "slots_wf cs1" "slots cs1 = slots cs" "myself cs1 = myself cs" "\<forall>k. node cs1 k = None \<longleftrightarrow> node cs k = None"
    by blast
  let ?cs2 = "upd_node (myself cs1) (\<lambda>nd. nd\<lparr>n_slaveof := Some n\<rparr>) cs1"
  have "slots_wf ?cs2" "node ?cs2 n \<noteq> None" using slots_wf_upd [OF 1(2)] 1(4,5) n by simp_all
  then obtain cs3 b where 3: "clusterNodeAddSlave ?cs2 n (myself ?cs2) = Some (cs3, b)" "slots_wf cs3" "slots cs3 = slots ?cs2"
    by (rule clusterNodeAddSlave_ok)
  have "clusterSetMaster cs n = Some (resetManualFailover cs3)"
    using me n(1) 1(1) 3(1) by (simp add: clusterSetMaster_def Let_def)
  moreover have "slots_wf (resetManualFailover cs3)" using 3(2) by (simp add: resetManualFailover_def slots_wf_other)
  ultimately show ?thesis using 3(3) 1(3) by (intro that [of "resetManualFailover cs3"]) (simp_all add: resetManualFailover_def)
qed

text \<open>
  What the code assumes of this node: it is a master, or a slave whose master is known and that serves no
  slots itself. Masters that nodes refer to are in the table.
\<close>

definition roles_wf :: "clusterState \<Rightarrow> bool" where
  "roles_wf cs \<longleftrightarrow> (\<exists>me. node cs (myself cs) = Some me \<and>
     (if n_master me then n_slaveof me = None else n_numslots me = 0 \<and> n_slaveof me \<noteq> None)) \<and>
     (\<forall>n nd m. node cs n = Some nd \<longrightarrow> n_slaveof nd = Some m \<longrightarrow> node cs m \<noteq> None)"

lemma same_node_rel: "reslotted cs cs' \<Longrightarrow> node cs n = Some nd \<Longrightarrow> node cs' n = Some nd' \<Longrightarrow> same_node nd nd'"
  using reslotted_node(1) by fastforce

lemma roles_wf_reslotted:
  assumes r: "roles_wf cs" and rs: "reslotted cs cs'" and wf: "slots_wf cs" "slots_wf cs'"
    and sl: "\<And>i. slots cs' i = Some (myself cs) \<Longrightarrow> slots cs i = Some (myself cs)"
  shows "roles_wf cs'"
proof -
  obtain me where me: "node cs (myself cs) = Some me"
    "if n_master me then n_slaveof me = None else n_numslots me = 0 \<and> n_slaveof me \<noteq> None" using r unfolding roles_wf_def by blast
  obtain me' where me': "node cs' (myself cs) = Some me'" "same_node me me'" using reslotted_node(1) [OF rs me(1)] by blast
  have "n_numslots me' = 0" if "n_numslots me = 0"
  proof -
    have "owned me = {}" using that slots_wfD(2) [OF wf(1) me(1)] by simp
    then have "owned me' = {}" using slots_wfD(3) [OF wf(1) me(1)] slots_wfD(3) [OF wf(2) me'(1)] sl by auto
    then show ?thesis using slots_wfD(2) [OF wf(2) me'(1)] by simp
  qed
  then have "if n_master me' then n_slaveof me' = None else n_numslots me' = 0 \<and> n_slaveof me' \<noteq> None"
    using me(2) same_node_fields [OF me'(2)] by (auto split: if_splits)
  moreover have "node cs' m \<noteq> None" if nd': "node cs' n = Some nd'" "n_slaveof nd' = Some m" for n nd' m
  proof -
    obtain nd where "node cs n = Some nd" "same_node nd nd'" using reslotted_node(2) [OF rs nd'(1)] by blast
    then have "node cs m \<noteq> None" using r nd'(2) same_node_fields(6) [of nd nd'] unfolding roles_wf_def by auto
    then show ?thesis using reslotted_node(3) [OF rs, of m] by simp
  qed
  ultimately show ?thesis using me'(1) reslotted_fields(1) [OF rs] unfolding roles_wf_def by auto
qed

lemma update_role_ok:
  assumes wf: "slots_wf cs" and r: "roles_wf cs" and s: "node cs sender \<noteq> None" "sender \<noteq> myself cs"
    and me: "node cs (myself cs) = Some me" and cm: "cm = (if n_master me then Some (myself cs) else n_slaveof me)"
  shows "\<exists>cs' d. update_role env cs sender cm v = Some (cs', d) \<and> slots_wf cs' \<and> slots cs' = slots cs"
proof -
  have me2: "if n_master me then n_slaveof me = None else n_numslots me = 0 \<and> n_slaveof me \<noteq> None" using r me unfolding roles_wf_def by auto
  have known: "\<And>m. n_slaveof me = Some m \<Longrightarrow> node cs m \<noteq> None" using r me unfolding roles_wf_def by blast
  obtain c nd where c: "cm = Some c" "node cs c = Some nd" "n_master me \<Longrightarrow> nd = me"
  proof (cases "n_master me")
    case True
    then show ?thesis using cm me by (intro that [of "myself cs" me]) simp_all
  next
    case False
    then obtain m where "n_slaveof me = Some m" using me2 by auto
    then show ?thesis using cm False known that by auto
  qed
  have set: "\<exists>cs'. clusterSetMaster cs n = Some cs' \<and> slots_wf cs' \<and> slots cs' = slots cs"
    if "n_numslots me = 0" "n \<noteq> myself cs" "node cs n \<noteq> None" for n
    using clusterSetMaster_ok [OF wf me that known] by blast
  show ?thesis
  proof (cases "newmaster v \<noteq> None \<and> n_numslots nd = 0 \<and> (cluster_allow_replica_migration env \<or> sender_slots v = migrated_our_slots v)")
    case True
    then have "n_numslots me = 0" using c(3) me2 by (auto split: if_splits)
    then obtain cs' where "clusterSetMaster cs sender = Some cs'" "slots_wf cs'" "slots cs' = slots cs" using set s by blast
    then show ?thesis using True c(1,2) by (auto simp: update_role_def slots_wf_sleep)
  next
    case False
    show ?thesis
    proof (cases "\<exists>m nd' g. n_slaveof me = Some m \<and> node cs m = Some nd' \<and> n_slaveof nd' = Some g \<and> g \<noteq> myself cs")
      case True
      then obtain m nd' g where g: "n_slaveof me = Some m" "node cs m = Some nd'" "n_slaveof nd' = Some g" "g \<noteq> myself cs" by blast
      then have "n_numslots me = 0" "node cs g \<noteq> None" using me2 r unfolding roles_wf_def by (auto split: if_splits)
      then obtain cs' where "clusterSetMaster cs g = Some cs'" "slots_wf cs'" "slots cs' = slots cs" using set g(4) by blast
      then show ?thesis using False g c me by (auto simp: update_role_def slots_wf_sleep)
    next
      case nog: False
      have "\<exists>g. (case n_slaveof me of None \<Rightarrow> Some None | Some m \<Rightarrow> do { nd \<leftarrow> node cs m; Some (n_slaveof nd) }) = Some g \<and>
          \<not> (g \<noteq> None \<and> g \<noteq> Some (myself cs))"
        using nog known by (cases "n_slaveof me") fastforce+
      then show ?thesis using False c me wf by (auto simp: update_role_def)
    qed
  qed
qed

lemma update_config_ok:
  assumes wf: "slots_wf cs" and r: "roles_wf cs" and s: "node cs sender \<noteq> None"
  shows "\<exists>cs' d. clusterUpdateSlotsConfigWith env cs sender e claimed = Some (cs', d) \<and> slots_wf cs' \<and>
    slots cs' = (\<lambda>j. if sender \<noteq> myself cs \<and> j < CLUSTER_SLOTS \<and> takes_over cs sender e claimed j then Some sender else slots cs j)"
proof -
  obtain me where me: "node cs (myself cs) = Some me" using r unfolding roles_wf_def by blast
  show ?thesis
  proof (cases "sender = myself cs")
    case True
    then show ?thesis using me wf by (simp add: clusterUpdateSlotsConfigWith_def Let_def)
  next
    case False
    define cm where "cm = (if n_master me then Some (myself cs) else n_slaveof me)"
    define v0 where "v0 = \<lparr>newmaster = None, dirty_slots = [], sender_slots = 0, migrated_our_slots = 0\<rparr>"
    obtain cs1 v where 1: "update_slots_loop env sender e claimed cm (cs, v0) [0..<CLUSTER_SLOTS] = Some (cs1, v)" "slots_wf cs1" "reslotted cs cs1"
      "slots cs1 = (\<lambda>i. if i \<in> set [0..<CLUSTER_SLOTS] \<and> takes_over cs sender e claimed i then Some sender else slots cs i)"
      using update_slots_loop_ok [OF wf distinct_upt, of 0 CLUSTER_SLOTS sender env e claimed cm v0] s
      by (auto simp: atLeast0LessThan)
    have m1: "myself cs1 = myself cs" by (rule reslotted_fields(1) [OF 1(3)])
    have r1: "roles_wf cs1" by (rule roles_wf_reslotted [OF r 1(3) wf 1(2)]) (use 1(4) False in \<open>auto split: if_splits\<close>)
    obtain me1 where me1: "node cs1 (myself cs1) = Some me1" "same_node me me1" using reslotted_node(1) [OF 1(3) me] m1 by auto
    have cm1: "cm = (if n_master me1 then Some (myself cs1) else n_slaveof me1)" using same_node_fields [OF me1(2)] m1 by (simp add: cm_def)
    have s1: "node cs1 sender \<noteq> None" "sender \<noteq> myself cs1" using s False m1 reslotted_node(3) [OF 1(3)] by simp_all
    obtain cs2 d where 2: "update_role env cs1 sender cm v = Some (cs2, d)" "slots_wf cs2" "slots cs2 = slots cs1"
      using update_role_ok [OF 1(2) r1 s1 me1(1) cm1] by blast
    have eq: "slots cs1 = (\<lambda>j. if sender \<noteq> myself cs \<and> j < CLUSTER_SLOTS \<and> takes_over cs sender e claimed j then Some sender else slots cs j)"
      using 1(4) False by auto
    show ?thesis
    proof (cases "cluster_no_redirection env")
      case True
      then show ?thesis using 1(1,2) me False eq by (simp add: clusterUpdateSlotsConfigWith_def Let_def cm_def [symmetric] v0_def [symmetric])
    next
      case nr: False
      show ?thesis using 2 nr 1(1) me False eq
        by (simp add: clusterUpdateSlotsConfigWith_def Let_def cm_def [symmetric] v0_def [symmetric])
    qed
  qed
qed

end
