(* ===== verification/Cluster_Failover.thy ===== *)
theory Cluster_Failover
  imports Cluster
begin

text \<open>
  Failure detection, epochs, and the election of a replica that takes over the slots of its failed master
  (\<^verbatim>\<open>cluster.c\<close>): the packets nodes exchange, the vote of a master, the steps of a candidate, and the
  processing of a packet from a known node. A handler returns the new state and the packets it sends.
\<close>

section \<open>Packets\<close>

text \<open>The types of packets that are modelled; \<open>MT_UPDATE\<close> and \<open>MT_FAIL\<close> carry their payload.\<close>

datatype msg_type = MT_PING | MT_PONG | MT_FAIL nat | MT_AUTH_REQUEST | MT_AUTH_ACK
  | MT_UPDATE nat "64 word" bytes | MT_MFSTART

text \<open>\<^verbatim>\<open>clusterMsg\<close>; the gossip section lists nodes with their failure flag.\<close>

record clusterMsg =
  h_type :: msg_type
  h_sender :: nat
  h_myslots :: bytes
  h_slaveof :: "nat option"
  h_nofailover :: bool
  h_currentEpoch :: "64 word"
  h_configEpoch :: "64 word"
  h_offset :: int
  h_paused :: bool
  h_forceack :: bool
  h_gossip :: "(nat \<times> bool) list"

type_synonym packets = "(nat \<times> clusterMsg) list"

definition clusterBuildMessageHdr :: "cluster_env \<Rightarrow> clusterState \<Rightarrow> msg_type \<Rightarrow> clusterMsg option" where
  "clusterBuildMessageHdr env cs ty =
     do {
       me \<leftarrow> node cs (myself cs);
       master \<leftarrow> (if n_slave me then case n_slaveof me of None \<Rightarrow> Some me | Some m \<Rightarrow> node cs m else Some me);
       Some \<lparr>h_type = ty, h_sender = myself cs, h_myslots = n_slots master, h_slaveof = n_slaveof me,
         h_nofailover = n_nofailover me, h_currentEpoch = currentEpoch cs, h_configEpoch = n_configEpoch master,
         h_offset = (if n_slave me then replicationGetSlaveOffset env else master_repl_offset env),
         h_paused = (n_master me \<and> mf_end cs \<noteq> 0), h_forceack = False, h_gossip = []\<rparr>
     }"

definition clusterSendMessage :: "clusterState \<Rightarrow> nat \<Rightarrow> clusterMsg \<Rightarrow> packets option" where
  "clusterSendMessage cs n m = do { nd \<leftarrow> node cs n; Some (if n_link nd then [(n, m)] else []) }"

definition clusterBroadcastMessage :: "clusterState \<Rightarrow> clusterMsg \<Rightarrow> packets" where
  "clusterBroadcastMessage cs m =
     map (\<lambda>(n, _). (n, m)) (filter (\<lambda>(n, nd). n \<noteq> myself cs \<and> \<not> n_handshake nd \<and> n_link nd) (nodes cs))"

text \<open>A ping or pong that is sent back over the link on which a packet came, without its gossip section.\<close>

definition clusterSendPing :: "cluster_env \<Rightarrow> clusterState \<Rightarrow> nat \<Rightarrow> msg_type \<Rightarrow> packets option" where
  "clusterSendPing env cs n ty = do { m \<leftarrow> clusterBuildMessageHdr env cs ty; Some [(n, m)] }"

text \<open>\<open>local\<close> is \<^verbatim>\<open>CLUSTER_BROADCAST_LOCAL_SLAVES\<close>.\<close>

definition clusterBroadcastPong :: "cluster_env \<Rightarrow> clusterState \<Rightarrow> bool \<Rightarrow> packets option" where
  "clusterBroadcastPong env cs local =
     do {
       me \<leftarrow> node cs (myself cs);
       m \<leftarrow> clusterBuildMessageHdr env cs MT_PONG;
       Some (map (\<lambda>(n, _). (n, m)) (filter (\<lambda>(n, nd). n_link nd \<and> n \<noteq> myself cs \<and> \<not> n_handshake nd \<and>
         (\<not> local \<or> n_slave nd \<and> n_slaveof nd \<noteq> None \<and> (n_slaveof nd = Some (myself cs) \<or> n_slaveof nd = n_slaveof me))) (nodes cs)))
     }"

definition clusterSendUpdate :: "cluster_env \<Rightarrow> clusterState \<Rightarrow> nat \<Rightarrow> nat \<Rightarrow> packets option" where
  "clusterSendUpdate env cs n about =
     do {
       nd \<leftarrow> node cs about;
       m \<leftarrow> clusterBuildMessageHdr env cs
         (MT_UPDATE about (n_configEpoch nd) (map2 (\<lambda>s c. s AND NOT c) (n_slots nd) (owner_not_claiming_slot cs)));
       clusterSendMessage cs n m
     }"

section \<open>Failure reports\<close>

fun clusterNodeAddFailureReport :: "int \<Rightarrow> nat \<Rightarrow> (nat \<times> int) list \<Rightarrow> (nat \<times> int) list" where
  "clusterNodeAddFailureReport now sender [] = [(sender, now)]"
| "clusterNodeAddFailureReport now sender ((n, t) # fr) =
     (if n = sender then (n, now) # fr else (n, t) # clusterNodeAddFailureReport now sender fr)"

definition clusterNodeCleanupFailureReports :: "cluster_env \<Rightarrow> (nat \<times> int) list \<Rightarrow> (nat \<times> int) list" where
  "clusterNodeCleanupFailureReports env fr = filter (\<lambda>(_, t). \<not> mstime env - t > cluster_node_timeout env * 2) fr"

fun remove_report :: "nat \<Rightarrow> (nat \<times> int) list \<Rightarrow> (nat \<times> int) list" where
  "remove_report sender [] = []"
| "remove_report sender ((n, t) # fr) = (if n = sender then fr else (n, t) # remove_report sender fr)"

definition clusterNodeDelFailureReport :: "cluster_env \<Rightarrow> nat \<Rightarrow> (nat \<times> int) list \<Rightarrow> (nat \<times> int) list" where
  "clusterNodeDelFailureReport env sender fr =
     (if sender \<notin> fst ` set fr then fr else clusterNodeCleanupFailureReports env (remove_report sender fr))"

definition clusterNodeFailureReportsCount :: "cluster_env \<Rightarrow> (nat \<times> int) list \<Rightarrow> (nat \<times> int) list \<times> int" where
  "clusterNodeFailureReportsCount env fr =
     (let fr = clusterNodeCleanupFailureReports env fr in (fr, int (length fr)))"

definition markNodeAsFailingIfNeeded :: "cluster_env \<Rightarrow> clusterState \<Rightarrow> nat \<Rightarrow> (clusterState \<times> packets) option" where
  "markNodeAsFailingIfNeeded env cs n =
     do {
       nd \<leftarrow> node cs n;
       me \<leftarrow> node cs (myself cs);
       let needed_quorum = cluster_size cs div 2 + 1;
       if \<not> n_pfail nd then Some (cs, [])
       else if n_fail nd then Some (cs, [])
       else do {
         let (fr, failures) = clusterNodeFailureReportsCount env (n_fail_reports nd);
         let cs = upd_node n (\<lambda>nd. nd\<lparr>n_fail_reports := fr\<rparr>) cs;
         let failures = (if n_master me then failures + 1 else failures);
         if failures < needed_quorum then Some (cs, [])
         else do {
           let cs = upd_node n (\<lambda>nd. nd\<lparr>n_pfail := False, n_fail := True, n_fail_time := mstime env\<rparr>) cs;
           m \<leftarrow> clusterBuildMessageHdr env cs (MT_FAIL n);
           Some (clusterDoBeforeSleep {TODO_UPDATE_STATE, TODO_SAVE_CONFIG} cs, clusterBroadcastMessage cs m)
         }
       }
     }"

definition clearNodeFailureIfNeeded :: "cluster_env \<Rightarrow> clusterState \<Rightarrow> nat \<Rightarrow> clusterState option" where
  "clearNodeFailureIfNeeded env cs n =
     do {
       nd \<leftarrow> node cs n;
       if \<not> n_fail nd then None
       else Some (if n_slave nd \<or> n_numslots nd = 0 \<or>
                     n_master nd \<and> n_numslots nd > 0 \<and> mstime env - n_fail_time nd > cluster_node_timeout env * 2
                  then clusterDoBeforeSleep {TODO_UPDATE_STATE, TODO_SAVE_CONFIG} (upd_node n (\<lambda>nd. nd\<lparr>n_fail := False\<rparr>) cs)
                  else cs)
     }"

text \<open>The part of \<^verbatim>\<open>clusterProcessGossipSection\<close> on the failure reports of known nodes: one entry, and the loop.\<close>

definition gossip_report :: "cluster_env \<Rightarrow> clusterState \<Rightarrow> nat \<Rightarrow> nat \<Rightarrow> bool \<Rightarrow> (clusterState \<times> packets) option" where
  "gossip_report env cs sender n failing =
     do {
       sd \<leftarrow> node cs sender;
       case node cs n of
         None \<Rightarrow> Some (cs, [])
       | Some nd \<Rightarrow>
           if n_master sd \<and> n \<noteq> myself cs then
             if failing
             then markNodeAsFailingIfNeeded env
               (upd_node n (\<lambda>nd. nd\<lparr>n_fail_reports := clusterNodeAddFailureReport (mstime env) sender (n_fail_reports nd)\<rparr>) cs) n
             else Some (upd_node n (\<lambda>nd. nd\<lparr>n_fail_reports := clusterNodeDelFailureReport env sender (n_fail_reports nd)\<rparr>) cs, [])
           else Some (cs, [])
     }"

fun clusterProcessGossipSection ::
  "cluster_env \<Rightarrow> clusterState \<Rightarrow> nat \<Rightarrow> (nat \<times> bool) list \<Rightarrow> (clusterState \<times> packets) option" where
  "clusterProcessGossipSection env cs sender [] = Some (cs, [])"
| "clusterProcessGossipSection env cs sender ((n, failing) # g) =
     do {
       (cs, out) \<leftarrow> gossip_report env cs sender n failing;
       (cs, out') \<leftarrow> clusterProcessGossipSection env cs sender g;
       Some (cs, out @ out')
     }"

section \<open>Epochs\<close>

definition clusterGetMaxEpoch :: "clusterState \<Rightarrow> 64 word" where
  "clusterGetMaxEpoch cs =
     (let mx = foldl (\<lambda>mx (_, nd). if n_configEpoch nd > mx then n_configEpoch nd else mx) 0 (nodes cs)
      in if mx < currentEpoch cs then currentEpoch cs else mx)"

definition clusterBumpConfigEpochWithoutConsensus :: "clusterState \<Rightarrow> (clusterState \<times> bool) option" where
  "clusterBumpConfigEpochWithoutConsensus cs =
     do {
       me \<leftarrow> node cs (myself cs);
       if n_configEpoch me = 0 \<or> n_configEpoch me \<noteq> clusterGetMaxEpoch cs then do {
         let cs = cs\<lparr>currentEpoch := currentEpoch cs + 1\<rparr>;
         let cs = upd_node (myself cs) (\<lambda>nd. nd\<lparr>n_configEpoch := currentEpoch cs\<rparr>) cs;
         Some (clusterDoBeforeSleep {TODO_SAVE_CONFIG, TODO_FSYNC_CONFIG} cs, True)
       }
       else Some (cs, False)
     }"

definition clusterHandleConfigEpochCollision :: "clusterState \<Rightarrow> nat \<Rightarrow> clusterState option" where
  "clusterHandleConfigEpochCollision cs sender =
     do {
       sd \<leftarrow> node cs sender;
       me \<leftarrow> node cs (myself cs);
       Some (if n_configEpoch sd \<noteq> n_configEpoch me \<or> \<not> n_master sd \<or> \<not> n_master me then cs
             else if sender \<le> myself cs then cs
             else let cs = cs\<lparr>currentEpoch := currentEpoch cs + 1\<rparr>
                  in upd_node (myself cs) (\<lambda>nd. nd\<lparr>n_configEpoch := currentEpoch cs\<rparr>) cs)
     }"

section \<open>The vote of a master\<close>

definition clusterSendFailoverAuth :: "cluster_env \<Rightarrow> clusterState \<Rightarrow> nat \<Rightarrow> packets option" where
  "clusterSendFailoverAuth env cs n =
     do {
       nd \<leftarrow> node cs n;
       if \<not> n_link nd then Some []
       else do { m \<leftarrow> clusterBuildMessageHdr env cs MT_AUTH_ACK; clusterSendMessage cs n m }
     }"

text \<open>No claimed slot is assigned to a node with a greater configuration epoch.\<close>

definition claims_current :: "clusterState \<Rightarrow> bytes \<Rightarrow> 64 word \<Rightarrow> nat list \<Rightarrow> bool" where
  "claims_current cs claimed_slots requestConfigEpoch js =
     list_all (\<lambda>j. \<not> bitmapTestBit claimed_slots j \<or> isSlotUnclaimed cs j \<or>
       (case slot_epoch cs j of None \<Rightarrow> True | Some e \<Rightarrow> e \<le> requestConfigEpoch)) js"

text \<open>The vote itself; \<open>mn\<close> is the master of the candidate \<open>n\<close>.\<close>

definition grant_vote :: "cluster_env \<Rightarrow> clusterState \<Rightarrow> nat \<Rightarrow> nat \<Rightarrow> (clusterState \<times> packets) option" where
  "grant_vote env cs n mn =
     do {
       let cs = cs\<lparr>lastVoteEpoch := currentEpoch cs\<rparr>;
       let cs = upd_node mn (\<lambda>nd. nd\<lparr>n_voted_time := mstime env\<rparr>) cs;
       let cs = clusterDoBeforeSleep {TODO_SAVE_CONFIG, TODO_FSYNC_CONFIG} cs;
       out \<leftarrow> clusterSendFailoverAuth env cs n;
       Some (cs, out)
     }"

definition clusterSendFailoverAuthIfNeeded ::
  "cluster_env \<Rightarrow> clusterState \<Rightarrow> nat \<Rightarrow> clusterMsg \<Rightarrow> (clusterState \<times> packets) option" where
  "clusterSendFailoverAuthIfNeeded env cs n request =
     do {
       nd \<leftarrow> node cs n;
       me \<leftarrow> node cs (myself cs);
       if n_slave me \<or> n_numslots me = 0 then Some (cs, [])
       else if h_currentEpoch request < currentEpoch cs then Some (cs, [])
       else if lastVoteEpoch cs = currentEpoch cs then Some (cs, [])
       else if n_master nd then Some (cs, [])
       else case n_slaveof nd of
         None \<Rightarrow> Some (cs, [])
       | Some mn \<Rightarrow> do {
           master \<leftarrow> node cs mn;
           if \<not> n_fail master \<and> \<not> h_forceack request then Some (cs, [])
           else if mstime env - n_voted_time master < cluster_node_timeout env * 2 then Some (cs, [])
           else if \<not> claims_current cs (h_myslots request) (h_configEpoch request) [0..<CLUSTER_SLOTS] then Some (cs, [])
           else grant_vote env cs n mn
         }
     }"

section \<open>The state of the cluster\<close>

definition master_with_slots :: "clusterNode \<Rightarrow> bool" where
  "master_with_slots nd \<longleftrightarrow> n_master nd \<and> n_numslots nd \<noteq> 0"

definition all_covered :: "clusterState \<Rightarrow> nat list \<Rightarrow> bool" where
  "all_covered cs js =
     list_all (\<lambda>j. case slots cs j of None \<Rightarrow> False | Some n \<Rightarrow> (case node cs n of None \<Rightarrow> True | Some nd \<Rightarrow> \<not> n_fail nd)) js"

text \<open>A master that was among the minority waits before it returns to the state in which it serves queries.\<close>

definition change_state :: "cluster_env \<Rightarrow> clusterNode \<Rightarrow> bool \<Rightarrow> clusterState \<Rightarrow> clusterState" where
  "change_state env me new_state cs =
     (if new_state \<noteq> state_ok cs then
        let rejoin_delay = cluster_node_timeout env;
            rejoin_delay = (if rejoin_delay > 5000 then 5000 else rejoin_delay);
            rejoin_delay = (if rejoin_delay < 500 then 500 else rejoin_delay)
        in if new_state \<and> n_master me \<and> mstime env - among_minority_time cs < rejoin_delay then cs
           else cs\<lparr>state_ok := new_state\<rparr>
      else cs)"

definition evaluate_state :: "cluster_env \<Rightarrow> clusterNode \<Rightarrow> clusterState \<Rightarrow> clusterState" where
  "evaluate_state env me cs =
     (let new_state = (\<not> cluster_require_full_coverage env \<or> all_covered cs [0..<CLUSTER_SLOTS]);
          cs = cs\<lparr>cluster_size := int (length (filter (\<lambda>(_, nd). master_with_slots nd) (nodes cs)))\<rparr>;
          reachable_masters = int (length (filter (\<lambda>(_, nd). master_with_slots nd \<and> \<not> n_fail nd \<and> \<not> n_pfail nd) (nodes cs)))
      in if reachable_masters < cluster_size cs div 2 + 1
         then change_state env me False (cs\<lparr>among_minority_time := mstime env\<rparr>)
         else change_state env me new_state cs)"

definition clusterUpdateState :: "cluster_env \<Rightarrow> clusterState \<Rightarrow> clusterState option" where
  "clusterUpdateState env cs =
     do {
       me \<leftarrow> node cs (myself cs);
       let cs = cs\<lparr>todo_before_sleep := todo_before_sleep cs - {TODO_UPDATE_STATE}\<rparr>;
       let cs = (if first_call_time cs = 0 then cs\<lparr>first_call_time := mstime env\<rparr> else cs);
       Some (if n_master me \<and> \<not> state_ok cs \<and> mstime env - first_call_time cs < 2000 then cs
             else evaluate_state env me cs)
     }"

section \<open>The candidate\<close>

definition clusterGetSlaveRank :: "cluster_env \<Rightarrow> clusterState \<Rightarrow> int option" where
  "clusterGetSlaveRank env cs =
     do {
       me \<leftarrow> node cs (myself cs);
       if \<not> n_slave me then None
       else case n_slaveof me of
         None \<Rightarrow> Some 0
       | Some mn \<Rightarrow> do {
           master \<leftarrow> node cs mn;
           Some (int (length (filter (\<lambda>s. s \<noteq> myself cs \<and>
             (case node cs s of None \<Rightarrow> False | Some nd \<Rightarrow> \<not> n_nofailover nd \<and> n_repl_offset nd > replicationGetSlaveOffset env))
             (n_slaves master))))
         }
     }"

definition clusterRequestFailoverAuth :: "cluster_env \<Rightarrow> clusterState \<Rightarrow> packets option" where
  "clusterRequestFailoverAuth env cs =
     do {
       m \<leftarrow> clusterBuildMessageHdr env cs MT_AUTH_REQUEST;
       Some (clusterBroadcastMessage cs (m\<lparr>h_forceack := (mf_end cs \<noteq> 0)\<rparr>))
     }"

text \<open>The loop of \<^verbatim>\<open>clusterFailoverReplaceYourMaster\<close> over the slots.\<close>

fun claim_slots :: "clusterState \<Rightarrow> nat \<Rightarrow> nat list \<Rightarrow> clusterState option" where
  "claim_slots cs oldmaster [] = Some cs"
| "claim_slots cs oldmaster (j # js) =
     do {
       om \<leftarrow> node cs oldmaster;
       if clusterNodeGetSlotBit om j then do {
         (cs, _) \<leftarrow> clusterDelSlot cs j;
         (cs, _) \<leftarrow> clusterAddSlot cs (myself cs) j;
         claim_slots cs oldmaster js
       }
       else claim_slots cs oldmaster js
     }"

definition clusterFailoverReplaceYourMaster :: "cluster_env \<Rightarrow> clusterState \<Rightarrow> (clusterState \<times> packets) option" where
  "clusterFailoverReplaceYourMaster env cs =
     do {
       me \<leftarrow> node cs (myself cs);
       case n_slaveof me of
         None \<Rightarrow> Some (cs, [])
       | Some oldmaster \<Rightarrow>
           if n_master me then Some (cs, [])
           else do {
             cs \<leftarrow> clusterSetNodeAsMaster cs (myself cs);
             cs \<leftarrow> claim_slots cs oldmaster [0..<CLUSTER_SLOTS];
             cs \<leftarrow> clusterUpdateState env cs;
             out \<leftarrow> clusterBroadcastPong env cs False;
             Some (resetManualFailover cs, out)
           }
     }"

text \<open>What a call of \<^verbatim>\<open>clusterHandleSlaveFailover\<close> came to.\<close>

datatype failover_step = FO_none | FO_cant cant_failover | FO_scheduled | FO_requested | FO_elected

definition failover_not_needed :: "cluster_env \<Rightarrow> clusterState \<Rightarrow> clusterNode \<Rightarrow> bool option" where
  "failover_not_needed env cs me =
     (let manual_failover = (mf_end cs \<noteq> 0 \<and> mf_can_start cs) in
      if n_master me then Some True
      else case n_slaveof me of
        None \<Rightarrow> Some True
      | Some mn \<Rightarrow> do {
          master \<leftarrow> node cs mn;
          Some (\<not> n_fail master \<and> \<not> manual_failover \<or> cluster_slave_no_failover env \<and> \<not> manual_failover \<or> n_numslots master = 0)
        })"

definition data_too_old :: "cluster_env \<Rightarrow> bool" where
  "data_too_old env =
     (let data_age = (if repl_connected env then (unixtime env - master_lastinteraction env) * 1000
                      else (unixtime env - repl_down_since env) * 1000);
          data_age = (if data_age > cluster_node_timeout env then data_age - cluster_node_timeout env else data_age)
      in cluster_slave_validity_factor env \<noteq> 0 \<and>
         data_age > repl_ping_slave_period env * 1000 + cluster_node_timeout env * cluster_slave_validity_factor env)"

text \<open>A new election is set up: the votes are reset, and the start is delayed.\<close>

definition schedule_election :: "cluster_env \<Rightarrow> clusterState \<Rightarrow> (clusterState \<times> packets) option" where
  "schedule_election env cs =
     do {
       rank \<leftarrow> clusterGetSlaveRank env cs;
       let cs = cs\<lparr>failover_auth_time := mstime env + 500 + int (random_value env mod 500) + rank * 1000,
                   failover_auth_count := 0, failover_auth_sent := False, failover_auth_rank := rank\<rparr>;
       let cs = (if mf_end cs \<noteq> 0
                 then clusterDoBeforeSleep {TODO_HANDLE_FAILOVER} (cs\<lparr>failover_auth_time := mstime env, failover_auth_rank := 0\<rparr>)
                 else cs);
       out \<leftarrow> clusterBroadcastPong env cs True;
       Some (cs, out)
     }"

definition update_rank :: "cluster_env \<Rightarrow> clusterState \<Rightarrow> clusterState option" where
  "update_rank env cs =
     (if \<not> failover_auth_sent cs \<and> mf_end cs = 0 then do {
        newrank \<leftarrow> clusterGetSlaveRank env cs;
        Some (if newrank > failover_auth_rank cs
              then cs\<lparr>failover_auth_time := failover_auth_time cs + (newrank - failover_auth_rank cs) * 1000, failover_auth_rank := newrank\<rparr>
              else cs)
      }
      else Some cs)"

definition start_election :: "cluster_env \<Rightarrow> clusterState \<Rightarrow> (clusterState \<times> packets) option" where
  "start_election env cs =
     do {
       let cs = cs\<lparr>currentEpoch := currentEpoch cs + 1\<rparr>;
       let cs = cs\<lparr>failover_auth_epoch := currentEpoch cs\<rparr>;
       out \<leftarrow> clusterRequestFailoverAuth env cs;
       let cs = cs\<lparr>failover_auth_sent := True\<rparr>;
       Some (clusterDoBeforeSleep {TODO_SAVE_CONFIG, TODO_UPDATE_STATE, TODO_FSYNC_CONFIG} cs, out)
     }"

definition clusterLogCantFailover :: "cant_failover \<Rightarrow> clusterState \<Rightarrow> (clusterState \<times> packets \<times> failover_step) option" where
  "clusterLogCantFailover reason cs = Some (cs\<lparr>cant_failover_reason := reason\<rparr>, [], FO_cant reason)"

text \<open>The election is won.\<close>

definition take_over :: "cluster_env \<Rightarrow> clusterState \<Rightarrow> clusterNode \<Rightarrow> (clusterState \<times> packets \<times> failover_step) option" where
  "take_over env cs me =
     do {
       let cs = (if n_configEpoch me < failover_auth_epoch cs
                 then upd_node (myself cs) (\<lambda>nd. nd\<lparr>n_configEpoch := failover_auth_epoch cs\<rparr>) cs else cs);
       (cs, out) \<leftarrow> clusterFailoverReplaceYourMaster env cs;
       Some (cs, out, FO_elected)
     }"

text \<open>The part of \<^verbatim>\<open>clusterHandleSlaveFailover\<close> that deals with an election that is set up.\<close>

definition continue_election ::
  "cluster_env \<Rightarrow> clusterState \<Rightarrow> clusterNode \<Rightarrow> int \<Rightarrow> int \<Rightarrow> int \<Rightarrow> (clusterState \<times> packets \<times> failover_step) option" where
  "continue_election env cs me auth_age auth_timeout needed_quorum =
     do {
       cs \<leftarrow> update_rank env cs;
       if mstime env < failover_auth_time cs then clusterLogCantFailover CANT_FAILOVER_WAITING_DELAY cs
       else if auth_age > auth_timeout then clusterLogCantFailover CANT_FAILOVER_EXPIRED cs
       else if \<not> failover_auth_sent cs then do { (cs, out) \<leftarrow> start_election env cs; Some (cs, out, FO_requested) }
       else if failover_auth_count cs \<ge> needed_quorum then take_over env cs me
       else clusterLogCantFailover CANT_FAILOVER_WAITING_VOTES cs
     }"

definition clusterHandleSlaveFailover ::
  "cluster_env \<Rightarrow> clusterState \<Rightarrow> (clusterState \<times> packets \<times> failover_step) option" where
  "clusterHandleSlaveFailover env cs =
     do {
       me \<leftarrow> node cs (myself cs);
       let auth_age = mstime env - failover_auth_time cs;
       let needed_quorum = cluster_size cs div 2 + 1;
       let manual_failover = (mf_end cs \<noteq> 0 \<and> mf_can_start cs);
       let cs = cs\<lparr>todo_before_sleep := todo_before_sleep cs - {TODO_HANDLE_FAILOVER}\<rparr>;
       let auth_timeout = (let t = cluster_node_timeout env * 2 in if t < 2000 then 2000 else t);
       let auth_retry_time = auth_timeout * 2;
       stay \<leftarrow> failover_not_needed env cs me;
       if stay then Some (cs\<lparr>cant_failover_reason := CANT_FAILOVER_NONE\<rparr>, [], FO_none)
       else if data_too_old env \<and> \<not> manual_failover then clusterLogCantFailover CANT_FAILOVER_DATA_AGE cs
       else if auth_age > auth_retry_time then
         do { (cs, out) \<leftarrow> schedule_election env cs; Some (cs, out, FO_scheduled) }
       else continue_election env cs me auth_age auth_timeout needed_quorum
     }"

section \<open>Manual failover\<close>

definition manualFailoverCheckTimeout :: "cluster_env \<Rightarrow> clusterState \<Rightarrow> clusterState" where
  "manualFailoverCheckTimeout env cs = (if mf_end cs \<noteq> 0 \<and> mf_end cs < mstime env then resetManualFailover cs else cs)"

definition clusterHandleManualFailover :: "cluster_env \<Rightarrow> clusterState \<Rightarrow> clusterState" where
  "clusterHandleManualFailover env cs =
     (if mf_end cs = 0 then cs
      else if mf_can_start cs then cs
      else if mf_master_offset cs = - 1 then cs
      else if mf_master_offset cs = replicationGetSlaveOffset env
      then clusterDoBeforeSleep {TODO_HANDLE_FAILOVER} (cs\<lparr>mf_can_start := True\<rparr>)
      else clusterDoBeforeSleep {TODO_HANDLE_MANUALFAILOVER} cs)"

section \<open>Processing a packet\<close>

text \<open>What every packet of a known node updates.\<close>

definition process_header :: "cluster_env \<Rightarrow> clusterState \<Rightarrow> clusterMsg \<Rightarrow> clusterState option" where
  "process_header env cs hdr =
     do {
       sender \<leftarrow> node cs (h_sender hdr);
       me \<leftarrow> node cs (myself cs);
       Some (if n_handshake sender then cs
             else
               let cs = (if h_currentEpoch hdr > currentEpoch cs then cs\<lparr>currentEpoch := h_currentEpoch hdr\<rparr> else cs);
                   cs = (if h_configEpoch hdr > n_configEpoch sender
                         then clusterDoBeforeSleep {TODO_SAVE_CONFIG, TODO_FSYNC_CONFIG}
                           (upd_node (h_sender hdr) (\<lambda>nd. nd\<lparr>n_configEpoch := h_configEpoch hdr\<rparr>) cs)
                         else cs);
                   cs = upd_node (h_sender hdr) (\<lambda>nd. nd\<lparr>n_repl_offset := h_offset hdr\<rparr>) cs
               in if mf_end cs \<noteq> 0 \<and> n_slave me \<and> n_slaveof me = Some (h_sender hdr) \<and> h_paused hdr \<and> mf_master_offset cs = - 1
                  then clusterDoBeforeSleep {TODO_HANDLE_MANUALFAILOVER} (cs\<lparr>mf_master_offset := h_offset hdr\<rparr>)
                  else cs)
     }"

text \<open>The role the sender announces: a master turned into a slave, the master of a slave, and both.\<close>

definition demote_sender :: "clusterState \<Rightarrow> nat \<Rightarrow> clusterState option" where
  "demote_sender cs n =
     do {
       (cs, _) \<leftarrow> clusterDelNodeSlots cs n;
       let cs = upd_node n (\<lambda>nd. nd\<lparr>n_master := False, n_migrate_to := False, n_slave := True\<rparr>) cs;
       Some (clusterDoBeforeSleep {TODO_SAVE_CONFIG, TODO_UPDATE_STATE} cs)
     }"

definition follow_master :: "clusterState \<Rightarrow> nat \<Rightarrow> nat option \<Rightarrow> nat \<Rightarrow> clusterState option" where
  "follow_master cs n oldmaster master =
     do {
       cs \<leftarrow> (case oldmaster of None \<Rightarrow> Some cs
              | Some m \<Rightarrow> do { (cs, _) \<leftarrow> clusterNodeRemoveSlave cs m n; Some cs });
       (cs, _) \<leftarrow> clusterNodeAddSlave cs master n;
       let cs = upd_node n (\<lambda>nd. nd\<lparr>n_slaveof := Some master\<rparr>) cs;
       Some (clusterDoBeforeSleep {TODO_SAVE_CONFIG} cs)
     }"

definition process_role :: "clusterState \<Rightarrow> clusterMsg \<Rightarrow> clusterState option" where
  "process_role cs hdr =
     (case h_slaveof hdr of
        None \<Rightarrow> clusterSetNodeAsMaster cs (h_sender hdr)
      | Some master \<Rightarrow> do {
          sender \<leftarrow> node cs (h_sender hdr);
          cs \<leftarrow> (if n_master sender then demote_sender cs (h_sender hdr) else Some cs);
          if node cs master \<noteq> None \<and> n_slaveof sender \<noteq> Some master
          then follow_master cs (h_sender hdr) (n_slaveof sender) master
          else Some cs
        })"

text \<open>The first claimed slot that this node knows to be served under a greater epoch.\<close>

definition stale_claim :: "clusterState \<Rightarrow> clusterMsg \<Rightarrow> nat list \<Rightarrow> nat option" where
  "stale_claim cs hdr js =
     find (\<lambda>j. bitmapTestBit (h_myslots hdr) j \<and> slots cs j \<noteq> Some (h_sender hdr) \<and> \<not> isSlotUnclaimed cs j \<and>
       (case slot_epoch cs j of None \<Rightarrow> False | Some e \<Rightarrow> e > h_configEpoch hdr)) js"

text \<open>\<open>inbound\<close> tells whether the packet came over a link that the sender opened.\<close>

definition pong_received :: "cluster_env \<Rightarrow> clusterState \<Rightarrow> bool \<Rightarrow> clusterMsg \<Rightarrow> clusterState option" where
  "pong_received env cs inbound hdr =
     (if \<not> inbound \<and> h_type hdr = MT_PONG then do {
        sender \<leftarrow> node cs (h_sender hdr);
        if n_pfail sender
        then Some (clusterDoBeforeSleep {TODO_SAVE_CONFIG, TODO_UPDATE_STATE}
          (upd_node (h_sender hdr) (\<lambda>nd. nd\<lparr>n_pfail := False\<rparr>) cs))
        else if n_fail sender then clearNodeFailureIfNeeded env cs (h_sender hdr)
        else Some cs
      }
      else Some cs)"

text \<open>The slots of the sender or of its master differ from those it publishes.\<close>

definition slots_differ :: "clusterState \<Rightarrow> clusterMsg \<Rightarrow> clusterNode \<Rightarrow> bool option" where
  "slots_differ cs hdr sender =
     (if n_master sender then Some (n_slots sender \<noteq> h_myslots hdr)
      else case n_slaveof sender of None \<Rightarrow> Some False | Some m \<Rightarrow> do { sm \<leftarrow> node cs m; Some (n_slots sm \<noteq> h_myslots hdr) })"

definition process_slots :: "cluster_env \<Rightarrow> clusterState \<Rightarrow> clusterMsg \<Rightarrow> (clusterState \<times> packets) option" where
  "process_slots env cs hdr =
     do {
       sender \<leftarrow> node cs (h_sender hdr);
       dirty \<leftarrow> slots_differ cs hdr sender;
       if \<not> dirty then Some (cs, [])
       else do {
         cs \<leftarrow> (if n_master sender
                then do { (cs, _) \<leftarrow> clusterUpdateSlotsConfigWith env cs (h_sender hdr) (h_configEpoch hdr) (h_myslots hdr); Some cs }
                else Some cs);
         out \<leftarrow> (case stale_claim cs hdr [0..<CLUSTER_SLOTS] of
                   None \<Rightarrow> Some []
                 | Some j \<Rightarrow> do { owner \<leftarrow> slots cs j; clusterSendUpdate env cs (h_sender hdr) owner });
         Some (cs, out)
       }
     }"

definition process_collision :: "clusterState \<Rightarrow> clusterMsg \<Rightarrow> clusterState option" where
  "process_collision cs hdr =
     do {
       me \<leftarrow> node cs (myself cs);
       sender \<leftarrow> node cs (h_sender hdr);
       if n_master me \<and> n_master sender \<and> h_configEpoch hdr = n_configEpoch me
       then clusterHandleConfigEpochCollision cs (h_sender hdr) else Some cs
     }"

definition process_ping :: "cluster_env \<Rightarrow> clusterState \<Rightarrow> bool \<Rightarrow> clusterMsg \<Rightarrow> (clusterState \<times> packets) option" where
  "process_ping env cs inbound hdr =
     do {
       let cs = upd_node (h_sender hdr) (\<lambda>nd. nd\<lparr>n_nofailover := h_nofailover hdr\<rparr>) cs;
       cs \<leftarrow> pong_received env cs inbound hdr;
       cs \<leftarrow> process_role cs hdr;
       (cs, out) \<leftarrow> process_slots env cs hdr;
       cs \<leftarrow> process_collision cs hdr;
       (cs, out') \<leftarrow> clusterProcessGossipSection env cs (h_sender hdr) (h_gossip hdr);
       Some (cs, out @ out')
     }"

definition process_ack :: "clusterState \<Rightarrow> clusterMsg \<Rightarrow> clusterState option" where
  "process_ack cs hdr =
     do {
       sender \<leftarrow> node cs (h_sender hdr);
       Some (if n_master sender \<and> n_numslots sender > 0 \<and> h_currentEpoch hdr \<ge> failover_auth_epoch cs
             then clusterDoBeforeSleep {TODO_HANDLE_FAILOVER} (cs\<lparr>failover_auth_count := failover_auth_count cs + 1\<rparr>)
             else cs)
     }"

definition process_update ::
  "cluster_env \<Rightarrow> clusterState \<Rightarrow> nat \<Rightarrow> 64 word \<Rightarrow> bytes \<Rightarrow> clusterState option" where
  "process_update env cs n reportedConfigEpoch claimed =
     (case node cs n of
        None \<Rightarrow> Some cs
      | Some nd \<Rightarrow>
          if n_configEpoch nd \<ge> reportedConfigEpoch then Some cs
          else do {
            cs \<leftarrow> (if n_slave nd then clusterSetNodeAsMaster cs n else Some cs);
            let cs = upd_node n (\<lambda>nd. nd\<lparr>n_configEpoch := reportedConfigEpoch\<rparr>) cs;
            let cs = clusterDoBeforeSleep {TODO_SAVE_CONFIG, TODO_FSYNC_CONFIG} cs;
            map_option fst (clusterUpdateSlotsConfigWith env cs n reportedConfigEpoch claimed)
          })"

text \<open>\<^verbatim>\<open>senderCurrentEpoch\<close> and \<^verbatim>\<open>senderConfigEpoch\<close> stay zero for a sender in handshake.\<close>

definition sender_epochs :: "clusterState \<Rightarrow> clusterMsg \<Rightarrow> clusterMsg option" where
  "sender_epochs cs hdr =
     do {
       sender \<leftarrow> node cs (h_sender hdr);
       Some (if n_handshake sender then hdr\<lparr>h_currentEpoch := 0, h_configEpoch := 0\<rparr> else hdr)
     }"

text \<open>
  \<^verbatim>\<open>clusterProcessPacket\<close> for a well formed packet on an established link. A packet of an unknown node changes
  nothing, but a ping is answered. Addresses, handshakes, ping extensions and the packets of modules and Pub/Sub are left out.
\<close>

definition clusterProcessPacket ::
  "cluster_env \<Rightarrow> clusterState \<Rightarrow> bool \<Rightarrow> clusterMsg \<Rightarrow> (clusterState \<times> packets) option" where
  "clusterProcessPacket env cs inbound hdr =
     (if node cs (h_sender hdr) = None then
        (if h_type hdr = MT_PING then do { pong \<leftarrow> clusterSendPing env cs (h_sender hdr) MT_PONG; Some (cs, pong) }
         else Some (cs, []))
      else do {
        cs \<leftarrow> process_header env cs hdr;
        hdr0 \<leftarrow> sender_epochs cs hdr;
        case h_type hdr of
          MT_PING \<Rightarrow> do {
            pong \<leftarrow> clusterSendPing env cs (h_sender hdr) MT_PONG;
            (cs, out) \<leftarrow> process_ping env cs inbound hdr0;
            Some (cs, pong @ out)
          }
        | MT_PONG \<Rightarrow> process_ping env cs inbound hdr0
        | MT_FAIL n \<Rightarrow>
            Some (case node cs n of
                    None \<Rightarrow> cs
                  | Some nd \<Rightarrow>
                      if n_fail nd \<or> n = myself cs then cs
                      else clusterDoBeforeSleep {TODO_SAVE_CONFIG, TODO_UPDATE_STATE}
                        (upd_node n (\<lambda>nd. nd\<lparr>n_fail := True, n_fail_time := mstime env, n_pfail := False\<rparr>) cs), [])
        | MT_AUTH_REQUEST \<Rightarrow> clusterSendFailoverAuthIfNeeded env cs (h_sender hdr) hdr
        | MT_AUTH_ACK \<Rightarrow> do { cs \<leftarrow> process_ack cs hdr0; Some (cs, []) }
        | MT_UPDATE n e claimed \<Rightarrow> do { cs \<leftarrow> process_update env cs n e claimed; Some (cs, []) }
        | MT_MFSTART \<Rightarrow> do {
            sender \<leftarrow> node cs (h_sender hdr);
            if n_slaveof sender \<noteq> Some (myself cs) then Some (cs, [])
            else do {
              let cs = resetManualFailover cs;
              let cs = cs\<lparr>mf_end := mstime env + 5000, mf_slave := Some (h_sender hdr)\<rparr>;
              out \<leftarrow> clusterSendPing env cs (h_sender hdr) MT_PING;
              Some (cs, out)
            }
          }
      })"

end
