(* ===== verification/Cluster_Vote.thy ===== *)
theory Cluster_Vote
  imports Cluster_Slots Cluster_Failover
begin

text \<open>
  What the handlers do to the fields of an election (epochs, last vote, number of votes). Most leave them alone,
  up to a growing epoch; the others are summarised by what they do: granting a vote, counting one, setting up, starting
  and winning an election.
\<close>

section \<open>What the other handlers leave alone\<close>

definition election :: "clusterState \<Rightarrow> nat \<times> 64 word \<times> 64 word \<times> 64 word \<times> int \<times> bool" where
  "election cs = (myself cs, currentEpoch cs, lastVoteEpoch cs, failover_auth_epoch cs, failover_auth_count cs, failover_auth_sent cs)"

named_theorems el_simps \<open>operations that leave the election fields alone\<close>

lemma election_upd [el_simps]: "election (upd_node n f cs) = election cs" "election (clusterDoBeforeSleep fl cs) = election cs"
  "election (resetManualFailover cs) = election cs" "election (clusterCloseAllSlots cs) = election cs"
  by (simp_all add: election_def upd_node_def clusterDoBeforeSleep_def resetManualFailover_def clusterCloseAllSlots_def)

lemma election_other [el_simps]:
  "election (cs\<lparr>slots := x1\<rparr>) = election cs" "election (cs\<lparr>owner_not_claiming_slot := x2\<rparr>) = election cs"
  "election (cs\<lparr>todo_before_sleep := x3\<rparr>) = election cs" "election (cs\<lparr>cant_failover_reason := x4\<rparr>) = election cs"
  "election (cs\<lparr>mf_end := x5\<rparr>) = election cs" "election (cs\<lparr>mf_slave := x6\<rparr>) = election cs"
  "election (cs\<lparr>mf_master_offset := x7\<rparr>) = election cs" "election (cs\<lparr>mf_can_start := x8\<rparr>) = election cs"
  "election (cs\<lparr>state_ok := x9\<rparr>) = election cs" "election (cs\<lparr>cluster_size := x10\<rparr>) = election cs"
  "election (cs\<lparr>among_minority_time := x11\<rparr>) = election cs" "election (cs\<lparr>first_call_time := x12\<rparr>) = election cs"
  "election (cs\<lparr>failover_auth_time := x13\<rparr>) = election cs" "election (cs\<lparr>failover_auth_rank := x14\<rparr>) = election cs"
  by (simp_all add: election_def)

lemma el_clear: "clusterNodeClearSlotBit cs n j = Some (cs', b) \<Longrightarrow> election cs' = election cs"
  by (auto simp: clusterNodeClearSlotBit_def bind_eq_Some_conv Let_def el_simps split: if_splits)

lemma el_set: "clusterNodeSetSlotBit cs n j = Some (cs', b) \<Longrightarrow> election cs' = election cs"
  by (auto simp: clusterNodeSetSlotBit_def bind_eq_Some_conv Let_def el_simps split: if_splits)

lemma el_del: "clusterDelSlot cs j = Some (cs', b) \<Longrightarrow> election cs' = election cs"
  by (auto simp: clusterDelSlot_def bind_eq_Some_conv Let_def el_simps dest!: el_clear split: option.splits if_splits)

lemma el_add: "clusterAddSlot cs n j = Some (cs', b) \<Longrightarrow> election cs' = election cs"
  by (auto simp: clusterAddSlot_def bind_eq_Some_conv Let_def el_simps dest!: el_set split: if_splits)

lemma el_del_loop: "clusterDelNodeSlots_loop cs n js d = Some (cs', d') \<Longrightarrow> election cs' = election cs"
proof (induction js arbitrary: cs d)
  case (Cons j js)
  then show ?case by (auto simp: bind_eq_Some_conv Let_def split: if_splits dest!: el_del)
qed simp

lemma el_remove_slave: "clusterNodeRemoveSlave cs m n = Some (cs', b) \<Longrightarrow> election cs' = election cs"
  by (auto simp: clusterNodeRemoveSlave_def bind_eq_Some_conv Let_def el_simps split: if_splits)

lemma el_add_slave: "clusterNodeAddSlave cs m n = Some (cs', b) \<Longrightarrow> election cs' = election cs"
  by (auto simp: clusterNodeAddSlave_def bind_eq_Some_conv Let_def el_simps split: if_splits)

lemma el_as_master: "clusterSetNodeAsMaster cs n = Some cs' \<Longrightarrow> election cs' = election cs"
  by (auto simp: clusterSetNodeAsMaster_def bind_eq_Some_conv Let_def el_simps split: if_splits option.splits dest!: el_remove_slave)

lemma el_set_master: "clusterSetMaster cs n = Some cs' \<Longrightarrow> election cs' = election cs"
  by (auto simp: clusterSetMaster_def bind_eq_Some_conv Let_def el_simps split: if_splits option.splits
      dest!: el_remove_slave el_add_slave)

lemma el_update_slot: "update_slot env sd e cl cm (cs, v) j = Some (cs', v') \<Longrightarrow> election cs' = election cs"
  by (auto simp: update_slot_def bind_eq_Some_conv Let_def el_simps split: if_splits dest!: el_del el_add)

lemma el_update_loop: "update_slots_loop env sd e cl cm (cs, v) js = Some (cs', v') \<Longrightarrow> election cs' = election cs"
proof (induction js arbitrary: cs v)
  case (Cons j js)
  then obtain cs1 v1 where "update_slot env sd e cl cm (cs, v) j = Some (cs1, v1)" "update_slots_loop env sd e cl cm (cs1, v1) js = Some (cs', v')"
    by (auto simp: bind_eq_Some_conv)
  then show ?case using Cons.IH el_update_slot by metis
qed simp

lemma el_update_role: "update_role env cs sd cm v = Some (cs', d) \<Longrightarrow> election cs' = election cs"
  by (auto simp: update_role_def bind_eq_Some_conv Let_def el_simps split: if_splits option.splits dest!: el_set_master)

lemma el_update: "clusterUpdateSlotsConfigWith env cs sd e cl = Some (cs', d) \<Longrightarrow> election cs' = election cs"
  by (auto simp: clusterUpdateSlotsConfigWith_def bind_eq_Some_conv Let_def split: if_splits dest!: el_update_loop el_update_role)

text \<open>Packets that are neither requests for votes nor votes.\<close>

definition plain :: "packets \<Rightarrow> bool" where
  "plain out \<longleftrightarrow> (\<forall>(n, m) \<in> set out. h_type m \<noteq> MT_AUTH_REQUEST \<and> h_type m \<noteq> MT_AUTH_ACK)"

lemma plain_simps [simp]: "plain []" "plain (xs @ ys) \<longleftrightarrow> plain xs \<and> plain ys"
  by (auto simp: plain_def)

lemma header_fields:
  "clusterBuildMessageHdr env cs ty = Some m \<Longrightarrow> h_type m = ty \<and> h_sender m = myself cs \<and> h_currentEpoch m = currentEpoch cs"
  by (auto simp: clusterBuildMessageHdr_def bind_eq_Some_conv split: if_splits option.splits)

lemma send_only: "clusterSendMessage cs n m = Some out \<Longrightarrow> out = [] \<or> out = [(n, m)]"
  by (auto simp: clusterSendMessage_def bind_eq_Some_conv split: if_splits)

lemma broadcast_only: "(n, m') \<in> set (clusterBroadcastMessage cs m) \<Longrightarrow> m' = m"
  by (auto simp: clusterBroadcastMessage_def)

lemma plain_ping: "clusterSendPing env cs n ty = Some out \<Longrightarrow> ty \<noteq> MT_AUTH_REQUEST \<Longrightarrow> ty \<noteq> MT_AUTH_ACK \<Longrightarrow> plain out"
  by (auto simp: clusterSendPing_def bind_eq_Some_conv plain_def dest!: header_fields)

lemma plain_pongs: "clusterBroadcastPong env cs l = Some out \<Longrightarrow> plain out"
  by (auto simp: clusterBroadcastPong_def bind_eq_Some_conv plain_def dest!: header_fields)

lemma plain_send_update: "clusterSendUpdate env cs n a = Some out \<Longrightarrow> plain out"
  by (auto simp: clusterSendUpdate_def bind_eq_Some_conv plain_def dest!: header_fields send_only)

lemma el_mark: "markNodeAsFailingIfNeeded env cs n = Some (cs', out) \<Longrightarrow> election cs' = election cs \<and> plain out"
  by (auto simp: markNodeAsFailingIfNeeded_def bind_eq_Some_conv Let_def el_simps plain_def case_prod_beta
      split: if_splits dest!: header_fields broadcast_only)

lemma el_gossip: "clusterProcessGossipSection env cs sd g = Some (cs', out) \<Longrightarrow> election cs' = election cs \<and> plain out"
proof (induction g arbitrary: cs out)
  case (Cons x g)
  obtain n f where x: "x = (n, f)" by force
  then obtain cs1 o1 o2 where 1: "gossip_report env cs sd n f = Some (cs1, o1)" "clusterProcessGossipSection env cs1 sd g = Some (cs', o2)"
    "out = o1 @ o2" using Cons.prems by (auto simp: bind_eq_Some_conv)
  have "election cs1 = election cs \<and> plain o1"
    using 1(1) by (auto simp: gossip_report_def bind_eq_Some_conv el_simps split: option.splits if_splits dest!: el_mark)
  then show ?case using Cons.IH [OF 1(2)] 1(3) by simp
qed simp

lemma el_clear_failure: "clearNodeFailureIfNeeded env cs n = Some cs' \<Longrightarrow> election cs' = election cs"
  by (auto simp: clearNodeFailureIfNeeded_def bind_eq_Some_conv el_simps split: if_splits)

lemma el_demote: "demote_sender cs n = Some cs' \<Longrightarrow> election cs' = election cs"
  by (auto simp: demote_sender_def clusterDelNodeSlots_def bind_eq_Some_conv Let_def el_simps dest!: el_del_loop)

lemma el_follow: "follow_master cs n om m = Some cs' \<Longrightarrow> election cs' = election cs"
  by (auto simp: follow_master_def bind_eq_Some_conv Let_def el_simps split: option.splits dest!: el_remove_slave el_add_slave)

lemma el_role: "process_role cs hdr = Some cs' \<Longrightarrow> election cs' = election cs"
  by (auto simp: process_role_def bind_eq_Some_conv split: if_splits option.splits dest!: el_as_master el_demote el_follow)

lemma el_process_update: "process_update env cs n e cl = Some cs' \<Longrightarrow> election cs' = election cs"
  by (auto simp: process_update_def bind_eq_Some_conv Let_def el_simps split: if_splits option.splits
      dest!: el_as_master el_update)

definition bumped :: "clusterState \<Rightarrow> clusterState \<Rightarrow> bool" where
  "bumped cs cs' \<longleftrightarrow> election cs' = election cs \<or> election cs' = election (cs\<lparr>currentEpoch := currentEpoch cs + 1\<rparr>)"

lemma bumped_cong: "election cs1 = election cs \<Longrightarrow> bumped cs1 cs' = bumped cs cs'"
  by (auto simp: bumped_def election_def)

lemma el_collision: "clusterHandleConfigEpochCollision cs sd = Some cs' \<Longrightarrow> bumped cs cs'"
  by (auto simp: clusterHandleConfigEpochCollision_def bind_eq_Some_conv Let_def bumped_def el_simps split: if_splits)

lemma el_pong: "pong_received env cs inb hdr = Some cs' \<Longrightarrow> election cs' = election cs"
  by (auto simp: pong_received_def bind_eq_Some_conv el_simps split: if_splits dest!: el_clear_failure)

lemma el_slots: "process_slots env cs hdr = Some (cs', out) \<Longrightarrow> election cs' = election cs \<and> plain out"
  by (auto simp: process_slots_def bind_eq_Some_conv split: if_splits option.splits dest!: el_update plain_send_update)

lemma el_process_collision: "process_collision cs hdr = Some cs' \<Longrightarrow> bumped cs cs'"
  by (auto simp: process_collision_def bind_eq_Some_conv bumped_def split: if_splits dest!: el_collision)

lemma el_ping:
  assumes "process_ping env cs inb hdr = Some (cs', out)"
  shows "bumped cs cs' \<and> plain out"
proof -
  let ?cs = "upd_node (h_sender hdr) (\<lambda>nd. nd\<lparr>n_nofailover := h_nofailover hdr\<rparr>) cs"
  obtain cs1 cs2 cs3 o1 cs4 o2 where
    1: "pong_received env ?cs inb hdr = Some cs1" and 2: "process_role cs1 hdr = Some cs2" and
    3: "process_slots env cs2 hdr = Some (cs3, o1)" and 4: "process_collision cs3 hdr = Some cs4" and
    5: "clusterProcessGossipSection env cs4 (h_sender hdr) (h_gossip hdr) = Some (cs', o2)" and o: "out = o1 @ o2"
    using assms unfolding process_ping_def Let_def by (auto simp: bind_eq_Some_conv)
  have "election cs3 = election cs" using el_pong [OF 1] el_role [OF 2] el_slots [OF 3] by (simp add: el_simps)
  moreover have "bumped cs3 cs4" by (rule el_process_collision [OF 4])
  moreover have "election cs' = election cs4 \<and> plain o2" by (rule el_gossip [OF 5])
  moreover have "plain o1" using el_slots [OF 3] by simp
  ultimately show ?thesis using o by (auto simp: bumped_def election_def)
qed

section \<open>The handlers of an election\<close>

lemma el_header:
  assumes "process_header env cs hdr = Some cs'" "node cs (h_sender hdr) = Some sd" "\<not> n_handshake sd"
  shows "election cs' = election (cs\<lparr>currentEpoch := max (currentEpoch cs) (h_currentEpoch hdr)\<rparr>)"
    "node cs' n = Some nd' \<longrightarrow> (\<exists>nd. node cs n = Some nd \<and> n_slave nd' = n_slave nd \<and> n_numslots nd' = n_numslots nd \<and> n_handshake nd' = n_handshake nd)"
proof -
  let ?s = "h_sender hdr"
  define c1 where "c1 = (if h_currentEpoch hdr > currentEpoch cs then cs\<lparr>currentEpoch := h_currentEpoch hdr\<rparr> else cs)"
  define c2 where "c2 = (if h_configEpoch hdr > n_configEpoch sd then clusterDoBeforeSleep {TODO_SAVE_CONFIG, TODO_FSYNC_CONFIG}
    (upd_node ?s (\<lambda>nd. nd\<lparr>n_configEpoch := h_configEpoch hdr\<rparr>) c1) else c1)"
  define c3 where "c3 = upd_node ?s (\<lambda>nd. nd\<lparr>n_repl_offset := h_offset hdr\<rparr>) c2"
  obtain me where me: "node cs (myself cs) = Some me" using assms(1) by (auto simp: process_header_def bind_eq_Some_conv)
  have "process_header env cs hdr = Some (if mf_end c3 \<noteq> 0 \<and> n_slave me \<and> n_slaveof me = Some ?s \<and> h_paused hdr \<and> mf_master_offset c3 = - 1
      then clusterDoBeforeSleep {TODO_HANDLE_MANUALFAILOVER} (c3\<lparr>mf_master_offset := h_offset hdr\<rparr>) else c3)"
    unfolding c3_def c2_def c1_def process_header_def Let_def by (simp add: assms(2,3) me split del: if_split)
  then have c': "cs' = c3 \<or> cs' = clusterDoBeforeSleep {TODO_HANDLE_MANUALFAILOVER} (c3\<lparr>mf_master_offset := h_offset hdr\<rparr>)"
    using assms(1) by (auto split: if_splits)
  have "election cs' = election c1" using c' by (auto simp: c3_def c2_def el_simps)
  moreover have "election c1 = election (cs\<lparr>currentEpoch := max (currentEpoch cs) (h_currentEpoch hdr)\<rparr>)"
    by (auto simp: c1_def max_def election_def)
  ultimately show "election cs' = election (cs\<lparr>currentEpoch := max (currentEpoch cs) (h_currentEpoch hdr)\<rparr>)" by simp
  have n1: "node c1 n = node cs n" by (simp add: c1_def)
  have n2: "node c2 n = node c1 n \<or> node c2 n = map_option (\<lambda>nd. nd\<lparr>n_configEpoch := h_configEpoch hdr\<rparr>) (node c1 n)" by (simp add: c2_def)
  have n3: "node c3 n = node c2 n \<or> node c3 n = map_option (\<lambda>nd. nd\<lparr>n_repl_offset := h_offset hdr\<rparr>) (node c2 n)" by (simp add: c3_def)
  have n4: "node cs' n = node c3 n" using c' by auto
  show "node cs' n = Some nd' \<longrightarrow> (\<exists>nd. node cs n = Some nd \<and> n_slave nd' = n_slave nd \<and> n_numslots nd' = n_numslots nd \<and> n_handshake nd' = n_handshake nd)"
    using n1 n2 n3 n4 by (elim disjE) auto
qed

lemma el_grant:
  assumes "grant_vote env cs n mn = Some (cs', out)"
  shows "election cs' = election (cs\<lparr>lastVoteEpoch := currentEpoch cs\<rparr>) \<and>
    (out = [] \<or> (\<exists>m. out = [(n, m)] \<and> h_type m = MT_AUTH_ACK \<and> h_sender m = myself cs \<and> h_currentEpoch m = currentEpoch cs))"
proof -
  let ?cs = "clusterDoBeforeSleep {TODO_SAVE_CONFIG, TODO_FSYNC_CONFIG}
    (upd_node mn (\<lambda>nd. nd\<lparr>n_voted_time := mstime env\<rparr>) (cs\<lparr>lastVoteEpoch := currentEpoch cs\<rparr>))"
  have "clusterSendFailoverAuth env ?cs n = Some out" "cs' = ?cs" using assms by (auto simp: grant_vote_def Let_def bind_eq_Some_conv)
  then show ?thesis
    by (auto simp: clusterSendFailoverAuth_def bind_eq_Some_conv el_simps split: if_splits dest!: header_fields send_only)
qed

text \<open>A vote is for the current epoch, in which the voter had not voted yet.\<close>

lemma el_vote:
  assumes "clusterSendFailoverAuthIfNeeded env cs n req = Some (cs', out)"
  shows "election cs' = election cs \<and> out = [] \<or>
    election cs' = election (cs\<lparr>lastVoteEpoch := currentEpoch cs\<rparr>) \<and> currentEpoch cs \<le> h_currentEpoch req \<and>
    lastVoteEpoch cs \<noteq> currentEpoch cs \<and> (\<exists>me. node cs (myself cs) = Some me \<and> \<not> n_slave me \<and> n_numslots me \<noteq> 0) \<and>
    (out = [] \<or> (\<exists>m. out = [(n, m)] \<and> h_type m = MT_AUTH_ACK \<and> h_sender m = myself cs \<and> h_currentEpoch m = currentEpoch cs))"
proof -
  have "cs' = cs \<and> out = [] \<or> (\<exists>mn. grant_vote env cs n mn = Some (cs', out) \<and> currentEpoch cs \<le> h_currentEpoch req \<and>
    lastVoteEpoch cs \<noteq> currentEpoch cs \<and> (\<exists>me. node cs (myself cs) = Some me \<and> \<not> n_slave me \<and> n_numslots me \<noteq> 0))"
    using assms unfolding clusterSendFailoverAuthIfNeeded_def
    by (auto simp: bind_eq_Some_conv not_less split: if_splits option.splits)
  then show ?thesis using el_grant [of env cs n _ cs' out] by blast
qed

lemma el_ack:
  assumes "process_ack cs hdr = Some cs'"
  shows "election cs' = election cs \<or>
    election cs' = election (cs\<lparr>failover_auth_count := failover_auth_count cs + 1\<rparr>) \<and> failover_auth_epoch cs \<le> h_currentEpoch hdr"
  using assms by (auto simp: process_ack_def bind_eq_Some_conv Let_def election_def split: if_splits)

lemma el_claim: "claim_slots cs om js = Some cs' \<Longrightarrow> election cs' = election cs"
proof (induction js arbitrary: cs)
  case (Cons j js)
  then show ?case by (auto simp: bind_eq_Some_conv split: if_splits dest!: el_del el_add)
qed simp

lemma el_evaluate: "election (evaluate_state env me cs) = election cs"
proof -
  have "election (change_state env me b c) = election c" for b c by (auto simp: change_state_def Let_def el_simps)
  then show ?thesis by (auto simp: evaluate_state_def Let_def el_simps)
qed

lemma el_update_state: "clusterUpdateState env cs = Some cs' \<Longrightarrow> election cs' = election cs"
  by (auto simp: clusterUpdateState_def bind_eq_Some_conv Let_def el_simps el_evaluate split: if_splits)

lemma el_replace: "clusterFailoverReplaceYourMaster env cs = Some (cs', out) \<Longrightarrow> election cs' = election cs \<and> plain out"
  by (auto simp: clusterFailoverReplaceYourMaster_def bind_eq_Some_conv el_simps split: option.splits if_splits
      dest!: el_as_master el_claim el_update_state plain_pongs)

lemma el_schedule:
  "schedule_election env cs = Some (cs', out) \<Longrightarrow> election cs' = election (cs\<lparr>failover_auth_count := 0, failover_auth_sent := False\<rparr>) \<and> plain out"
  by (auto simp: schedule_election_def bind_eq_Some_conv Let_def election_def split: if_splits dest!: plain_pongs)

lemma el_rank: "update_rank env cs = Some cs' \<Longrightarrow> election cs' = election cs \<and> failover_auth_sent cs' = failover_auth_sent cs"
  by (auto simp: update_rank_def bind_eq_Some_conv el_simps split: if_splits)

lemma el_start:
  "start_election env cs = Some (cs', out) \<Longrightarrow>
    election cs' = election (cs\<lparr>currentEpoch := currentEpoch cs + 1, failover_auth_epoch := currentEpoch cs + 1, failover_auth_sent := True\<rparr>) \<and>
    (\<forall>(n, m) \<in> set out. h_type m = MT_AUTH_REQUEST \<and> h_sender m = myself cs \<and> h_currentEpoch m = currentEpoch cs + 1)"
  by (auto simp: start_election_def clusterRequestFailoverAuth_def bind_eq_Some_conv Let_def election_def
      dest!: header_fields broadcast_only)

text \<open>The cases of a call of \<^verbatim>\<open>clusterHandleSlaveFailover\<close>.\<close>

definition failover_post :: "clusterState \<Rightarrow> int \<Rightarrow> clusterState \<times> packets \<times> failover_step \<Rightarrow> bool" where
  "failover_post cs q = (\<lambda>(cs', out, r).
    case r of
      FO_requested \<Rightarrow> \<not> failover_auth_sent cs \<and>
        election cs' = election (cs\<lparr>currentEpoch := currentEpoch cs + 1, failover_auth_epoch := currentEpoch cs + 1, failover_auth_sent := True\<rparr>) \<and>
        (\<forall>(n, m) \<in> set out. h_type m = MT_AUTH_REQUEST \<and> h_sender m = myself cs \<and> h_currentEpoch m = currentEpoch cs + 1)
    | FO_scheduled \<Rightarrow> election cs' = election (cs\<lparr>failover_auth_count := 0, failover_auth_sent := False\<rparr>) \<and> plain out
    | FO_elected \<Rightarrow> failover_auth_sent cs \<and> failover_auth_count cs \<ge> q \<and> election cs' = election cs \<and> plain out
    | _ \<Rightarrow> election cs' = election cs \<and> plain out)"

lemma failover_post_simps:
  "failover_post cs q (cs', out, FO_requested) \<longleftrightarrow> \<not> failover_auth_sent cs \<and>
     election cs' = election (cs\<lparr>currentEpoch := currentEpoch cs + 1, failover_auth_epoch := currentEpoch cs + 1, failover_auth_sent := True\<rparr>) \<and>
     (\<forall>(n, m) \<in> set out. h_type m = MT_AUTH_REQUEST \<and> h_sender m = myself cs \<and> h_currentEpoch m = currentEpoch cs + 1)"
  "failover_post cs q (cs', out, FO_scheduled) \<longleftrightarrow> election cs' = election (cs\<lparr>failover_auth_count := 0, failover_auth_sent := False\<rparr>) \<and> plain out"
  "failover_post cs q (cs', out, FO_none) \<longleftrightarrow> election cs' = election cs \<and> plain out"
  by (simp_all add: failover_post_def)

lemma failover_post_cong: "election cs1 = election cs \<Longrightarrow> failover_post cs1 q x = failover_post cs q x"
  by (auto simp: failover_post_def election_def split: failover_step.splits)

lemma failover_cant: "clusterLogCantFailover reason cs = Some x \<Longrightarrow> failover_post cs q x"
  by (auto simp: clusterLogCantFailover_def failover_post_def el_simps)

lemma failover_take_over:
  "take_over env cs me = Some x \<Longrightarrow> failover_auth_sent cs \<Longrightarrow> failover_auth_count cs \<ge> q \<Longrightarrow> failover_post cs q x"
  by (auto simp: take_over_def Let_def bind_eq_Some_conv failover_post_def el_simps split: if_splits dest!: el_replace)

lemma failover_continue:
  assumes "continue_election env cs me a t q = Some x"
  shows "failover_post cs q x"
proof -
  obtain cs1 where 1: "update_rank env cs = Some cs1" using assms by (auto simp: continue_election_def bind_eq_Some_conv)
  have "failover_post cs1 q x"
    using assms 1 unfolding continue_election_def
    by (auto simp: bind_eq_Some_conv failover_post_simps not_less split: if_splits
        dest!: el_start intro: failover_cant failover_take_over)
  then show ?thesis using failover_post_cong el_rank [OF 1] by blast
qed

lemma failover_ok:
  assumes "clusterHandleSlaveFailover env cs = Some x"
  shows "failover_post cs (cluster_size cs div 2 + 1) x"
proof -
  let ?cs = "cs\<lparr>todo_before_sleep := todo_before_sleep cs - {TODO_HANDLE_FAILOVER}\<rparr>"
  have "failover_post ?cs (cluster_size cs div 2 + 1) x"
    using assms unfolding clusterHandleSlaveFailover_def Let_def
    by (auto simp: bind_eq_Some_conv failover_post_simps el_simps
        split: if_splits dest!: el_schedule intro: failover_cant failover_continue)
  then show ?thesis using failover_post_cong [of ?cs cs] by (simp add: el_simps)
qed

section \<open>The packets of an election\<close>

text \<open>Nothing of the election changes, except that the epoch may grow.\<close>

definition steady :: "clusterState \<Rightarrow> clusterState \<Rightarrow> bool" where
  "steady cs cs' \<longleftrightarrow> currentEpoch cs \<le> currentEpoch cs' \<and> election (cs'\<lparr>currentEpoch := currentEpoch cs\<rparr>) = election cs"

definition voted :: "clusterState \<Rightarrow> clusterMsg \<Rightarrow> clusterState \<times> packets \<Rightarrow> bool" where
  "voted cs hdr = (\<lambda>(cs', out). h_type hdr = MT_AUTH_REQUEST \<and> currentEpoch cs \<le> h_currentEpoch hdr \<and>
     election cs' = election (cs\<lparr>currentEpoch := h_currentEpoch hdr, lastVoteEpoch := h_currentEpoch hdr\<rparr>) \<and>
     lastVoteEpoch cs \<noteq> h_currentEpoch hdr \<and>
     (\<exists>me. node cs (myself cs) = Some me \<and> \<not> n_slave me \<and> n_numslots me \<noteq> 0) \<and>
     (out = [] \<or> (\<exists>m. out = [(h_sender hdr, m)] \<and> h_type m = MT_AUTH_ACK \<and> h_sender m = myself cs \<and> h_currentEpoch m = h_currentEpoch hdr)))"

definition tallied :: "clusterState \<Rightarrow> clusterMsg \<Rightarrow> clusterState \<times> packets \<Rightarrow> bool" where
  "tallied cs hdr = (\<lambda>(cs', out). h_type hdr = MT_AUTH_ACK \<and> out = [] \<and> failover_auth_epoch cs \<le> h_currentEpoch hdr \<and>
     election cs' = election (cs\<lparr>currentEpoch := max (currentEpoch cs) (h_currentEpoch hdr), failover_auth_count := failover_auth_count cs + 1\<rparr>))"

lemma word_less_inc: "x < - 1 \<Longrightarrow> x < x + 1" for x :: "64 word"
proof -
  assume "x < - 1"
  then have "x + 1 \<noteq> 0" by (metis add.inverse_unique add.commute order_less_irrefl)
  then have "unat (x + 1) = Suc (unat x)" by (simp add: unatSuc add.commute)
  then show "x < x + 1" by (simp add: word_less_nat_alt)
qed

lemma steady_bumped:
  assumes "election cs1 = election (cs\<lparr>currentEpoch := max (currentEpoch cs) e\<rparr>)" "currentEpoch cs < - 1" "e < - 1" "bumped cs1 cs'"
  shows "steady cs cs'"
proof -
  have "max (currentEpoch cs) e < - 1" using assms(2,3) by (rule max_less_iff_conj [THEN iffD2, OF conjI])
  then have "max (currentEpoch cs) e < max (currentEpoch cs) e + 1" by (rule word_less_inc)
  then have "currentEpoch cs \<le> max (currentEpoch cs) e + 1" by (meson le_max_iff_disj less_imp_le order_trans order_refl)
  then show ?thesis using assms(1,4) by (auto simp: steady_def bumped_def election_def)
qed

text \<open>A packet changes nothing of the election, or it is a request that is granted, or a vote that is counted.\<close>

lemma packet_ok:
  assumes p: "clusterProcessPacket env cs inb hdr = Some (cs', out)"
    and hs: "\<And>n nd. node cs n = Some nd \<Longrightarrow> \<not> n_handshake nd"
    and e: "currentEpoch cs < - 1" "h_currentEpoch hdr < - 1"
  shows "steady cs cs' \<and> plain out \<or> voted cs hdr (cs', out) \<or> tallied cs hdr (cs', out)"
proof (cases "node cs (h_sender hdr)")
  case None
  then show ?thesis using p by (auto simp: clusterProcessPacket_def steady_def election_def bind_eq_Some_conv split: if_splits dest: plain_ping)
next
  case (Some sd)
  obtain cs1 where h: "process_header env cs hdr = Some cs1"
    using p Some by (auto simp: clusterProcessPacket_def bind_eq_Some_conv)
  note el = el_header(1) [OF h Some hs [OF Some]]
  have nodes: "\<exists>nd. node cs n = Some nd \<and> n_slave nd' = n_slave nd \<and> n_numslots nd' = n_numslots nd \<and> n_handshake nd' = n_handshake nd"
    if "node cs1 n = Some nd'" for n nd' using el_header(2) [OF h Some hs [OF Some], THEN mp, OF that] .
  note kb = steady_bumped [OF el e]
  obtain sd1 where sd1: "node cs1 (h_sender hdr) = Some sd1"
    using p Some h by (auto simp: clusterProcessPacket_def sender_epochs_def bind_eq_Some_conv)
  then have "\<not> n_handshake sd1" using nodes [OF sd1] hs by metis
  then have hdr0: "sender_epochs cs1 hdr = Some hdr" using sd1 by (simp add: sender_epochs_def)
  have same: "bumped cs1 cs'" if "election cs' = election cs1" using that by (simp add: bumped_def)
  consider "bumped cs1 cs'" "plain out"
    | "h_type hdr = MT_AUTH_REQUEST" "clusterSendFailoverAuthIfNeeded env cs1 (h_sender hdr) hdr = Some (cs', out)"
    | "h_type hdr = MT_AUTH_ACK" "process_ack cs1 hdr = Some cs'" "out = []"
    using p Some h same hdr0
    by (auto simp: clusterProcessPacket_def bind_eq_Some_conv el_simps Let_def split: msg_type.splits option.splits if_splits
        dest!: el_ping el_process_update plain_ping)
  then show ?thesis
  proof cases
    case 1
    then show ?thesis using kb by blast
  next
    case 2
    consider "election cs' = election cs1" "out = []" | (granted) "election cs' = election (cs1\<lparr>lastVoteEpoch := currentEpoch cs1\<rparr>)" "currentEpoch cs1 \<le> h_currentEpoch hdr"
        "lastVoteEpoch cs1 \<noteq> currentEpoch cs1" "\<exists>me. node cs1 (myself cs1) = Some me \<and> \<not> n_slave me \<and> n_numslots me \<noteq> 0"
        "out = [] \<or> (\<exists>m. out = [(h_sender hdr, m)] \<and> h_type m = MT_AUTH_ACK \<and> h_sender m = myself cs1 \<and> h_currentEpoch m = currentEpoch cs1)"
      using el_vote [OF 2(2)] by (elim disjE conjE) simp_all
    then show ?thesis
    proof cases
      case 1
      then show ?thesis using kb same by simp
    next
      case granted
      note v = granted(1-4) and o = granted(5)
      have "currentEpoch cs1 = h_currentEpoch hdr" "currentEpoch cs \<le> h_currentEpoch hdr" "myself cs1 = myself cs"
        "lastVoteEpoch cs1 = lastVoteEpoch cs"
        using el v(2) by (auto simp: election_def max_def split: if_splits)
      moreover have "\<exists>me. node cs (myself cs) = Some me \<and> \<not> n_slave me \<and> n_numslots me \<noteq> 0"
        using v(4) nodes \<open>myself cs1 = myself cs\<close> by fastforce
      ultimately show ?thesis using 2(1) v(1,3) o el unfolding voted_def by (auto simp: election_def)
    qed
  next
    case 3
    from el_ack [OF 3(2)] show ?thesis
    proof
      assume "election cs' = election cs1"
      then show ?thesis using kb same 3(3) by simp
    next
      assume a: "election cs' = election (cs1\<lparr>failover_auth_count := failover_auth_count cs1 + 1\<rparr>) \<and> failover_auth_epoch cs1 \<le> h_currentEpoch hdr"
      then have "tallied cs hdr (cs', out)" using el 3 by (auto simp: tallied_def election_def)
      then show ?thesis by simp
    qed
  qed
qed

end
