(* ===== verification/Cluster_Run.thy ===== *)
theory Cluster_Run
  imports Cluster_Vote
begin

text \<open>
  Runs of a cluster: every node has its own state, packets are in flight, and the votes cast, the votes
  delivered and the elections won are recorded as history.
\<close>

section \<open>The system\<close>

record net =
  loc :: "nat \<Rightarrow> clusterState"
  wire :: packets
  cast :: "(nat \<times> 64 word \<times> nat) set"
  counted :: "(nat \<times> 64 word \<times> nat) set"
  elected :: "(nat \<times> 64 word) set"

abbreviation is_ack :: "clusterMsg \<Rightarrow> bool" where
  "is_ack m \<equiv> h_type m = MT_AUTH_ACK"

text \<open>A vote: voter, epoch, candidate.\<close>

definition vote_of :: "nat \<times> clusterMsg \<Rightarrow> nat \<times> 64 word \<times> nat" where
  "vote_of = (\<lambda>(i, m). (h_sender m, h_currentEpoch m, i))"

definition votes_in :: "packets \<Rightarrow> (nat \<times> 64 word \<times> nat) list" where
  "votes_in ws = map vote_of (filter (\<lambda>(i, m). is_ack m) ws)"

text \<open>
  The steps: a packet is delivered or lost, the failover handler of a node runs, or anything else happens at a
  node that leaves its election fields alone and does not lower its epoch. In a timely run a vote is
  not delivered to a candidate that has set up, but not yet started, another election.
\<close>

inductive vstep :: "bool \<Rightarrow> net \<Rightarrow> net \<Rightarrow> bool" for timely where
  deliver: "(i, m) \<in> set (wire g) \<Longrightarrow> timely \<longrightarrow> is_ack m \<longrightarrow> failover_auth_sent (loc g i) \<Longrightarrow>
     clusterProcessPacket env (loc g i) inbound m = Some (cs, out) \<Longrightarrow>
     vstep timely g (g\<lparr>loc := (loc g)(i := cs), wire := remove1 (i, m) (wire g) @ out,
       cast := cast g \<union> set (votes_in out), counted := counted g \<union> set (votes_in [(i, m)])\<rparr>)"
| lose: "vstep timely g (g\<lparr>wire := remove1 p (wire g)\<rparr>)"
| failover: "clusterHandleSlaveFailover env (loc g i) = Some (cs, out, r) \<Longrightarrow>
     vstep timely g (g\<lparr>loc := (loc g)(i := cs), wire := wire g @ out,
       elected := elected g \<union> (if r = FO_elected then {(i, failover_auth_epoch (loc g i))} else {})\<rparr>)"
| other: "steady (loc g i) cs \<Longrightarrow>
     vstep timely g (g\<lparr>loc := (loc g)(i := cs)\<rparr>)"

text \<open>
  What the proof assumes of a run. \<open>E e\<close> is the electorate of epoch \<open>e\<close>: the masters that vote in that epoch are
  in it, and a replica that runs for the epoch does not believe the cluster to be smaller. Known nodes have
  completed the handshake, and epochs do not overflow.
\<close>

definition voters_in :: "(64 word \<Rightarrow> nat set) \<Rightarrow> net \<Rightarrow> bool" where
  "voters_in E g \<longleftrightarrow> (\<forall>v e c. (v, e, c) \<in> cast g \<longrightarrow> v \<in> E e)"

definition electorate :: "(64 word \<Rightarrow> nat set) \<Rightarrow> net \<Rightarrow> bool" where
  "electorate E g \<longleftrightarrow> (\<forall>e. finite (E e)) \<and>
     (\<forall>i me. node (loc g i) i = Some me \<longrightarrow> \<not> n_master me \<longrightarrow> int (card (E (failover_auth_epoch (loc g i)))) \<le> cluster_size (loc g i)) \<and>
     (\<forall>i n nd. node (loc g i) n = Some nd \<longrightarrow> \<not> n_handshake nd) \<and>
     (\<forall>i. currentEpoch (loc g i) < - 1) \<and> (\<forall>i m. (i, m) \<in> set (wire g) \<longrightarrow> h_currentEpoch m < - 1)"

inductive vrun :: "bool \<Rightarrow> (64 word \<Rightarrow> nat set) \<Rightarrow> net \<Rightarrow> net \<Rightarrow> bool" for timely E where
  stop: "vrun timely E g g"
| more: "vrun timely E g g' \<Longrightarrow> electorate E g' \<Longrightarrow> vstep timely g' g'' \<Longrightarrow> voters_in E g'' \<Longrightarrow> vrun timely E g g''"

text \<open>No election has taken place yet.\<close>

definition vstart :: "net \<Rightarrow> bool" where
  "vstart g \<longleftrightarrow> wire g = [] \<and> cast g = {} \<and> counted g = {} \<and> elected g = {} \<and>
     (\<forall>i. myself (loc g i) = i \<and> lastVoteEpoch (loc g i) \<le> currentEpoch (loc g i) \<and>
        failover_auth_epoch (loc g i) \<le> currentEpoch (loc g i) \<and> failover_auth_count (loc g i) = 0)"

section \<open>The invariant\<close>

definition tally :: "net \<Rightarrow> nat \<Rightarrow> nat set" where
  "tally g i = {v. (v, failover_auth_epoch (loc g i), i) \<in> counted g}"

definition local_ok :: "net \<Rightarrow> nat \<Rightarrow> bool" where
  "local_ok g i \<longleftrightarrow> myself (loc g i) = i \<and> lastVoteEpoch (loc g i) \<le> currentEpoch (loc g i) \<and>
     failover_auth_epoch (loc g i) \<le> currentEpoch (loc g i) \<and>
     failover_auth_count (loc g i) \<le> (if failover_auth_sent (loc g i) then int (card (tally g i)) else 0)"

definition cast_ok :: "(64 word \<Rightarrow> nat set) \<Rightarrow> net \<Rightarrow> bool" where
  "cast_ok E g \<longleftrightarrow> (\<forall>v e c. (v, e, c) \<in> cast g \<longrightarrow> v \<in> E e \<and> e \<le> lastVoteEpoch (loc g v) \<and> e \<le> failover_auth_epoch (loc g c) \<and>
     (\<forall>c'. (v, e, c') \<in> cast g \<longrightarrow> c' = c)) \<and> counted g \<subseteq> cast g"

definition wire_ok :: "net \<Rightarrow> bool" where
  "wire_ok g \<longleftrightarrow> (\<forall>i m. (i, m) \<in> set (wire g) \<longrightarrow> h_type m = MT_AUTH_REQUEST \<longrightarrow> h_currentEpoch m \<le> failover_auth_epoch (loc g (h_sender m))) \<and>
     distinct (votes_in (wire g)) \<and> set (votes_in (wire g)) \<subseteq> cast g - counted g"

definition elected_ok :: "(64 word \<Rightarrow> nat set) \<Rightarrow> net \<Rightarrow> bool" where
  "elected_ok E g \<longleftrightarrow> (\<forall>i e. (i, e) \<in> elected g \<longrightarrow> card (E e) div 2 + 1 \<le> card {v. (v, e, i) \<in> cast g})"

definition vinv :: "(64 word \<Rightarrow> nat set) \<Rightarrow> net \<Rightarrow> bool" where
  "vinv E g \<longleftrightarrow> (\<forall>i. local_ok g i) \<and> cast_ok E g \<and> wire_ok g \<and> elected_ok E g"

lemma cast_okD:
  assumes "cast_ok E g" "(v, e, c) \<in> cast g"
  shows "v \<in> E e" "e \<le> lastVoteEpoch (loc g v)" "e \<le> failover_auth_epoch (loc g c)" "(v, e, c') \<in> cast g \<Longrightarrow> c' = c"
  using assms by (simp_all add: cast_ok_def)

lemma vinv_start: "vstart g \<Longrightarrow> vinv E g"
  by (auto simp: vinv_def vstart_def local_ok_def cast_ok_def wire_ok_def elected_ok_def votes_in_def)

lemma votes_in_append [simp]: "votes_in (xs @ ys) = votes_in xs @ votes_in ys"
  by (simp add: votes_in_def)

lemma votes_in_plain: "plain out \<Longrightarrow> votes_in out = []"
  by (auto simp: plain_def votes_in_def filter_empty_conv)

lemma votes_in_remove1:
  "set (votes_in (remove1 p ws)) \<subseteq> set (votes_in ws)" "distinct (votes_in ws) \<Longrightarrow> distinct (votes_in (remove1 p ws))"
proof -
  show s: "set (votes_in (remove1 p ws)) \<subseteq> set (votes_in ws)" for ws
    using set_remove1_subset [of p ws] by (auto simp: votes_in_def)
  show "distinct (votes_in ws) \<Longrightarrow> distinct (votes_in (remove1 p ws))"
  proof (induction ws)
    case (Cons x ws)
    then show ?case using s [of ws] by (cases x) (auto simp: votes_in_def split: if_splits)
  qed simp
qed

lemma votes_in_removed:
  "p \<in> set ws \<Longrightarrow> is_ack (snd p) \<Longrightarrow> distinct (votes_in ws) \<Longrightarrow> vote_of p \<notin> set (votes_in (remove1 p ws))"
proof (induction ws)
  case (Cons x ws)
  show ?case
  proof (cases "x = p")
    case True
    then show ?thesis using Cons.prems by (cases p) (auto simp: votes_in_def)
  next
    case False
    then have IH: "vote_of p \<notin> set (votes_in (remove1 p ws))" using Cons by (cases x) (auto simp: votes_in_def split: if_splits)
    have "vote_of p \<in> set (votes_in ws)" using Cons.prems False by (cases p) (auto simp: votes_in_def)
    then have "is_ack (snd x) \<Longrightarrow> vote_of x \<noteq> vote_of p" using Cons.prems(3) by (cases x) (auto simp: votes_in_def)
    then show ?thesis using False IH by (cases x) (auto simp: votes_in_def)
  qed
qed simp

lemma votes_in_mem: "p \<in> set ws \<Longrightarrow> is_ack (snd p) \<Longrightarrow> vote_of p \<in> set (votes_in ws)"
  by (cases p) (auto simp: votes_in_def)

lemma steadyD:
  assumes "steady cs cs'"
  shows "myself cs' = myself cs" "lastVoteEpoch cs' = lastVoteEpoch cs" "failover_auth_epoch cs' = failover_auth_epoch cs"
    "failover_auth_count cs' = failover_auth_count cs" "failover_auth_sent cs' = failover_auth_sent cs" "currentEpoch cs \<le> currentEpoch cs'"
  using assms by (simp_all add: steady_def election_def)

lemma tally_finite: "cast_ok E g \<Longrightarrow> \<forall>e. finite (E e) \<Longrightarrow> counted g \<subseteq> C \<Longrightarrow> C \<subseteq> cast g \<Longrightarrow> finite {v. (v, e, i) \<in> C}"
  by (rule finite_subset [of _ "E e"]) (auto simp: cast_ok_def)

text \<open>The packets in flight: some may have been taken away, and plain ones added.\<close>

lemma wire_ok_sub:
  assumes "wire_ok g" "set ws \<subseteq> set (wire g)" "distinct (votes_in ws)" "set (votes_in ws) \<subseteq> set (votes_in (wire g))"
    "plain out" "C \<inter> set (votes_in ws) = {}" "\<And>j. failover_auth_epoch (loc g j) \<le> failover_auth_epoch (l j)"
  shows "wire_ok (g\<lparr>loc := l, wire := ws @ out, counted := counted g \<union> C\<rparr>)"
proof -
  have "h_currentEpoch m \<le> failover_auth_epoch (l (h_sender m))" if "(i, m) \<in> set (ws @ out)" "h_type m = MT_AUTH_REQUEST" for i m
  proof -
    have "(i, m) \<in> set (wire g)" using that assms(2,5) by (auto simp: plain_def)
    then have "h_currentEpoch m \<le> failover_auth_epoch (loc g (h_sender m))" using assms(1) that(2) by (simp add: wire_ok_def)
    then show ?thesis using assms(7) by (rule order_trans)
  qed
  then show ?thesis using assms(1,3,4,6) unfolding wire_ok_def by (auto simp: votes_in_plain [OF assms(5)])
qed

lemma vinv_steady:
  assumes "vinv E g" "\<forall>e. finite (E e)" "steady (loc g i) cs" "plain out" "set ws \<subseteq> set (wire g)" "distinct (votes_in ws)"
    "set (votes_in ws) \<subseteq> set (votes_in (wire g))" "C \<subseteq> cast g" "C \<inter> set (votes_in ws) = {}"
  shows "vinv E (g\<lparr>loc := (loc g)(i := cs), wire := ws @ out, counted := counted g \<union> C\<rparr>)" (is "vinv E ?g")
proof -
  note k = steadyD [OF assms(3)]
  have l: "local_ok g j" "cast_ok E g" "wire_ok g" "elected_ok E g" for j using assms(1) by (simp_all add: vinv_def)
  have sub: "counted g \<subseteq> cast g" using l(2) by (simp add: cast_ok_def)
  have same: "failover_auth_epoch (loc ?g j) = failover_auth_epoch (loc g j)" "lastVoteEpoch (loc ?g j) = lastVoteEpoch (loc g j)" for j
    using k by simp_all
  have "local_ok ?g j" for j
  proof -
    have "card (tally g j) \<le> card (tally ?g j)"
      unfolding tally_def same using sub assms(8) by (intro card_mono tally_finite [OF l(2) assms(2)]) auto
    then have "failover_auth_count (loc g j) \<le> (if failover_auth_sent (loc g j) then int (card (tally ?g j)) else 0)"
      using l(1) [of j] by (auto simp: local_ok_def split: if_splits)
    then show ?thesis using l(1) [of j] k unfolding local_ok_def by auto
  qed
  moreover have "cast_ok E ?g" using l(2) assms(8) same unfolding cast_ok_def by simp
  moreover have "wire_ok ?g" using k by (intro wire_ok_sub [OF l(3)] assms) auto
  moreover have "elected_ok E ?g" using l(4) by (simp add: elected_ok_def)
  ultimately show ?thesis by (simp add: vinv_def)
qed

text \<open>A vote that arrives is new, and it is for the election under way.\<close>

lemma vinv_tallied:
  assumes "vinv E g" "\<forall>e. finite (E e)" "(i, m) \<in> set (wire g)" "failover_auth_sent (loc g i)" "tallied (loc g i) m (cs, out)"
  shows "vinv E (g\<lparr>loc := (loc g)(i := cs), wire := remove1 (i, m) (wire g) @ out, counted := counted g \<union> set (votes_in [(i, m)])\<rparr>)"
    (is "vinv E ?g")
proof -
  let ?e = "failover_auth_epoch (loc g i)" and ?v = "h_sender m"
  have l: "local_ok g j" "cast_ok E g" "wire_ok g" "elected_ok E g" for j using assms(1) by (simp_all add: vinv_def)
  have t: "is_ack m" "out = []" "?e \<le> h_currentEpoch m"
    "election cs = election ((loc g i)\<lparr>currentEpoch := max (currentEpoch (loc g i)) (h_currentEpoch m), failover_auth_count := failover_auth_count (loc g i) + 1\<rparr>)"
    using assms(5) by (simp_all add: tallied_def)
  then have f: "myself cs = myself (loc g i)" "lastVoteEpoch cs = lastVoteEpoch (loc g i)" "failover_auth_epoch cs = ?e"
    "failover_auth_count cs = failover_auth_count (loc g i) + 1" "failover_auth_sent cs = failover_auth_sent (loc g i)"
    "currentEpoch (loc g i) \<le> currentEpoch cs" by (simp_all add: election_def)
  have vote: "votes_in [(i, m)] = [(?v, h_currentEpoch m, i)]" using t(1) by (simp add: votes_in_def vote_of_def)
  have dis: "distinct (votes_in (wire g))" using l(3) by (simp add: wire_ok_def)
  have new: "(?v, h_currentEpoch m, i) \<in> cast g - counted g"
    using votes_in_mem [OF assms(3)] t(1) l(3) by (auto simp: wire_ok_def vote_of_def)
  then have e: "h_currentEpoch m = ?e" using l(2) t(3) by (auto simp: cast_ok_def intro: antisym)
  have gone: "(?v, ?e, i) \<notin> set (votes_in (remove1 (i, m) (wire g)))"
    using votes_in_removed [OF assms(3) _ dis] t(1) e by (simp add: vote_of_def)
  have sub: "counted g \<subseteq> cast g" using l(2) by (simp add: cast_ok_def)
  have tal: "tally ?g j = (if j = i then insert ?v (tally g i) else tally g j)" for j
    unfolding tally_def using f(3) vote e by auto
  have "local_ok ?g j" for j
  proof (cases "j = i")
    case True
    have "?v \<notin> tally g i" "finite (tally g i)"
      using new e tally_finite [OF l(2) assms(2) order_refl sub] by (auto simp: tally_def)
    then have "card (tally ?g i) = Suc (card (tally g i))" by (simp add: tal)
    then show ?thesis using l(1) [of i] f assms(4) True unfolding local_ok_def by auto
  next
    case False
    then show ?thesis using l(1) [of j] tal [of j] unfolding local_ok_def by (auto split: if_splits)
  qed
  moreover have "cast_ok E ?g" using l(2) new f vote unfolding cast_ok_def by auto
  moreover have "wire_ok ?g"
    using f gone vote e dis by (intro wire_ok_sub [OF l(3)]) (auto simp: t(2) votes_in_remove1 set_remove1_subset dest: notin_set_remove1)
  moreover have "elected_ok E ?g" using l(4) by (simp add: elected_ok_def)
  ultimately show ?thesis by (simp add: vinv_def)
qed

text \<open>A vote is cast in an epoch later than those of all earlier votes of the same master.\<close>

lemma cast_ok_vote:
  assumes "cast_ok E g" "V \<noteq> {} \<longrightarrow> i \<in> E e" "lastVoteEpoch (loc g i) < e" "e \<le> failover_auth_epoch (l c)"
    "\<And>j. lastVoteEpoch (loc g j) \<le> lastVoteEpoch (l j)" "lastVoteEpoch (l i) = e"
    "\<And>j. failover_auth_epoch (l j) = failover_auth_epoch (loc g j)" "V \<subseteq> {(i, e, c)}"
  shows "cast_ok E (g\<lparr>loc := l, wire := w, cast := cast g \<union> V\<rparr>)"
proof -
  have o: "v \<in> E e' \<and> e' \<le> lastVoteEpoch (loc g v) \<and> e' \<le> failover_auth_epoch (loc g c')" "(v, e', c'') \<in> cast g \<longrightarrow> c'' = c'"
    if "(v, e', c') \<in> cast g" for v e' c' c'' using assms(1) that by (simp_all add: cast_ok_def)
  have fresh: "(i, e, c') \<notin> cast g" for c' using o(1) [of i e c'] assms(3) by auto
  have sub: "counted g \<subseteq> cast g" using assms(1) by (simp add: cast_ok_def)
  have a: "v \<in> E e' \<and> e' \<le> lastVoteEpoch (l v) \<and> e' \<le> failover_auth_epoch (l c') \<and> (\<forall>c''. (v, e', c'') \<in> cast g \<union> V \<longrightarrow> c'' = c')"
    if "(v, e', c') \<in> cast g \<union> V" for v e' c'
  proof (cases "(v, e', c') \<in> cast g")
    case True
    have ne: "(v, e') \<noteq> (i, e)" using True fresh by auto
    have "e' \<le> lastVoteEpoch (l v)" using o(1) [OF True] assms(5) [of v] by auto
    then show ?thesis using o [OF True] ne assms(7,8) by auto
  next
    case False
    then have "v = i" "e' = e" "c' = c" "V \<noteq> {}" using that assms(8) by auto
    then show ?thesis using assms(2,4,6,8) fresh by auto
  qed
  show ?thesis using a sub unfolding cast_ok_def by simp blast
qed

lemma vinv_voted:
  assumes "vinv E g" "\<forall>e. finite (E e)" "(i, m) \<in> set (wire g)" "voted (loc g i) m (cs, out)"
    and E: "\<And>v e c. (v, e, c) \<in> set (votes_in out) \<Longrightarrow> v \<in> E e"
  shows "vinv E (g\<lparr>loc := (loc g)(i := cs), wire := remove1 (i, m) (wire g) @ out, cast := cast g \<union> set (votes_in out)\<rparr>)"
    (is "vinv E ?g")
proof -
  let ?e = "h_currentEpoch m" and ?c = "h_sender m"
  have l: "local_ok g j" "cast_ok E g" "wire_ok g" "elected_ok E g" for j using assms(1) by (simp_all add: vinv_def)
  have my: "myself (loc g i) = i" using l(1) [of i] by (simp add: local_ok_def)
  have t: "h_type m = MT_AUTH_REQUEST" "currentEpoch (loc g i) \<le> ?e" "lastVoteEpoch (loc g i) \<noteq> ?e"
    "election cs = election ((loc g i)\<lparr>currentEpoch := ?e, lastVoteEpoch := ?e\<rparr>)"
    "out = [] \<or> (\<exists>m'. out = [(?c, m')] \<and> is_ack m' \<and> h_sender m' = i \<and> h_currentEpoch m' = ?e)"
    using assms(4) my by (simp_all add: voted_def)
  have f: "myself cs = i" "lastVoteEpoch cs = ?e" "failover_auth_epoch cs = failover_auth_epoch (loc g i)" "currentEpoch cs = ?e"
    "failover_auth_count cs = failover_auth_count (loc g i)" "failover_auth_sent cs = failover_auth_sent (loc g i)"
    using t(4) my by (simp_all add: election_def)
  have less: "lastVoteEpoch (loc g i) < ?e" using l(1) [of i] t(2,3) by (auto simp: local_ok_def)
  have req: "?e \<le> failover_auth_epoch (loc g ?c)" using l(3) assms(3) t(1) by (simp add: wire_ok_def)
  have fae: "failover_auth_epoch (loc ?g j) = failover_auth_epoch (loc g j)" for j using f by simp
  have V: "votes_in out = [] \<or> votes_in out = [(i, ?e, ?c)]" using t(5) by (auto simp: votes_in_def vote_of_def)
  have iE: "set (votes_in out) \<noteq> {} \<longrightarrow> i \<in> E ?e" using V E [of i ?e ?c] by auto
  have c: "cast_ok E ?g"
    by (rule cast_ok_vote [OF l(2) iE less, where c = ?c]) (use req f less V in \<open>auto simp: less_imp_le\<close>)
  have fresh: "(i, ?e, ?c) \<notin> cast g" using cast_okD(2) [OF l(2), of i ?e ?c] less by auto
  have "local_ok ?g j" for j
  proof -
    have "tally ?g j = tally g j" unfolding tally_def fae by simp
    then show ?thesis using l(1) [of j] f t(2) fae [of j] unfolding local_ok_def by auto
  qed
  moreover have "wire_ok ?g"
  proof -
    have w: "wire_ok (g\<lparr>loc := (loc g)(i := cs), wire := remove1 (i, m) (wire g) @ [], counted := counted g \<union> {}\<rparr>)"
      using l(3) f by (intro wire_ok_sub [OF l(3)] set_remove1_subset) (auto simp: wire_ok_def votes_in_remove1 subsetD [OF votes_in_remove1(1)])
    have "counted g \<subseteq> cast g" using l(2) by (simp add: cast_ok_def)
    moreover have "h_type m' \<noteq> MT_AUTH_REQUEST" if "(j, m') \<in> set out" for j m' using t(5) that by auto
    ultimately show ?thesis using w V fresh unfolding wire_ok_def by auto
  qed
  moreover have "elected_ok E ?g"
  proof -
    have "card {v. (v, e, j) \<in> cast g} \<le> card {v. (v, e, j) \<in> cast g \<union> set (votes_in out)}" for e j
      using c assms(2) by (intro card_mono finite_subset [of "{v. (v, e, j) \<in> cast g \<union> set (votes_in out)}" "E e"]) (auto simp: cast_ok_def)
    then show ?thesis using l(4) order_trans unfolding elected_ok_def by fastforce
  qed
  ultimately show ?thesis using c by (simp add: vinv_def)
qed

text \<open>An election is set up or started: nothing has been counted for it.\<close>

lemma vinv_fresh:
  assumes "vinv E g" "myself cs = i" "currentEpoch (loc g i) \<le> currentEpoch cs" "lastVoteEpoch cs = lastVoteEpoch (loc g i)"
    "failover_auth_epoch (loc g i) \<le> failover_auth_epoch cs" "failover_auth_epoch cs \<le> currentEpoch cs" "failover_auth_count cs \<le> 0"
    and out: "\<And>n m. (n, m) \<in> set out \<Longrightarrow> \<not> is_ack m \<and> (h_type m = MT_AUTH_REQUEST \<longrightarrow> h_sender m = i \<and> h_currentEpoch m = failover_auth_epoch cs)"
  shows "vinv E (g\<lparr>loc := (loc g)(i := cs), wire := wire g @ out\<rparr>)" (is "vinv E ?g")
proof -
  have l: "local_ok g j" "cast_ok E g" "wire_ok g" "elected_ok E g" for j using assms(1) by (simp_all add: vinv_def)
  have fae: "failover_auth_epoch (loc g j) \<le> failover_auth_epoch (loc ?g j)" for j using assms(5) by simp
  have lv: "lastVoteEpoch (loc ?g j) = lastVoteEpoch (loc g j)" for j using assms(4) by simp
  have "local_ok ?g j" for j
  proof (cases "j = i")
    case True
    then show ?thesis using l(1) [of i] assms(2-4,6,7) unfolding local_ok_def by auto
  next
    case False
    then have "tally ?g j = tally g j" by (simp add: tally_def)
    then show ?thesis using l(1) [of j] False unfolding local_ok_def by (auto split: if_splits)
  qed
  moreover have "cast_ok E ?g"
  proof -
    have "e \<le> failover_auth_epoch (loc ?g c)" if "(v, e, c) \<in> cast g" for v e c using cast_okD(3) [OF l(2) that] fae by (rule order_trans)
    then show ?thesis using l(2) lv unfolding cast_ok_def by simp
  qed
  moreover have "wire_ok ?g"
  proof -
    have "votes_in out = []" using out by (auto simp: votes_in_def filter_empty_conv)
    moreover have "h_currentEpoch m \<le> failover_auth_epoch (loc ?g (h_sender m))" if "(n, m) \<in> set (wire g @ out)" "h_type m = MT_AUTH_REQUEST" for n m
    proof (cases "(n, m) \<in> set out")
      case True
      then show ?thesis using out that(2) by simp
    next
      case False
      then have "h_currentEpoch m \<le> failover_auth_epoch (loc g (h_sender m))" using l(3) that by (simp add: wire_ok_def)
      then show ?thesis using fae by (rule order_trans)
    qed
    ultimately show ?thesis using l(3) unfolding wire_ok_def by simp
  qed
  moreover have "elected_ok E ?g" using l(4) by (simp add: elected_ok_def)
  ultimately show ?thesis by (simp add: vinv_def)
qed

lemma elected_irrelevant:
  "local_ok (g\<lparr>elected := x\<rparr>) j = local_ok g j" "cast_ok E (g\<lparr>elected := x\<rparr>) = cast_ok E g" "wire_ok (g\<lparr>elected := x\<rparr>) = wire_ok g"
  by (simp_all add: local_ok_def cast_ok_def wire_ok_def tally_def)

lemma vinv_elected:
  assumes "vinv E g" "\<forall>e. finite (E e)" "failover_auth_sent (loc g i)" "cluster_size (loc g i) div 2 + 1 \<le> failover_auth_count (loc g i)"
    "int (card (E (failover_auth_epoch (loc g i)))) \<le> cluster_size (loc g i)"
  shows "vinv E (g\<lparr>elected := elected g \<union> {(i, failover_auth_epoch (loc g i))}\<rparr>)"
proof -
  have l: "local_ok g j" "cast_ok E g" "wire_ok g" "elected_ok E g" for j using assms(1) by (simp_all add: vinv_def)
  let ?E = "E (failover_auth_epoch (loc g i))" and ?V = "{v. (v, failover_auth_epoch (loc g i), i) \<in> cast g}"
  have "tally g i \<subseteq> ?V" using l(2) by (auto simp: tally_def cast_ok_def)
  moreover have "finite ?V" using tally_finite [OF l(2) assms(2), of "cast g"] l(2) by (simp add: cast_ok_def)
  ultimately have "card (tally g i) \<le> card ?V" by (intro card_mono)
  moreover have "failover_auth_count (loc g i) \<le> int (card (tally g i))" using l(1) [of i] assms(3) by (simp add: local_ok_def)
  moreover have "int (card ?E div 2) \<le> cluster_size (loc g i) div 2" using assms(5) by (simp add: zdiv_int zdiv_mono1)
  ultimately have "card ?E div 2 + 1 \<le> card ?V" using assms(4) by linarith
  then have "elected_ok E (g\<lparr>elected := elected g \<union> {(i, failover_auth_epoch (loc g i))}\<rparr>)" using l(4) by (simp add: elected_ok_def)
  then show ?thesis using l by (simp add: vinv_def elected_irrelevant)
qed

lemma electorate_size:
  "electorate E g \<Longrightarrow> node (loc g i) i = Some me \<Longrightarrow> \<not> n_master me \<Longrightarrow> int (card (E (failover_auth_epoch (loc g i)))) \<le> cluster_size (loc g i)"
  by (simp add: electorate_def)

lemma elected_slave:
  "clusterHandleSlaveFailover env cs = Some (cs', out, FO_elected) \<Longrightarrow> \<exists>me. node cs (myself cs) = Some me \<and> \<not> n_master me"
  by (auto simp: clusterHandleSlaveFailover_def failover_not_needed_def bind_eq_Some_conv Let_def split: if_splits option.splits)

lemma vinv_failover:
  assumes "vinv E g" "electorate E g" "clusterHandleSlaveFailover env (loc g i) = Some (cs, out, r)"
  shows "vinv E (g\<lparr>loc := (loc g)(i := cs), wire := wire g @ out,
    elected := elected g \<union> (if r = FO_elected then {(i, failover_auth_epoch (loc g i))} else {})\<rparr>)"
proof -
  have f: "failover_post (loc g i) (cluster_size (loc g i) div 2 + 1) (cs, out, r)" by (rule failover_ok [OF assms(3)])
  have l: "local_ok g i" "wire_ok g" using assms(1) by (simp_all add: vinv_def)
  have E: "\<forall>e. finite (E e)" "currentEpoch (loc g i) < - 1" using assms(2) by (simp_all add: electorate_def)
  have quiet: "vinv E (h\<lparr>loc := (loc h)(i := cs), wire := wire h @ out\<rparr>)" if "vinv E h" "loc h = loc g" "election cs = election (loc g i)" "plain out" for h
    using vinv_steady [OF that(1) E(1) _ that(4) order_refl _ order_refl, of i cs "{}"] that
    by (simp add: steady_def election_def vinv_def wire_ok_def)
  show ?thesis
  proof (cases r)
    case FO_requested
    then have p: "\<not> failover_auth_sent (loc g i)"
      "election cs = election ((loc g i)\<lparr>currentEpoch := currentEpoch (loc g i) + 1, failover_auth_epoch := currentEpoch (loc g i) + 1, failover_auth_sent := True\<rparr>)"
      "\<And>n m. (n, m) \<in> set out \<Longrightarrow> h_type m = MT_AUTH_REQUEST \<and> h_sender m = myself (loc g i) \<and> h_currentEpoch m = currentEpoch (loc g i) + 1"
      using f by (auto simp: failover_post_simps)
    have "currentEpoch (loc g i) < currentEpoch (loc g i) + 1" by (rule word_less_inc [OF E(2)])
    then have "vinv E (g\<lparr>loc := (loc g)(i := cs), wire := wire g @ out\<rparr>)"
      using p l(1) by (intro vinv_fresh [OF assms(1)]) (auto simp: local_ok_def election_def)
    then show ?thesis using FO_requested by simp
  next
    case FO_scheduled
    then have p: "election cs = election ((loc g i)\<lparr>failover_auth_count := 0, failover_auth_sent := False\<rparr>)" "plain out"
      using f by (simp_all add: failover_post_simps)
    then have "vinv E (g\<lparr>loc := (loc g)(i := cs), wire := wire g @ out\<rparr>)"
      using l(1) by (intro vinv_fresh [OF assms(1)]) (auto simp: local_ok_def election_def plain_def)
    then show ?thesis using FO_scheduled by simp
  next
    case FO_elected
    then have p: "failover_auth_sent (loc g i)" "cluster_size (loc g i) div 2 + 1 \<le> failover_auth_count (loc g i)"
      "election cs = election (loc g i)" "plain out" using f by (simp_all add: failover_post_def)
    have size: "int (card (E (failover_auth_epoch (loc g i)))) \<le> cluster_size (loc g i)"
      using elected_slave [of env "loc g i" cs out] assms(3) FO_elected l(1) electorate_size [OF assms(2), of i] by (auto simp: local_ok_def)
    show ?thesis using quiet [OF vinv_elected [OF assms(1) E(1) p(1,2) size]] p(3,4) FO_elected by (cases g) simp
  qed (use quiet [OF assms(1)] f in \<open>simp_all add: failover_post_def\<close>)
qed

lemma vinv_deliver:
  assumes "vinv E g" "electorate E g" "(i, m) \<in> set (wire g)" "is_ack m \<longrightarrow> failover_auth_sent (loc g i)"
    "\<And>v e c. (v, e, c) \<in> set (votes_in out) \<Longrightarrow> v \<in> E e" "clusterProcessPacket env (loc g i) inb m = Some (cs, out)"
  shows "vinv E (g\<lparr>loc := (loc g)(i := cs), wire := remove1 (i, m) (wire g) @ out,
    cast := cast g \<union> set (votes_in out), counted := counted g \<union> set (votes_in [(i, m)])\<rparr>)"
proof -
  have hs: "\<not> n_handshake nd" if "node (loc g i) n = Some nd" for n nd
  proof -
    have "\<forall>i n nd. node (loc g i) n = Some nd \<longrightarrow> \<not> n_handshake nd" using assms(2) unfolding electorate_def by (elim conjE)
    then show ?thesis using that by blast
  qed
  have fin: "\<forall>e. finite (E e)" using assms(2) by (simp add: electorate_def)
  have e: "currentEpoch (loc g i) < - 1" "h_currentEpoch m < - 1" using assms(2,3) by (simp_all add: electorate_def)
  have w: "wire_ok g" using assms(1) by (simp add: vinv_def)
  consider "steady (loc g i) cs" "plain out" | "voted (loc g i) m (cs, out)" | "tallied (loc g i) m (cs, out)"
    using packet_ok [OF assms(6) _ e] hs by blast
  then show ?thesis
  proof cases
    case 1
    have "set (votes_in [(i, m)]) \<subseteq> cast g \<and> set (votes_in [(i, m)]) \<inter> set (votes_in (remove1 (i, m) (wire g))) = {}"
    proof (cases "is_ack m")
      case True
      then show ?thesis using w votes_in_mem [OF assms(3)] votes_in_removed [OF assms(3)] by (auto simp: wire_ok_def votes_in_def vote_of_def)
    qed (simp add: votes_in_def)
    then have "vinv E (g\<lparr>loc := (loc g)(i := cs), wire := remove1 (i, m) (wire g) @ out, counted := counted g \<union> set (votes_in [(i, m)])\<rparr>)"
      using w by (intro vinv_steady [OF assms(1) fin 1] set_remove1_subset votes_in_remove1) (simp_all add: wire_ok_def)
    then show ?thesis using votes_in_plain [OF 1(2)] by simp
  next
    case 2
    then have "votes_in [(i, m)] = []" by (simp add: voted_def votes_in_def)
    then show ?thesis using vinv_voted [OF assms(1) fin assms(3) 2 assms(5)] by simp
  next
    case 3
    then have "is_ack m" "out = []" by (simp_all add: tallied_def)
    then show ?thesis using vinv_tallied [OF assms(1) fin assms(3) _ 3] assms(4) by (simp add: votes_in_def [of "[]"])
  qed
qed

lemma vinv_run: "vrun True E g g' \<Longrightarrow> vinv E g \<Longrightarrow> vinv E g'"
proof (induction rule: vrun.induct)
  case (more g g' g'')
  then have v: "vinv E g'" and E: "electorate E g'" by simp_all
  have fin: "\<forall>e. finite (E e)" using E by (simp add: electorate_def)
  have w: "wire_ok g'" using v by (simp add: vinv_def)
  show ?case using more.hyps(3)
  proof (cases rule: vstep.cases)
    case (deliver i m env inbound cs out)
    have "v \<in> E e" if "(v, e, c) \<in> set (votes_in out)" for v e c
      using more.hyps(4) that deliver by (simp add: voters_in_def)
    then show ?thesis using vinv_deliver [OF v E] deliver by simp
  next
    case (lose p)
    have "vinv E (g'\<lparr>loc := (loc g')(0 := loc g' 0), wire := remove1 p (wire g') @ [], counted := counted g' \<union> {}\<rparr>)"
      using w by (intro vinv_steady [OF v fin] set_remove1_subset votes_in_remove1) (simp_all add: wire_ok_def steady_def)
    then show ?thesis using lose by simp
  next
    case (failover env i cs out r)
    then show ?thesis using vinv_failover [OF v E] by simp
  next
    case (other i cs)
    have "vinv E (g'\<lparr>loc := (loc g')(i := cs), wire := wire g' @ [], counted := counted g' \<union> {}\<rparr>)"
      using w other by (intro vinv_steady [OF v fin]) (simp_all add: wire_ok_def)
    then show ?thesis using other by simp
  qed
qed

lemma majorities_meet:
  fixes E :: "'a set"
  assumes "finite E" "A \<subseteq> E" "B \<subseteq> E" "card E div 2 + 1 \<le> card A" "card E div 2 + 1 \<le> card B"
  shows "\<exists>v. v \<in> A \<and> v \<in> B"
proof (rule ccontr)
  assume "\<not> ?thesis"
  then have "card (A \<union> B) = card A + card B" using assms(1-3) by (intro card_Un_disjoint) (auto intro: finite_subset)
  moreover have "card (A \<union> B) \<le> card E" using assms(1-3) by (intro card_mono) auto
  ultimately show False using assms(4,5) by linarith
qed

lemma vinv_one_winner:
  assumes "vinv E g" "\<forall>e. finite (E e)" "(c, e) \<in> elected g" "(c', e) \<in> elected g"
  shows "c = c'"
proof -
  have c: "cast_ok E g" and "elected_ok E g" using assms(1) by (simp_all add: vinv_def)
  then have m: "card (E e) div 2 + 1 \<le> card {v. (v, e, c) \<in> cast g}" "card (E e) div 2 + 1 \<le> card {v. (v, e, c') \<in> cast g}"
    using assms(3,4) by (simp_all add: elected_ok_def)
  have s: "{v. (v, e, x) \<in> cast g} \<subseteq> E e" for x by (rule subsetI) (simp add: cast_okD(1) [OF c])
  obtain v where v: "(v, e, c) \<in> cast g" "(v, e, c') \<in> cast g"
    using majorities_meet [OF spec [OF assms(2)] s s m] by (elim exE conjE) simp
  show ?thesis by (rule cast_okD(4) [OF c v(2,1)])
qed

end
