(* ===== verification/Cluster_Takeover.thy ===== *)
theory Cluster_Takeover
  imports Cluster_Slots Cluster_Failover
begin

text \<open>
  What a call of \<^verbatim>\<open>clusterHandleSlaveFailover\<close> does. A replica that wins its election takes over all slots of its
  master, as a master, and raises its configuration epoch to that of the election unless it is larger already; in
  every other call nodes and slots stay as they are. No assertion fails on the way and the slot table, the bitmaps
  and the counters stay in agreement.
\<close>

section \<open>Claiming the slots\<close>

lemma claim_slots_ok:
  assumes "slots_wf cs" "node cs (myself cs) \<noteq> None" "node cs om \<noteq> None" "om \<noteq> myself cs" "set js \<subseteq> {0..<CLUSTER_SLOTS}"
  shows "\<exists>cs'. claim_slots cs om js = Some cs' \<and> slots_wf cs' \<and> reslotted cs cs' \<and>
    slots cs' = (\<lambda>j. if j \<in> set js \<and> slots cs j = Some om then Some (myself cs) else slots cs j)"
  using assms
proof (induction js arbitrary: cs)
  case Nil
  then show ?case by (auto simp: reslotted_refl)
next
  case (Cons j js)
  obtain nd where nd: "node cs om = Some nd" using Cons.prems(3) by auto
  have j: "j < CLUSTER_SLOTS" using Cons.prems(5) by simp
  have b: "clusterNodeGetSlotBit nd j \<longleftrightarrow> slots cs j = Some om"
    using slots_wf_bit [OF Cons.prems(1) nd j] by (simp add: clusterNodeGetSlotBit_def)
  show ?case
  proof (cases "slots cs j = Some om")
    case False
    obtain cs' where "claim_slots cs om js = Some cs'" "slots_wf cs'" "reslotted cs cs'"
      "slots cs' = (\<lambda>j. if j \<in> set js \<and> slots cs j = Some om then Some (myself cs) else slots cs j)"
      using Cons.IH [OF Cons.prems(1-4)] Cons.prems(5) by auto
    moreover have "(\<lambda>i. if i \<in> set js \<and> slots cs i = Some om then Some (myself cs) else slots cs i) =
        (\<lambda>i. if i \<in> set (j # js) \<and> slots cs i = Some om then Some (myself cs) else slots cs i)" using False by auto
    ultimately show ?thesis using nd b False by simp
  next
    case True
    obtain cs1 x cs2 where m: "clusterDelSlot cs j = Some (cs1, x)" "clusterAddSlot cs1 (myself cs) j = Some (cs2, True)" "slots_wf cs2"
      "slots cs2 = (slots cs)(j \<mapsto> myself cs)" "reslotted cs cs2" "owner_not_claiming_slot cs2 = owner_not_claiming_slot cs" "myself cs1 = myself cs"
      by (rule move_slot_ok [OF Cons.prems(1) j Cons.prems(2)])
    have k: "myself cs2 = myself cs" by (rule reslotted_fields(1) [OF m(5)])
    have "node cs2 (myself cs2) \<noteq> None" "node cs2 om \<noteq> None" "om \<noteq> myself cs2" "set js \<subseteq> {0..<CLUSTER_SLOTS}"
      using Cons.prems reslotted_node(3) [OF m(5)] k by simp_all
    then obtain cs' where 3: "claim_slots cs2 om js = Some cs'" "slots_wf cs'" "reslotted cs2 cs'"
      "slots cs' = (\<lambda>j. if j \<in> set js \<and> slots cs2 j = Some om then Some (myself cs2) else slots cs2 j)"
      using Cons.IH [OF m(3)] by blast
    have "slots cs' = (\<lambda>i. if i \<in> set (j # js) \<and> slots cs i = Some om then Some (myself cs) else slots cs i)"
      unfolding 3(4) m(4) k using True Cons.prems(4) by auto
    then show ?thesis using nd b True m 3(1-3) reslotted_trans [OF m(5) 3(3)] by simp
  qed
qed

lemma clusterSetNodeAsMaster_ok:
  assumes "slots_wf cs" "node cs (myself cs) = Some me" "\<not> n_master me" "n_slaveof me = Some om" "node cs om \<noteq> None" "om \<noteq> myself cs"
  shows "\<exists>cs'. clusterSetNodeAsMaster cs (myself cs) = Some cs' \<and> slots_wf cs' \<and> slots cs' = slots cs \<and> myself cs' = myself cs \<and>
    node cs' (myself cs) = Some (me\<lparr>n_slave := False, n_master := True, n_slaveof := None\<rparr>) \<and>
    (\<forall>n. node cs' n = None \<longleftrightarrow> node cs n = None) \<and> (\<forall>n nd'. node cs' n = Some nd' \<longrightarrow> (\<exists>nd. node cs n = Some nd \<and> n_handshake nd' = n_handshake nd))"
  using assms by (auto simp: clusterSetNodeAsMaster_def clusterNodeRemoveSlave_def Let_def slots_wf_sleep intro!: slots_wf_upd split: if_splits)

lemma slots_wf_view: "node cs' = node cs \<Longrightarrow> slots cs' = slots cs \<Longrightarrow> owner_not_claiming_slot cs' = owner_not_claiming_slot cs \<Longrightarrow> slots_wf cs' = slots_wf cs"
  by (simp add: slots_wf_def node_wf_def)

lemma change_state_view:
  "node (change_state env me b cs) = node cs" "slots (change_state env me b cs) = slots cs" "myself (change_state env me b cs) = myself cs"
  "owner_not_claiming_slot (change_state env me b cs) = owner_not_claiming_slot cs" "nodes (change_state env me b cs) = nodes cs"
  by (simp_all add: change_state_def Let_def)

lemma clusterUpdateState_ok:
  assumes "node cs (myself cs) = Some me"
  shows "\<exists>cs'. clusterUpdateState env cs = Some cs' \<and> node cs' = node cs \<and> slots cs' = slots cs \<and> myself cs' = myself cs \<and>
    owner_not_claiming_slot cs' = owner_not_claiming_slot cs"
  using assms by (simp add: clusterUpdateState_def evaluate_state_def Let_def change_state_view)

text \<open>Everything the handler of a won election does.\<close>

lemma clusterFailoverReplaceYourMaster_ok:
  assumes wf: "slots_wf cs" and me: "node cs (myself cs) = Some me" "\<not> n_master me" "n_slaveof me = Some om"
    and om: "node cs om \<noteq> None" "om \<noteq> myself cs"
  shows "\<exists>cs' out me'. clusterFailoverReplaceYourMaster env cs = Some (cs', out) \<and> slots_wf cs' \<and>
    slots cs' = (\<lambda>j. if slots cs j = Some om then Some (myself cs) else slots cs j) \<and>
    node cs' (myself cs) = Some me' \<and> n_master me' \<and> \<not> n_slave me' \<and> n_slaveof me' = None \<and> n_configEpoch me' = n_configEpoch me \<and>
    (\<forall>n nd'. node cs' n = Some nd' \<longrightarrow> (\<exists>nd. node cs n = Some nd \<and> n_handshake nd' = n_handshake nd))"
proof -
  obtain cs1 where 1: "clusterSetNodeAsMaster cs (myself cs) = Some cs1" "slots_wf cs1" "slots cs1 = slots cs" "myself cs1 = myself cs"
    "node cs1 (myself cs) = Some (me\<lparr>n_slave := False, n_master := True, n_slaveof := None\<rparr>)" "\<forall>n. node cs1 n = None \<longleftrightarrow> node cs n = None"
    "\<forall>n nd'. node cs1 n = Some nd' \<longrightarrow> (\<exists>nd. node cs n = Some nd \<and> n_handshake nd' = n_handshake nd)"
    using clusterSetNodeAsMaster_ok [OF wf me om] by (elim exE conjE) (rule that)
  have "node cs1 (myself cs1) \<noteq> None" "node cs1 om \<noteq> None" "om \<noteq> myself cs1" using 1 om by simp_all
  then obtain cs2 where 2: "claim_slots cs1 om [0..<CLUSTER_SLOTS] = Some cs2" "slots_wf cs2" "reslotted cs1 cs2"
    "slots cs2 = (\<lambda>j. if j \<in> set [0..<CLUSTER_SLOTS] \<and> slots cs1 j = Some om then Some (myself cs1) else slots cs1 j)"
    using claim_slots_ok [OF 1(2), of om "[0..<CLUSTER_SLOTS]"] by auto
  have m2: "myself cs2 = myself cs" using reslotted_fields(1) [OF 2(3)] 1(4) by simp
  obtain me2 where me2: "node cs2 (myself cs) = Some me2" "same_node (me\<lparr>n_slave := False, n_master := True, n_slaveof := None\<rparr>) me2"
    using reslotted_node(1) [OF 2(3) 1(5)] by blast
  obtain cs3 where 3: "clusterUpdateState env cs2 = Some cs3" "node cs3 = node cs2" "slots cs3 = slots cs2" "myself cs3 = myself cs2"
    "owner_not_claiming_slot cs3 = owner_not_claiming_slot cs2"
    using clusterUpdateState_ok [of cs2 me2 env] me2(1) m2 by auto
  have me3: "node cs3 (myself cs3) = Some me2" using 3(2,4) me2(1) m2 by simp
  have f: "n_master me2" "\<not> n_slave me2" "n_slaveof me2 = None" "n_configEpoch me2 = n_configEpoch me" using same_node_fields [OF me2(2)] by simp_all
  obtain out where 4: "clusterBroadcastPong env cs3 False = Some out"
    using me3 f by (simp add: clusterBroadcastPong_def clusterBuildMessageHdr_def)
  have sl: "slots cs2 = (\<lambda>j. if slots cs j = Some om then Some (myself cs) else slots cs j)"
    unfolding 2(4) 1(3,4) using slots_wf_slot [OF wf, of _ om] by auto
  have hs: "\<exists>nd. node cs n = Some nd \<and> n_handshake nd' = n_handshake nd" if n: "node cs2 n = Some nd'" for n nd'
  proof -
    obtain nd1 where "node cs1 n = Some nd1" "same_node nd1 nd'" using reslotted_node(2) [OF 2(3) n] by blast
    then show ?thesis using 1(7) same_node_fields(4) [of nd1 nd'] by metis
  qed
  have r: "clusterFailoverReplaceYourMaster env cs = Some (resetManualFailover cs3, out)"
    using me 1(1) 2(1) 3(1) 4 unfolding clusterFailoverReplaceYourMaster_def by simp
  have v: "node (resetManualFailover cs3) = node cs2" "slots (resetManualFailover cs3) = slots cs2" "owner_not_claiming_slot (resetManualFailover cs3) = owner_not_claiming_slot cs2"
    using 3 by (simp_all add: resetManualFailover_def)
  show ?thesis
    using r slots_wf_view [OF v] 2(2) v sl me2(1) f hs
    by (intro exI [of _ "resetManualFailover cs3"] exI [of _ out] exI [of _ me2]) auto
qed

section \<open>The winning call\<close>

text \<open>
  The replica is to replace its master, which has slots: by a manual failover that can start, or because the master has
  failed, failovers are not disabled and the data of the replica is recent enough. Its election is under way and in
  time, and the votes of a majority are there.
\<close>

definition about_to_win :: "cluster_env \<Rightarrow> clusterState \<Rightarrow> clusterNode \<Rightarrow> nat \<Rightarrow> bool" where
  "about_to_win env cs me om \<longleftrightarrow> node cs (myself cs) = Some me \<and> \<not> n_master me \<and> n_slaveof me = Some om \<and> om \<noteq> myself cs \<and>
     (\<exists>m. node cs om = Some m \<and> n_numslots m \<noteq> 0 \<and>
        (mf_end cs \<noteq> 0 \<and> mf_can_start cs \<or> n_fail m \<and> \<not> cluster_slave_no_failover env \<and> \<not> data_too_old env)) \<and>
     failover_auth_time cs \<le> mstime env \<and> mstime env - failover_auth_time cs \<le> max 2000 (cluster_node_timeout env * 2) \<and>
     failover_auth_sent cs \<and> cluster_size cs div 2 + 1 \<le> failover_auth_count cs"

lemma win_ok:
  assumes wf: "slots_wf cs" and w: "about_to_win env cs me om"
  shows "\<exists>cs' out me'. clusterHandleSlaveFailover env cs = Some (cs', out, FO_elected) \<and> slots_wf cs' \<and>
    slots cs' = (\<lambda>j. if slots cs j = Some om then Some (myself cs) else slots cs j) \<and>
    node cs' (myself cs) = Some me' \<and> n_master me' \<and> \<not> n_slave me' \<and> n_slaveof me' = None \<and>
    n_configEpoch me' = max (n_configEpoch me) (failover_auth_epoch cs) \<and>
    (\<forall>n nd'. node cs' n = Some nd' \<longrightarrow> (\<exists>nd. node cs n = Some nd \<and> n_handshake nd' = n_handshake nd))"
proof -
  obtain m where d: "node cs (myself cs) = Some me" "\<not> n_master me" "n_slaveof me = Some om" "om \<noteq> myself cs"
     "node cs om = Some m" "n_numslots m \<noteq> 0"
     "mf_end cs \<noteq> 0 \<and> mf_can_start cs \<or> n_fail m \<and> \<not> cluster_slave_no_failover env \<and> \<not> data_too_old env"
     "failover_auth_time cs \<le> mstime env" "mstime env - failover_auth_time cs \<le> max 2000 (cluster_node_timeout env * 2)"
     "failover_auth_sent cs" "cluster_size cs div 2 + 1 \<le> failover_auth_count cs"
    using w unfolding about_to_win_def by (elim conjE exE) (rule that)
  define cs0 where "cs0 = cs\<lparr>todo_before_sleep := todo_before_sleep cs - {TODO_HANDLE_FAILOVER}\<rparr>"
  define cs1 where "cs1 = (if n_configEpoch me < failover_auth_epoch cs
    then upd_node (myself cs) (\<lambda>nd. nd\<lparr>n_configEpoch := failover_auth_epoch cs\<rparr>) cs0 else cs0)"
  define me1 where "me1 = me\<lparr>n_configEpoch := max (n_configEpoch me) (failover_auth_epoch cs)\<rparr>"
  have e: "clusterHandleSlaveFailover env cs = (do { (cs, out) \<leftarrow> clusterFailoverReplaceYourMaster env cs1; Some (cs, out, FO_elected) })"
  proof -
    define t where "t = (if cluster_node_timeout env * 2 < 2000 then 2000 else cluster_node_timeout env * 2)"
    have t: "mstime env - failover_auth_time cs \<le> t" "0 \<le> t" using d(9) by (simp_all add: t_def max_def split: if_splits)
    have "\<not> mstime env - failover_auth_time cs > t * 2" using t by linarith
    moreover have "failover_not_needed env cs0 me = Some False" using d by (auto simp: failover_not_needed_def Let_def cs0_def)
    moreover have "update_rank env cs0 = Some cs0" using d(10) by (simp add: update_rank_def cs0_def)
    moreover have "take_over env cs0 me = (do { (cs, out) \<leftarrow> clusterFailoverReplaceYourMaster env cs1; Some (cs, out, FO_elected) })"
      by (simp add: take_over_def cs1_def Let_def) (simp add: cs0_def)
    moreover have "failover_auth_sent cs0" "failover_auth_count cs0 = failover_auth_count cs" "failover_auth_time cs0 = failover_auth_time cs"
      using d(10) by (simp_all add: cs0_def)
    moreover have "\<not> (data_too_old env \<and> \<not> (mf_end cs \<noteq> 0 \<and> mf_can_start cs))" using d(7) by blast
    ultimately show ?thesis using d(1,8,11) t(1)
      unfolding clusterHandleSlaveFailover_def Let_def cs0_def [symmetric] t_def [symmetric] by (auto simp: continue_election_def)
  qed
  have wf0: "slots_wf cs0" using wf slots_wf_view [of cs0 cs] by (simp add: cs0_def)
  have wf1: "slots_wf cs1" using wf0 slots_wf_upd [OF wf0] by (simp add: cs1_def)
  have my: "myself cs1 = myself cs" "slots cs1 = slots cs" by (simp_all add: cs1_def cs0_def)
  have me1: "node cs1 (myself cs1) = Some me1" "\<not> n_master me1" "n_slaveof me1 = Some om" "node cs1 om \<noteq> None" "om \<noteq> myself cs1"
    using d(1-5) by (simp_all add: cs1_def cs0_def me1_def max_def)
  have hs: "\<exists>nd. node cs n = Some nd \<and> n_handshake nd' = n_handshake nd" if "node cs1 n = Some nd'" for n nd'
    using that by (auto simp: cs1_def cs0_def split: if_splits)
  obtain cs' out me' where r: "clusterFailoverReplaceYourMaster env cs1 = Some (cs', out)" "slots_wf cs'"
    "slots cs' = (\<lambda>j. if slots cs1 j = Some om then Some (myself cs1) else slots cs1 j)"
    "node cs' (myself cs1) = Some me'" "n_master me'" "\<not> n_slave me'" "n_slaveof me' = None" "n_configEpoch me' = n_configEpoch me1"
    "\<forall>n nd'. node cs' n = Some nd' \<longrightarrow> (\<exists>nd. node cs1 n = Some nd \<and> n_handshake nd' = n_handshake nd)"
    using clusterFailoverReplaceYourMaster_ok [OF wf1 me1, of env] by (elim exE conjE) (rule that)
  have hs': "\<forall>n nd'. node cs' n = Some nd' \<longrightarrow> (\<exists>nd. node cs n = Some nd \<and> n_handshake nd' = n_handshake nd)"
    using r(9) hs by metis
  have e': "clusterHandleSlaveFailover env cs = Some (cs', out, FO_elected)" using e r(1) by simp
  show ?thesis
    using e' hs' r(2-8) [unfolded my] by (intro exI [of _ cs'] exI [of _ out] exI [of _ me']) (simp add: me1_def)
qed

section \<open>The other calls\<close>

text \<open>What the slot invariant and the roles depend on.\<close>

definition same_view :: "clusterState \<Rightarrow> clusterState \<Rightarrow> bool" where
  "same_view cs cs' \<longleftrightarrow> node cs' = node cs \<and> slots cs' = slots cs \<and> owner_not_claiming_slot cs' = owner_not_claiming_slot cs \<and>
     myself cs' = myself cs"

lemma same_view_upds [simp]:
  "same_view cs (cs'\<lparr>cant_failover_reason := r\<rparr>) = same_view cs cs'" "same_view cs (cs'\<lparr>todo_before_sleep := td\<rparr>) = same_view cs cs'"
  "same_view cs (cs'\<lparr>failover_auth_time := at\<rparr>) = same_view cs cs'" "same_view cs (cs'\<lparr>failover_auth_rank := rk\<rparr>) = same_view cs cs'"
  "same_view cs (cs'\<lparr>failover_auth_count := c\<rparr>) = same_view cs cs'" "same_view cs (cs'\<lparr>failover_auth_sent := b\<rparr>) = same_view cs cs'"
  "same_view cs (cs'\<lparr>currentEpoch := e\<rparr>) = same_view cs cs'" "same_view cs (cs'\<lparr>failover_auth_epoch := e\<rparr>) = same_view cs cs'"
  "same_view cs (clusterDoBeforeSleep td cs') = same_view cs cs'" "same_view cs cs"
  by (simp_all add: same_view_def node_def fun_eq_iff clusterDoBeforeSleep_def)

text \<open>A replica that knows its master.\<close>

definition is_replica :: "clusterState \<Rightarrow> bool" where
  "is_replica cs \<longleftrightarrow> (\<exists>me om. node cs (myself cs) = Some me \<and> n_slave me \<and> n_slaveof me = Some om \<and> node cs om \<noteq> None)"

lemma is_replica_view: "same_view cs cs' \<Longrightarrow> is_replica cs' = is_replica cs"
  by (simp add: same_view_def is_replica_def)

lemma replica_calls:
  assumes "is_replica cs"
  shows "\<exists>rk. clusterGetSlaveRank env cs = Some rk" "\<exists>m. clusterBuildMessageHdr env cs ty = Some m"
    "\<exists>out. clusterBroadcastPong env cs b = Some out" "\<exists>out. clusterRequestFailoverAuth env cs = Some out"
  using assms by (auto simp: is_replica_def clusterGetSlaveRank_def clusterBuildMessageHdr_def clusterBroadcastPong_def clusterRequestFailoverAuth_def)

lemma schedule_election_view:
  assumes "is_replica cs"
  shows "\<exists>cs' out. schedule_election env cs = Some (cs', out) \<and> same_view cs cs'"
proof -
  obtain rk where rk: "clusterGetSlaveRank env cs = Some rk" using replica_calls(1) [OF assms] by blast
  define cs1 where "cs1 = cs\<lparr>failover_auth_time := mstime env + 500 + int (random_value env mod 500) + rk * 1000,
    failover_auth_count := 0, failover_auth_sent := False, failover_auth_rank := rk\<rparr>"
  define cs2 where "cs2 = (if mf_end cs1 \<noteq> 0
    then clusterDoBeforeSleep {TODO_HANDLE_FAILOVER} (cs1\<lparr>failover_auth_time := mstime env, failover_auth_rank := 0\<rparr>) else cs1)"
  have v: "same_view cs cs2" by (simp add: cs2_def cs1_def)
  then obtain out where "clusterBroadcastPong env cs2 True = Some out" using replica_calls(3) is_replica_view [OF v] assms by blast
  then have "schedule_election env cs = Some (cs2, out)"
    unfolding schedule_election_def rk Let_def Option.bind.bind_lunit cs1_def [symmetric] cs2_def [symmetric] by simp
  then show ?thesis using v by blast
qed

lemma update_rank_view:
  assumes "is_replica cs"
  shows "\<exists>cs'. update_rank env cs = Some cs' \<and> same_view cs cs' \<and> failover_auth_sent cs' = failover_auth_sent cs \<and>
    failover_auth_count cs' = failover_auth_count cs \<and> (failover_auth_sent cs \<longrightarrow> cs' = cs)"
proof -
  obtain rk where "clusterGetSlaveRank env cs = Some rk" using replica_calls(1) [OF assms] by blast
  then show ?thesis by (simp add: update_rank_def)
qed

lemma start_election_view:
  assumes "is_replica cs"
  shows "\<exists>cs' out. start_election env cs = Some (cs', out) \<and> same_view cs cs'"
proof -
  let ?cs = "cs\<lparr>currentEpoch := currentEpoch cs + 1, failover_auth_epoch := currentEpoch cs + 1\<rparr>"
  have "is_replica ?cs" using is_replica_view [of cs ?cs] assms by simp
  then obtain out where "clusterRequestFailoverAuth env ?cs = Some out" using replica_calls(4) by blast
  then show ?thesis by (simp add: start_election_def Let_def)
qed

lemma continue_election_view:
  assumes "is_replica cs"
    and lost: "\<not> (failover_auth_sent cs \<and> failover_auth_time cs \<le> mstime env \<and> age \<le> timeout \<and> quorum \<le> failover_auth_count cs)"
  shows "\<exists>cs' out r. continue_election env cs me age timeout quorum = Some (cs', out, r) \<and> r \<noteq> FO_elected \<and> same_view cs cs'"
proof -
  obtain cs1 where 1: "update_rank env cs = Some cs1" "same_view cs cs1" "failover_auth_sent cs1 = failover_auth_sent cs"
    "failover_auth_count cs1 = failover_auth_count cs" "failover_auth_sent cs \<longrightarrow> cs1 = cs"
    using update_rank_view [OF assms(1), of env] by (elim exE conjE) (rule that)
  obtain cs2 out where 2: "start_election env cs1 = Some (cs2, out)" "same_view cs1 cs2"
    using start_election_view [of cs1 env] is_replica_view [OF 1(2)] assms(1) by auto
  have v: "same_view cs cs2" using 1(2) 2(2) by (simp add: same_view_def)
  show ?thesis
  proof (cases "failover_auth_sent cs")
    case True
    then show ?thesis using 1 lost by (auto simp: continue_election_def clusterLogCantFailover_def)
  next
    case False
    then show ?thesis using 1(1-3) 2(1) v by (auto simp: continue_election_def clusterLogCantFailover_def)
  qed
qed

lemma not_won_ok:
  assumes r: "roles_wf cs" and me: "node cs (myself cs) = Some me" "n_slave me \<longleftrightarrow> \<not> n_master me"
    and lost: "\<nexists>om. about_to_win env cs me om"
  shows "\<exists>cs' out r. clusterHandleSlaveFailover env cs = Some (cs', out, r) \<and> r \<noteq> FO_elected \<and> same_view cs cs'"
proof (cases "n_slaveof me")
  case None
  then show ?thesis using me by (simp add: clusterHandleSlaveFailover_def failover_not_needed_def Let_def)
next
  case (Some om)
  then have nm: "\<not> n_master me" "n_slave me" "n_numslots me = 0" using r me by (auto simp: roles_wf_def split: if_splits)
  obtain m where m: "node cs om = Some m" using r me(1) Some unfolding roles_wf_def by blast
  define cs0 where "cs0 = cs\<lparr>todo_before_sleep := todo_before_sleep cs - {TODO_HANDLE_FAILOVER}\<rparr>"
  have v0: "same_view cs cs0" by (simp add: cs0_def)
  have trans: "same_view cs x" if "same_view cs0 x" for x using v0 that by (simp add: same_view_def)
  have "is_replica cs" using me(1) Some nm m by (auto simp: is_replica_def)
  then have rep: "is_replica cs0" using is_replica_view [OF v0] by simp
  define t where "t = (if cluster_node_timeout env * 2 < 2000 then 2000 else cluster_node_timeout env * 2)"
  have t: "t = max 2000 (cluster_node_timeout env * 2)" by (simp add: t_def max_def)
  define mf where "mf = (mf_end cs \<noteq> 0 \<and> mf_can_start cs)"
  define stay where "stay = (\<not> n_fail m \<and> \<not> mf \<or> cluster_slave_no_failover env \<and> \<not> mf \<or> n_numslots m = 0)"
  have n: "failover_not_needed env cs0 me = Some stay"
    using nm(1) Some m by (simp add: failover_not_needed_def Let_def cs0_def stay_def mf_def)
  have e: "clusterHandleSlaveFailover env cs =
      (if stay then Some (cs0\<lparr>cant_failover_reason := CANT_FAILOVER_NONE\<rparr>, [], FO_none)
       else if data_too_old env \<and> \<not> mf then clusterLogCantFailover CANT_FAILOVER_DATA_AGE cs0
       else if mstime env - failover_auth_time cs > t * 2 then do { (cs, out) \<leftarrow> schedule_election env cs0; Some (cs, out, FO_scheduled) }
       else continue_election env cs0 me (mstime env - failover_auth_time cs) t (cluster_size cs div 2 + 1))"
    unfolding clusterHandleSlaveFailover_def Let_def cs0_def [symmetric] t_def [symmetric] mf_def [symmetric] using me(1) n by simp
  show ?thesis
  proof (cases "stay \<or> data_too_old env \<and> \<not> mf")
    case True
    then show ?thesis unfolding e using v0 by (auto simp: clusterLogCantFailover_def)
  next
    case False
    then have "om \<noteq> myself cs" using m me(1) nm(3) by (auto simp: stay_def)
    then have l: "\<not> (failover_auth_sent cs0 \<and> failover_auth_time cs0 \<le> mstime env \<and> mstime env - failover_auth_time cs \<le> t \<and>
        cluster_size cs div 2 + 1 \<le> failover_auth_count cs0)"
      using lost me(1) nm(1) Some m False unfolding about_to_win_def t cs0_def stay_def mf_def by auto
    show ?thesis unfolding e
      using False schedule_election_view [OF rep, of env] continue_election_view [OF rep l, of me] trans by auto
  qed
qed

end
