(* ===== verification/Cluster_Demo.thy ===== *)
theory Cluster_Demo
  imports Cluster_Run Cluster_Takeover
begin

text \<open>
  A cluster of three masters, \<open>1\<close>, \<open>2\<close> and \<open>3\<close>, with the slots \<open>0\<close>, \<open>1\<close> and \<open>2\<close>, in which the first has failed and has
  the replicas \<open>4\<close> and \<open>5\<close>; and what the handlers do in it.
\<close>

section \<open>The cluster\<close>

definition bm :: "byte \<Rightarrow> bytes" where
  "bm w = w # replicate 2047 0"

definition demo_node :: "bool \<Rightarrow> byte \<Rightarrow> clusterNode" where
  "demo_node master w = \<lparr>n_master = master, n_slave = \<not> master, n_pfail = False, n_fail = False, n_handshake = False, n_migrate_to = False,
     n_nofailover = False, n_configEpoch = 1, n_slots = bm w, n_numslots = (if master then 1 else 0), n_slaves = [],
     n_slaveof = (if master then None else Some 1), n_fail_time = 0, n_voted_time = 0, n_repl_offset = 0, n_link = master, n_fail_reports = []\<rparr>"

text \<open>Replicas answer the masters; the candidates have links to the two masters that are up.\<close>

definition demo_nodes :: "nat \<Rightarrow> int \<Rightarrow> (nat \<times> clusterNode) list" where
  "demo_nodes i vt = [(1, (demo_node True 1)\<lparr>n_fail := True, n_slaves := [4, 5], n_voted_time := vt, n_link := False\<rparr>),
     (2, demo_node True 2), (3, demo_node True 4),
     (4, (demo_node False 0)\<lparr>n_link := (i < 4)\<rparr>), (5, (demo_node False 0)\<lparr>n_link := (i < 4)\<rparr>)]"

definition demo_slots :: "nat \<Rightarrow> nat option" where
  "demo_slots = (\<lambda>j. None)(0 \<mapsto> 1, 1 \<mapsto> 2, 2 \<mapsto> 3)"

definition dst :: "nat \<Rightarrow> 64 word \<Rightarrow> 64 word \<Rightarrow> 64 word \<Rightarrow> int \<Rightarrow> bool \<Rightarrow> int \<Rightarrow> todo set \<Rightarrow> int \<Rightarrow> clusterState" where
  "dst i e lv f c s at td vt = \<lparr>myself = i, currentEpoch = e, state_ok = True, cluster_size = 3, nodes = demo_nodes i vt,
     migrating_slots_to = (\<lambda>_. None), importing_slots_from = (\<lambda>_. None), slots = demo_slots,
     failover_auth_time = at, failover_auth_count = c, failover_auth_sent = s, failover_auth_rank = 0, failover_auth_epoch = f,
     cant_failover_reason = CANT_FAILOVER_NONE, mf_end = 0, mf_slave = None, mf_master_offset = 0, mf_can_start = False,
     lastVoteEpoch = lv, todo_before_sleep = td, owner_not_claiming_slot = bm 0, among_minority_time = 0, first_call_time = 1\<rparr>"

definition demo_env :: "int \<Rightarrow> cluster_env" where
  "demo_env t = \<lparr>mstime = t, random_value = 0, cluster_node_timeout = 1000, cluster_slave_validity_factor = 0, repl_ping_slave_period = 10,
     cluster_slave_no_failover = False, cluster_require_full_coverage = True, cluster_allow_replica_migration = True,
     cluster_no_redirection = False, repl_connected = False, unixtime = 0, master_lastinteraction = 0, repl_down_since = 0,
     replicationGetSlaveOffset = 0, master_repl_offset = 0, countKeysInSlot = (\<lambda>_. 0)\<rparr>"

definition demo_msg :: "msg_type \<Rightarrow> nat \<Rightarrow> byte \<Rightarrow> nat option \<Rightarrow> 64 word \<Rightarrow> clusterMsg" where
  "demo_msg ty i w m e = \<lparr>h_type = ty, h_sender = i, h_myslots = bm w, h_slaveof = m, h_nofailover = False, h_currentEpoch = e,
     h_configEpoch = 1, h_offset = 0, h_paused = False, h_forceack = False, h_gossip = []\<rparr>"

abbreviation demo_req :: "nat \<Rightarrow> 64 word \<Rightarrow> clusterMsg" where
  "demo_req i e \<equiv> demo_msg MT_AUTH_REQUEST i 1 (Some 1) e"

abbreviation demo_ack :: "nat \<Rightarrow> 64 word \<Rightarrow> clusterMsg" where
  "demo_ack j e \<equiv> demo_msg MT_AUTH_ACK j (if j = 2 then 2 else 4) None e"

named_theorems cluster_demo \<open>evaluation of the handlers in the cluster\<close>

section \<open>The slots\<close>

lemma bm_length [simp]: "length (bm w) = CLUSTER_SLOTS div 8"
  by (simp add: bm_def CLUSTER_SLOTS_def)

lemma bm_bit: "j < CLUSTER_SLOTS \<Longrightarrow> bitmapTestBit (bm w) j \<longleftrightarrow> j < 8 \<and> bit w j"
proof (cases "j div 8")
  case 0
  then show ?thesis by (simp add: bitmapTestBit_iff bm_def div_eq_0_iff)
next
  case (Suc k)
  assume "j < CLUSTER_SLOTS"
  then have "k < 2047" using Suc by (simp add: CLUSTER_SLOTS_def)
  then have "bm w ! (j div 8) = 0" using Suc by (simp add: bm_def)
  moreover have "\<not> j < 8" using Suc by auto
  ultimately show ?thesis by (simp add: bitmapTestBit_iff)
qed

lemma demo_owned [cluster_demo]:
  "n_slots nd = bm 0 \<Longrightarrow> owned nd = {}" "n_slots nd = bm 1 \<Longrightarrow> owned nd = {0}" "n_slots nd = bm 2 \<Longrightarrow> owned nd = {1}"
  "n_slots nd = bm 4 \<Longrightarrow> owned nd = {2}"
proof -
  have b: "bit (2 :: byte) j \<longleftrightarrow> j = 1" "bit (4 :: byte) j \<longleftrightarrow> j = 2" for j
    using bit_byte [of 1 j] bit_byte [of 2 j] by auto
  show "n_slots nd = bm 0 \<Longrightarrow> owned nd = {}" "n_slots nd = bm 1 \<Longrightarrow> owned nd = {0}" "n_slots nd = bm 2 \<Longrightarrow> owned nd = {1}"
    "n_slots nd = bm 4 \<Longrightarrow> owned nd = {2}"
    by (auto simp: owned_def bm_bit b bit_1_iff CLUSTER_SLOTS_def simp del: bit_numeral_word_iff)
qed

lemma dst_fields [cluster_demo]:
  "myself (dst i e lv f c s at td vt) = i" "currentEpoch (dst i e lv f c s at td vt) = e" "cluster_size (dst i e lv f c s at td vt) = 3"
  "nodes (dst i e lv f c s at td vt) = demo_nodes i vt" "slots (dst i e lv f c s at td vt) = demo_slots"
  "importing_slots_from (dst i e lv f c s at td vt) = (\<lambda>_. None)" "failover_auth_time (dst i e lv f c s at td vt) = at"
  "failover_auth_count (dst i e lv f c s at td vt) = c" "failover_auth_sent (dst i e lv f c s at td vt) = s"
  "failover_auth_rank (dst i e lv f c s at td vt) = 0" "failover_auth_epoch (dst i e lv f c s at td vt) = f"
  "mf_end (dst i e lv f c s at td vt) = 0" "mf_can_start (dst i e lv f c s at td vt) = False" "mf_master_offset (dst i e lv f c s at td vt) = 0"
  "lastVoteEpoch (dst i e lv f c s at td vt) = lv" "todo_before_sleep (dst i e lv f c s at td vt) = td"
  "owner_not_claiming_slot (dst i e lv f c s at td vt) = bm 0"
  by (simp_all add: dst_def)

lemma dst_upds [cluster_demo]:
  "(dst i e lv f c s at td vt)\<lparr>currentEpoch := e'\<rparr> = dst i e' lv f c s at td vt"
  "(dst i e lv f c s at td vt)\<lparr>lastVoteEpoch := lv'\<rparr> = dst i e lv' f c s at td vt"
  "(dst i e lv f c s at td vt)\<lparr>failover_auth_epoch := f'\<rparr> = dst i e lv f' c s at td vt"
  "(dst i e lv f c s at td vt)\<lparr>failover_auth_count := c'\<rparr> = dst i e lv f c' s at td vt"
  "(dst i e lv f c s at td vt)\<lparr>failover_auth_sent := s'\<rparr> = dst i e lv f c s' at td vt"
  "(dst i e lv f c s at td vt)\<lparr>failover_auth_time := at'\<rparr> = dst i e lv f c s at' td vt"
  "(dst i e lv f c s at td vt)\<lparr>failover_auth_rank := 0\<rparr> = dst i e lv f c s at td vt"
  "(dst i e lv f c s at td vt)\<lparr>todo_before_sleep := td'\<rparr> = dst i e lv f c s at td' vt"
  "clusterDoBeforeSleep fl (dst i e lv f c s at td vt) = dst i e lv f c s at (td \<union> fl) vt"
  by (simp_all add: dst_def clusterDoBeforeSleep_def)

lemma dst_node [cluster_demo]:
  "node (dst i e lv f c s at td vt) n =
    (if n = 1 then Some ((demo_node True 1)\<lparr>n_fail := True, n_slaves := [4, 5], n_voted_time := vt, n_link := False\<rparr>)
     else if n = 2 then Some (demo_node True 2) else if n = 3 then Some (demo_node True 4)
     else if n = 4 \<or> n = 5 then Some ((demo_node False 0)\<lparr>n_link := (i < 4)\<rparr>) else None)"
  by (simp add: dst_def node_def demo_nodes_def)

lemma demo_node_fields [cluster_demo]:
  "n_master (demo_node b w) = b" "n_slave (demo_node b w) = (\<not> b)" "n_handshake (demo_node b w) = False" "n_configEpoch (demo_node b w) = 1"
  "n_slots (demo_node b w) = bm w" "n_numslots (demo_node b w) = (if b then 1 else 0)" "n_slaveof (demo_node b w) = (if b then None else Some 1)"
  "n_link (demo_node b w) = b" "n_repl_offset (demo_node b w) = 0" "n_nofailover (demo_node b w) = False"
  by (simp_all add: demo_node_def)

lemma dst_upd_node [cluster_demo]:
  "upd_node 1 (\<lambda>nd. nd\<lparr>n_voted_time := vt'\<rparr>) (dst i e lv f c s at td vt) = dst i e lv f c s at td vt'"
  "upd_node n (\<lambda>nd. nd\<lparr>n_repl_offset := 0\<rparr>) (dst i e lv f c s at td vt) = dst i e lv f c s at td vt"
  by (auto simp: dst_def upd_node_def demo_nodes_def demo_node_def)

lemma demo_env_fields [cluster_demo]:
  "mstime (demo_env t) = t" "random_value (demo_env t) = 0" "cluster_node_timeout (demo_env t) = 1000"
  "cluster_slave_no_failover (demo_env t) = False" "replicationGetSlaveOffset (demo_env t) = 0" "master_repl_offset (demo_env t) = 0"
  "data_too_old (demo_env t) = False"
  by (simp_all add: demo_env_def data_too_old_def Let_def)

lemma demo_msg_fields [cluster_demo]:
  "h_type (demo_msg ty i w m e) = ty" "h_sender (demo_msg ty i w m e) = i" "h_myslots (demo_msg ty i w m e) = bm w"
  "h_currentEpoch (demo_msg ty i w m e) = e" "h_configEpoch (demo_msg ty i w m e) = 1" "h_offset (demo_msg ty i w m e) = 0"
  "h_paused (demo_msg ty i w m e) = False" "h_forceack (demo_msg ty i w m e) = False"
  by (simp_all add: demo_msg_def)

lemma dst_slots_wf: "slots_wf (dst i e lv f c s at td vt)"
proof -
  have "node_wf (dst i e lv f c s at td vt) n nd" if "node (dst i e lv f c s at td vt) n = Some nd" for n nd
    using that by (auto simp: node_wf_def cluster_demo demo_slots_def split: if_splits)
  moreover have "j < CLUSTER_SLOTS \<and> node (dst i e lv f c s at td vt) n \<noteq> None" if "slots (dst i e lv f c s at td vt) j = Some n" for j n
    using that by (auto simp: cluster_demo demo_slots_def CLUSTER_SLOTS_def split: if_splits)
  ultimately show ?thesis by (simp add: slots_wf_def cluster_demo)
qed

section \<open>The handlers\<close>

lemma demo_hdr: "clusterBuildMessageHdr (demo_env t) (dst i e lv f c s at td vt) ty =
    (if i = 2 then Some (demo_msg ty i 2 None e) else if i = 3 then Some (demo_msg ty i 4 None e)
     else if i = 4 \<or> i = 5 then Some (demo_msg ty i 1 (Some 1) e) else if i = 1 then Some (demo_msg ty i 1 None e) else None)"
  by (simp add: clusterBuildMessageHdr_def cluster_demo demo_msg_def)

lemma demo_rank: "i = 4 \<or> i = 5 \<Longrightarrow> clusterGetSlaveRank (demo_env t) (dst i e lv f c s at td vt) = Some 0"
  by (auto simp: clusterGetSlaveRank_def cluster_demo)

lemma demo_not_needed: "i = 4 \<or> i = 5 \<Longrightarrow> failover_not_needed (demo_env t) (dst i e lv f c s at td vt) ((demo_node False 0)\<lparr>n_link := (i < 4)\<rparr>) = Some False"
  by (auto simp: failover_not_needed_def cluster_demo Let_def)

lemma demo_pong: "i = 4 \<or> i = 5 \<Longrightarrow> clusterBroadcastPong (demo_env t) (dst i e lv f c s at td vt) True = Some []"
  by (auto simp: clusterBroadcastPong_def demo_hdr cluster_demo demo_nodes_def)

lemma demo_schedule:
  assumes "i = 4 \<or> i = 5" "4000 < t - at"
  shows "clusterHandleSlaveFailover (demo_env t) (dst i e lv f c s at td vt) =
    Some (dst i e lv f 0 False (t + 500) (td - {TODO_HANDLE_FAILOVER}) vt, [], FO_scheduled)"
proof -
  have "node (dst i e lv f c s at td vt) i = Some ((demo_node False 0)\<lparr>n_link := (i < 4)\<rparr>)" using assms(1) by (auto simp: cluster_demo)
  then show ?thesis using assms
    by (simp add: clusterHandleSlaveFailover_def Let_def dst_fields dst_upds demo_env_fields demo_not_needed schedule_election_def demo_rank demo_pong)
qed

lemma demo_start:
  assumes "i = 4 \<or> i = 5" "at \<le> t" "t - at \<le> 2000"
  shows "clusterHandleSlaveFailover (demo_env t) (dst i e lv f c False at td vt) =
    Some (dst i (e + 1) lv (e + 1) c True at (td - {TODO_HANDLE_FAILOVER} \<union> {TODO_SAVE_CONFIG, TODO_UPDATE_STATE, TODO_FSYNC_CONFIG}) vt,
      [(2, demo_req i (e + 1)), (3, demo_req i (e + 1))], FO_requested)"
proof -
  have "node (dst i e lv f c False at td vt) i = Some ((demo_node False 0)\<lparr>n_link := (i < 4)\<rparr>)" using assms(1) by (auto simp: cluster_demo)
  moreover have "clusterRequestFailoverAuth (demo_env t) (dst i e' lv f' c s at td' vt) = Some [(2, demo_req i e'), (3, demo_req i e')]" for e' f' s td'
    using assms(1) by (auto simp: clusterRequestFailoverAuth_def demo_hdr cluster_demo clusterBroadcastMessage_def demo_nodes_def demo_msg_def)
  ultimately show ?thesis using assms
    by (simp add: clusterHandleSlaveFailover_def Let_def dst_fields dst_upds demo_env_fields demo_not_needed continue_election_def update_rank_def
        demo_rank start_election_def)
qed

lemma demo_header:
  assumes "i \<in> {2, 3, 4, 5}" "n \<in> {2, 3, 4, 5}"
  shows "process_header (demo_env t) (dst i e lv f c s at td vt) (demo_msg ty n w m e') = Some (dst i (max e e') lv f c s at td vt)"
  using assms by (auto simp: process_header_def cluster_demo Let_def max_def)

lemma demo_epochs:
  "n \<in> {2, 3, 4, 5} \<Longrightarrow> sender_epochs (dst i e lv f c s at td vt) (demo_msg ty n w m e') = Some (demo_msg ty n w m e')"
  by (auto simp: sender_epochs_def dst_node demo_node_fields demo_msg_fields)

lemma demo_claims: "claims_current (dst i e lv f c s at td vt) (bm 1) 1 [0..<CLUSTER_SLOTS]"
proof -
  have "slot_epoch (dst i e lv f c s at td vt) 0 = Some 1" by (simp add: slot_epoch_def dst_fields dst_node demo_slots_def demo_node_fields)
  moreover have "j = 0" if "j < CLUSTER_SLOTS" "bitmapTestBit (bm 1) j" for j using that by (simp add: bm_bit bit_1_iff)
  ultimately show ?thesis unfolding claims_current_def list_all_iff by fastforce
qed

lemma demo_grant:
  assumes "i = 2 \<or> i = 3" "n = 4 \<or> n = 5"
  shows "grant_vote (demo_env t) (dst i e lv f c s at td vt) n 1 =
    Some (dst i e e f c s at (td \<union> {TODO_SAVE_CONFIG, TODO_FSYNC_CONFIG}) t, [(n, demo_ack i e)])"
proof -
  let ?cs = "dst i e e f c s at (td \<union> {TODO_SAVE_CONFIG, TODO_FSYNC_CONFIG}) t"
  obtain nd where "node ?cs n = Some nd" "n_link nd" using assms by (auto simp: dst_node)
  moreover have "clusterBuildMessageHdr (demo_env t) ?cs MT_AUTH_ACK = Some (demo_ack i e)" using assms(1) by (auto simp: demo_hdr)
  ultimately have "clusterSendFailoverAuth (demo_env t) ?cs n = Some [(n, demo_ack i e)]"
    by (simp add: clusterSendFailoverAuth_def clusterSendMessage_def)
  then show ?thesis unfolding grant_vote_def Let_def
    by (simp only: dst_fields dst_upds dst_upd_node demo_env_fields Option.bind.bind_lunit)
qed

lemma demo_needed:
  assumes "i = 2 \<or> i = 3" "n = 4 \<or> n = 5" "lv \<noteq> e" "2000 \<le> t - vt"
  shows "clusterSendFailoverAuthIfNeeded (demo_env t) (dst i e lv f c s at td vt) n (demo_req n e) =
    grant_vote (demo_env t) (dst i e lv f c s at td vt) n 1"
proof -
  define cs where "cs = dst i e lv f c s at td vt"
  obtain nd me m where "node cs n = Some nd" "\<not> n_master nd" "n_slaveof nd = Some 1" "node cs i = Some me" "\<not> n_slave me" "n_numslots me \<noteq> 0"
    "node cs 1 = Some m" "n_fail m" "n_voted_time m = vt"
    using assms(1,2) by (auto simp: cs_def dst_node demo_node_fields)
  moreover have "myself cs = i" "currentEpoch cs = e" "lastVoteEpoch cs = lv" by (simp_all add: cs_def dst_fields)
  moreover have "claims_current cs (bm 1) 1 [0..<CLUSTER_SLOTS]" unfolding cs_def by (rule demo_claims)
  ultimately show ?thesis unfolding cs_def [symmetric] clusterSendFailoverAuthIfNeeded_def
    using assms(3,4) by (simp add: demo_msg_fields demo_env_fields)
qed

lemma demo_vote:
  assumes "i = 2 \<or> i = 3" "n = 4 \<or> n = 5" "e \<le> e'" "lv \<noteq> e'" "2000 \<le> t - vt"
  shows "clusterProcessPacket (demo_env t) (dst i e lv f c s at td vt) inb (demo_req n e') =
    Some (dst i e' e' f c s at (td \<union> {TODO_SAVE_CONFIG, TODO_FSYNC_CONFIG}) t, [(n, demo_ack i e')])"
proof -
  have n: "i \<in> {2, 3, 4, 5}" "n \<in> {2, 3, 4, 5}" using assms(1,2) by auto
  then have "process_header (demo_env t) (dst i e lv f c s at td vt) (demo_req n e') = Some (dst i e' lv f c s at td vt)"
    using assms(3) by (simp only: demo_header max_absorb2)
  moreover have "node (dst i e lv f c s at td vt) n \<noteq> None" using assms(2) by (auto simp: dst_node)
  ultimately show ?thesis unfolding clusterProcessPacket_def using demo_epochs [OF n(2)]
    by (simp only: demo_msg_fields if_False Option.bind.bind_lunit msg_type.case demo_needed [OF assms(1,2,4,5)] demo_grant [OF assms(1,2)])
qed

lemma demo_count:
  assumes "i = 4 \<or> i = 5" "j = 2 \<or> j = 3" "e' \<le> e" "f \<le> e'"
  shows "clusterProcessPacket (demo_env t) (dst i e lv f c s at td vt) inb (demo_ack j e') =
    Some (dst i e lv f (c + 1) s at (td \<union> {TODO_HANDLE_FAILOVER}) vt, [])"
proof -
  have n: "i \<in> {2, 3, 4, 5}" "j \<in> {2, 3, 4, 5}" using assms(1,2) by auto
  then have "process_header (demo_env t) (dst i e lv f c s at td vt) (demo_ack j e') = Some (dst i e lv f c s at td vt)"
    using assms(3) by (simp only: demo_header max_absorb1)
  moreover obtain nd where "node (dst i e lv f c s at td vt) j = Some nd" "n_master nd" "\<not> n_handshake nd" "n_numslots nd > 0"
    using assms(2) by (auto simp: dst_node demo_node_fields)
  ultimately show ?thesis unfolding clusterProcessPacket_def process_ack_def
    using assms(4) demo_epochs [OF n(2)] by (simp add: demo_msg_fields dst_fields dst_upds)
qed

lemma demo_win:
  assumes "i = 4 \<or> i = 5" "at \<le> t" "t - at \<le> 2000" "2 \<le> c"
  shows "about_to_win (demo_env t) (dst i e lv f c True at td vt) ((demo_node False 0)\<lparr>n_link := (i < 4)\<rparr>) 1"
  using assms by (auto simp: about_to_win_def cluster_demo)

end
