(* ===== verification/Cluster_Election.thy ===== *)
theory Cluster_Election
  imports Cluster_Demo
begin

text \<open>
  The properties of the cluster: configuration updates, the take-over of a failed master, and at most one winner of
  an epoch, together with runs of the example cluster. One of the runs has two winners of the same epoch; in it votes
  reach a candidate between two of its elections.
\<close>

section \<open>Runs of the example cluster\<close>

definition demo_E :: "64 word \<Rightarrow> nat set" where
  "demo_E e = {1, 2, 3}"

definition demo_loc :: "clusterState \<Rightarrow> clusterState \<Rightarrow> clusterState \<Rightarrow> clusterState \<Rightarrow> nat \<Rightarrow> clusterState" where
  "demo_loc b c s1 s2 = (\<lambda>i. dst i 3 0 0 0 False 0 {} 0)(2 := b, 3 := c, 4 := s1, 5 := s2)"

definition mk_net :: "(nat \<Rightarrow> clusterState) \<Rightarrow> packets \<Rightarrow> (nat \<times> 64 word \<times> nat) set \<Rightarrow> (nat \<times> 64 word \<times> nat) set \<Rightarrow> (nat \<times> 64 word) set \<Rightarrow> net" where
  "mk_net l w ca co el = \<lparr>loc = l, wire = w, cast = ca, counted = co, elected = el\<rparr>"

definition demo_net :: net where
  "demo_net = mk_net (\<lambda>i. dst i 3 0 0 0 False 0 {} 0) [] {} {} {}"

definition election_run :: "bool \<Rightarrow> net \<Rightarrow> bool" where
  "election_run timely g \<longleftrightarrow> vrun timely demo_E demo_net g \<and> electorate demo_E g \<and> voters_in demo_E g"

lemma demo_loc_upd:
  "(demo_loc b c s1 s2)(2 := x) = demo_loc x c s1 s2" "(demo_loc b c s1 s2)(3 := x) = demo_loc b x s1 s2"
  "(demo_loc b c s1 s2)(4 := x) = demo_loc b c x s2" "(demo_loc b c s1 s2)(5 := x) = demo_loc b c s1 x"
  by (simp_all add: demo_loc_def fun_upd_twist)

lemma demo_loc_app: "demo_loc b c s1 s2 2 = b" "demo_loc b c s1 s2 3 = c" "demo_loc b c s1 s2 4 = s1" "demo_loc b c s1 s2 5 = s2"
  by (simp_all add: demo_loc_def)

definition settled :: "nat \<Rightarrow> clusterState \<Rightarrow> bool" where
  "settled i cs \<longleftrightarrow> (\<forall>me. node cs i = Some me \<longrightarrow> \<not> n_master me \<longrightarrow> 3 \<le> cluster_size cs) \<and>
     (\<forall>n nd. node cs n = Some nd \<longrightarrow> \<not> n_handshake nd) \<and> currentEpoch cs < - 1"

lemma dst_settled: "e < - 1 \<Longrightarrow> settled i (dst i e lv f c s at td vt)"
  by (auto simp: settled_def dst_fields dst_node demo_node_fields split: if_splits)

definition epochs_small :: "packets \<Rightarrow> bool" where
  "epochs_small w \<longleftrightarrow> (\<forall>i m. (i, m) \<in> set w \<longrightarrow> h_currentEpoch m < - 1)"

lemma mk_net_simps:
  "loc (mk_net l w ca co el) = l" "wire (mk_net l w ca co el) = w" "cast (mk_net l w ca co el) = ca" "counted (mk_net l w ca co el) = co"
  "elected (mk_net l w ca co el) = el" "(mk_net l w ca co el)\<lparr>loc := l', wire := w', elected := el'\<rparr> = mk_net l' w' ca co el'"
  "(mk_net l w ca co el)\<lparr>loc := l', wire := w', cast := ca', counted := co'\<rparr> = mk_net l' w' ca' co' el"
  "(mk_net l w ca co el)\<lparr>wire := w'\<rparr> = mk_net l w' ca co el"
  by (simp_all add: mk_net_def)

lemma electorate_mk: "electorate demo_E (mk_net l w ca co el) \<longleftrightarrow> (\<forall>i. settled i (l i)) \<and> epochs_small w"
  by (auto simp: electorate_def demo_E_def mk_net_def settled_def epochs_small_def)

lemma election_run_start: "election_run timely demo_net"
proof -
  have "electorate demo_E demo_net" unfolding demo_net_def electorate_mk by (simp add: dst_settled epochs_small_def)
  then show ?thesis by (simp add: election_run_def vrun.stop) (simp add: voters_in_def demo_net_def mk_net_def)
qed

lemma election_run_step:
  assumes "election_run tm g" "vstep tm g (mk_net l w ca co el)" "\<forall>i. settled i (l i)" "epochs_small w" "voters_in demo_E (mk_net l w ca co el)"
  shows "election_run tm (mk_net l w ca co el)"
  using assms unfolding election_run_def electorate_mk by (blast intro: vrun.more)

lemma run_failover:
  assumes r: "election_run tm (mk_net l w ca co el)" and h: "clusterHandleSlaveFailover (demo_env t) (l i) = Some (cs, out, x)"
    and f: "settled i cs" "epochs_small out"
  shows "election_run tm (mk_net (l(i := cs)) (w @ out) ca co (el \<union> (if x = FO_elected then {(i, failover_auth_epoch (l i))} else {})))"
proof (rule election_run_step [OF r])
  show "vstep tm (mk_net l w ca co el) (mk_net (l(i := cs)) (w @ out) ca co (el \<union> (if x = FO_elected then {(i, failover_auth_epoch (l i))} else {})))"
    using vstep.failover [of "demo_env t" "mk_net l w ca co el" i cs out x tm] h unfolding mk_net_simps by simp
qed (use r f in \<open>auto simp: election_run_def electorate_mk epochs_small_def voters_in_def mk_net_simps\<close>)

lemma run_deliver:
  assumes r: "election_run tm (mk_net l ((i, m) # w) ca co el)" and a: "tm \<longrightarrow> is_ack m \<longrightarrow> failover_auth_sent (l i)"
    and h: "clusterProcessPacket (demo_env t) (l i) True m = Some (cs, out)"
    and f: "settled i cs" "epochs_small out" "\<And>v e c. (v, e, c) \<in> set (votes_in out) \<Longrightarrow> v \<in> {1, 2, 3}"
  shows "election_run tm (mk_net (l(i := cs)) (w @ out) (ca \<union> set (votes_in out)) (co \<union> set (votes_in [(i, m)])) el)"
proof (rule election_run_step [OF r])
  show "vstep tm (mk_net l ((i, m) # w) ca co el) (mk_net (l(i := cs)) (w @ out) (ca \<union> set (votes_in out)) (co \<union> set (votes_in [(i, m)])) el)"
    using vstep.deliver [of i m "mk_net l ((i, m) # w) ca co el" tm "demo_env t" True cs out] h a unfolding mk_net_simps by simp
qed (use r f in \<open>auto simp: election_run_def electorate_mk epochs_small_def voters_in_def mk_net_simps demo_E_def\<close>)

lemma run_lose:
  assumes r: "election_run tm (mk_net l (p # w) ca co el)"
  shows "election_run tm (mk_net l w ca co el)"
proof (rule election_run_step [OF r])
  show "vstep tm (mk_net l (p # w) ca co el) (mk_net l w ca co el)"
    using vstep.lose [of tm "mk_net l (p # w) ca co el" p] unfolding mk_net_simps by simp
qed (use r in \<open>auto simp: election_run_def electorate_mk epochs_small_def voters_in_def mk_net_simps\<close>)

lemma demo_small: "e < - 1 \<Longrightarrow> epochs_small [(n, demo_msg ty i x m e)]" "e < - 1 \<Longrightarrow> epochs_small [(n, demo_msg ty i x m e), (n', demo_msg ty i x m e)]"
  by (auto simp: epochs_small_def demo_msg_fields)

lemma demo_votes: "votes_in [(n, demo_ack j e)] = [(j, e, n)]" "votes_in [(n, demo_req j e)] = []" "votes_in [] = []"
  by (simp_all add: votes_in_def vote_of_def demo_msg_fields)

definition rq :: "nat \<Rightarrow> 64 word \<Rightarrow> clusterMsg" where
  "rq i e = demo_req i e"

definition ak :: "nat \<Rightarrow> 64 word \<Rightarrow> clusterMsg" where
  "ak j e = demo_ack j e"

lemma run_schedule:
  assumes "election_run tm (mk_net l w ca co el)" "l i = dst i e lv f c s at td vt" "i = 4 \<or> i = 5" "4000 < t - at" "e < - 1"
  shows "election_run tm (mk_net (l(i := dst i e lv f 0 False (t + 500) (td - {TODO_HANDLE_FAILOVER}) vt)) w ca co el)"
  using run_failover [OF assms(1), of t i] demo_schedule [OF assms(3,4)] dst_settled [OF assms(5)] assms(2) by (simp add: epochs_small_def)

lemma run_start:
  assumes "election_run tm (mk_net l w ca co el)" "l i = dst i e lv f c False at td vt" "i = 4 \<or> i = 5" "at \<le> t" "t - at \<le> 2000" "e + 1 < - 1"
  shows "election_run tm (mk_net (l(i := dst i (e + 1) lv (e + 1) c True at (td - {TODO_HANDLE_FAILOVER} \<union> {TODO_SAVE_CONFIG, TODO_UPDATE_STATE, TODO_FSYNC_CONFIG}) vt))
     (w @ [(2, rq i (e + 1)), (3, rq i (e + 1))]) ca co el)"
  using run_failover [OF assms(1), of t i] demo_start [OF assms(3-5)] dst_settled [OF assms(6)] demo_small [OF assms(6)] assms(2) by (simp add: rq_def)

lemma run_vote:
  assumes "election_run tm (mk_net l ((i, rq n e') # w) ca co el)" "l i = dst i e lv f c s at td vt" "i = 2 \<or> i = 3" "n = 4 \<or> n = 5"
    "e \<le> e'" "lv \<noteq> e'" "2000 \<le> t - vt" "e' < - 1"
  shows "election_run tm (mk_net (l(i := dst i e' e' f c s at (td \<union> {TODO_SAVE_CONFIG, TODO_FSYNC_CONFIG}) t)) (w @ [(n, ak i e')])
     (ca \<union> {(i, e', n)}) co el)"
proof -
  have "election_run tm (mk_net (l(i := dst i e' e' f c s at (td \<union> {TODO_SAVE_CONFIG, TODO_FSYNC_CONFIG}) t)) (w @ [(n, ak i e')])
     (ca \<union> set (votes_in [(n, ak i e')])) (co \<union> set (votes_in [(i, rq n e')])) el)"
    unfolding rq_def ak_def by (rule run_deliver [OF assms(1) [unfolded rq_def ak_def], of t])
      (use demo_vote [OF assms(3-7)] dst_settled [OF assms(8)] demo_small [OF assms(8)] assms(2,3) in \<open>auto simp: demo_votes demo_msg_fields\<close>)
  then show ?thesis by (simp only: demo_votes [folded rq_def ak_def] list.set Un_empty_right append_Nil2)
qed

lemma run_count:
  assumes "election_run tm (mk_net l ((i, ak j e') # w) ca co el)" "l i = dst i e lv f c s at td vt" "i = 4 \<or> i = 5" "j = 2 \<or> j = 3"
    "e' \<le> e" "f \<le> e'" "tm \<longrightarrow> s" "e < - 1"
  shows "election_run tm (mk_net (l(i := dst i e lv f (c + 1) s at (td \<union> {TODO_HANDLE_FAILOVER}) vt)) w ca (co \<union> {(j, e', i)}) el)"
proof -
  have "election_run tm (mk_net (l(i := dst i e lv f (c + 1) s at (td \<union> {TODO_HANDLE_FAILOVER}) vt)) (w @ [])
     (ca \<union> set (votes_in [])) (co \<union> set (votes_in [(i, ak j e')])) el)"
    unfolding rq_def ak_def by (rule run_deliver [OF assms(1) [unfolded rq_def ak_def], of t])
      (use demo_count [OF assms(3-6)] dst_settled [OF assms(8)] assms(2,7) in \<open>auto simp: demo_votes dst_fields epochs_small_def\<close>)
  then show ?thesis by (simp only: demo_votes [folded rq_def ak_def] list.set Un_empty_right append_Nil2)
qed

text \<open>A winner announces itself with its current epoch.\<close>

lemma replace_epoch:
  assumes "clusterFailoverReplaceYourMaster env cs = Some (cs', out)" "(n, m) \<in> set out"
  shows "h_currentEpoch m = currentEpoch cs"
proof -
  have e: "currentEpoch a = currentEpoch b" if "election a = election b" for a b using that by (simp add: election_def)
  have p: "h_currentEpoch m = currentEpoch c" if "clusterBroadcastPong env c l = Some out" for c l
    using that assms(2) by (auto simp: clusterBroadcastPong_def bind_eq_Some_conv dest!: header_fields)
  show ?thesis using assms
    by (auto simp: clusterFailoverReplaceYourMaster_def bind_eq_Some_conv split: option.splits if_splits
        dest!: el_as_master el_claim el_update_state p e)
qed

lemma elected_epoch:
  assumes "clusterHandleSlaveFailover env cs = Some (cs', out, FO_elected)" "(n, m) \<in> set out"
  shows "h_currentEpoch m = currentEpoch cs"
proof -
  have e: "currentEpoch a = currentEpoch b" if "election a = election b" for a b using that by (simp add: election_def)
  obtain cs1 where "clusterFailoverReplaceYourMaster env cs1 = Some (cs', out)" "currentEpoch cs1 = currentEpoch cs"
    using assms(1) by (auto simp: clusterHandleSlaveFailover_def Let_def bind_eq_Some_conv continue_election_def clusterLogCantFailover_def take_over_def
        split: if_splits dest!: conjunct1 [OF el_rank] e)
  then show ?thesis using replace_epoch [OF _ assms(2)] by metis
qed

lemma run_win:
  assumes "election_run tm (mk_net l w ca co el)" "l i = dst i e lv f c True at td vt" "i = 4 \<or> i = 5" "at \<le> t" "t - at \<le> 2000" "2 \<le> c" "e < - 1"
  shows "\<exists>cs w'. election_run tm (mk_net (l(i := cs)) w' ca co (el \<union> {(i, f)}))"
proof -
  obtain cs out me where w: "clusterHandleSlaveFailover (demo_env t) (l i) = Some (cs, out, FO_elected)"
    "node cs i = Some me" "n_master me" "\<forall>n nd'. node cs n = Some nd' \<longrightarrow> (\<exists>nd. node (l i) n = Some nd \<and> n_handshake nd' = n_handshake nd)"
    using win_ok [OF dst_slots_wf demo_win [OF assms(3-6)], of e lv f td vt, folded assms(2)]
    by (simp only: assms(2) dst_fields) (elim exE conjE, rule that, simp_all only: assms(2) not_False_eq_True)
  have "election cs = election (l i)" using failover_ok [OF w(1)] by (simp add: failover_post_def)
  then have e: "currentEpoch cs = e" by (simp add: election_def assms(2) dst_fields)
  have "\<not> n_handshake nd" if "node (l i) n = Some nd" for n nd
    using dst_settled [OF assms(7), of i lv f c True at td vt] that unfolding assms(2) settled_def by blast
  then have "settled i cs" using w(2-4) e assms(7) unfolding settled_def by fastforce
  moreover have "epochs_small out" using elected_epoch [OF w(1)] assms(2,7) by (simp add: epochs_small_def dst_fields)
  ultimately show ?thesis using run_failover [OF assms(1) w(1)] assms(2) by (auto simp: dst_fields)
qed

lemma election_run_init:
  "election_run tm (mk_net (demo_loc (dst 2 3 0 0 0 False 0 {} 0) (dst 3 3 0 0 0 False 0 {} 0) (dst 4 3 0 0 0 False 0 {} 0) (dst 5 3 0 0 0 False 0 {} 0)) [] {} {} {})"
proof -
  have "demo_loc (dst 2 3 0 0 0 False 0 {} 0) (dst 3 3 0 0 0 False 0 {} 0) (dst 4 3 0 0 0 False 0 {} 0) (dst 5 3 0 0 0 False 0 {} 0) =
      (\<lambda>i. dst i 3 0 0 0 False 0 {} 0)" by (auto simp: demo_loc_def)
  then show ?thesis using election_run_start by (simp add: demo_net_def)
qed

lemma run_elected: "\<exists>cs w. election_run tm (mk_net (l cs) w ca co el) \<Longrightarrow> \<exists>g. election_run tm g \<and> elected g = el"
  by (auto simp: mk_net_simps)

lemma one_winner_run: "\<exists>g. election_run True g \<and> elected g = {(4, 4)}"
proof -
  note r1 = run_schedule [OF election_run_init demo_loc_app(3), unfolded demo_loc_upd, of 10000, simplified]
  note r2 = run_start [OF r1 demo_loc_app(3), unfolded demo_loc_upd, of 10500, simplified]
  note r3 = run_vote [OF r2 demo_loc_app(1), unfolded demo_loc_upd, of 10600, simplified]
  note r4 = run_vote [OF r3 demo_loc_app(2), unfolded demo_loc_upd, of 10600, simplified]
  note r5 = run_count [OF r4 demo_loc_app(3), unfolded demo_loc_upd, simplified]
  note r6 = run_count [OF r5 demo_loc_app(3), unfolded demo_loc_upd, simplified]
  note r7 = run_win [OF r6 demo_loc_app(3), of 10700, unfolded demo_loc_upd, simplified]
  show ?thesis by (rule run_elected [OF r7])
qed

text \<open>
  Both replicas run for epoch \<open>4\<close>; the votes go to \<open>4\<close>, but they are late: they arrive after \<open>4\<close> has set up its next election
  and are counted for it. Then both run for epoch \<open>5\<close>, and the votes go to \<open>5\<close>.
\<close>

lemma two_winners_run: "\<exists>g. election_run False g \<and> elected g = {(5, 5), (4, 5)}"
proof -
  note r1 = run_schedule [OF election_run_init [of False] demo_loc_app(3), unfolded demo_loc_upd, of 10000, simplified]
  note r2 = run_schedule [OF r1 demo_loc_app(4), unfolded demo_loc_upd, of 10000, simplified]
  note r3 = run_start [OF r2 demo_loc_app(3), unfolded demo_loc_upd, of 10500, simplified]
  note r4 = run_vote [OF r3 demo_loc_app(1), unfolded demo_loc_upd, of 10600, simplified]
  note r5 = run_vote [OF r4 demo_loc_app(2), unfolded demo_loc_upd, of 10600, simplified]
  note r6 = run_start [OF r5 demo_loc_app(4), unfolded demo_loc_upd, of 10700, simplified]
  note r7 = run_schedule [OF r6 demo_loc_app(3), unfolded demo_loc_upd, of 15000, simplified]
  note r8 = run_schedule [OF r7 demo_loc_app(4), unfolded demo_loc_upd, of 15000, simplified]
  note r9 = run_count [OF r8 demo_loc_app(3), unfolded demo_loc_upd, simplified]
  note r10 = run_count [OF r9 demo_loc_app(3), unfolded demo_loc_upd, simplified]
  note r11 = run_lose [OF run_lose [OF r10]]
  note r12 = run_start [OF r11 demo_loc_app(3), unfolded demo_loc_upd, of 15500, simplified]
  note r13 = run_lose [OF run_lose [OF r12]]
  note r14 = run_start [OF r13 demo_loc_app(4), unfolded demo_loc_upd, of 15600, simplified]
  note r15 = run_vote [OF r14 demo_loc_app(1), unfolded demo_loc_upd, of 15700, simplified]
  note r16 = run_vote [OF r15 demo_loc_app(2), unfolded demo_loc_upd, of 15700, simplified]
  note r17 = run_count [OF r16 demo_loc_app(4), unfolded demo_loc_upd, simplified]
  note r18 = run_count [OF r17 demo_loc_app(4), unfolded demo_loc_upd, simplified]
  note r19 = run_win [OF r18 demo_loc_app(3), of 15800, unfolded demo_loc_upd, simplified]
  show ?thesis using r19
  proof (elim exE)
    fix cs w
    assume r: "election_run False (mk_net (demo_loc (dst 2 5 5 0 0 False 0 {TODO_SAVE_CONFIG, TODO_FSYNC_CONFIG} 15700)
      (dst 3 5 5 0 0 False 0 {TODO_SAVE_CONFIG, TODO_FSYNC_CONFIG} 15700) cs
      (dst 5 5 0 5 2 True 15500 {TODO_HANDLE_FAILOVER, TODO_SAVE_CONFIG, TODO_UPDATE_STATE, TODO_FSYNC_CONFIG} 0)) w
      {(3, 5, 5), (2, 5, 5), (3, 4, 4), (2, 4, 4)} {(3, 5, 5), (2, 5, 5), (3, 4, 4), (2, 4, 4)} {(4, 5)})"
    show ?thesis by (rule run_elected [OF run_win [OF r demo_loc_app(4), of 15900, unfolded demo_loc_upd, simplified]])
  qed
qed

section \<open>The properties\<close>

lemma demo_vstart: "vstart demo_net"
  by (simp add: vstart_def demo_net_def mk_net_simps dst_fields)

lemma vrun_finite: "vrun tm E g g' \<Longrightarrow> g' = g \<or> (\<forall>e. finite (E e))"
  by (induction rule: vrun.induct) (auto simp: electorate_def)

text \<open>C3: at most one node is elected in an epoch. The nodes run the handlers of the code; packets may be delayed, reordered and
  lost; the masters that vote in an epoch are no more than the candidates of that epoch believe; and no vote
  reaches a candidate between the moment it sets up another election and the moment it starts it.\<close>

theorem one_winner_per_epoch:
  assumes "vstart g" "vrun True E g g'" "(c, e) \<in> elected g'" "(c', e) \<in> elected g'"
  shows "c = c'"
proof (cases "\<forall>e. finite (E e)")
  case True
  show ?thesis by (rule vinv_one_winner [OF vinv_run [OF assms(2) vinv_start [OF assms(1)]] True assms(3,4)])
next
  case False
  then have "g' = g" using vrun_finite [OF assms(2)] by blast
  then show ?thesis using assms(1,3) by (simp add: vstart_def)
qed

theorem one_winner_per_epoch_witness:
  "\<exists>g. vstart demo_net \<and> vrun True demo_E demo_net g \<and> (4, 4) \<in> elected g \<and> {c. (c, 4) \<in> elected g} = {4}"
proof -
  obtain g where g: "election_run True g" "elected g = {(4, 4)}" using one_winner_run by (elim exE conjE)
  then have r: "vrun True demo_E demo_net g" by (simp add: election_run_def)
  have w: "(4, 4) \<in> elected g" using g(2) by simp
  have "{c. (c, 4) \<in> elected g} \<subseteq> {4}" by (rule subsetI) (simp add: one_winner_per_epoch [OF demo_vstart r _ w])
  moreover have "{4} \<subseteq> {c. (c, 4) \<in> elected g}" using w by simp
  ultimately have "{c. (c, 4) \<in> elected g} = {4}" by (rule subset_antisym)
  then show ?thesis by (intro exI [of _ g] conjI demo_vstart r w)
qed

text \<open>C10: without the last proviso two nodes can be elected in the same epoch: \<^verbatim>\<open>clusterHandleSlaveFailover\<close> resets the number
  of votes when it sets up an election but not when it starts it, and the epoch of the election changes only at
  the start, so that late votes of the election before are counted for the next one.\<close>

theorem late_votes_elect_two:
  "\<exists>g. vstart demo_net \<and> vrun False demo_E demo_net g \<and> (4, 5) \<in> elected g \<and> (5, 5) \<in> elected g"
proof -
  obtain g where "election_run False g" "elected g = {(5, 5), (4, 5)}" using two_winners_run by (elim exE conjE)
  then show ?thesis by (intro exI [of _ g] conjI demo_vstart) (simp_all add: election_run_def)
qed

text \<open>C9: the takeover, and when it happens. On a node whose slot table and roles are consistent and that is either a master or a
  replica, \<^verbatim>\<open>clusterHandleSlaveFailover\<close> fails no assertion, keeps the slot table, the bitmaps and the counters in
  agreement, and ends in an election won exactly under \<^const>\<open>about_to_win\<close>: the node is a replica of a master with slots;
  a manual failover can start, or the master has failed, failovers are not disabled and the data is not too old; the
  votes were requested, their time has come and has not expired, and a majority has voted. Then exactly the
  slots of the master become its own, it is a master without a master, and its configuration epoch is the larger of its
  own and that of the election. In every other call all nodes and the slot table stay as they are.\<close>

theorem election_winner_takes_over:
  assumes "slots_wf cs" "roles_wf cs" "node cs (myself cs) = Some me" "n_slave me \<longleftrightarrow> \<not> n_master me"
  shows "\<exists>cs' out r. clusterHandleSlaveFailover env cs = Some (cs', out, r) \<and> slots_wf cs' \<and>
    (r = FO_elected \<longleftrightarrow> (\<exists>om. about_to_win env cs me om)) \<and>
    (if r = FO_elected
     then slots cs' = (\<lambda>j. if slots cs j = n_slaveof me \<and> slots cs j \<noteq> None then Some (myself cs) else slots cs j) \<and>
       (\<exists>me'. node cs' (myself cs) = Some me' \<and> n_master me' \<and> \<not> n_slave me' \<and> n_slaveof me' = None \<and>
          n_configEpoch me' = max (n_configEpoch me) (failover_auth_epoch cs))
     else slots cs' = slots cs \<and> node cs' = node cs)"
proof (cases "\<exists>om. about_to_win env cs me om")
  case True
  then obtain om where w: "about_to_win env cs me om" by (elim exE)
  then have om: "n_slaveof me = Some om" by (simp add: about_to_win_def)
  have sl: "(\<lambda>j. if slots cs j = n_slaveof me \<and> slots cs j \<noteq> None then Some (myself cs) else slots cs j) =
      (\<lambda>j. if slots cs j = Some om then Some (myself cs) else slots cs j)" using om by auto
  obtain cs' out me' where r: "clusterHandleSlaveFailover env cs = Some (cs', out, FO_elected)" "slots_wf cs'"
    "slots cs' = (\<lambda>j. if slots cs j = Some om then Some (myself cs) else slots cs j)"
    "node cs' (myself cs) = Some me'" "n_master me'" "\<not> n_slave me'" "n_slaveof me' = None"
    "n_configEpoch me' = max (n_configEpoch me) (failover_auth_epoch cs)"
    using win_ok [OF assms(1) w] by (elim exE conjE) (rule that)
  show ?thesis unfolding sl using r True by (intro exI [of _ cs'] exI [of _ out] exI [of _ FO_elected]) simp
next
  case False
  obtain cs' out r where r: "clusterHandleSlaveFailover env cs = Some (cs', out, r)" "r \<noteq> FO_elected" "same_view cs cs'"
    using not_won_ok [OF assms(2-4) False] by (elim exE conjE) (rule that)
  moreover have "slots_wf cs'" using slots_wf_view [of cs' cs] r(3) assms(1) by (simp add: same_view_def)
  ultimately show ?thesis using False by (auto simp: same_view_def)
qed

theorem election_winner_takes_over_witness:
  "(\<exists>cs' out. clusterHandleSlaveFailover (demo_env 10700) (dst 4 4 0 4 2 True 10500 {} 0) = Some (cs', out, FO_elected) \<and>
      slots cs' 0 = Some 4 \<and> slots cs' 1 = Some 2) \<and>
   (\<exists>cs' out r. clusterHandleSlaveFailover (demo_env 10700) (dst 4 4 0 4 1 True 10500 {} 0) = Some (cs', out, r) \<and>
      r \<noteq> FO_elected \<and> slots cs' 0 = Some 1)"
proof -
  let ?me = "(demo_node False 0)\<lparr>n_link := (4 < (4::nat))\<rparr>"
  have me: "node (dst 4 4 0 4 c True 10500 {} 0) (myself (dst 4 4 0 4 c True 10500 {} 0)) = Some ?me" for c
    by (simp add: dst_fields dst_node)
  have fl: "n_slave ?me \<longleftrightarrow> \<not> n_master ?me" by (simp add: demo_node_fields)
  have r: "roles_wf (dst 4 4 0 4 c True 10500 {} 0)" for c
    by (auto simp: roles_wf_def dst_fields dst_node demo_node_fields split: if_splits)
  have w: "about_to_win (demo_env 10700) (dst 4 4 0 4 2 True 10500 {} 0) ?me 1" by (rule demo_win) simp_all
  have l: "\<nexists>om. about_to_win (demo_env 10700) (dst 4 4 0 4 1 True 10500 {} 0) ?me om"
    by (simp add: about_to_win_def dst_def)
  have sm: "n_slaveof ?me = Some 1" by (simp add: demo_node_fields)
  obtain cs1 out1 where 1: "clusterHandleSlaveFailover (demo_env 10700) (dst 4 4 0 4 2 True 10500 {} 0) = Some (cs1, out1, FO_elected)"
    "slots cs1 = (\<lambda>j. if demo_slots j = Some 1 \<and> demo_slots j \<noteq> None then Some 4 else demo_slots j)"
    using election_winner_takes_over [OF dst_slots_wf r me fl, of "demo_env 10700" 2] w unfolding dst_fields sm by auto
  obtain cs2 out2 r2 where 2: "clusterHandleSlaveFailover (demo_env 10700) (dst 4 4 0 4 1 True 10500 {} 0) = Some (cs2, out2, r2)"
    "r2 \<noteq> FO_elected" "slots cs2 = demo_slots"
    using election_winner_takes_over [OF dst_slots_wf r me fl, of "demo_env 10700" 1] l unfolding dst_fields by auto
  show ?thesis using 1 2 by (simp add: demo_slots_def)
qed

text \<open>C8: receiving the configuration of a node trips no assertion, keeps the slot table, the bitmaps and the counters of
  the nodes in agreement, and gives the sender exactly those slots it claims that are not being imported
  and that are unassigned, no longer claimed by their owner, or owned under a smaller configuration epoch;
  every other slot keeps its owner.\<close>

theorem clusterUpdateSlotsConfigWith_correct:
  assumes "slots_wf cs" "roles_wf cs" "node cs sender \<noteq> None"
  shows "\<exists>cs' d. clusterUpdateSlotsConfigWith env cs sender e claimed = Some (cs', d) \<and> slots_wf cs' \<and>
    slots cs' = (\<lambda>j. if sender \<noteq> myself cs \<and> j < CLUSTER_SLOTS \<and> takes_over cs sender e claimed j then Some sender else slots cs j)"
  by (rule update_config_ok [OF assms])

theorem clusterUpdateSlotsConfigWith_correct_witness:
  "\<exists>cs' d. clusterUpdateSlotsConfigWith (demo_env 0) (dst 2 3 0 0 0 False 0 {} 0) 4 9 (bm 1) = Some (cs', d) \<and>
    slots cs' 0 = Some 4 \<and> slots cs' 1 = Some 2"
proof -
  let ?cs = "dst 2 3 0 0 0 False 0 {} 0"
  have r: "roles_wf ?cs" by (auto simp: roles_wf_def dst_fields dst_node demo_node_fields split: if_splits)
  have s: "node ?cs 4 \<noteq> None" by (simp add: dst_node)
  have t: "takes_over ?cs 4 9 (bm 1) 0" "\<not> takes_over ?cs 4 9 (bm 1) 1"
    by (simp_all add: takes_over_def bm_bit CLUSTER_SLOTS_def dst_fields dst_node demo_slots_def demo_node_fields bit_1_iff)
  obtain cs' d where "clusterUpdateSlotsConfigWith (demo_env 0) ?cs 4 9 (bm 1) = Some (cs', d)"
    "slots cs' = (\<lambda>j. if 4 \<noteq> myself ?cs \<and> j < CLUSTER_SLOTS \<and> takes_over ?cs 4 9 (bm 1) j then Some 4 else slots ?cs j)"
    using clusterUpdateSlotsConfigWith_correct [OF dst_slots_wf r s, of "demo_env 0" 9 "bm 1"] by (elim exE conjE) (rule that)
  then show ?thesis using t by (simp add: dst_fields CLUSTER_SLOTS_def demo_slots_def)
qed

end
