(* ===== verification/Spec2Isabelle.thy ===== *)
theory Spec2Isabelle
  imports Intset Listpack_Spec Dict_Spec Rdb Multi_Run Cluster_Election
begin

text \<open>
  A verification development of the Redis 7.2.3 server core. Source files are named relative to
  \<^verbatim>\<open>src/redis-cluster/redis/redis-7.2.3/src\<close>.

  \<^bold>\<open>The program.\<close> The server keeps databases of objects in hash tables (\<^verbatim>\<open>dict.c\<close>). Small sets of
  integers are integer sets (\<^verbatim>\<open>intset.c\<close>); small lists, hashes and sorted sets are listpacks
  (\<^verbatim>\<open>listpack.c\<close>). A string object (\<^verbatim>\<open>object.c\<close>) is a number or a byte string, converted by the
  routines of \<^verbatim>\<open>util.c\<close>. A dump (\<^verbatim>\<open>rdb.c\<close>) stores objects over the streams of \<^verbatim>\<open>rio.c\<close>, with
  strings compressed by LZF (\<^verbatim>\<open>lzf_c.c\<close>, \<^verbatim>\<open>lzf_d.c\<close>). Clients group commands into transactions
  with optimistic locks (\<^verbatim>\<open>multi.c\<close>). In cluster mode (\<^verbatim>\<open>cluster.c\<close>) keys are spread over 16384 slots by a
  checksum (\<^verbatim>\<open>crc16.c\<close>); nodes gossip about each other, and a replica is elected to replace a failed master.

  \<^bold>\<open>Conventions.\<close> A definition has the name of the C function it models; a loop or a part of a long function
  has a name of its own. Bytes are 8 bit words, buffers are lists of bytes, an offset is a natural number. Unsigned
  integers are words or naturals with the wrap-around written out, signed ones are integers with their bounds as
  hypotheses where they matter. A failed assertion, an access out of bounds or through a pointer to nothing is
  the outer \<^term>\<open>None\<close>; a null pointer that the C code returns is an inner \<^term>\<open>None\<close>. So a theorem that a
  call returns \<open>Some\<close> also says that no assertion fails. The machine is little endian and 64 bit.

  \<^bold>\<open>Theories.\<close>
  \<^item> \<^verbatim>\<open>Redis_Prelude\<close>: bytes, buffers, little-endian integers, lemmas on words, and the collections of
    rewrite rules that the components share.
  \<^item> \<^verbatim>\<open>Refine\<close>: the locale of a stateful component that may abort and refines an abstract one, with the
    refinement of all sequences of calls proved once. \<^verbatim>\<open>Cursor\<close>: the locale of a sequence walked by first, last,
    next and previous. Both are interpreted on the model: the first twice in \<^verbatim>\<open>Dict_Spec\<close>, the second in
    \<^verbatim>\<open>Listpack\<close>.
  \<^item> \<^verbatim>\<open>Intset\<close> (\<^verbatim>\<open>intset.c\<close>): all operations on the byte buffer. Adding and removing refine the operations on
    finite sets (the locale \<open>bounded_set\<close> and its interpretation), the deep validation accepts exactly the well-formed
    buffers, and the byte count of \<^verbatim>\<open>intsetMoveTail\<close> wraps for large sets.
  \<^item> \<^verbatim>\<open>Strnum\<close> (\<^verbatim>\<open>util.c\<close>): \<^verbatim>\<open>ll2string\<close> and \<^verbatim>\<open>string2ll\<close> are inverse to each other and exact.
  \<^item> \<^verbatim>\<open>Listpack_Enc\<close>, \<^verbatim>\<open>Listpack\<close>, \<^verbatim>\<open>Listpack_Ops\<close>, \<^verbatim>\<open>Listpack_Batch\<close>, \<^verbatim>\<open>Listpack_Valid\<close>,
    \<^verbatim>\<open>Listpack_Spec\<close> (\<^verbatim>\<open>listpack.c\<close>): encodings, traversal, insertion, deletion, merging, validation. A layout
    relation between buffers and lists of entries carries the proofs; the contract is in \<^verbatim>\<open>Listpack_Spec\<close>.
  \<^item> \<^verbatim>\<open>Dict\<close>, \<^verbatim>\<open>Dict_Inv\<close>, \<^verbatim>\<open>Dict_Rehash\<close>, \<^verbatim>\<open>Dict_Ops\<close>, \<^verbatim>\<open>Dict_Scan\<close>, \<^verbatim>\<open>Dict_Spec\<close>
    (\<^verbatim>\<open>dict.c\<close>): two tables of chains with incremental rehashing. Any sequence of calls answers as a finite map or a
    set would; a scan returns every key present throughout it, whatever resizing happens in between, and ends.
  \<^item> \<^verbatim>\<open>Lzf\<close> (\<^verbatim>\<open>lzf_c.c\<close>, \<^verbatim>\<open>lzf_d.c\<close>): decompression undoes compression for any content of the uninitialised
    hash table, and both stay within their buffers.
  \<^item> \<^verbatim>\<open>Object\<close> (\<^verbatim>\<open>object.c\<close>), \<^verbatim>\<open>Rio\<close> (\<^verbatim>\<open>rio.h\<close>, \<^verbatim>\<open>rio.c\<close>), \<^verbatim>\<open>Rdb\<close> (\<^verbatim>\<open>rdb.c\<close>): string objects keep
    their value through every encoding and every operation, which fail an assertion only in the cases named; a saved string is loaded back, and a truncated dump is an error.
  \<^item> \<^verbatim>\<open>Multi\<close>, \<^verbatim>\<open>Multi_Spec\<close>, \<^verbatim>\<open>Multi_Run\<close> (\<^verbatim>\<open>multi.c\<close>): the operations, the invariant that links the watched keys
    of clients and databases, and runs in which clients, other writers and the clock interleave. Optimistic locking is
    sound for keys that were not expired when they were watched; a counterexample shows that the proviso is needed.
  \<^item> \<^verbatim>\<open>Hashslot\<close> (\<^verbatim>\<open>crc16.c\<close>, \<^verbatim>\<open>keyHashSlot\<close>): the table is that of the generator polynomial, and the slot of
    a key depends on its hash tag alone if it has one.
  \<^item> \<^verbatim>\<open>Cluster\<close> (slots, roles, configuration updates) and \<^verbatim>\<open>Cluster_Failover\<close> (packets, failure reports, epochs,
    votes, elections, manual failover, \<^verbatim>\<open>clusterProcessPacket\<close>): the state of one node and its handlers, which return
    the new state and the packets they send. \<^verbatim>\<open>Cluster_Slots\<close>: the slot table, the bitmaps and the counters
    agree, and a configuration update rebinds exactly the right slots. \<^verbatim>\<open>Cluster_Takeover\<close>: exactly when a replica
    takes over its master, and that any other call leaves nodes and slots alone. \<^verbatim>\<open>Cluster_Vote\<close>: what each handler does to the fields of an election.
    \<^verbatim>\<open>Cluster_Run\<close>: a step relation on the nodes and the packets in flight, its invariant, and that two majorities of
    votes in an epoch are for the same node. \<^verbatim>\<open>Cluster_Demo\<close> and \<^verbatim>\<open>Cluster_Election\<close>: an example cluster, the
    properties, and a run in which late votes elect two nodes in one epoch.

  \<^bold>\<open>Bounds and termination.\<close> Loops are structural or have a termination proof. Three loops are partial functions into
  \<^typ>\<open>'a option\<close>, where not returning would be \<^term>\<open>None\<close>: the search of \<^verbatim>\<open>lpFind\<close>, the inner loop of \<^verbatim>\<open>dictScan\<close>
  and the timed loop of \<^verbatim>\<open>dictRehashMilliseconds\<close>; that they return is part of the theorems about them. There is no fuel.
  The listpack theorems hold up to the format's limit of \<^verbatim>\<open>UINT32_MAX\<close> bytes and say what happens beyond;
  integer sets are updated correctly while they have fewer than \<open>2 ^ 31 - 1\<close> members in less than \<open>2 ^ 32\<close> bytes, their
  validation is exact below \<open>2 ^ 31\<close> records; the comparison of strings is exact below 2 GiB and wrong
  beyond. Epochs are 64 bit words; the election theorem assumes that they do not reach the largest word.

  \<^bold>\<open>Parameters.\<close> Hash, comparison and destructor functions are fields of the dictionary type, with the laws the code
  relies on as hypotheses; so are the checksum of a stream, the effect of commands and the access check in
  transactions, the clock, random values, replication offsets and the configuration.

  \<^bold>\<open>Not modelled.\<close> Everything that is input and output or runs outside the process: sockets, the event loop, files,
  child processes, threads, replication, the append only file, sentinel, modules and the command line tools. Scripting, which
  is built on a vendored interpreter. Floating point code (scores, hyperloglog, geographic commands) and random sampling.
  Memory layout and allocation: strings are byte lists and allocation succeeds. The command implementations of the value
  types, which dispatch over the key space to the structures modelled here; quicklists, radix trees and the
  encodings of old dumps. In the cluster: handshakes, addresses, links, the choice of gossip entries, replica
  migration, \<^verbatim>\<open>nodes.conf\<close> and the \<^verbatim>\<open>CLUSTER\<close> command. The Java applications of the repository, which are services over
  the Spring framework, and the vendored dependencies.
\<close>

end
